(* ===== verification/Prelude.thy ===== *)
theory Prelude
  imports Main "HOL-Library.Word" "HOL-Library.Monad_Syntax" "HOL-Library.Char_ord"
begin

text \<open>
  What every component of the development shares: the collections the proofs draw on, C strings
  and the conversions of the C library the sources call, and the two interfaces (a first-in
  first-out buffer, a machine with an invariant) that several components implement.
\<close>

unbundle bit_operations_syntax

named_theorems frame \<comment> \<open>what an operation leaves alone\<close>
named_theorems spec_simps \<comment> \<open>equations that describe an operation by its abstract effect\<close>
named_theorems unfolds \<comment> \<open>small definitions that proofs open by default\<close>

section \<open>C strings\<close>

text \<open>
  A C string is the list of its bytes before the terminating NUL; a NULL pointer is
  \<open>None\<close> where the code tests for one. A raw buffer may hold NUL bytes.
\<close>

abbreviation (input) NUL :: char where "NUL \<equiv> CHR 0x00"
abbreviation (input) TAB :: char where "TAB \<equiv> CHR 0x09"
abbreviation (input) LF :: char where "LF \<equiv> CHR 0x0A"
abbreviation (input) CR :: char where "CR \<equiv> CHR 0x0D"
abbreviation (input) DQ :: char where "DQ \<equiv> CHR 0x22"
abbreviation (input) BSL :: char where "BSL \<equiv> CHR 0x5C"

definition ends_with_char :: "char \<Rightarrow> string \<Rightarrow> bool" where
  "ends_with_char c s \<longleftrightarrow> s \<noteq> [] \<and> last s = c"

definition has_prefix :: "string \<Rightarrow> string \<Rightarrow> bool" where
  \<comment> \<open>\<open>strncmp(s, p, strlen(p)) == 0\<close>\<close>
  "has_prefix p s \<longleftrightarrow> take (length p) s = p"

lemma has_prefix_iff: "has_prefix p s \<longleftrightarrow> (\<exists>t. s = p @ t)"
  unfolding has_prefix_def by (metis append_eq_conv_conj append_take_drop_id)

lemma has_prefix_append [simp]: "has_prefix p (p @ t)"
  by (simp add: has_prefix_def)

lemma has_prefix_Nil [simp]: "has_prefix [] s"
  by (simp add: has_prefix_def)

lemma has_prefix_take: "length p \<le> n \<Longrightarrow> has_prefix p (take n (p @ t))"
  by (simp add: has_prefix_def min_def)

lemma has_prefix_trans: "has_prefix p q \<Longrightarrow> has_prefix q s \<Longrightarrow> has_prefix p s"
  by (auto simp: has_prefix_iff)

definition c_isspace :: "char \<Rightarrow> bool" where
  \<comment> \<open>\<open>isspace\<close> in the C locale\<close>
  "c_isspace c \<longleftrightarrow> c = CHR '' '' \<or> (let n = (of_char c :: nat) in 9 \<le> n \<and> n \<le> 13)"

section \<open>strtol\<close>

text \<open>
  \<open>strtol(s, &end, base)\<close> on a 64-bit \<open>long\<close>: leading white space, a sign, the base's
  prefix when \<open>base\<close> is 0, then digits. The result is the value (saturated), whether
  \<open>errno\<close> became \<open>ERANGE\<close>, and the rest of the string at \<open>end\<close>; when there is no digit
  nothing is converted and \<open>end\<close> is the start of the string.
\<close>

definition digit_of :: "char \<Rightarrow> nat option" where
  "digit_of c = (let n = (of_char c :: nat) in
     if 48 \<le> n \<and> n \<le> 57 then Some (n - 48)
     else if 97 \<le> n \<and> n \<le> 122 then Some (n - 87)
     else if 65 \<le> n \<and> n \<le> 90 then Some (n - 55)
     else None)"

definition is_digit :: "nat \<Rightarrow> char \<Rightarrow> bool" where
  "is_digit b c \<longleftrightarrow> (case digit_of c of None \<Rightarrow> False | Some d \<Rightarrow> d < b)"

fun digits_value :: "nat \<Rightarrow> int \<Rightarrow> string \<Rightarrow> int" where
  "digits_value b acc [] = acc"
| "digits_value b acc (c # cs) =
     digits_value b (acc * int b + (case digit_of c of None \<Rightarrow> 0 | Some d \<Rightarrow> int d)) cs"

abbreviation (input) LONG_MAX :: int where "LONG_MAX \<equiv> 9223372036854775807"
abbreviation (input) LONG_MIN :: int where "LONG_MIN \<equiv> - 9223372036854775808"
abbreviation (input) INT_MAX :: int where "INT_MAX \<equiv> 2147483647"

record strtol_result =
  st_value :: int
  st_erange :: bool
  st_rest :: string

definition base_prefix :: "nat \<Rightarrow> string \<Rightarrow> nat \<times> string" where
  \<comment> \<open>the base in force and the string after its prefix\<close>
  "base_prefix b s =
     (if b \<noteq> 0 then (b, s)
      else if 3 \<le> length s \<and> s ! 0 = CHR ''0'' \<and> (s ! 1 = CHR ''x'' \<or> s ! 1 = CHR ''X'')
              \<and> is_digit 16 (s ! 2)
           then (16, drop 2 s)
      else if s \<noteq> [] \<and> s ! 0 = CHR ''0'' then (8, s)
      else (10, s))"

definition strtol :: "nat \<Rightarrow> string \<Rightarrow> strtol_result" where
  "strtol b s =
     (let s1 = dropWhile c_isspace s;
          neg = (s1 \<noteq> [] \<and> hd s1 = CHR ''-'');
          s2 = (if s1 \<noteq> [] \<and> (hd s1 = CHR ''-'' \<or> hd s1 = CHR ''+'') then tl s1 else s1);
          (b', s3) = base_prefix b s2;
          ds = takeWhile (is_digit b') s3;
          v = (if neg then - digits_value b' 0 ds else digits_value b' 0 ds)
      in if ds = [] then \<lparr>st_value = 0, st_erange = False, st_rest = s\<rparr>
         else if v > LONG_MAX then \<lparr>st_value = LONG_MAX, st_erange = True, st_rest = dropWhile (is_digit b') s3\<rparr>
         else if v < LONG_MIN then \<lparr>st_value = LONG_MIN, st_erange = True, st_rest = dropWhile (is_digit b') s3\<rparr>
         else \<lparr>st_value = v, st_erange = False, st_rest = dropWhile (is_digit b') s3\<rparr>)"

definition c_int :: "int \<Rightarrow> int" where
  \<comment> \<open>the conversion of a \<open>long\<close> to a 32-bit \<open>int\<close>\<close>
  "c_int n = signed_take_bit 31 n"

lemma strtol_range:
  "LONG_MIN \<le> st_value (strtol b s) \<and> st_value (strtol b s) \<le> LONG_MAX"
  by (simp add: strtol_def Let_def split: prod.split)

subsection \<open>Numbers in decimal\<close>

text \<open>\<open>%ld\<close> of a number that is not negative, which \<open>strtol\<close> reads back.\<close>

fun decimal :: "nat \<Rightarrow> string" where
  "decimal n = (if n < 10 then [char_of (48 + n)] else decimal (n div 10) @ [char_of (48 + n mod 10)])"

declare decimal.simps [simp del]

lemma digit_char: "(d::nat) < 10 \<Longrightarrow> digit_of (char_of (48 + d)) = Some d"
  by (simp add: digit_of_def Let_def)

lemma is_digit_char: "(d::nat) < 10 \<Longrightarrow> is_digit 10 (char_of (48 + d))"
  by (simp add: is_digit_def digit_char)

lemma digits_value_append: "digits_value b acc (s @ t) = digits_value b (digits_value b acc s) t"
  by (induction s arbitrary: acc) auto

lemma decimal_length: "n < 10 ^ k \<Longrightarrow> 0 < k \<Longrightarrow> length (decimal n) \<le> k"
proof (induction k arbitrary: n)
  case (Suc k)
  show ?case
  proof (cases "n < 10")
    case True
    then show ?thesis by (subst decimal.simps) simp
  next
    case False
    have "k > 0" using False Suc.prems by (cases k) auto
    moreover have "n div 10 < 10 ^ k" using Suc.prems by (simp add: less_mult_imp_div_less mult.commute)
    ultimately have "length (decimal (n div 10)) \<le> k" using Suc.IH by blast
    then show ?thesis using False by (subst decimal.simps) simp
  qed
qed simp

lemma decimal_digits: "list_all (is_digit 10) (decimal n)"
proof (induction n rule: decimal.induct)
  case (1 n)
  then show ?case by (subst decimal.simps) (simp add: is_digit_char)
qed

lemma decimal_value: "digits_value 10 0 (decimal n) = int n"
proof (induction n rule: decimal.induct)
  case (1 n)
  show ?case
  proof (cases "n < 10")
    case True
    then show ?thesis by (simp add: decimal.simps [of n] digit_char)
  next
    case False
    with 1 have "digits_value 10 0 (decimal (n div 10)) = int (n div 10)" by simp
    then show ?thesis using False
      by (simp add: decimal.simps [of n] digits_value_append digit_char zdiv_int zmod_int)
  qed
qed

lemma decimal_first: "0 < n \<Longrightarrow> \<exists>(d::nat) rest. decimal n = char_of (48 + d) # rest \<and> 0 < d \<and> d < 10"
proof (induction n rule: decimal.induct)
  case (1 n)
  show ?case
  proof (cases "n < 10")
    case True
    with 1 show ?thesis by (simp add: decimal.simps [of n] exI [of _ n])
  next
    case False
    then have "0 < n div 10" by simp
    with 1 False obtain d :: nat and rest where "decimal (n div 10) = char_of (48 + d) # rest" "0 < d" "d < 10" by blast
    with False show ?thesis by (simp add: decimal.simps [of n] exI [of _ d])
  qed
qed

lemma strtol_decimal:
  assumes "0 < n" "int n \<le> LONG_MAX"
  shows "strtol 0 (decimal n) = \<lparr>st_value = int n, st_erange = False, st_rest = []\<rparr>"
    and "strtol 10 (decimal n) = \<lparr>st_value = int n, st_erange = False, st_rest = []\<rparr>"
proof -
  obtain d :: nat and rest where d: "decimal n = char_of (48 + d) # rest" "0 < d" "d < 10"
    using decimal_first [OF assms(1)] by blast
  have v: "(of_char (char_of (48 + d)) :: nat) = 48 + d" using d by simp
  have c: "\<not> c_isspace (char_of (48 + d))" "char_of (48 + d) \<noteq> CHR ''-''"
    "char_of (48 + d) \<noteq> CHR ''+''" "char_of (48 + d) \<noteq> CHR ''0''"
  proof -
    have n: "char_of (48 + d) \<noteq> e" if "(of_char e :: nat) < 49" for e using v d(2) that by auto
    show "char_of (48 + d) \<noteq> CHR ''-''" "char_of (48 + d) \<noteq> CHR ''+''" "char_of (48 + d) \<noteq> CHR ''0''"
      by (rule n, simp)+
    show "\<not> c_isspace (char_of (48 + d))" using n [of "CHR '' ''"] v by (simp add: c_isspace_def Let_def)
  qed
  have all: "takeWhile (is_digit 10) (decimal n) = decimal n" "dropWhile (is_digit 10) (decimal n) = []"
    using decimal_digits [of n] by (auto simp: takeWhile_eq_all_conv dropWhile_eq_Nil_conv list_all_iff)
  have s: "dropWhile c_isspace (decimal n) = decimal n" "hd (decimal n) = char_of (48 + d)"
    "decimal n ! 0 = char_of (48 + d)" "decimal n \<noteq> []" using c(1) d(1) by auto
  have b: "base_prefix 0 (decimal n) = (10, decimal n)" "base_prefix 10 (decimal n) = (10, decimal n)"
    using c(4) s by (auto simp: base_prefix_def)
  show "strtol 0 (decimal n) = \<lparr>st_value = int n, st_erange = False, st_rest = []\<rparr>"
    "strtol 10 (decimal n) = \<lparr>st_value = int n, st_erange = False, st_rest = []\<rparr>"
    using assms c s by (simp_all add: strtol_def Let_def b all decimal_value)
qed

section \<open>Settings that a later one overrides\<close>

fun last_some :: "('a \<Rightarrow> 'b option) \<Rightarrow> 'a list \<Rightarrow> 'b option" where
  "last_some f [] = None"
| "last_some f (x # xs) = (case last_some f xs of Some y \<Rightarrow> Some y | None \<Rightarrow> f x)"

text \<open>A field that each step sets to the value it accepts, if it accepts one.\<close>

lemma fold_last_some:
  assumes "\<And>x s. get (step x s) = (case f x of Some v \<Rightarrow> v | None \<Rightarrow> get s)"
  shows "get (fold step xs s) = (case last_some f xs of Some v \<Rightarrow> v | None \<Rightarrow> get s)"
  by (induction xs arbitrary: s) (auto simp: assms split: option.split)

section \<open>Interfaces\<close>

text \<open>
  A machine with an invariant. A component gives its initial states, its operations as one step
  function over a type of commands, and the invariant; every run then keeps it.
\<close>

locale invariant_machine =
  fixes step :: "'c \<Rightarrow> 's \<Rightarrow> 's" and inv :: "'s \<Rightarrow> bool"
  assumes step_inv: "inv s \<Longrightarrow> inv (step c s)"
begin

lemma run_inv: "inv s \<Longrightarrow> inv (fold step cs s)"
  by (induction cs arbitrary: s) (auto simp: step_inv)

end

text \<open>
  A first-in first-out buffer: \<open>put\<close> may refuse, \<open>get\<close> hands out a first part of what is
  stored. Whatever is put and got, the output followed by the content is the content at the start
  followed by what was accepted.
\<close>

locale fifo =
  fixes put :: "'x list \<Rightarrow> 'q \<Rightarrow> bool \<times> 'q"
    and get :: "nat \<Rightarrow> 'q \<Rightarrow> 'x list \<times> 'q"
    and content :: "'q \<Rightarrow> 'x list"
    and ok :: "'q \<Rightarrow> bool"
  assumes put_content: "ok q \<Longrightarrow> put xs q = (b, q') \<Longrightarrow> content q' = (if b then content q @ xs else content q)"
    and put_ok: "ok q \<Longrightarrow> put xs q = (b, q') \<Longrightarrow> ok q'"
    and get_content: "ok q \<Longrightarrow> get n q = (ys, q') \<Longrightarrow> content q = ys @ content q'"
    and get_ok: "ok q \<Longrightarrow> get n q = (ys, q') \<Longrightarrow> ok q'"

text \<open>
  A history of a buffer: what is offered and how much is taken, with the input that was accepted and
  the output so far.
\<close>

datatype 'x traffic = Put "'x list" | Get nat

fun history ::
    "('x list \<Rightarrow> 'q \<Rightarrow> bool \<times> 'q) \<Rightarrow> (nat \<Rightarrow> 'q \<Rightarrow> 'x list \<times> 'q)
      \<Rightarrow> 'x traffic list \<Rightarrow> 'q \<Rightarrow> 'x list \<Rightarrow> 'x list \<Rightarrow> 'x list \<times> 'x list \<times> 'q" where
  "history put get [] q i out = (i, out, q)"
| "history put get (Put xs # ts) q i out =
     (case put xs q of (b, q') \<Rightarrow> history put get ts q' (if b then i @ xs else i) out)"
| "history put get (Get n # ts) q i out =
     (case get n q of (ys, q') \<Rightarrow> history put get ts q' i (out @ ys))"

context fifo begin

lemma history_conserves:
  assumes "ok q" "history put get ts q i out = (i', out', q')" "i = out @ content q"
  shows "i' = out' @ content q' \<and> ok q'"
  using assms
proof (induction ts arbitrary: q i out)
  case Nil
  then show ?case by auto
next
  case (Cons t ts)
  show ?case
  proof (cases t)
    case (Put xs)
    obtain b q1 where p: "put xs q = (b, q1)" by fastforce
    have "ok q1" by (rule put_ok [OF Cons.prems(1) p])
    moreover have "(if b then i @ xs else i) = out @ content q1"
      using Cons.prems(3) put_content [OF Cons.prems(1) p] by simp
    ultimately show ?thesis using Cons.IH Cons.prems(2) Put p by simp
  next
    case (Get n)
    obtain ys q1 where g: "get n q = (ys, q1)" by fastforce
    have "ok q1" by (rule get_ok [OF Cons.prems(1) g])
    moreover have "i = (out @ ys) @ content q1"
      using Cons.prems(3) get_content [OF Cons.prems(1) g] by simp
    ultimately show ?thesis using Cons.IH [of q1 i "out @ ys"] Cons.prems(2) Get g by simp
  qed
qed

lemma fifo_order:
  assumes "ok q" "content q = []" "history put get ts q [] [] = (i, out, q')"
  shows "i = out @ content q'"
  using history_conserves [OF assms(1,3)] assms(2) by simp

end

text \<open>
  A queue of single elements, described by what it represents. An element is put in with an answer
  of the environment (such as a new address), which may be an unusable one; then nothing changes.
\<close>

locale queue =
  fixes enq :: "'e \<Rightarrow> 'x \<Rightarrow> 'q \<Rightarrow> bool \<times> 'q"
    and deq :: "'q \<Rightarrow> 'x option \<times> 'q"
    and usable :: "'e \<Rightarrow> 'q \<Rightarrow> bool"
    and represents :: "'q \<Rightarrow> 'x list \<Rightarrow> bool"
  assumes enq_represents: "represents q xs \<Longrightarrow> usable e q \<Longrightarrow> enq e x q = (b, q')
      \<Longrightarrow> represents q' (if b then xs @ [x] else xs)"
    and deq_empty: "represents q [] \<Longrightarrow> deq q = (None, q)"
    and deq_first: "represents q (x # xs) \<Longrightarrow> \<exists>q'. deq q = (Some x, q') \<and> represents q' xs"

datatype ('e, 'x) queue_op = Enq 'e 'x | Deq

fun queue_run ::
    "('e \<Rightarrow> 'x \<Rightarrow> 'q \<Rightarrow> bool \<times> 'q) \<Rightarrow> ('q \<Rightarrow> 'x option \<times> 'q) \<Rightarrow> ('e \<Rightarrow> 'q \<Rightarrow> bool)
      \<Rightarrow> ('e, 'x) queue_op list \<Rightarrow> 'q \<Rightarrow> 'x list \<Rightarrow> 'x list \<Rightarrow> 'x list \<times> 'x list \<times> 'q" where
  \<comment> \<open>the elements that went in and the ones that came out; operations with an unusable answer are
      not part of a run\<close>
  "queue_run enq deq usable [] q i out = (i, out, q)"
| "queue_run enq deq usable (Enq e x # ops) q i out =
     (if usable e q
      then case enq e x q of (b, q') \<Rightarrow> queue_run enq deq usable ops q' (if b then i @ [x] else i) out
      else queue_run enq deq usable ops q i out)"
| "queue_run enq deq usable (Deq # ops) q i out =
     (case deq q of (r, q') \<Rightarrow>
        queue_run enq deq usable ops q' i (case r of Some x \<Rightarrow> out @ [x] | None \<Rightarrow> out))"

context queue begin

lemma run_order:
  assumes "represents q xs" "queue_run enq deq usable ops q i out = (i', out', q')" "i = out @ xs"
  shows "\<exists>ys. represents q' ys \<and> i' = out' @ ys"
  using assms
proof (induction ops arbitrary: q xs i out)
  case Nil
  then show ?case by auto
next
  case (Cons op ops)
  show ?case
  proof (cases op)
    case (Enq e x)
    obtain b q1 where e: "enq e x q = (b, q1)" by fastforce
    show ?thesis
    proof (cases "usable e q")
      case True
      have "represents q1 (if b then xs @ [x] else xs)"
        by (rule enq_represents [OF Cons.prems(1) True e])
      then show ?thesis using Cons.IH Cons.prems Enq e True by (simp split: if_splits)
    next
      case False
      then show ?thesis using Cons Enq by simp
    qed
  next
    case Deq
    show ?thesis
    proof (cases xs)
      case Nil
      then show ?thesis using Cons deq_empty [of q] Deq by simp
    next
      case (Cons y ys)
      then obtain q1 where "deq q = (Some y, q1)" "represents q1 ys"
        using deq_first "local.Cons.prems"(1) by blast
      then show ?thesis using "local.Cons.IH" [of q1 ys i "out @ [y]"] "local.Cons.prems" Cons Deq by simp
    qed
  qed
qed

end

end
