(* ===== verification/Module_Config.thy ===== *)
theory Module_Config
  imports Prelude
begin

text \<open>
  The configuration of the Apache module (mod_socket_handoff.c): the per-server record, its
  defaults, the merge of a virtual host with the main server, the five directives, and the
  deadline computed from a configuration.
\<close>

section \<open>The record, its defaults, the merge\<close>

record socket_handoff_config =
  enabled :: bool
  enabled_set :: bool
  allowed_socket_prefix :: "string option"
  resolved_prefix :: "string option"
  resolved_prefix_truename :: "string option"
  connect_timeout_ms :: int
  connect_timeout_ms_set :: bool
  send_timeout_ms :: int
  send_timeout_ms_set :: bool
  max_retries :: int
  max_retries_set :: bool

definition DEFAULT_MAX_RETRIES :: int where "DEFAULT_MAX_RETRIES = 2"
definition RETRY_BASE_DELAY_MS :: int where "RETRY_BASE_DELAY_MS = 10"

definition create_server_config :: socket_handoff_config where
  "create_server_config = \<lparr>
     enabled = True, enabled_set = False,
     allowed_socket_prefix = Some ''/run/'',
     resolved_prefix = None, resolved_prefix_truename = None,
     connect_timeout_ms = 100, connect_timeout_ms_set = False,
     send_timeout_ms = 200, send_timeout_ms_set = False,
     max_retries = DEFAULT_MAX_RETRIES, max_retries_set = False\<rparr>"

definition merge_server_config ::
    "socket_handoff_config \<Rightarrow> socket_handoff_config \<Rightarrow> socket_handoff_config" where
  "merge_server_config base add = \<lparr>
     enabled = (if enabled_set add then enabled add else enabled base),
     enabled_set = (enabled_set add \<or> enabled_set base),
     allowed_socket_prefix = (case allowed_socket_prefix add of
        Some p \<Rightarrow> Some p | None \<Rightarrow> allowed_socket_prefix base),
     resolved_prefix = None,
     resolved_prefix_truename = None,
     connect_timeout_ms =
       (if connect_timeout_ms_set add then connect_timeout_ms add else connect_timeout_ms base),
     connect_timeout_ms_set = (connect_timeout_ms_set add \<or> connect_timeout_ms_set base),
     send_timeout_ms =
       (if send_timeout_ms_set add then send_timeout_ms add else send_timeout_ms base),
     send_timeout_ms_set = (send_timeout_ms_set add \<or> send_timeout_ms_set base),
     max_retries = (if max_retries_set add then max_retries add else max_retries base),
     max_retries_set = (max_retries_set add \<or> max_retries_set base)\<rparr>"

section \<open>Directives\<close>

text \<open>A handler returns the message of an error, or nothing, and the configuration after it.\<close>

type_synonym handler_result = "string option \<times> socket_handoff_config"

definition MAX_CONNECT_TIMEOUT_MS :: int where "MAX_CONNECT_TIMEOUT_MS = 60000"
definition MAX_RETRIES_LIMIT :: int where "MAX_RETRIES_LIMIT = 10"

definition set_enabled :: "bool \<Rightarrow> socket_handoff_config \<Rightarrow> handler_result" where
  "set_enabled flag conf = (None, conf\<lparr>enabled := flag, enabled_set := True\<rparr>)"

definition set_allowed_prefix :: "string \<Rightarrow> socket_handoff_config \<Rightarrow> handler_result" where
  "set_allowed_prefix p conf = (None, conf\<lparr>allowed_socket_prefix := Some p\<rparr>)"

definition set_connect_timeout :: "string \<Rightarrow> socket_handoff_config \<Rightarrow> handler_result" where
  "set_connect_timeout arg conf =
     (let r = strtol 10 arg in
      if st_rest r = arg \<or> st_rest r \<noteq> []
      then (Some ''SocketHandoffConnectTimeoutMs must be a valid integer'', conf)
      else if st_erange r \<or> st_value r < 1 \<or> st_value r > MAX_CONNECT_TIMEOUT_MS
      then (Some ''SocketHandoffConnectTimeoutMs must be between 1 and 60000'', conf)
      else (None, conf\<lparr>connect_timeout_ms := st_value r, connect_timeout_ms_set := True\<rparr>))"

definition set_send_timeout :: "string \<Rightarrow> socket_handoff_config \<Rightarrow> handler_result" where
  "set_send_timeout arg conf =
     (let r = strtol 10 arg in
      if st_rest r = arg \<or> st_rest r \<noteq> []
      then (Some ''SocketHandoffSendTimeoutMs must be a valid integer'', conf)
      else if st_erange r \<or> st_value r < 1 \<or> st_value r > MAX_CONNECT_TIMEOUT_MS
      then (Some ''SocketHandoffSendTimeoutMs must be between 1 and 60000'', conf)
      else (None, conf\<lparr>send_timeout_ms := st_value r, send_timeout_ms_set := True\<rparr>))"

definition set_max_retries :: "string \<Rightarrow> socket_handoff_config \<Rightarrow> handler_result" where
  "set_max_retries arg conf =
     (let r = strtol 10 arg in
      if st_rest r = arg \<or> st_rest r \<noteq> []
      then (Some ''SocketHandoffMaxRetries must be a valid integer'', conf)
      else if st_erange r \<or> st_value r < 0 \<or> st_value r > MAX_RETRIES_LIMIT
      then (Some ''SocketHandoffMaxRetries must be between 0 and 10'', conf)
      else (None, conf\<lparr>max_retries := st_value r, max_retries_set := True\<rparr>))"

text \<open>The command table: the directive's name decides the handler.\<close>

datatype directive =
    SocketHandoffEnabled bool
  | SocketHandoffAllowedPrefix string
  | SocketHandoffConnectTimeoutMs string
  | SocketHandoffSendTimeoutMs string
  | SocketHandoffMaxRetries string

fun socket_handoff_cmds :: "directive \<Rightarrow> socket_handoff_config \<Rightarrow> handler_result" where
  "socket_handoff_cmds (SocketHandoffEnabled b) = set_enabled b"
| "socket_handoff_cmds (SocketHandoffAllowedPrefix p) = set_allowed_prefix p"
| "socket_handoff_cmds (SocketHandoffConnectTimeoutMs a) = set_connect_timeout a"
| "socket_handoff_cmds (SocketHandoffSendTimeoutMs a) = set_send_timeout a"
| "socket_handoff_cmds (SocketHandoffMaxRetries a) = set_max_retries a"

lemmas handler_defs = set_enabled_def set_allowed_prefix_def set_connect_timeout_def
  set_send_timeout_def set_max_retries_def

definition directive_step :: "directive \<Rightarrow> socket_handoff_config \<Rightarrow> socket_handoff_config" where
  "directive_step d conf = snd (socket_handoff_cmds d conf)"

text \<open>A server's own configuration: its directives in order, from the defaults.\<close>

definition server_config :: "directive list \<Rightarrow> socket_handoff_config" where
  "server_config ds = fold directive_step ds create_server_config"

text \<open>A virtual host's configuration, merged by the server with the main server's.\<close>

definition vhost_config :: "directive list \<Rightarrow> directive list \<Rightarrow> socket_handoff_config" where
  "vhost_config main vhost = merge_server_config (server_config main) (server_config vhost)"

section \<open>Bounds\<close>

definition conf_ok :: "socket_handoff_config \<Rightarrow> bool" where
  "conf_ok c \<longleftrightarrow>
     1 \<le> connect_timeout_ms c \<and> connect_timeout_ms c \<le> MAX_CONNECT_TIMEOUT_MS
     \<and> 1 \<le> send_timeout_ms c \<and> send_timeout_ms c \<le> MAX_CONNECT_TIMEOUT_MS
     \<and> 0 \<le> max_retries c \<and> max_retries c \<le> MAX_RETRIES_LIMIT
     \<and> allowed_socket_prefix c \<noteq> None"

lemma conf_ok_create: "conf_ok create_server_config"
  by (simp add: conf_ok_def create_server_config_def DEFAULT_MAX_RETRIES_def
      MAX_CONNECT_TIMEOUT_MS_def MAX_RETRIES_LIMIT_def)

lemma conf_ok_merge: "conf_ok base \<Longrightarrow> conf_ok add \<Longrightarrow> conf_ok (merge_server_config base add)"
  by (auto simp: conf_ok_def merge_server_config_def split: option.split)

lemma conf_ok_step: "conf_ok c \<Longrightarrow> conf_ok (directive_step d c)"
  by (cases d) (auto simp: directive_step_def handler_defs conf_ok_def Let_def)

interpretation directives: invariant_machine directive_step conf_ok
  by unfold_locales (rule conf_ok_step)

lemma conf_ok_server: "conf_ok (server_config ds)"
  unfolding server_config_def by (rule directives.run_inv [OF conf_ok_create])

section \<open>Which value is in force\<close>

text \<open>
  The connect timeout a list of directives asks for: the last accepted one. The abstract view of
  the pair of a value and its \<open>_set\<close> flag is an optional value.
\<close>

definition accepted_connect :: "directive \<Rightarrow> int option" where
  "accepted_connect d = (case d of
     SocketHandoffConnectTimeoutMs a \<Rightarrow>
       (let r = strtol 10 a in
        if a \<noteq> [] \<and> st_rest r = [] \<and> \<not> st_erange r \<and> 1 \<le> st_value r \<and> st_value r \<le> 60000
        then Some (st_value r) else None)
   | _ \<Rightarrow> None)"

definition own_connect :: "socket_handoff_config \<Rightarrow> int option" where
  "own_connect c = (if connect_timeout_ms_set c then Some (connect_timeout_ms c) else None)"

lemma strtol_rest_self: "st_rest (strtol b s) = [] \<Longrightarrow> s \<noteq> [] \<Longrightarrow> st_rest (strtol b s) \<noteq> s"
  by auto

lemma step_own_connect:
  "own_connect (directive_step d c) = (case accepted_connect d of Some v \<Rightarrow> Some v | None \<Rightarrow> own_connect c)"
  by (cases d)
    (auto simp: directive_step_def handler_defs own_connect_def accepted_connect_def Let_def
      MAX_CONNECT_TIMEOUT_MS_def)

lemma fold_own_connect:
  "own_connect (fold directive_step ds c) =
     (case last_some accepted_connect ds of Some v \<Rightarrow> Some v | None \<Rightarrow> own_connect c)"
  by (induction ds arbitrary: c) (auto simp: step_own_connect split: option.split)

lemma merge_connect:
  "connect_timeout_ms (merge_server_config base add) =
     (case own_connect add of Some v \<Rightarrow> v | None \<Rightarrow> connect_timeout_ms base)"
  by (simp add: merge_server_config_def own_connect_def)

lemma create_connect [simp]:
  "connect_timeout_ms create_server_config = 100" "own_connect create_server_config = None"
  by (simp_all add: create_server_config_def own_connect_def)

lemma fold_connect_value:
  "connect_timeout_ms (fold directive_step ds create_server_config) =
     (case last_some accepted_connect ds of Some v \<Rightarrow> v | None \<Rightarrow> 100)"
proof -
  have step: "connect_timeout_ms (directive_step d c) =
     (case accepted_connect d of Some v \<Rightarrow> v | None \<Rightarrow> connect_timeout_ms c)" for d c
    by (cases d)
      (auto simp: directive_step_def handler_defs accepted_connect_def Let_def MAX_CONNECT_TIMEOUT_MS_def)
  have "connect_timeout_ms (fold directive_step ds c) =
     (case last_some accepted_connect ds of Some v \<Rightarrow> v | None \<Rightarrow> connect_timeout_ms c)" for c
    by (induction ds arbitrary: c) (auto simp: step split: option.split)
  then show ?thesis by (simp cong: option.case_cong)
qed

text \<open>The same for the allowed prefix, which every directive sets.\<close>

definition accepted_prefix :: "directive \<Rightarrow> string option" where
  "accepted_prefix d = (case d of SocketHandoffAllowedPrefix p \<Rightarrow> Some p | _ \<Rightarrow> None)"

lemma fold_prefix_value:
  "allowed_socket_prefix (fold directive_step ds create_server_config) =
     Some (case last_some accepted_prefix ds of Some p \<Rightarrow> p | None \<Rightarrow> ''/run/'')"
proof -
  have step: "allowed_socket_prefix (directive_step d c) =
     (case accepted_prefix d of Some v \<Rightarrow> Some v | None \<Rightarrow> allowed_socket_prefix c)" for d c
    by (cases d) (auto simp: directive_step_def handler_defs accepted_prefix_def Let_def)
  have "allowed_socket_prefix (fold directive_step ds c) =
     (case last_some accepted_prefix ds of Some v \<Rightarrow> Some v | None \<Rightarrow> allowed_socket_prefix c)" for c
    by (induction ds arbitrary: c) (auto simp: step split: option.split)
  then show ?thesis by (simp add: create_server_config_def split: option.split)
qed

section \<open>Deadlines\<close>

text \<open>Times are \<open>apr_time_t\<close>: microseconds in a signed 64-bit integer.\<close>

definition remaining_timeout_ms :: "int \<Rightarrow> int \<Rightarrow> int" where
  \<comment> \<open>the clock reading is the first argument\<close>
  "remaining_timeout_ms now deadline =
     (if now \<ge> deadline then 0
      else let diff = deadline - now in
        if diff div 1000 > INT_MAX then INT_MAX else diff div 1000)"

definition handoff_total_ms :: "socket_handoff_config \<Rightarrow> int" where
  "handoff_total_ms conf =
     (let backoff_ms =
        (if max_retries conf > 0
         then let safe_retries = (if max_retries conf > 30 then 30 else max_retries conf)
              in RETRY_BASE_DELAY_MS * (2 ^ nat safe_retries - 1)
         else 0);
        total_ms = (max_retries conf + 1) * connect_timeout_ms conf + send_timeout_ms conf + backoff_ms;
        total_ms1 = (if total_ms < 1 then 1 else total_ms)
      in if total_ms1 > INT_MAX then INT_MAX else total_ms1)"

definition compute_handoff_deadline :: "int \<Rightarrow> socket_handoff_config \<Rightarrow> int" where
  "compute_handoff_deadline now conf = now + handoff_total_ms conf * 1000"

lemma remaining_nonneg [simp]: "0 \<le> remaining_timeout_ms now deadline"
  by (auto simp: remaining_timeout_ms_def Let_def)

lemma remaining_le: "now + 1000 * remaining_timeout_ms now deadline \<le> max now deadline"
  by (auto simp: remaining_timeout_ms_def Let_def)

lemma remaining_pos: "0 < remaining_timeout_ms now deadline \<Longrightarrow>
    now + 1000 * remaining_timeout_ms now deadline \<le> deadline"
  using remaining_le [of now deadline]
  by (auto simp: remaining_timeout_ms_def Let_def split: if_splits)

lemma remaining_int32: "remaining_timeout_ms now deadline \<le> INT_MAX"
  by (auto simp: remaining_timeout_ms_def Let_def)

text \<open>The delay slept after the given attempt, before it is cut to the time that is left.\<close>

definition backoff_delay :: "int \<Rightarrow> int" where
  "backoff_delay attempt =
     (let safe_attempt = (if attempt > 20 then 20 else attempt)
      in RETRY_BASE_DELAY_MS * 2 ^ nat safe_attempt)"

lemma backoff_nonneg [simp]: "0 \<le> backoff_delay k"
  by (simp add: backoff_delay_def RETRY_BASE_DELAY_MS_def Let_def)

lemma backoff_sum: "n \<le> 21 \<Longrightarrow> (\<Sum>k<n. backoff_delay (int k)) = RETRY_BASE_DELAY_MS * (2 ^ n - 1)"
proof (induction n)
  case 0
  show ?case by simp
next
  case (Suc n)
  then have "backoff_delay (int n) = RETRY_BASE_DELAY_MS * 2 ^ n"
    by (simp add: backoff_delay_def Let_def)
  with Suc show ?case by (simp add: algebra_simps)
qed

lemma conf_ok_retries:
  assumes "conf_ok c"
  shows "nat (max_retries c) \<le> 10" "max_retries c \<le> 10" "0 \<le> max_retries c"
  using assms by (auto simp: conf_ok_def MAX_RETRIES_LIMIT_def)

lemma handoff_total_exact:
  assumes "conf_ok c"
  shows "handoff_total_ms c = (max_retries c + 1) * connect_timeout_ms c + send_timeout_ms c
           + (\<Sum>k < nat (max_retries c). backoff_delay (int k))"
    and "handoff_total_ms c \<le> 730230" "2 \<le> handoff_total_ms c"
proof -
  let ?r = "max_retries c" and ?ct = "connect_timeout_ms c" and ?st = "send_timeout_ms c"
  let ?b = "RETRY_BASE_DELAY_MS * (2 ^ nat ?r - 1)"
  have b: "1 \<le> ?ct" "?ct \<le> 60000" "1 \<le> ?st" "?st \<le> 60000" "0 \<le> ?r" "?r \<le> 10"
    using assms by (auto simp: conf_ok_def MAX_CONNECT_TIMEOUT_MS_def MAX_RETRIES_LIMIT_def)
  have "(2::int) ^ nat ?r \<le> 2 ^ 10"
    using b by (intro power_increasing) auto
  then have bo: "?b \<le> 10230" "0 \<le> ?b" by (auto simp: RETRY_BASE_DELAY_MS_def)
  have "(?r + 1) * ?ct \<le> 11 * 60000" using b by (intro mult_mono) auto
  moreover have m: "1 * 1 \<le> (?r + 1) * ?ct" using b by (intro mult_mono) auto
  ultimately have t: "(?r + 1) * ?ct + ?st + ?b \<le> 730230" "2 \<le> (?r + 1) * ?ct + ?st + ?b"
    using b bo by linarith+
  have e: "handoff_total_ms c = (?r + 1) * ?ct + ?st + ?b"
    using b t by (auto simp: handoff_total_ms_def Let_def)
  show "handoff_total_ms c = (?r + 1) * ?ct + ?st + (\<Sum>k < nat ?r. backoff_delay (int k))"
    using e b by (subst backoff_sum) auto
  show "handoff_total_ms c \<le> 730230" "2 \<le> handoff_total_ms c" using e t by simp_all
qed

end
