(* ===== verification/Module_Path.thy ===== *)
theory Module_Path
  imports Module_Config
begin

text \<open>
  The security check of the Apache module (mod_socket_handoff.c): the allowed prefix, resolved
  once at startup by \<open>socket_handoff_post_config\<close> and used for every request by
  \<open>validate_socket_path\<close>.

  \<open>apr_filepath_merge(&new, NULL, path, flags, pool)\<close> is a function of the Apache runtime: it is
  the parameter \<open>fp\<close> here, from whether \<open>APR_FILEPATH_TRUENAME\<close> is set and the path to the
  resolved path (\<open>None\<close> when it fails). Its documentation says that a merge with
  \<open>APR_FILEPATH_NOTRELATIVE\<close> gives an absolute path, so never the empty string.
\<close>

section \<open>Operations\<close>

type_synonym filepath_merge = "bool \<Rightarrow> string \<Rightarrow> string option"

definition fp_absolute :: "filepath_merge \<Rightarrow> bool" where
  "fp_absolute fp \<longleftrightarrow> (\<forall>t p s. fp t p = Some s \<longrightarrow> s \<noteq> [])"

definition with_slash :: "string \<Rightarrow> string" where
  \<comment> \<open>at startup: \<open>len > 0 && resolved[len - 1] != '/'\<close>\<close>
  "with_slash s = (if s \<noteq> [] \<and> last s \<noteq> CHR ''/'' then s @ ''/'' else s)"

definition post_config_server :: "filepath_merge \<Rightarrow> socket_handoff_config \<Rightarrow> socket_handoff_config" where
  "post_config_server fp conf =
     (case allowed_socket_prefix conf of
        None \<Rightarrow> conf
      | Some p \<Rightarrow>
          let conf1 = (case fp False p of
                 Some r \<Rightarrow> conf\<lparr>resolved_prefix := Some (with_slash r)\<rparr>
               | None \<Rightarrow> conf);
              conf2 = (case fp True p of
                 Some r \<Rightarrow> conf1\<lparr>resolved_prefix_truename := Some (with_slash r)\<rparr>
               | None \<Rightarrow> conf1)
          in conf2)"

definition socket_handoff_post_config ::
    "filepath_merge \<Rightarrow> socket_handoff_config list \<Rightarrow> socket_handoff_config list" where
  "socket_handoff_post_config fp vhosts = map (post_config_server fp) vhosts"

text \<open>
  The prefix a request is compared with: the cached one, or the allowed prefix resolved now (the
  byte before the end decides whether a slash is added). \<open>None\<close> is the return of 0.
\<close>

definition prefix_for_request ::
    "filepath_merge \<Rightarrow> bool \<Rightarrow> string option \<Rightarrow> string \<Rightarrow> string option" where
  "prefix_for_request fp truename cached p =
     (case cached of
        Some c \<Rightarrow> Some c
      | None \<Rightarrow> (case fp truename p of
            None \<Rightarrow> None
          | Some r \<Rightarrow> Some (if ends_with_char (CHR ''/'') r then r else r @ ''/'')))"

definition validate_socket_path :: "filepath_merge \<Rightarrow> string \<Rightarrow> socket_handoff_config \<Rightarrow> bool" where
  "validate_socket_path fp socket_path conf =
     (case allowed_socket_prefix conf of
        None \<Rightarrow> True
      | Some p \<Rightarrow>
          if p = [] then True
          else case fp False socket_path of
            None \<Rightarrow> False
          | Some resolved_path \<Rightarrow>
              (case prefix_for_request fp False (resolved_prefix conf) p of
                 None \<Rightarrow> False
               | Some prefix_with_slash \<Rightarrow>
                   if \<not> has_prefix prefix_with_slash resolved_path then False
                   else case fp True socket_path of
                     None \<Rightarrow> True
                   | Some truename_path \<Rightarrow>
                       (case prefix_for_request fp True (resolved_prefix_truename conf) p of
                          None \<Rightarrow> False
                        | Some truename_prefix_with_slash \<Rightarrow>
                            has_prefix truename_prefix_with_slash truename_path)))"

section \<open>Paths as lists of components\<close>

text \<open>
  The abstract view of a path: the names between the slashes. A directory contains a path when
  its components are the first components of the path.
\<close>

fun split_slash :: "string \<Rightarrow> string \<Rightarrow> string list" where
  "split_slash acc [] = [rev acc]"
| "split_slash acc (c # cs) =
     (if c = CHR ''/'' then rev acc # split_slash [] cs else split_slash (c # acc) cs)"

definition components :: "string \<Rightarrow> string list" where
  "components s = filter (\<lambda>n. n \<noteq> []) (split_slash [] s)"

lemma split_slash_append:
  "split_slash acc (s @ CHR ''/'' # t) = split_slash acc s @ split_slash [] t"
  by (induction acc s rule: split_slash.induct) auto

lemma components_append_slash [simp]: "components (s @ ''/'' @ t) = components s @ components t"
  by (simp add: components_def split_slash_append)

lemma components_slash [simp]: "components ''/'' = []"
  by (simp add: components_def)

lemma components_slash_end [simp]: "components (s @ ''/'') = components s"
  using components_append_slash [of s "[]"] by (simp add: components_def)

lemma components_with_slash [simp]: "components (with_slash s) = components s"
  by (simp add: with_slash_def)

text \<open>A prefix that ends in a slash is a prefix of names, not only of characters.\<close>

lemma slash_prefix_components:
  assumes "has_prefix p s" "p \<noteq> []" "last p = CHR ''/''"
  shows "\<exists>rest. components s = components p @ rest"
proof -
  obtain t where t: "s = p @ t" using assms(1) by (auto simp: has_prefix_iff)
  have p: "p = butlast p @ ''/''" using assms(2,3) by (metis append_butlast_last_id)
  have "components s = components (butlast p @ ''/'' @ t)"
    using t p by (metis append.assoc)
  also have "\<dots> = components (butlast p) @ components t" by (rule components_append_slash)
  also have "components (butlast p) = components p"
    using components_slash_end [of "butlast p"] p by simp
  finally show ?thesis by blast
qed

section \<open>What the startup hook caches\<close>

text \<open>
  The file system at startup (\<open>fp0\<close>) need not be the one at the request (\<open>fp\<close>): symbolic links
  may have changed, the prefix may have been missing. \<open>prefix_in_force\<close> says what the prefix is
  resolved to: by the startup hook where that succeeded, by the request otherwise.
\<close>

definition prefix_in_force :: "filepath_merge \<Rightarrow> filepath_merge \<Rightarrow> bool \<Rightarrow> string \<Rightarrow> string option" where
  "prefix_in_force fp0 fp t p = (case fp0 t p of Some r \<Rightarrow> Some r | None \<Rightarrow> fp t p)"

definition uncached :: "socket_handoff_config \<Rightarrow> bool" where
  "uncached conf \<longleftrightarrow> resolved_prefix conf = None \<and> resolved_prefix_truename conf = None"

lemma uncached_create: "uncached create_server_config"
  by (simp add: uncached_def create_server_config_def)

lemma uncached_merge: "uncached (merge_server_config base add)"
  by (simp add: uncached_def merge_server_config_def)

lemma allowed_post_config [simp]:
  "allowed_socket_prefix (post_config_server fp conf) = allowed_socket_prefix conf"
  by (auto simp: post_config_server_def Let_def split: option.split)

lemma cached_post_config:
  assumes "uncached conf" "allowed_socket_prefix conf = Some p"
  shows "resolved_prefix (post_config_server fp0 conf) = map_option with_slash (fp0 False p)"
    and "resolved_prefix_truename (post_config_server fp0 conf) = map_option with_slash (fp0 True p)"
  using assms by (auto simp: post_config_server_def uncached_def Let_def split: option.split)

lemma with_slash_request:
  "r \<noteq> [] \<Longrightarrow> (if ends_with_char (CHR ''/'') r then r else r @ ''/'') = with_slash r"
  by (auto simp: ends_with_char_def with_slash_def)

lemma prefix_for_request_cached:
  assumes "fp_absolute fp"
  shows "prefix_for_request fp t (map_option with_slash (fp0 t p)) p
       = map_option with_slash (prefix_in_force fp0 fp t p)"
  using assms
  by (auto simp: prefix_for_request_def prefix_in_force_def fp_absolute_def with_slash_request
      split: option.split)

lemma prefix_for_request_uncached:
  assumes "fp_absolute fp"
  shows "prefix_for_request fp t None p = map_option with_slash (fp t p)"
  using assms
  by (auto simp: prefix_for_request_def fp_absolute_def with_slash_request split: option.split)

text \<open>The check after the startup hook, in terms of resolved paths alone.\<close>

lemma validate_after_post_config:
  assumes fp: "fp_absolute fp" and c: "uncached conf"
    and p: "allowed_socket_prefix conf = Some p" "p \<noteq> []"
  shows "validate_socket_path fp path (post_config_server fp0 conf) \<longleftrightarrow>
     (\<exists>rp pre. fp False path = Some rp \<and> prefix_in_force fp0 fp False p = Some pre
        \<and> has_prefix (with_slash pre) rp
        \<and> (\<forall>tp. fp True path = Some tp \<longrightarrow>
              (\<exists>tpre. prefix_in_force fp0 fp True p = Some tpre \<and> has_prefix (with_slash tpre) tp)))"
  using p
  by (auto simp: validate_socket_path_def cached_post_config [OF c p(1)]
      prefix_for_request_cached [OF fp] split: option.split)

lemma validate_uncached:
  assumes fp: "fp_absolute fp" and c: "uncached conf"
    and p: "allowed_socket_prefix conf = Some p" "p \<noteq> []"
  shows "validate_socket_path fp path conf \<longleftrightarrow>
     (\<exists>rp pre. fp False path = Some rp \<and> fp False p = Some pre \<and> has_prefix (with_slash pre) rp
        \<and> (\<forall>tp. fp True path = Some tp \<longrightarrow>
              (\<exists>tpre. fp True p = Some tpre \<and> has_prefix (with_slash tpre) tp)))"
  using p c
  by (auto simp: validate_socket_path_def uncached_def prefix_for_request_uncached [OF fp]
      split: option.split)

lemma prefix_in_force_same [simp]: "prefix_in_force fp fp t p = fp t p"
  by (simp add: prefix_in_force_def split: option.split)

lemma with_slash_last: "r \<noteq> [] \<Longrightarrow> with_slash r \<noteq> [] \<and> last (with_slash r) = CHR ''/''"
  by (auto simp: with_slash_def)

lemma in_force_nonempty:
  "fp_absolute fp0 \<Longrightarrow> fp_absolute fp \<Longrightarrow> prefix_in_force fp0 fp t p = Some r \<Longrightarrow> r \<noteq> []"
  by (auto simp: fp_absolute_def prefix_in_force_def split: option.splits)

lemma inside_directory:
  assumes "pre \<noteq> []" "has_prefix (with_slash pre) s"
  shows "\<exists>rest. components s = components pre @ rest"
  using slash_prefix_components [OF assms(2)] with_slash_last [OF assms(1)] by simp

end
