(* ===== verification/Kernel.thy ===== *)
theory Kernel
  imports Prelude
begin

text \<open>
  The operating system as the sources see it. Every system call takes the next answer of an
  arbitrary sequence of answers, so a theorem about all answers is a theorem about all behaviours
  of the kernel and of the peer. What the calls do to the process is written out: the table of
  open descriptors, the messages a peer has received, the time, the waits that were asked for.
\<close>

section \<open>Error numbers and poll flags (Linux)\<close>

abbreviation (input) EPERM :: int where "EPERM \<equiv> 1"
abbreviation (input) ENOENT :: int where "ENOENT \<equiv> 2"
abbreviation (input) EINTR :: int where "EINTR \<equiv> 4"
abbreviation (input) EAGAIN :: int where "EAGAIN \<equiv> 11"
abbreviation (input) EWOULDBLOCK :: int where "EWOULDBLOCK \<equiv> 11"
abbreviation (input) EACCES :: int where "EACCES \<equiv> 13"
abbreviation (input) EINVAL :: int where "EINVAL \<equiv> 22"
abbreviation (input) EPIPE :: int where "EPIPE \<equiv> 32"
abbreviation (input) ENAMETOOLONG :: int where "ENAMETOOLONG \<equiv> 36"
abbreviation (input) ETIME :: int where "ETIME \<equiv> 62"
abbreviation (input) EMSGSIZE :: int where "EMSGSIZE \<equiv> 90"
abbreviation (input) EPROTOTYPE :: int where "EPROTOTYPE \<equiv> 91"
abbreviation (input) ECONNRESET :: int where "ECONNRESET \<equiv> 104"
abbreviation (input) ETIMEDOUT :: int where "ETIMEDOUT \<equiv> 110"
abbreviation (input) ECONNREFUSED :: int where "ECONNREFUSED \<equiv> 111"
abbreviation (input) EINPROGRESS :: int where "EINPROGRESS \<equiv> 115"
abbreviation (input) ECANCELED :: int where "ECANCELED \<equiv> 125"

abbreviation (input) POLLIN :: int where "POLLIN \<equiv> 1"
abbreviation (input) POLLOUT :: int where "POLLOUT \<equiv> 4"
abbreviation (input) POLLERR :: int where "POLLERR \<equiv> 8"
abbreviation (input) POLLHUP :: int where "POLLHUP \<equiv> 16"
abbreviation (input) POLLNVAL :: int where "POLLNVAL \<equiv> 32"

section \<open>Answers and the state of the process\<close>

text \<open>
  An answer holds everything a call may need: its return value (negative for a failure), the
  \<open>errno\<close> of a failure, a value stored through a pointer (the \<open>revents\<close> of a poll, an option
  value), how many bytes of a message were left out, and the time that passes during the call in
  microseconds.
\<close>

datatype wait = PollWait int int | Sleep int int \<comment> \<open>clock when it began, milliseconds asked for\<close>

record answer =
  ret :: int
  err :: int
  aux :: int
  short :: nat
  dt :: int

record world =
  answers :: "nat \<Rightarrow> answer"
  calls :: nat
  clock :: int
  c_errno :: int
  open_fds :: "int list"
  sent_msgs :: "(int \<times> int \<times> string) list" \<comment> \<open>socket, passed descriptor, bytes\<close>
  waits :: "wait list"

definition kcall :: "world \<Rightarrow> answer \<times> world" where
  "kcall w = (let a = answers w (calls w)
              in (a, w\<lparr>calls := Suc (calls w), clock := clock w + dt a\<rparr>))"

text \<open>A new descriptor is the lowest one that is not open, as POSIX says.\<close>

definition lowest_free :: "int list \<Rightarrow> int" where
  "lowest_free xs = hd (filter (\<lambda>n. n \<notin> set xs) (map int [0..<Suc (length xs)]))"

lemma free_exists: "\<exists>n \<in> set (map int [0..<Suc (length xs)]). n \<notin> set xs"
proof (rule ccontr)
  assume "\<not> ?thesis"
  then have "set (map int [0..<Suc (length xs)]) \<subseteq> set xs" by blast
  then have "card (set (map int [0..<Suc (length xs)])) \<le> card (set xs)"
    by (simp add: card_mono)
  also have "card (set (map int [0..<Suc (length xs)])) = Suc (length xs)"
    by (simp only: set_map set_upt card_image [OF inj_on_of_nat] card_atLeastLessThan)
  finally show False using card_length [of xs] by simp
qed

lemma lowest_free_props: "lowest_free xs \<notin> set xs \<and> 0 \<le> lowest_free xs"
proof -
  let ?f = "filter (\<lambda>n. n \<notin> set xs) (map int [0..<Suc (length xs)])"
  have "?f \<noteq> []" using free_exists [of xs] by (simp add: filter_empty_conv)
  then have "hd ?f \<in> set ?f" by (rule hd_in_set)
  then show ?thesis unfolding lowest_free_def by auto
qed

lemma lowest_free_fresh [simp]: "lowest_free xs \<notin> set xs"
  and lowest_free_nonneg [simp]: "0 \<le> lowest_free xs"
  using lowest_free_props by auto

section \<open>System calls\<close>

definition sys_now :: "world \<Rightarrow> int \<times> world" where
  "sys_now w = (let (a, w1) = kcall w in (clock w1, w1))"

definition sys_socket :: "world \<Rightarrow> int \<times> world" where
  "sys_socket w = (let (a, w1) = kcall w in
     if ret a < 0 then (-1, w1\<lparr>c_errno := err a\<rparr>)
     else (lowest_free (open_fds w1), w1\<lparr>open_fds := lowest_free (open_fds w1) # open_fds w1\<rparr>))"

definition sys_close :: "int \<Rightarrow> world \<Rightarrow> world" where
  "sys_close fd w = w\<lparr>open_fds := removeAll fd (open_fds w)\<rparr>"

definition sys_simple :: "world \<Rightarrow> int \<times> world" where
  \<comment> \<open>a call that only answers: \<open>connect\<close>, \<open>fcntl\<close>\<close>
  "sys_simple w = (let (a, w1) = kcall w in
     if ret a < 0 then (-1, w1\<lparr>c_errno := err a\<rparr>) else (ret a, w1))"

definition sys_getsockopt :: "world \<Rightarrow> int \<times> int \<times> world" where
  "sys_getsockopt w = (let (a, w1) = kcall w in
     if ret a < 0 then (-1, 0, w1\<lparr>c_errno := err a\<rparr>) else (0, aux a, w1))"

definition sys_poll :: "int \<Rightarrow> world \<Rightarrow> int \<times> int \<times> world" where
  "sys_poll timeout_ms w = (let (a, w1) = kcall w; w2 = w1\<lparr>waits := waits w1 @ [PollWait (clock w) timeout_ms]\<rparr> in
     if ret a < 0 then (-1, 0, w2\<lparr>c_errno := err a\<rparr>) else (ret a, aux a, w2))"

definition sys_nanosleep :: "int \<Rightarrow> world \<Rightarrow> world" where
  "sys_nanosleep ms w = (let (a, w1) = kcall w in w1\<lparr>waits := waits w1 @ [Sleep (clock w) ms]\<rparr>)"

text \<open>
  A successful \<open>sendmsg\<close> has handed the descriptor and the bytes that were taken to the peer.
\<close>

definition sys_sendmsg :: "int \<Rightarrow> int \<Rightarrow> string \<Rightarrow> world \<Rightarrow> int \<times> world" where
  "sys_sendmsg sock fd bytes w = (let (a, w1) = kcall w in
     if ret a < 0 then (-1, w1\<lparr>c_errno := err a\<rparr>)
     else (let n = length bytes - short a
           in (int n, w1\<lparr>sent_msgs := sent_msgs w1 @ [(sock, fd, take n bytes)]\<rparr>)))"

lemmas sys_defs = sys_now_def sys_socket_def sys_close_def sys_simple_def sys_getsockopt_def
  sys_poll_def sys_nanosleep_def sys_sendmsg_def kcall_def

text \<open>
  What a computation that opens and closes nothing, and sends nothing, leaves alone.
\<close>

definition quiet :: "world \<Rightarrow> world \<Rightarrow> bool" where
  "quiet w w' \<longleftrightarrow> open_fds w' = open_fds w \<and> sent_msgs w' = sent_msgs w
     \<and> answers w' = answers w \<and> calls w \<le> calls w'"

lemma quiet_refl [simp, intro]: "quiet w w"
  by (simp add: quiet_def)

lemma quiet_trans [trans]: "quiet u v \<Longrightarrow> quiet v w \<Longrightarrow> quiet u w"
  by (auto simp: quiet_def)

lemma quiet_now [frame]: "sys_now w = (t, w') \<Longrightarrow> quiet w w'"
  by (auto simp: sys_now_def kcall_def Let_def quiet_def)

lemma quiet_simple [frame]: "sys_simple w = (r, w') \<Longrightarrow> quiet w w'"
  by (auto simp: sys_simple_def kcall_def Let_def quiet_def split: if_splits)

lemma quiet_getsockopt [frame]: "sys_getsockopt w = (r, v, w') \<Longrightarrow> quiet w w'"
  by (auto simp: sys_getsockopt_def kcall_def Let_def quiet_def split: if_splits)

lemma quiet_poll [frame]: "sys_poll t w = (r, v, w') \<Longrightarrow> quiet w w'"
  by (auto simp: sys_poll_def kcall_def Let_def quiet_def split: if_splits)

lemma quiet_nanosleep [frame]: "quiet w (sys_nanosleep ms w)"
  by (auto simp: sys_nanosleep_def kcall_def Let_def quiet_def)

lemma quiet_errno [simp]: "quiet w (w'\<lparr>c_errno := e\<rparr>) = quiet w w'"
  by (simp add: quiet_def)

section \<open>A poll that restarts after a signal\<close>

text \<open>
  \<open>do { r = poll(&pfd, 1, t); } while (r < 0 && errno == EINTR)\<close>. The loop has no bound: signals
  may interrupt it for ever, so it is a partial function, and \<open>None\<close> is not returning.
\<close>

partial_function (option) poll_eintr :: "int \<Rightarrow> world \<Rightarrow> ((int \<times> int) \<times> world) option" where
  "poll_eintr t w =
     (let (r, rev, w1) = sys_poll t w in
      if r < 0 \<and> c_errno w1 = EINTR then poll_eintr t w1 else Some ((r, rev), w1))"

declare poll_eintr.simps [code]

definition interrupted :: "answer \<Rightarrow> bool" where
  "interrupted a \<longleftrightarrow> ret a < 0 \<and> err a = EINTR"

definition signals_stop :: "world \<Rightarrow> bool" where
  \<comment> \<open>after any call there is a later one that a signal does not interrupt\<close>
  "signals_stop w \<longleftrightarrow> (\<forall>n. \<exists>k\<ge>n. \<not> interrupted (answers w k))"

lemma poll_eintr_quiet [frame]:
  assumes "poll_eintr t w = Some (x, w')"
  shows "quiet w w'"
proof (rule poll_eintr.raw_induct [where P = "\<lambda>t w y. quiet w (snd y)", OF _ assms, unfolded snd_conv])
  fix f t w y
  assume IH: "\<And>t w y. f t w = Some y \<Longrightarrow> quiet w (snd y)"
    and eq: "(let (r, rev, w1) = sys_poll t w in
      if r < 0 \<and> c_errno w1 = EINTR then f t w1 else Some ((r, rev), w1)) = Some y"
  obtain r rev w1 where p: "sys_poll t w = (r, rev, w1)" by (cases "sys_poll t w") auto
  from quiet_poll [OF p] have q: "quiet w w1" .
  show "quiet w (snd y)"
  proof (cases "r < 0 \<and> c_errno w1 = EINTR")
    case True
    with eq have "f t w1 = Some y" by (simp add: p)
    then show ?thesis by (rule quiet_trans [OF q IH])
  next
    case False
    with eq q show ?thesis by (auto simp: p)
  qed
qed

lemma poll_eintr_returns_aux:
  "\<not> interrupted (answers w k) \<Longrightarrow> calls w \<le> k \<Longrightarrow> \<exists>y. poll_eintr t w = Some y"
proof (induction "k - calls w" arbitrary: w)
  case 0
  then have k: "k = calls w" by simp
  with 0 show ?case
    by (subst poll_eintr.simps)
      (auto simp: sys_poll_def kcall_def Let_def interrupted_def)
next
  case (Suc n)
  obtain r rev w1 where p: "sys_poll t w = (r, rev, w1)" by (cases "sys_poll t w") auto
  from p have w1: "answers w1 = answers w" "calls w1 = Suc (calls w)"
    by (auto simp: sys_poll_def kcall_def Let_def split: if_splits)
  have "\<exists>y. poll_eintr t w1 = Some y"
    using Suc w1 by (intro Suc.hyps(1)) auto
  then show ?case by (subst poll_eintr.simps) (auto simp: p)
qed

lemma poll_eintr_returns: "signals_stop w \<Longrightarrow> \<exists>y. poll_eintr t w = Some y"
  using poll_eintr_returns_aux unfolding signals_stop_def by blast

lemma signals_stop_quiet: "quiet w w' \<Longrightarrow> signals_stop w' = signals_stop w"
  by (simp add: quiet_def signals_stop_def)

end
