(* ===== verification/Module_Transport.thy ===== *)
theory Module_Transport
  imports Kernel Module_Config
begin

text \<open>
  How the Apache module reaches the daemon (mod_socket_handoff.c): connecting with retries, and
  sending the client's descriptor with \<open>SCM_RIGHTS\<close>. Each operation maps the process state to its
  result and the state after it; \<open>None\<close> is not returning (a poll interrupted for ever). Logging is
  left out.
\<close>

section \<open>Operations\<close>

definition remaining_now :: "int \<Rightarrow> world \<Rightarrow> int \<times> world" where
  "remaining_now deadline w = (let (now, w1) = sys_now w in (remaining_timeout_ms now deadline, w1))"

definition poll_failed :: "int \<Rightarrow> bool" where
  "poll_failed revents \<longleftrightarrow> revents AND (POLLERR OR POLLHUP OR POLLNVAL) \<noteq> 0"

definition wait_for_write :: "int \<Rightarrow> world \<Rightarrow> (int \<times> world) option" where
  "wait_for_write timeout_ms w = do {
     ((r, revents), w1) \<leftarrow> poll_eintr timeout_ms w;
     if r = 0 then Some (0, w1\<lparr>c_errno := ETIMEDOUT\<rparr>)
     else if r < 0 then Some (-1, w1)
     else if poll_failed revents then Some (-1, w1\<lparr>c_errno := EPIPE\<rparr>)
     else Some (1, w1) }"

text \<open>
  The bytes of the message: the data, or one NUL when there is none.
\<close>

definition handoff_payload :: "string option \<Rightarrow> string" where
  "handoff_payload data = (case data of Some d \<Rightarrow> if d \<noteq> [] then d else [NUL] | None \<Rightarrow> [NUL])"

definition data_length :: "string option \<Rightarrow> nat" where
  "data_length data = (case data of Some d \<Rightarrow> length d | None \<Rightarrow> 0)"

text \<open>The result is the return value and \<open>*fd_was_sent\<close>.\<close>

definition send_fd_with_data ::
    "int \<Rightarrow> int \<Rightarrow> string option \<Rightarrow> int \<Rightarrow> int \<Rightarrow> world \<Rightarrow> ((int \<times> bool) \<times> world) option" where
  "send_fd_with_data unix_sock fd_to_send data timeout_ms deadline w =
     (let (remaining_ms, w1) = remaining_now deadline w in
      if remaining_ms \<le> 0 then Some ((-1, False), w1\<lparr>c_errno := ETIMEDOUT\<rparr>)
      else do {
        (ready, w2) \<leftarrow> wait_for_write (if remaining_ms < timeout_ms then remaining_ms else timeout_ms) w1;
        if ready \<le> 0 then Some ((-1, False), w2)
        else
          let (sent, w3) = sys_sendmsg unix_sock fd_to_send (handoff_payload data) w2 in
          if sent < 0 then
            Some ((-1, False), if c_errno w3 = EAGAIN \<or> c_errno w3 = EWOULDBLOCK
                               then w3\<lparr>c_errno := ETIMEDOUT\<rparr> else w3)
          else if data_length data > 0 \<and> sent < int (data_length data) then
            Some ((-1, False), w3\<lparr>c_errno := EMSGSIZE\<rparr>)
          else Some ((0, True), w3) })"

text \<open>
  \<open>connect_to_socket\<close> in its parts: the socket (with the fallback for kernels without
  \<open>SOCK_NONBLOCK\<close>), the flags of the fallback, the wait for a connection in progress. A result is
  the socket or -1, and \<open>*returned_errno\<close>.
\<close>

definition open_daemon_socket :: "world \<Rightarrow> int \<times> bool \<times> world" where
  "open_daemon_socket w =
     (let (sock, w1) = sys_socket w in
      if sock \<ge> 0 then (sock, True, w1)
      else if c_errno w1 = EINVAL then let (sock2, w2) = sys_socket w1 in (sock2, False, w2)
      else (sock, False, w1))"

definition set_nonblock_cloexec :: "int \<Rightarrow> world \<Rightarrow> int option \<times> world" where
  "set_nonblock_cloexec sock w =
     (let (flags, w1) = sys_simple w in
      if flags < 0 then (Some (c_errno w1), sys_close sock w1)
      else let (r, w2) = sys_simple w1 in
        if r < 0 then (Some (c_errno w2), sys_close sock w2)
        else let (_, w3) = sys_simple w2 in (None, w3))"

definition await_connect :: "int \<Rightarrow> int \<Rightarrow> world \<Rightarrow> ((int \<times> int) \<times> world) option" where
  "await_connect sock connect_timeout w = do {
     ((poll_ret, revents), w1) \<leftarrow> poll_eintr connect_timeout w;
     if poll_ret = 0 then Some ((-1, ETIMEDOUT), sys_close sock w1)
     else if poll_ret < 0 then Some ((-1, c_errno w1), sys_close sock w1)
     else if poll_failed revents then
       let (g, so_error, w2) = sys_getsockopt w1 in
       Some ((-1, if g = 0 \<and> so_error \<noteq> 0 then so_error else ECONNREFUSED), sys_close sock w2)
     else
       let (g, so_error, w2) = sys_getsockopt w1 in
       if g < 0 then Some ((-1, c_errno w2), sys_close sock w2)
       else if so_error \<noteq> 0 then Some ((-1, so_error), sys_close sock w2)
       else Some ((sock, 0), w2) }"

definition sun_path_size :: nat where "sun_path_size = 108"

definition connect_to_socket :: "string \<Rightarrow> int \<Rightarrow> world \<Rightarrow> ((int \<times> int) \<times> world) option" where
  "connect_to_socket socket_path connect_timeout w =
     (let (sock, sock_nonblock, w1) = open_daemon_socket w in
      if sock < 0 then Some ((-1, c_errno w1), w1)
      else if length socket_path \<ge> sun_path_size then Some ((-1, ENAMETOOLONG), sys_close sock w1)
      else
        let (e, w2) = (if sock_nonblock then (None, w1) else set_nonblock_cloexec sock w1) in
        (case e of
           Some e' \<Rightarrow> Some ((-1, e'), w2)
         | None \<Rightarrow>
             let (r, w3) = sys_simple w2 in
             if r < 0 then
               (if c_errno w3 \<noteq> EINPROGRESS then Some ((-1, c_errno w3), sys_close sock w3)
                else await_connect sock connect_timeout w3)
             else Some ((sock, 0), w3)))"

definition is_transient_error :: "int \<Rightarrow> bool" where
  "is_transient_error e \<longleftrightarrow> e = ENOENT \<or> e = ECONNREFUSED"

text \<open>
  The body of the retry loop: it leaves the loop with a socket or -1, or (\<open>None\<close>) goes on with
  the next attempt after the back-off.
\<close>

definition connect_attempt ::
    "string \<Rightarrow> int \<Rightarrow> int \<Rightarrow> int \<Rightarrow> int \<Rightarrow> world \<Rightarrow> (int option \<times> world) option" where
  "connect_attempt path connect_timeout retries deadline attempt w =
     (let (remaining_ms, w1) = remaining_now deadline w in
      if remaining_ms \<le> 0 then Some (Some (-1), w1\<lparr>c_errno := ETIMEDOUT\<rparr>)
      else do {
        ((sock, e), w2) \<leftarrow> connect_to_socket path
           (if remaining_ms < connect_timeout then remaining_ms else connect_timeout) w1;
        if sock \<ge> 0 then Some (Some sock, w2)
        else if attempt \<ge> retries \<or> \<not> is_transient_error e then Some (Some (-1), w2)
        else
          let delay_ms = backoff_delay attempt; (backoff_remaining, w3) = remaining_now deadline w2 in
          if backoff_remaining \<le> 0 then Some (Some (-1), w3\<lparr>c_errno := ETIMEDOUT\<rparr>)
          else Some (None,
            sys_nanosleep (if delay_ms > backoff_remaining then backoff_remaining else delay_ms) w3) })"

function connect_attempts ::
    "string \<Rightarrow> int \<Rightarrow> int \<Rightarrow> int \<Rightarrow> int \<Rightarrow> world \<Rightarrow> (int \<times> world) option" where
  "connect_attempts path connect_timeout retries deadline attempt w =
     (if attempt > retries then Some (-1, w)
      else case connect_attempt path connect_timeout retries deadline attempt w of
        None \<Rightarrow> None
      | Some (Some sock, w1) \<Rightarrow> Some (sock, w1)
      | Some (None, w1) \<Rightarrow> connect_attempts path connect_timeout retries deadline (attempt + 1) w1)"
  by pat_completeness auto
termination
  by (relation "measure (\<lambda>(_, _, retries, _, attempt, _). nat (retries + 1 - attempt))") auto

declare connect_attempts.simps [simp del]

definition connect_with_retry ::
    "string \<Rightarrow> int \<Rightarrow> int \<Rightarrow> int \<Rightarrow> world \<Rightarrow> (int \<times> world) option" where
  "connect_with_retry path connect_timeout retries deadline w =
     connect_attempts path connect_timeout retries deadline 0 w"

section \<open>Descriptors and messages\<close>

text \<open>
  What a connecting operation guarantees: a new descriptor, or none; nothing sent; the kernel's
  future answers are the same.
\<close>

definition same_peer :: "world \<Rightarrow> world \<Rightarrow> bool" where
  "same_peer w w' \<longleftrightarrow> sent_msgs w' = sent_msgs w \<and> answers w' = answers w"

definition opens :: "world \<Rightarrow> int \<Rightarrow> world \<Rightarrow> bool" where
  "opens w s w' \<longleftrightarrow> same_peer w w' \<and>
     (if 0 \<le> s then open_fds w' = s # open_fds w \<and> s \<notin> set (open_fds w)
      else s = -1 \<and> open_fds w' = open_fds w)"

lemma same_peer_refl [simp]: "same_peer w w"
  by (simp add: same_peer_def)

lemma quiet_same_peer: "quiet w w' \<Longrightarrow> same_peer w w' \<and> open_fds w' = open_fds w"
  by (simp add: quiet_def same_peer_def)

lemma opens_quiet_left: "quiet w v \<Longrightarrow> opens v s w' \<Longrightarrow> opens w s w'"
  by (auto simp: opens_def quiet_def same_peer_def split: if_splits)

lemma opens_none: "quiet w w' \<Longrightarrow> opens w (-1) w'"
  by (simp add: opens_def quiet_def same_peer_def)

lemma remaining_now_quiet [frame]: "remaining_now d w = (r, w') \<Longrightarrow> quiet w w'"
  by (auto simp: remaining_now_def split: prod.splits dest: quiet_now)

lemma sys_socket_opens: "sys_socket w = (s, w') \<Longrightarrow> opens w s w'"
  by (auto simp: sys_socket_def kcall_def Let_def opens_def same_peer_def split: if_splits)

lemma opens_errno [simp]: "opens w s (w'\<lparr>c_errno := e\<rparr>) = opens w s w'"
  by (simp add: opens_def same_peer_def)

lemma opens_quiet_right: "opens w s v \<Longrightarrow> quiet v w' \<Longrightarrow> opens w s w'"
  by (auto simp: opens_def quiet_def same_peer_def split: if_splits)

lemma opens_close: "opens w s v \<Longrightarrow> 0 \<le> s \<Longrightarrow> opens w (-1) (sys_close s v)"
  by (simp add: opens_def sys_close_def same_peer_def)

lemma open_daemon_socket_opens: "open_daemon_socket w = (s, b, w') \<Longrightarrow> opens w s w'"
proof -
  assume a: "open_daemon_socket w = (s, b, w')"
  obtain s1 w1 where 1: "sys_socket w = (s1, w1)" by fastforce
  obtain s2 w2 where 2: "sys_socket w1 = (s2, w2)" by fastforce
  note o1 = sys_socket_opens [OF 1] and o2 = sys_socket_opens [OF 2]
  have "s1 < 0 \<Longrightarrow> opens w s2 w2"
    using o1 o2 by (auto simp: opens_def same_peer_def split: if_splits)
  with a 1 2 o1 show ?thesis by (auto simp: open_daemon_socket_def split: if_splits)
qed

text \<open>What happens to an open socket afterwards: it stays open, or it is closed and -1 returned.\<close>

lemma set_nonblock_opens:
  assumes "opens w s v" "0 \<le> s" "set_nonblock_cloexec s v = (e, w')"
  shows "opens w (if e = None then s else -1) w'"
proof -
  obtain f w1 where 1: "sys_simple v = (f, w1)" by fastforce
  obtain r w2 where 2: "sys_simple w1 = (r, w2)" by fastforce
  obtain q w3 where 3: "sys_simple w2 = (q, w3)" by fastforce
  have "opens w s w1" using assms(1) quiet_simple [OF 1] by (rule opens_quiet_right)
  moreover from this have "opens w s w2" using quiet_simple [OF 2] by (rule opens_quiet_right)
  moreover from this have "opens w s w3" using quiet_simple [OF 3] by (rule opens_quiet_right)
  ultimately show ?thesis
    using assms(2,3) by (auto simp: set_nonblock_cloexec_def 1 2 3 opens_close split: if_splits)
qed

lemma await_connect_opens:
  assumes "opens w s v" "0 \<le> s" "await_connect s t v = Some ((s', e), w')"
  shows "opens w s' w'"
proof -
  obtain r rev w1 where p: "poll_eintr t v = Some ((r, rev), w1)"
    using assms(3) by (auto simp: await_connect_def bind_eq_Some_conv)
  obtain g so w2 where g: "sys_getsockopt w1 = (g, so, w2)" by (cases "sys_getsockopt w1") auto
  have o1: "opens w s w1" using assms(1) poll_eintr_quiet [OF p] by (rule opens_quiet_right)
  then have o2: "opens w s w2" using quiet_getsockopt [OF g] by (rule opens_quiet_right)
  show ?thesis
    using assms(2,3) o1 o2 by (auto simp: await_connect_def p g opens_close split: if_splits)
qed

lemma connect_to_socket_opens:
  assumes "connect_to_socket path t w = Some ((s', e'), w')"
  shows "opens w s' w'"
proof -
  obtain s b w1 where 1: "open_daemon_socket w = (s, b, w1)" by (cases "open_daemon_socket w") auto
  obtain e w2 where 2: "(if b then (None, w1) else set_nonblock_cloexec s w1) = (e, w2)" by fastforce
  obtain r w3 where 3: "sys_simple w2 = (r, w3)" by fastforce
  note o1 = open_daemon_socket_opens [OF 1]
  show ?thesis
  proof (cases "s < 0 \<or> length path \<ge> sun_path_size")
    case True
    then show ?thesis
      using assms o1 opens_close [OF o1]
      by (auto simp: connect_to_socket_def 1 opens_def split: if_splits)
  next
    case False
    have o2: "opens w (if e = None then s else -1) w2"
      using 2 o1 set_nonblock_opens [OF o1, of e w2] False by (auto split: if_splits)
    show ?thesis
    proof (cases e)
      case (Some e1)
      with assms 2 False o2 show ?thesis by (auto simp: connect_to_socket_def 1 split: if_splits)
    next
      case None
      with o2 have "opens w s w3" using opens_quiet_right quiet_simple [OF 3] by fastforce
      with None assms 2 False show ?thesis
        by (auto simp: connect_to_socket_def 1 3 opens_close split: if_splits
            dest: await_connect_opens [rotated 2])
    qed
  qed
qed

lemma opens_trans: "opens w (-1) v \<Longrightarrow> opens v s w' \<Longrightarrow> opens w s w'"
  by (auto simp: opens_def same_peer_def split: if_splits)

lemma connect_attempt_opens:
  assumes "connect_attempt path t n d k w = Some (r, w')"
  shows "opens w (case r of Some s \<Rightarrow> s | None \<Rightarrow> -1) w'"
proof -
  obtain m w1 where m: "remaining_now d w = (m, w1)" by fastforce
  note q1 = remaining_now_quiet [OF m]
  show ?thesis
  proof (cases "m \<le> 0")
    case True
    with assms m q1 show ?thesis by (auto simp: connect_attempt_def opens_none)
  next
    case False
    let ?t = "if m < t then m else t"
    obtain s e w2 where c: "connect_to_socket path ?t w1 = Some ((s, e), w2)"
      using assms False m by (auto simp: connect_attempt_def bind_eq_Some_conv)
    have o2: "opens w s w2" by (rule opens_quiet_left [OF q1 connect_to_socket_opens [OF c]])
    obtain b w3 where b: "remaining_now d w2 = (b, w3)" by fastforce
    have o3: "opens w s w3" by (rule opens_quiet_right [OF o2 remaining_now_quiet [OF b]])
    have o4: "opens w s (sys_nanosleep x w3)" for x
      by (rule opens_quiet_right [OF o3 quiet_nanosleep])
    have neg: "s = -1" if "\<not> 0 \<le> s" using o2 that by (simp add: opens_def)
    show ?thesis
      using assms False o2 o3 o4 neg by (auto simp: connect_attempt_def m c b Let_def split: if_splits)
  qed
qed

text \<open>One unfolding of the loop, as an elimination rule.\<close>

lemma connect_attempts_step:
  assumes "connect_attempts path t n d k w = Some (s, w')" "k \<le> n"
  obtains (leave) "connect_attempt path t n d k w = Some (Some s, w')"
  | (again) w1 where "connect_attempt path t n d k w = Some (None, w1)"
      "connect_attempts path t n d (k + 1) w1 = Some (s, w')"
  using assms by (subst (asm) connect_attempts.simps) (auto split: option.splits)

lemma connect_attempts_opens:
  "connect_attempts path t n d k w = Some (s, w') \<Longrightarrow> opens w s w'"
proof (induction path t n d k w rule: connect_attempts.induct)
  case (1 path t n d k w)
  show ?case
  proof (cases "k > n")
    case True
    with "1.prems" show ?thesis by (auto simp: connect_attempts.simps [of path t n d k w] opens_none)
  next
    case False
    then have "k \<le> n" by simp
    with "1.prems" show ?thesis
    proof (cases rule: connect_attempts_step)
      case leave
      then show ?thesis by (auto dest: connect_attempt_opens)
    next
      case (again w1)
      then show ?thesis
        using connect_attempt_opens [OF again(1)] "1.IH" [OF False again(1) refl refl] opens_trans by auto
    qed
  qed
qed

section \<open>Waiting\<close>

text \<open>
  \<open>waited P w w'\<close>: the waits asked for between two states all satisfy \<open>P\<close>. Connecting to the socket
  only polls, with its own timeout.
\<close>

definition waited :: "(wait \<Rightarrow> bool) \<Rightarrow> world \<Rightarrow> world \<Rightarrow> bool" where
  "waited P w w' \<longleftrightarrow> (\<exists>xs. waits w' = waits w @ xs \<and> list_all P xs)"

definition poll_of :: "int \<Rightarrow> wait \<Rightarrow> bool" where
  "poll_of t x \<longleftrightarrow> (case x of PollWait _ ms \<Rightarrow> ms = t | Sleep _ _ \<Rightarrow> False)"

lemma waited_refl [simp]: "waits w' = waits w \<Longrightarrow> waited P w w'"
  by (simp add: waited_def)

lemma waited_trans [trans]: "waited P u v \<Longrightarrow> waited P v w \<Longrightarrow> waited P u w"
  by (auto simp: waited_def)

lemma waited_errno [simp]: "waited P w (w'\<lparr>c_errno := e\<rparr>) = waited P w w'"
  by (simp add: waited_def)

lemma waited_close [simp]: "waited P w (sys_close fd w') = waited P w w'"
  by (simp add: waited_def sys_close_def)

lemma waits_now: "sys_now w = (t, w') \<Longrightarrow> waits w' = waits w"
  by (auto simp: sys_now_def kcall_def Let_def)

lemma waits_remaining: "remaining_now d w = (t, w') \<Longrightarrow> waits w' = waits w"
  by (auto simp: remaining_now_def split: prod.splits dest: waits_now)

lemma waits_simple: "sys_simple w = (t, w') \<Longrightarrow> waits w' = waits w"
  by (auto simp: sys_simple_def kcall_def Let_def split: if_splits)

lemma waits_getsockopt: "sys_getsockopt w = (t, v, w') \<Longrightarrow> waits w' = waits w"
  by (auto simp: sys_getsockopt_def kcall_def Let_def split: if_splits)

lemma waits_socket: "sys_socket w = (t, w') \<Longrightarrow> waits w' = waits w"
  by (auto simp: sys_socket_def kcall_def Let_def split: if_splits)

lemma waits_sendmsg: "sys_sendmsg s f b w = (t, w') \<Longrightarrow> waits w' = waits w"
  by (auto simp: sys_sendmsg_def kcall_def Let_def split: if_splits)

lemma waits_open: "open_daemon_socket w = (s, b, w') \<Longrightarrow> waits w' = waits w"
  by (auto simp: open_daemon_socket_def split: prod.splits if_splits dest!: waits_socket)

lemma waits_nonblock: "set_nonblock_cloexec s w = (e, w') \<Longrightarrow> waits w' = waits w"
  by (auto simp: set_nonblock_cloexec_def sys_close_def split: prod.splits if_splits dest!: waits_simple)

lemma sys_poll_waited: "sys_poll t w = (r, v, w') \<Longrightarrow> waited (poll_of t) w w'"
  by (auto simp: sys_poll_def kcall_def Let_def waited_def poll_of_def split: if_splits)

lemma poll_eintr_waited:
  assumes "poll_eintr t w = Some (x, w')"
  shows "waited (poll_of t) w w'"
proof (rule poll_eintr.raw_induct
    [where P = "\<lambda>t w y. waited (poll_of t) w (snd y)", OF _ assms, unfolded snd_conv])
  fix f t w y
  assume IH: "\<And>t w y. f t w = Some y \<Longrightarrow> waited (poll_of t) w (snd y)"
    and eq: "(let (r, rev, w1) = sys_poll t w in
      if r < 0 \<and> c_errno w1 = EINTR then f t w1 else Some ((r, rev), w1)) = Some y"
  obtain r rev w1 where p: "sys_poll t w = (r, rev, w1)" by (cases "sys_poll t w") auto
  note q = sys_poll_waited [OF p]
  show "waited (poll_of t) w (snd y)"
  proof (cases "r < 0 \<and> c_errno w1 = EINTR")
    case True
    with eq have "f t w1 = Some y" by (simp add: p)
    then show ?thesis by (rule waited_trans [OF q IH])
  next
    case False
    with eq q show ?thesis by (auto simp: p)
  qed
qed

lemma await_connect_waited:
  assumes "await_connect s t w = Some (x, w')"
  shows "waited (poll_of t) w w'"
proof -
  obtain r rev w1 where p: "poll_eintr t w = Some ((r, rev), w1)"
    using assms by (auto simp: await_connect_def bind_eq_Some_conv)
  obtain g so w2 where g: "sys_getsockopt w1 = (g, so, w2)" by (cases "sys_getsockopt w1") auto
  have q: "waited (poll_of t) w w1" by (rule poll_eintr_waited [OF p])
  then have "waited (poll_of t) w w2" using waits_getsockopt [OF g] by (simp add: waited_def)
  with q assms show ?thesis by (auto simp: await_connect_def p g split: if_splits)
qed

lemma connect_to_socket_waited:
  assumes "connect_to_socket path t w = Some (x, w')"
  shows "waited (poll_of t) w w'"
proof -
  obtain s b w1 where 1: "open_daemon_socket w = (s, b, w1)" by (cases "open_daemon_socket w") auto
  obtain e w2 where 2: "(if b then (None, w1) else set_nonblock_cloexec s w1) = (e, w2)" by fastforce
  obtain r w3 where 3: "sys_simple w2 = (r, w3)" by fastforce
  have w1: "waits w1 = waits w" by (rule waits_open [OF 1])
  have w2: "waits w2 = waits w" using 2 w1 waits_nonblock by (auto split: if_splits)
  have w3: "waits w3 = waits w" using waits_simple [OF 3] w2 by simp
  have aw: "await_connect s t w3 = Some (x, w') \<Longrightarrow> waited (poll_of t) w w'"
    using await_connect_waited w3 by (fastforce simp: waited_def)
  show ?thesis
    using assms 2 w1 w2 w3 aw
    by (auto simp: connect_to_socket_def 1 3 split: if_splits option.splits)
qed

text \<open>The milliseconds slept (not polled) between two states.\<close>

fun sleep_ms :: "wait \<Rightarrow> int" where
  "sleep_ms (PollWait _ _) = 0"
| "sleep_ms (Sleep _ ms) = ms"

definition slept :: "world \<Rightarrow> int" where
  "slept w = sum_list (map sleep_ms (waits w))"

definition poll_within :: "int \<Rightarrow> wait \<Rightarrow> bool" where
  "poll_within t x \<longleftrightarrow> (case x of PollWait _ ms \<Rightarrow> ms \<le> t | Sleep _ _ \<Rightarrow> True)"

lemma waited_mono: "waited P w w' \<Longrightarrow> (\<And>x. P x \<Longrightarrow> Q x) \<Longrightarrow> waited Q w w'"
  by (auto simp: waited_def list_all_iff)

lemma waited_poll_slept: "waited (poll_of t) w w' \<Longrightarrow> slept w' = slept w"
proof -
  have "list_all (poll_of t) xs \<Longrightarrow> sum_list (map sleep_ms xs) = 0" for xs
    by (induction xs) (auto simp: poll_of_def split: wait.splits)
  then show "waited (poll_of t) w w' \<Longrightarrow> slept w' = slept w" by (auto simp: waited_def slept_def)
qed

lemma slept_waits: "waits w' = waits w \<Longrightarrow> slept w' = slept w"
  by (simp add: slept_def)

lemma nanosleep_slept: "slept (sys_nanosleep ms w) = slept w + ms"
  by (simp add: sys_nanosleep_def kcall_def Let_def slept_def)

lemma nanosleep_waited: "waited (poll_within t) w (sys_nanosleep ms w)"
  by (simp add: sys_nanosleep_def kcall_def Let_def waited_def poll_within_def)

lemma connect_attempt_waits:
  assumes "connect_attempt path t n d k w = Some (r, w')"
  shows "waited (poll_within t) w w'"
    and "slept w \<le> slept w'"
    and "slept w' \<le> slept w + (if r = None then backoff_delay k else 0)"
    and "r = None \<Longrightarrow> k < n"
proof -
  obtain m w1 where m: "remaining_now d w = (m, w1)" by fastforce
  note e1 = waits_remaining [OF m]
  have "waited (poll_within t) w w' \<and> slept w \<le> slept w'
      \<and> slept w' \<le> slept w + (if r = None then backoff_delay k else 0) \<and> (r = None \<longrightarrow> k < n)"
  proof (cases "m \<le> 0")
    case True
    with assms m e1 show ?thesis by (auto simp: connect_attempt_def slept_def)
  next
    case False
    let ?t = "if m < t then m else t"
    obtain s e w2 where c: "connect_to_socket path ?t w1 = Some ((s, e), w2)"
      using assms False m by (auto simp: connect_attempt_def bind_eq_Some_conv)
    note p2 = connect_to_socket_waited [OF c]
    have "waited (poll_of ?t) w w2" using p2 e1 by (simp add: waited_def)
    then have w2: "waited (poll_within t) w w2"
      by (rule waited_mono) (auto simp: poll_of_def poll_within_def split: wait.splits if_splits)
    have s2: "slept w2 = slept w" using waited_poll_slept [OF p2] e1 by (simp add: slept_def)
    obtain b w3 where b: "remaining_now d w2 = (b, w3)" by fastforce
    note e3 = waits_remaining [OF b]
    have w3: "waited (poll_within t) w w3" using w2 e3 by (simp add: waited_def)
    have s3: "slept w3 = slept w" using s2 slept_waits [OF e3] by simp
    have w4: "waited (poll_within t) w (sys_nanosleep x w3)" for x
      using w3 nanosleep_waited by (rule waited_trans)
    show ?thesis
      using assms False w2 w3 w4 s2 s3
      by (auto simp: connect_attempt_def m c b Let_def nanosleep_slept slept_def [of "_\<lparr>c_errno := _\<rparr>"]
          slept_def [symmetric] split: if_splits)
  qed
  then show "waited (poll_within t) w w'" "slept w \<le> slept w'"
    "slept w' \<le> slept w + (if r = None then backoff_delay k else 0)" "r = None \<Longrightarrow> k < n"
    by auto
qed

lemma connect_attempts_waits:
  assumes "connect_attempts path t (int n) d (int k) w = Some (s, w')" "k \<le> n"
  shows "waited (poll_within t) w w' \<and> slept w \<le> slept w'
      \<and> slept w' \<le> slept w + (\<Sum>j=k..<n. backoff_delay (int j))"
  using assms
proof (induction "n - k" arbitrary: k w)
  case (0 k w)
  then have kn: "int k \<le> int n" by simp
  from "0.prems"(1) kn show ?case
  proof (cases rule: connect_attempts_step)
    case leave
    with 0 show ?thesis using connect_attempt_waits [OF leave] by (simp add: sum_nonneg)
  next
    case (again w1)
    with 0 show ?thesis using connect_attempt_waits(4) [OF again(1)] by simp
  qed
next
  case (Suc x k w)
  then have kn: "int k \<le> int n" by simp
  from "Suc.prems"(1) kn show ?case
  proof (cases rule: connect_attempts_step)
    case leave
    have "0 \<le> (\<Sum>j=k..<n. backoff_delay (int j))" by (intro sum_nonneg) simp
    then show ?thesis using connect_attempt_waits [OF leave] by simp
  next
    case (again w1)
    note at = connect_attempt_waits [OF again(1)]
    then have kn: "k < n" by simp
    have "connect_attempts path t (int n) d (int (Suc k)) w1 = Some (s, w')"
      using again(2) by (simp add: add.commute)
    then have ih: "waited (poll_within t) w1 w' \<and> slept w1 \<le> slept w'
      \<and> slept w' \<le> slept w1 + (\<Sum>j=Suc k..<n. backoff_delay (int j))"
      using Suc kn by (intro Suc.hyps(1)) auto
    have sm: "(\<Sum>j=k..<n. backoff_delay (int j))
        = backoff_delay (int k) + (\<Sum>j=Suc k..<n. backoff_delay (int j))"
      using kn by (simp add: sum.atLeast_Suc_lessThan)
    have "waited (poll_within t) w w'" using at(1) ih by (blast intro: waited_trans)
    then show ?thesis using at(2,3) ih sm by simp
  qed
qed

section \<open>Sending the descriptor\<close>

text \<open>
  A \<open>SOCK_SEQPACKET\<close> socket takes a message whole or not at all (unix(7)): no message is cut short.
\<close>

definition atomic_sends :: "world \<Rightarrow> bool" where
  "atomic_sends w \<longleftrightarrow> (\<forall>n. short (answers w n) = 0)"

lemma atomic_same_peer: "answers w' = answers w \<Longrightarrow> atomic_sends w' = atomic_sends w"
  by (simp add: atomic_sends_def)

lemma wait_for_write_quiet: "wait_for_write t w = Some (r, w') \<Longrightarrow> quiet w w'"
  by (auto simp: wait_for_write_def bind_eq_Some_conv split: if_splits dest: poll_eintr_quiet)

lemma payload_length: "data_length data > 0 \<Longrightarrow> length (handoff_payload data) = data_length data"
  by (auto simp: data_length_def handoff_payload_def split: option.splits)

lemma payload_nonempty [simp]: "handoff_payload data \<noteq> []"
  by (simp add: handoff_payload_def split: option.split)

lemma send_fd_outcome:
  assumes "send_fd_with_data sock fd data t d w = Some ((r, sent), w')" "atomic_sends w"
  shows "answers w' = answers w \<and> open_fds w' = open_fds w
     \<and> (if sent then r = 0 \<and> sent_msgs w' = sent_msgs w @ [(sock, fd, handoff_payload data)]
        else r = -1 \<and> sent_msgs w' = sent_msgs w)"
proof -
  obtain m w1 where m: "remaining_now d w = (m, w1)" by fastforce
  note q1 = remaining_now_quiet [OF m]
  show ?thesis
  proof (cases "m \<le> 0")
    case True
    with assms q1 show ?thesis by (auto simp: send_fd_with_data_def m quiet_def)
  next
    case False
    then obtain y w2 where y: "wait_for_write (if m < t then m else t) w1 = Some (y, w2)"
      using assms by (auto simp: send_fd_with_data_def m bind_eq_Some_conv)
    have q2: "quiet w w2" using q1 wait_for_write_quiet [OF y] by (rule quiet_trans)
    obtain n w3 where n: "sys_sendmsg sock fd (handoff_payload data) w2 = (n, w3)" by fastforce
    have at: "\<And>k. short (answers w2 k) = 0"
      using assms(2) q2 by (simp add: atomic_sends_def quiet_def)
    have w3: "answers w3 = answers w" "open_fds w3 = open_fds w"
       "n < 0 \<Longrightarrow> n = -1 \<and> sent_msgs w3 = sent_msgs w"
       "n \<ge> 0 \<Longrightarrow> n = int (length (handoff_payload data))
           \<and> sent_msgs w3 = sent_msgs w @ [(sock, fd, handoff_payload data)]"
      using n q2 at by (auto simp: sys_sendmsg_def kcall_def Let_def quiet_def split: if_splits)
    show ?thesis
    proof (cases "y \<le> 0")
      case True
      with assms False y q2 show ?thesis by (auto simp: send_fd_with_data_def m quiet_def)
    next
      case y0: False
      have "n \<ge> 0 \<Longrightarrow> \<not> (data_length data > 0 \<and> n < int (data_length data))"
        using w3(4) payload_length [of data] by auto
      then show ?thesis
        using assms(1) False y y0 w3
        by (auto simp: send_fd_with_data_def m n split: if_splits)
    qed
  qed
qed

section \<open>Returning\<close>

lemma wait_for_write_returns: "signals_stop w \<Longrightarrow> \<exists>y. wait_for_write t w = Some y"
  using poll_eintr_returns [of w t]
  by (auto simp: wait_for_write_def)

lemma send_fd_returns:
  assumes "signals_stop w"
  shows "\<exists>y. send_fd_with_data sock fd data t d w = Some y"
proof -
  obtain m w1 where m: "remaining_now d w = (m, w1)" by fastforce
  have "signals_stop w1" using assms signals_stop_quiet [OF remaining_now_quiet [OF m]] by simp
  from wait_for_write_returns [OF this, of "if m < t then m else t"]
  obtain y w2 where y: "wait_for_write (if m < t then m else t) w1 = Some (y, w2)" by auto
  obtain n w3 where n: "sys_sendmsg sock fd (handoff_payload data) w2 = (n, w3)" by fastforce
  show ?thesis by (auto simp: send_fd_with_data_def m y n Let_def)
qed

lemma await_connect_returns:
  assumes "signals_stop w"
  shows "\<exists>y. await_connect s t w = Some y"
proof -
  obtain r rev w1 where p: "poll_eintr t w = Some ((r, rev), w1)"
    using poll_eintr_returns [OF assms, of t] by auto
  obtain g so w2 where g: "sys_getsockopt w1 = (g, so, w2)" by (cases "sys_getsockopt w1") auto
  show ?thesis by (auto simp: await_connect_def p g)
qed

lemma signals_stop_answers: "answers w' = answers w \<Longrightarrow> signals_stop w' = signals_stop w"
  by (simp add: signals_stop_def)

lemma connect_to_socket_returns:
  assumes "signals_stop w"
  shows "\<exists>y. connect_to_socket path t w = Some y"
proof -
  obtain s b w1 where 1: "open_daemon_socket w = (s, b, w1)" by (cases "open_daemon_socket w") auto
  obtain e w2 where 2: "(if b then (None, w1) else set_nonblock_cloexec s w1) = (e, w2)" by fastforce
  obtain r w3 where 3: "sys_simple w2 = (r, w3)" by fastforce
  have a1: "answers w1 = answers w"
    using open_daemon_socket_opens [OF 1] by (simp add: opens_def same_peer_def)
  have "answers w2 = answers w"
    using 2 a1 by (auto simp: set_nonblock_cloexec_def sys_close_def sys_simple_def kcall_def Let_def
        split: prod.splits if_splits)
  then have "answers w3 = answers w" using quiet_simple [OF 3] by (simp add: quiet_def)
  then have "\<exists>y. await_connect s t w3 = Some y"
    using await_connect_returns signals_stop_answers assms by blast
  with 2 show ?thesis by (auto simp: connect_to_socket_def 1 3 Let_def split: option.split)
qed

lemma connect_attempt_returns:
  assumes "signals_stop w"
  shows "\<exists>r w'. connect_attempt path t n d k w = Some (r, w') \<and> signals_stop w'"
proof -
  obtain m w1 where m: "remaining_now d w = (m, w1)" by fastforce
  have s1: "signals_stop w1" using assms signals_stop_quiet [OF remaining_now_quiet [OF m]] by simp
  obtain s e w2 where c: "connect_to_socket path (if m < t then m else t) w1 = Some ((s, e), w2)"
    using connect_to_socket_returns [OF s1, of path "if m < t then m else t"] by auto
  have "\<exists>y. connect_attempt path t n d k w = Some y"
    by (auto simp: connect_attempt_def m c Let_def split: prod.split)
  then obtain r w' where y: "connect_attempt path t n d k w = Some (r, w')" by auto
  have "answers w' = answers w"
    using connect_attempt_opens [OF y] by (simp add: opens_def same_peer_def)
  with y assms show ?thesis using signals_stop_answers by blast
qed

lemma connect_attempts_returns: "signals_stop w \<Longrightarrow> \<exists>y. connect_attempts path t n d k w = Some y"
proof (induction path t n d k w rule: connect_attempts.induct)
  case (1 path t n d k w)
  obtain r w1 where a: "connect_attempt path t n d k w = Some (r, w1)" "signals_stop w1"
    using connect_attempt_returns [OF "1.prems"] by blast
  show ?case
    using "1.IH" [OF _ a(1)] a(2)
    by (cases r) (auto simp: connect_attempts.simps [of path t n d k w] a(1))
qed

end
