(* ===== verification/Module_Filter.thy ===== *)
theory Module_Filter
  imports Module_Path Module_Transport
begin

text \<open>
  The output filter of the Apache module (mod_socket_handoff.c): it looks for the handoff header,
  checks the request, hands the client's socket to the daemon, and either swaps in a dummy socket
  or turns the response into an error page.

  The Apache runtime is a parameter: path resolution, \<open>apr_socket_create\<close> for the dummy socket,
  \<open>apr_os_sock_get\<close>, \<open>ap_get_status_line\<close>. \<open>apr_ok\<close> is what its documentation says of these:
  resolved paths are absolute, and creating a socket opens descriptors and does nothing else.
\<close>

section \<open>The request and the runtime\<close>

datatype apr_socket = Apr_socket int
datatype bucket = Data_bucket string | Eos_bucket

type_synonym apr_table = "string \<Rightarrow> string option"

record request =
  headers_out :: apr_table
  err_headers_out :: apr_table
  is_subrequest :: bool \<comment> \<open>\<open>r->main != NULL\<close>\<close>
  proto_num :: int
  r_status :: int
  status_line :: "string option"
  content_type :: "string option"
  conn_socket :: "apr_socket option" \<comment> \<open>the socket in the connection's core configuration\<close>
  aborted :: bool
  filter_active :: bool
  downstream :: "bucket list list" \<comment> \<open>the brigades passed to the next filter\<close>

record apr_lib =
  apr_filepath_merge :: filepath_merge
  apr_socket_create :: "world \<Rightarrow> apr_socket option \<times> world"
  apr_os_sock_get :: "apr_socket \<Rightarrow> int option"
  ap_get_status_line :: "int \<Rightarrow> string"

definition apr_ok :: "apr_lib \<Rightarrow> bool" where
  "apr_ok apr \<longleftrightarrow> fp_absolute (apr_filepath_merge apr)
     \<and> (\<forall>w s w'. apr_socket_create apr w = (s, w') \<longrightarrow>
          same_peer w w' \<and> (\<exists>new. open_fds w' = new @ open_fds w))"

abbreviation (input) HTTP_FORBIDDEN :: int where "HTTP_FORBIDDEN \<equiv> 403"
abbreviation (input) HTTP_INTERNAL_SERVER_ERROR :: int where "HTTP_INTERNAL_SERVER_ERROR \<equiv> 500"
abbreviation (input) HTTP_SERVICE_UNAVAILABLE :: int where "HTTP_SERVICE_UNAVAILABLE \<equiv> 503"
abbreviation (input) APR_SUCCESS :: int where "APR_SUCCESS \<equiv> 0"

section \<open>Operations\<close>

definition HANDOFF_HEADER :: string where "HANDOFF_HEADER = ''X-Socket-Handoff''"
definition HANDOFF_DATA_HEADER :: string where "HANDOFF_DATA_HEADER = ''X-Handoff-Data''"

definition header_of :: "string \<Rightarrow> request \<Rightarrow> string option" where
  \<comment> \<open>\<open>headers_out\<close> first, then \<open>err_headers_out\<close>\<close>
  "header_of name r = (case headers_out r name of Some v \<Rightarrow> Some v | None \<Rightarrow> err_headers_out r name)"

definition create_dummy_socket :: "apr_lib \<Rightarrow> world \<Rightarrow> apr_socket option \<times> world" where
  "create_dummy_socket apr w = apr_socket_create apr w"

fun discard_brigade :: "bucket list \<Rightarrow> bucket list" where
  "discard_brigade [] = []"
| "discard_brigade (e # rest) = discard_brigade rest"

lemma discard_brigade_Nil [simp]: "discard_brigade bb = []"
  by (induction bb) auto

text \<open>
  From the handoff header to the label \<open>cleanup\<close>: the status, \<open>daemon_sock\<close> (-1 once it is
  closed), the request and what is left of the brigade.
\<close>

definition attempt_handoff ::
    "apr_lib \<Rightarrow> socket_handoff_config \<Rightarrow> string \<Rightarrow> request \<Rightarrow> bucket list \<Rightarrow> world
      \<Rightarrow> ((int \<times> int \<times> request \<times> bucket list) \<times> world) option" where
  "attempt_handoff apr conf socket_path r bb w =
     (if proto_num r \<ge> 2000 then Some ((HTTP_INTERNAL_SERVER_ERROR, -1, r, bb), w)
      else if \<not> validate_socket_path (apr_filepath_merge apr) socket_path conf
      then Some ((HTTP_FORBIDDEN, -1, r, bb), w)
      else
        let handoff_data = header_of HANDOFF_DATA_HEADER r;
            (dummy_socket, w1) = create_dummy_socket apr w
        in case dummy_socket of
          None \<Rightarrow> Some ((HTTP_INTERNAL_SERVER_ERROR, -1, r, bb), w1)
        | Some dummy \<Rightarrow>
            let bb1 = discard_brigade bb in
            (case conn_socket r of
               None \<Rightarrow> Some ((HTTP_INTERNAL_SERVER_ERROR, -1, r, bb1), w1)
             | Some client_socket \<Rightarrow>
                 (case apr_os_sock_get apr client_socket of
                    None \<Rightarrow> Some ((HTTP_INTERNAL_SERVER_ERROR, -1, r, bb1), w1)
                  | Some client_fd \<Rightarrow>
                      let (now, w2) = sys_now w1;
                          deadline = compute_handoff_deadline now conf
                      in do {
                        (daemon_sock, w3) \<leftarrow> connect_with_retry socket_path (connect_timeout_ms conf)
                                               (max_retries conf) deadline w2;
                        if daemon_sock < 0
                        then Some ((HTTP_SERVICE_UNAVAILABLE, daemon_sock, r, bb1), w3)
                        else do {
                          ((rc, fd_was_sent), w4) \<leftarrow>
                             send_fd_with_data daemon_sock client_fd handoff_data
                               (send_timeout_ms conf) deadline w3;
                          if rc < 0 then
                            (if fd_was_sent
                             then Some ((APR_SUCCESS, -1,
                                     r\<lparr>conn_socket := Some dummy, aborted := True\<rparr>, bb1),
                                   sys_close daemon_sock w4)
                             else Some ((HTTP_INTERNAL_SERVER_ERROR, daemon_sock, r, bb1), w4))
                          else Some ((APR_SUCCESS, -1,
                                 r\<lparr>conn_socket := Some dummy, aborted := True\<rparr>, bb1),
                               sys_close daemon_sock w4) } })))"

definition error_body :: "apr_lib \<Rightarrow> int \<Rightarrow> string" where
  "error_body apr status =
     ''<!DOCTYPE html>'' @ [LF] @ ''<html><body><h1>'' @ ap_get_status_line apr status
       @ ''</h1></body></html>'' @ [LF]"

datatype filter_return = Apr_success | Passed_on \<comment> \<open>what \<open>ap_pass_brigade\<close> returned\<close>

definition filter_cleanup ::
    "apr_lib \<Rightarrow> int \<Rightarrow> int \<Rightarrow> request \<Rightarrow> bucket list \<Rightarrow> world \<Rightarrow> filter_return \<times> request \<times> world" where
  "filter_cleanup apr status daemon_sock r bb w =
     (let w1 = (if daemon_sock \<ge> 0 then sys_close daemon_sock w else w);
          r1 = r\<lparr>filter_active := False\<rparr>
      in if status \<noteq> APR_SUCCESS then
           let bb1 = discard_brigade bb;
               r2 = r1\<lparr>r_status := status, status_line := None,
                       headers_out := Map.empty, err_headers_out := Map.empty,
                       content_type := Some ''text/html; charset=utf-8''\<rparr>;
               bb2 = bb1 @ [Data_bucket (error_body apr status)] @ [Eos_bucket]
           in (Passed_on, r2\<lparr>downstream := downstream r2 @ [bb2]\<rparr>, w1)
         else (Apr_success, r1, w1))"

definition socket_handoff_output_filter ::
    "apr_lib \<Rightarrow> socket_handoff_config \<Rightarrow> request \<Rightarrow> bucket list \<Rightarrow> world
      \<Rightarrow> (filter_return \<times> request \<times> world) option" where
  "socket_handoff_output_filter apr conf r bb w =
     (case header_of HANDOFF_HEADER r of
        None \<Rightarrow> Some (Passed_on, r\<lparr>filter_active := False, downstream := downstream r @ [bb]\<rparr>, w)
      | Some socket_path \<Rightarrow> do {
          ((status, daemon_sock, r1, bb1), w1) \<leftarrow> attempt_handoff apr conf socket_path r bb w;
          Some (filter_cleanup apr status daemon_sock r1 bb1 w1) })"

definition socket_handoff_insert_filter :: "socket_handoff_config \<Rightarrow> request \<Rightarrow> request" where
  "socket_handoff_insert_filter conf r =
     (if is_subrequest r then r else if enabled conf then r\<lparr>filter_active := True\<rparr> else r)"

section \<open>The outcome of an attempt\<close>

text \<open>
  Two abstract outcomes. A handoff: one message with the client's descriptor and the data went out,
  the connection has the dummy socket and is marked aborted, the status is success. A refusal:
  nothing was sent, the connection is untouched, the status is an HTTP error.
\<close>

definition handed_off ::
    "apr_lib \<Rightarrow> request \<Rightarrow> world \<Rightarrow> request \<Rightarrow> world \<Rightarrow> bool" where
  "handed_off apr r w r' w' \<longleftrightarrow>
     (\<exists>cs fd ds dummy. conn_socket r = Some cs \<and> apr_os_sock_get apr cs = Some fd
        \<and> sent_msgs w' = sent_msgs w @ [(ds, fd, handoff_payload (header_of HANDOFF_DATA_HEADER r))]
        \<and> conn_socket r' = Some dummy \<and> aborted r')"

definition untouched :: "request \<Rightarrow> world \<Rightarrow> request \<Rightarrow> world \<Rightarrow> bool" where
  "untouched r w r' w' \<longleftrightarrow> sent_msgs w' = sent_msgs w
     \<and> conn_socket r' = conn_socket r \<and> aborted r' = aborted r"

definition error_statuses :: "int set" where
  "error_statuses = {HTTP_FORBIDDEN, HTTP_INTERNAL_SERVER_ERROR, HTTP_SERVICE_UNAVAILABLE}"

definition grown_by :: "int list \<Rightarrow> world \<Rightarrow> world \<Rightarrow> bool" where
  "grown_by new w w' \<longleftrightarrow> open_fds w' = new @ open_fds w"

text \<open>
  What an attempt leaves: outcome, path check, and the daemon's socket still open exactly when it
  is passed on to the clean-up.
\<close>

definition attempt_post ::
    "apr_lib \<Rightarrow> socket_handoff_config \<Rightarrow> string \<Rightarrow> request \<Rightarrow> world
      \<Rightarrow> int \<Rightarrow> int \<Rightarrow> request \<Rightarrow> world \<Rightarrow> bool" where
  "attempt_post apr conf path r w status ds r' w' \<longleftrightarrow>
     (if status = APR_SUCCESS
      then handed_off apr r w r' w' \<and> ds = -1 \<and> proto_num r < 2000
           \<and> validate_socket_path (apr_filepath_merge apr) path conf
      else status \<in> error_statuses \<and> untouched r w r' w')
     \<and> downstream r' = downstream r
     \<and> (\<exists>new. if ds \<ge> 0 then open_fds w' = ds # new @ open_fds w \<and> ds \<notin> set (new @ open_fds w)
              else grown_by new w w')"

lemma attempt_post_refusal:
  assumes "status \<in> error_statuses" "same_peer w w'" "open_fds w' = new @ open_fds w"
  shows "attempt_post apr conf path r w status (-1) r w'"
  using assms
  by (auto simp: attempt_post_def error_statuses_def untouched_def same_peer_def grown_by_def)

lemma attempt_post_handoff:
  assumes "conn_socket r = Some cs" "apr_os_sock_get apr cs = Some fd"
    and "sent_msgs w' = sent_msgs w @ [(ds, fd, handoff_payload (header_of HANDOFF_DATA_HEADER r))]"
    and "open_fds w' = new @ open_fds w" "proto_num r < 2000"
    and "validate_socket_path (apr_filepath_merge apr) path conf"
  shows "attempt_post apr conf path r w APR_SUCCESS (-1)
           (r\<lparr>conn_socket := Some dummy, aborted := True\<rparr>) w'"
  using assms by (auto simp: attempt_post_def handed_off_def grown_by_def)

lemma attempt_handoff_post:
  assumes apr: "apr_ok apr" and at: "atomic_sends w"
    and a: "attempt_handoff apr conf path r bb w = Some ((status, ds, r', bb'), w')"
  shows "attempt_post apr conf path r w status ds r' w'"
proof -
  let ?valid = "proto_num r < 2000 \<and> validate_socket_path (apr_filepath_merge apr) path conf"
  obtain dm w1 where d: "create_dummy_socket apr w = (dm, w1)" by fastforce
  obtain now w2 where n: "sys_now w1 = (now, w2)" by fastforce
  from apr d obtain new where p1: "same_peer w w1" and new: "open_fds w1 = new @ open_fds w"
    unfolding apr_ok_def create_dummy_socket_def by blast
  have err: "500 \<in> error_statuses" "403 \<in> error_statuses" "503 \<in> error_statuses"
    by (auto simp: error_statuses_def)
  note refuse0 = attempt_post_refusal [OF _ same_peer_refl, where new = "[]", simplified]
  note refuse1 = attempt_post_refusal [OF _ p1 new]
  have q2: "quiet w1 w2" by (rule quiet_now [OF n])
  show ?thesis
  proof (cases "?valid \<and> dm \<noteq> None \<and> conn_socket r \<noteq> None
      \<and> apr_os_sock_get apr (the (conn_socket r)) \<noteq> None")
    case False
    then have "status \<in> error_statuses \<and> ds = -1 \<and> r' = r \<and> (w' = w \<or> w' = w1)"
      using a err by (auto simp: attempt_handoff_def d split: if_splits option.splits)
    then show ?thesis using refuse0 refuse1 by blast
  next
    case True
    then obtain dummy cs fd where v: ?valid and dm: "dm = Some dummy" and cs: "conn_socket r = Some cs"
      and fd: "apr_os_sock_get apr cs = Some fd" by auto
    let ?dl = "compute_handoff_deadline now conf" and ?data = "header_of HANDOFF_DATA_HEADER r"
    obtain s w3 where c: "connect_with_retry path (connect_timeout_ms conf) (max_retries conf) ?dl w2
        = Some (s, w3)"
      using a v by (auto simp: attempt_handoff_def d n dm cs fd Let_def bind_eq_Some_conv)
    have o: "opens w1 s w3"
      using connect_attempts_opens c opens_quiet_left [OF q2] unfolding connect_with_retry_def by blast
    then have p3: "same_peer w w3" using p1 by (auto simp: opens_def same_peer_def)
    show ?thesis
    proof (cases "s < 0")
      case True
      then have "s = -1" "open_fds w3 = new @ open_fds w" using o new by (auto simp: opens_def)
      moreover have "status = 503" "ds = s" "r' = r" "w' = w3"
        using a v True by (auto simp: attempt_handoff_def d n dm cs fd c Let_def)
      ultimately show ?thesis using attempt_post_refusal [OF err(3) p3] by simp
    next
      case False
      then have s: "0 \<le> s" and o3: "open_fds w3 = s # new @ open_fds w" "s \<notin> set (new @ open_fds w)"
        using o new by (auto simp: opens_def)
      obtain rc snt w4 where sd: "send_fd_with_data s fd ?data (send_timeout_ms conf) ?dl w3
          = Some ((rc, snt), w4)"
        using a v False by (auto simp: attempt_handoff_def d n dm cs fd c Let_def bind_eq_Some_conv)
      have "atomic_sends w3" using at p3 by (simp add: atomic_sends_def same_peer_def)
      note so = send_fd_outcome [OF sd this]
      have cl: "open_fds (sys_close s w4) = new @ open_fds w" "sent_msgs (sys_close s w4) = sent_msgs w4"
        using so o3 by (auto simp: sys_close_def)
      show ?thesis
      proof (cases snt)
        case True
        then have "status = 0" "ds = -1" "r' = r\<lparr>conn_socket := Some dummy, aborted := True\<rparr>"
            "w' = sys_close s w4"
          using a v False so by (auto simp: attempt_handoff_def d n dm cs fd c sd Let_def)
        then show ?thesis
          using attempt_post_handoff [OF cs fd _ cl(1), of s path conf dummy] so True v cl(2) p3
          by (simp add: same_peer_def)
      next
        case f: False
        then have "status = 500" "ds = s" "r' = r" "w' = w4"
          using a v False so by (auto simp: attempt_handoff_def d n dm cs fd c sd Let_def)
        then show ?thesis
          using so f o3 s p3
          by (auto simp: attempt_post_def error_statuses_def untouched_def same_peer_def)
      qed
    qed
  qed
qed

section \<open>The filter\<close>

lemma attempt_handoff_returns:
  assumes "apr_ok apr" "signals_stop w"
  shows "\<exists>y. attempt_handoff apr conf path r bb w = Some y"
proof -
  obtain dm w1 where d: "create_dummy_socket apr w = (dm, w1)" by fastforce
  obtain now w2 where n: "sys_now w1 = (now, w2)" by fastforce
  let ?dl = "compute_handoff_deadline now conf" and ?data = "header_of HANDOFF_DATA_HEADER r"
  have "same_peer w w1" using assms d unfolding apr_ok_def create_dummy_socket_def by blast
  then have "answers w2 = answers w" using quiet_now [OF n] by (simp add: same_peer_def quiet_def)
  then have s2: "signals_stop w2" using assms signals_stop_answers by blast
  obtain s w3 where c: "connect_with_retry path (connect_timeout_ms conf) (max_retries conf) ?dl w2
      = Some (s, w3)"
    using connect_attempts_returns [OF s2] unfolding connect_with_retry_def by (metis surj_pair)
  then have "answers w3 = answers w2"
    using connect_attempts_opens unfolding connect_with_retry_def opens_def same_peer_def by blast
  then have s3: "signals_stop w3" using s2 signals_stop_answers by blast
  show ?thesis
  proof (cases "conn_socket r = None \<or> apr_os_sock_get apr (the (conn_socket r)) = None \<or> dm = None")
    case True
    then show ?thesis by (auto simp: attempt_handoff_def d Let_def split: option.split)
  next
    case False
    then obtain cs fd dummy where cs: "conn_socket r = Some cs" and fd: "apr_os_sock_get apr cs = Some fd"
      and dm: "dm = Some dummy" by auto
    obtain rc snt w4 where "send_fd_with_data s fd ?data (send_timeout_ms conf) ?dl w3 = Some ((rc, snt), w4)"
      using send_fd_returns [OF s3] by (metis surj_pair)
    then show ?thesis by (simp add: attempt_handoff_def d n c cs fd dm Let_def)
  qed
qed

text \<open>The clean-up after an attempt: the abstract outcome of the whole filter.\<close>

definition refused_with ::
    "apr_lib \<Rightarrow> int \<Rightarrow> request \<Rightarrow> world \<Rightarrow> filter_return \<Rightarrow> request \<Rightarrow> world \<Rightarrow> bool" where
  "refused_with apr status r w res r' w' \<longleftrightarrow> untouched r w r' w' \<and> res = Passed_on
     \<and> r_status r' = status
     \<and> downstream r' = downstream r @ [[Data_bucket (error_body apr status), Eos_bucket]]
     \<and> headers_out r' = Map.empty \<and> err_headers_out r' = Map.empty"

lemma filter_cleanup_post:
  assumes "attempt_post apr conf path r w status ds r1 w1"
    and "filter_cleanup apr status ds r1 bb w1 = (res, r', w')"
  shows "(\<exists>new. grown_by new w w') \<and> \<not> filter_active r'
    \<and> (handed_off apr r w r' w' \<and> res = Apr_success \<and> downstream r' = downstream r
        \<and> proto_num r < 2000 \<and> validate_socket_path (apr_filepath_merge apr) path conf
       \<or> (\<exists>st \<in> error_statuses. refused_with apr st r w res r' w'))"
proof -
  have "\<exists>new. grown_by new w w'"
    using assms by (auto simp: attempt_post_def filter_cleanup_def grown_by_def sys_close_def Let_def
        split: if_splits)
  moreover have "\<not> filter_active r'"
    using assms(2) by (auto simp: filter_cleanup_def Let_def split: if_splits)
  moreover have "0 \<notin> error_statuses" by (simp add: error_statuses_def)
  ultimately show ?thesis
    using assms
    by (auto simp: attempt_post_def filter_cleanup_def handed_off_def refused_with_def untouched_def
        sys_close_def Let_def split: if_splits)
qed

lemma filter_post:
  assumes "apr_ok apr" "atomic_sends w" "header_of HANDOFF_HEADER r = Some path"
    and "socket_handoff_output_filter apr conf r bb w = Some (res, r', w')"
  shows "(\<exists>new. grown_by new w w') \<and> \<not> filter_active r'
    \<and> (handed_off apr r w r' w' \<and> res = Apr_success \<and> downstream r' = downstream r
        \<and> proto_num r < 2000 \<and> validate_socket_path (apr_filepath_merge apr) path conf
       \<or> (\<exists>st \<in> error_statuses. refused_with apr st r w res r' w'))"
proof -
  obtain status ds r1 bb1 w1 where
    a: "attempt_handoff apr conf path r bb w = Some ((status, ds, r1, bb1), w1)"
    and c: "filter_cleanup apr status ds r1 bb1 w1 = (res, r', w')"
    using assms(3,4) by (auto simp: socket_handoff_output_filter_def bind_eq_Some_conv)
  show ?thesis by (rule filter_cleanup_post [OF attempt_handoff_post [OF assms(1,2) a] c])
qed

end
