(* ===== verification/Module_Correctness.thy ===== *)
theory Module_Correctness
  imports Module_Filter
begin

text \<open>
  What the Apache module promises, from its filter down to its configuration, over the definitions
  of \<open>Module_Config\<close>, \<open>Module_Path\<close>, \<open>Module_Transport\<close> and \<open>Module_Filter\<close>. The concrete inputs at
  the head of the theory are shared by the examples that follow the statements.
\<close>

section \<open>A concrete request\<close>

definition ex_answer :: answer where
  "ex_answer = \<lparr>ret = 1, err = 0, aux = 4, short = 0, dt = 5\<rparr>"

definition ex_world :: world where
  "ex_world = \<lparr>answers = (\<lambda>_. ex_answer), calls = 0, clock = 0, c_errno = 0,
     open_fds = [2, 1, 0], sent_msgs = [], waits = []\<rparr>"

definition ex_merge :: filepath_merge where
  "ex_merge t p = (if p = [] then None else Some p)"

definition ex_apr :: apr_lib where
  "ex_apr = \<lparr>apr_filepath_merge = ex_merge,
     apr_socket_create = (\<lambda>w. (Some (Apr_socket (lowest_free (open_fds w))),
        w\<lparr>open_fds := [lowest_free (open_fds w)] @ open_fds w\<rparr>)),
     apr_os_sock_get = (\<lambda>s. case s of Apr_socket n \<Rightarrow> Some n),
     ap_get_status_line = (\<lambda>n. ''Error'')\<rparr>"

definition ex_request :: request where
  "ex_request = \<lparr>headers_out = [''X-Socket-Handoff'' \<mapsto> ''/run/d.sock'', ''X-Handoff-Data'' \<mapsto> ''{}''],
     err_headers_out = Map.empty, is_subrequest = False, proto_num = 1001, r_status = 200,
     status_line = None, content_type = None, conn_socket = Some (Apr_socket 9), aborted = False,
     filter_active = True, downstream = []\<rparr>"

lemma ex_facts:
  "apr_ok ex_apr" "atomic_sends ex_world" "signals_stop ex_world" "fp_absolute ex_merge"
  "header_of HANDOFF_HEADER ex_request = Some ''/run/d.sock''"
  by (auto simp: apr_ok_def ex_apr_def fp_absolute_def ex_merge_def same_peer_def atomic_sends_def
      ex_world_def ex_answer_def signals_stop_def interrupted_def header_of_def HANDOFF_HEADER_def
      ex_request_def)

text \<open>With these answers of the kernel the handoff succeeds at the first attempt.\<close>

definition ex_conf :: socket_handoff_config where
  "ex_conf = post_config_server ex_merge create_server_config"

definition ex_sent :: "(int \<times> int \<times> string) list" where
  "ex_sent = [(4, 9, ''{}'')]"

lemma lowest_free_ex [simp]:
  "lowest_free [2, 1, 0] = 3" "lowest_free [3, 2, 1, 0] = 4"
  by (simp_all add: lowest_free_def upt_rec)

lemma ex_conf_eq: "ex_conf = create_server_config
    \<lparr>resolved_prefix := Some ''/run/'', resolved_prefix_truename := Some ''/run/''\<rparr>"
  by (simp add: ex_conf_def post_config_server_def create_server_config_def ex_merge_def with_slash_def)

lemma ex_valid: "validate_socket_path ex_merge ''/run/d.sock'' ex_conf"
  by (simp add: validate_socket_path_def ex_conf_eq create_server_config_def ex_merge_def
      prefix_for_request_def has_prefix_def)

lemma ex_connect:
  "connect_with_retry ''/run/d.sock'' 100 2 530005
     (ex_world\<lparr>calls := 1, clock := 5, open_fds := [3, 2, 1, 0]\<rparr>)
   = Some (4, ex_world\<lparr>calls := 4, clock := 20, open_fds := [4, 3, 2, 1, 0]\<rparr>)"
  by (simp add: connect_with_retry_def connect_attempts.simps connect_attempt_def remaining_now_def
      remaining_timeout_ms_def connect_to_socket_def open_daemon_socket_def sun_path_size_def sys_defs Let_def
      ex_world_def ex_answer_def)

lemma ex_send:
  "send_fd_with_data 4 9 (Some ''{}'') 200 530005
     (ex_world\<lparr>calls := 4, clock := 20, open_fds := [4, 3, 2, 1, 0]\<rparr>)
   = Some ((0, True), ex_world\<lparr>calls := 7, clock := 35, open_fds := [4, 3, 2, 1, 0],
       sent_msgs := ex_sent, waits := [PollWait 25 200]\<rparr>)"
  by (simp add: send_fd_with_data_def remaining_now_def remaining_timeout_ms_def wait_for_write_def
      poll_eintr.simps poll_failed_def handoff_payload_def data_length_def sys_defs Let_def
      ex_world_def ex_answer_def ex_sent_def)

lemma ex_setup:
  "proto_num ex_request = 1001" "apr_filepath_merge ex_apr = ex_merge"
  "create_dummy_socket ex_apr ex_world = (Some (Apr_socket 3), ex_world\<lparr>open_fds := [3, 2, 1, 0]\<rparr>)"
  "sys_now (ex_world\<lparr>open_fds := [3, 2, 1, 0]\<rparr>)
     = (5, ex_world\<lparr>calls := 1, clock := 5, open_fds := [3, 2, 1, 0]\<rparr>)"
  "conn_socket ex_request = Some (Apr_socket 9)" "apr_os_sock_get ex_apr (Apr_socket 9) = Some 9"
  "header_of HANDOFF_DATA_HEADER ex_request = Some ''{}''"
  "connect_timeout_ms ex_conf = 100" "max_retries ex_conf = 2" "send_timeout_ms ex_conf = 200"
  "compute_handoff_deadline 5 ex_conf = 530005"
  by (simp_all add: ex_conf_eq create_server_config_def compute_handoff_deadline_def
      handoff_total_ms_def RETRY_BASE_DELAY_MS_def DEFAULT_MAX_RETRIES_def ex_request_def
      create_dummy_socket_def ex_apr_def ex_world_def sys_defs ex_answer_def header_of_def
      HANDOFF_DATA_HEADER_def Let_def)

lemma ex_attempt:
  "attempt_handoff ex_apr ex_conf ''/run/d.sock'' ex_request [] ex_world = Some ((0, -1,
     ex_request\<lparr>conn_socket := Some (Apr_socket 3), aborted := True\<rparr>, []),
     ex_world\<lparr>calls := 7, clock := 35, open_fds := [3, 2, 1, 0],
       sent_msgs := ex_sent, waits := [PollWait 25 200]\<rparr>)"
  using ex_valid
  by (simp add: attempt_handoff_def ex_setup ex_connect [unfolded One_nat_def] ex_send sys_close_def)

lemma ex_run:
  "socket_handoff_output_filter ex_apr ex_conf ex_request [] ex_world = Some (Apr_success,
     ex_request\<lparr>conn_socket := Some (Apr_socket 3), aborted := True, filter_active := False\<rparr>,
     ex_world\<lparr>calls := 7, clock := 35, open_fds := [3, 2, 1, 0],
       sent_msgs := ex_sent, waits := [PollWait 25 200]\<rparr>)"
  using ex_attempt ex_facts(5)
  by (simp add: socket_handoff_output_filter_def filter_cleanup_def)

section \<open>The handoff\<close>



text \<open>
  C4. A client is handed only to a socket inside the allowed directory. Whenever the filter sends
  anything, the resolved path of the socket has, name by name, the resolved allowed prefix as its
  first components; and where the path has a true name (symbolic links followed), the true name
  has the true name of the prefix as its first components. The prefix is the one the startup hook
  resolved, on the file system of the startup, and the one of the request where the hook failed.
\<close>

theorem handoff_only_inside_prefix:
  assumes "apr_ok apr" "atomic_sends w" "fp_absolute fp0" "uncached conf"
    and "allowed_socket_prefix conf = Some p" "p \<noteq> []"
    and "header_of HANDOFF_HEADER r = Some path"
    and "socket_handoff_output_filter apr (post_config_server fp0 conf) r bb w = Some (res, r', w')"
    and "sent_msgs w' \<noteq> sent_msgs w"
  shows "(\<exists>rp pre rest. apr_filepath_merge apr False path = Some rp
            \<and> prefix_in_force fp0 (apr_filepath_merge apr) False p = Some pre
            \<and> components rp = components pre @ rest)
       \<and> (case apr_filepath_merge apr True path of None \<Rightarrow> True | Some tp \<Rightarrow>
            \<exists>tpre rest. prefix_in_force fp0 (apr_filepath_merge apr) True p = Some tpre
               \<and> components tp = components tpre @ rest)"
proof -
  let ?fp = "apr_filepath_merge apr"
  have fp: "fp_absolute ?fp" using assms(1) by (simp add: apr_ok_def)
  have "validate_socket_path ?fp path (post_config_server fp0 conf)"
    using filter_post [OF assms(1,2,7,8)] assms(9) by (auto simp: refused_with_def untouched_def)
  then obtain rp pre where v: "?fp False path = Some rp" "prefix_in_force fp0 ?fp False p = Some pre"
    "has_prefix (with_slash pre) rp"
    "\<forall>tp. ?fp True path = Some tp \<longrightarrow>
       (\<exists>tpre. prefix_in_force fp0 ?fp True p = Some tpre \<and> has_prefix (with_slash tpre) tp)"
    unfolding validate_after_post_config [OF fp assms(4-6)] by blast
  note dir = inside_directory [OF in_force_nonempty [OF assms(3) fp]]
  have "\<exists>tpre rest. prefix_in_force fp0 ?fp True p = Some tpre \<and> components tp = components tpre @ rest"
    if "?fp True path = Some tp" for tp
    using v(4) that dir by blast
  with dir [OF v(2,3)] v(1,2) show ?thesis by (auto split: option.split)
qed

lemma handoff_only_inside_prefix_witness:
  "(\<exists>rp pre rest. apr_filepath_merge ex_apr False ''/run/d.sock'' = Some rp
      \<and> prefix_in_force ex_merge (apr_filepath_merge ex_apr) False ''/run/'' = Some pre
      \<and> components rp = components pre @ rest)
   \<and> (case apr_filepath_merge ex_apr True ''/run/d.sock'' of None \<Rightarrow> True | Some tp \<Rightarrow>
        \<exists>tpre rest. prefix_in_force ex_merge (apr_filepath_merge ex_apr) True ''/run/'' = Some tpre
           \<and> components tp = components tpre @ rest)"
proof (rule handoff_only_inside_prefix [OF ex_facts(1,2,4) uncached_create _ _ ex_facts(5)])
  show "allowed_socket_prefix create_server_config = Some ''/run/''"
    by (simp add: create_server_config_def)
  show "sent_msgs (ex_world\<lparr>calls := 7, clock := 35, open_fds := [3, 2, 1, 0],
       sent_msgs := ex_sent, waits := [PollWait 25 200]\<rparr>) \<noteq> sent_msgs ex_world"
    by (simp add: ex_world_def ex_sent_def)
qed (use ex_run in \<open>simp_all add: ex_conf_def\<close>)

text \<open>
  C16. The transport keeps the table of descriptors. Against every kernel, connecting with retries
  returns; it returns a new descriptor, the only one it leaves open, or -1 with exactly the
  descriptors that were open before; it never sends anything.
\<close>

theorem connect_with_retry_descriptors:
  assumes "signals_stop w"
  shows "\<exists>s w'. connect_with_retry path t n d w = Some (s, w') \<and> sent_msgs w' = sent_msgs w
    \<and> (if 0 \<le> s then open_fds w' = s # open_fds w \<and> s \<notin> set (open_fds w)
       else s = -1 \<and> open_fds w' = open_fds w)"
proof -
  obtain s w' where c: "connect_attempts path t n d 0 w = Some (s, w')"
    using connect_attempts_returns [OF assms] by (metis surj_pair)
  from connect_attempts_opens [OF c] c show ?thesis
    by (auto simp: connect_with_retry_def opens_def same_peer_def)
qed

lemma connect_with_retry_descriptors_witness:
  "\<exists>s w'. connect_with_retry ''/run/d.sock'' 100 2 1000000 ex_world = Some (s, w')
    \<and> sent_msgs w' = sent_msgs ex_world
    \<and> (if 0 \<le> s then open_fds w' = s # open_fds ex_world \<and> s \<notin> set (open_fds ex_world)
       else s = -1 \<and> open_fds w' = open_fds ex_world)"
  by (rule connect_with_retry_descriptors [OF ex_facts(3)])

text \<open>
  C23. The budget of the retries. With \<open>n\<close> retries and a connect timeout \<open>t\<close>, no wait for a
  connection is asked to be longer than \<open>t\<close> milliseconds, and all the pauses between the attempts
  together ask for no more than the sum of the exponential delays 10, 20, 40, ... (capped at the
  20th doubling), the term that the deadline reserves for them.
\<close>

theorem connect_with_retry_budget:
  assumes "signals_stop w"
  shows "\<exists>s w' new. connect_with_retry path t (int n) d w = Some (s, w')
    \<and> waits w' = waits w @ new
    \<and> list_all (poll_within t) new
    \<and> sum_list (map sleep_ms new) \<le> (\<Sum>k<n. backoff_delay (int k))"
proof -
  obtain s w' where c: "connect_attempts path t (int n) d (int 0) w = Some (s, w')"
    using connect_attempts_returns [OF assms] by (metis surj_pair)
  from connect_attempts_waits [OF c] c show ?thesis
    by (auto simp: connect_with_retry_def waited_def slept_def lessThan_atLeast0)
qed

lemma connect_with_retry_budget_witness:
  "\<exists>s w' new. connect_with_retry ''/run/d.sock'' 100 (int 2) 1000000 ex_world = Some (s, w')
    \<and> waits w' = waits ex_world @ new
    \<and> list_all (poll_within 100) new
    \<and> sum_list (map sleep_ms new) \<le> (\<Sum>k<2. backoff_delay (int k))"
  by (rule connect_with_retry_budget [OF ex_facts(3)])

section \<open>The configuration\<close>

text \<open>
  C24. The deadline of a handoff. Whatever the directives of the main server and of the virtual host
  are, in whatever order, accepted or rejected, the merged configuration gives a deadline of
  exactly (retries + 1) connect timeouts, one send timeout and the sum of the back-off delays: none
  of the clamps of the code is ever taken, and the total stays between 2 ms and 730230 ms.
\<close>

theorem deadline_exact:
  "compute_handoff_deadline now (vhost_config main vhost) = now + 1000 *
      ((max_retries (vhost_config main vhost) + 1) * connect_timeout_ms (vhost_config main vhost)
        + send_timeout_ms (vhost_config main vhost)
        + (\<Sum>k < nat (max_retries (vhost_config main vhost)). backoff_delay (int k)))
    \<and> handoff_total_ms (vhost_config main vhost) \<in> {2..730230}"
proof -
  have "conf_ok (vhost_config main vhost)"
    unfolding vhost_config_def by (intro conf_ok_merge conf_ok_server)
  from handoff_total_exact [OF this] show ?thesis by (simp add: compute_handoff_deadline_def)
qed

text \<open>
  Which connect timeout is in force in a virtual host: the last value of its own directives
  that was accepted, else the last accepted one of the main server, else 100 ms. A rejected
  directive (not a number, trailing text, out of range) changes nothing.
\<close>

theorem connect_timeout_in_force:
  "connect_timeout_ms (vhost_config main vhost) =
     (case last_some accepted_connect vhost of
        Some v \<Rightarrow> v
      | None \<Rightarrow> (case last_some accepted_connect main of Some v \<Rightarrow> v | None \<Rightarrow> 100))"
proof -
  have own: "own_connect (server_config ds) = last_some accepted_connect ds" for ds
    by (simp add: server_config_def fold_own_connect split: option.split)
  have "connect_timeout_ms (server_config ds)
      = (case last_some accepted_connect ds of Some v \<Rightarrow> v | None \<Rightarrow> 100)" for ds
    unfolding server_config_def by (rule fold_connect_value)
  then show ?thesis by (simp add: vhost_config_def merge_connect own cong: option.case_cong)
qed

text \<open>
  The allowed prefix of the main server is never inherited. A virtual host that does not set a
  prefix of its own gets the built-in \<open>/run/\<close>, whatever the main server says: the defaults of a
  new configuration are already a prefix, so the fallback of the merge is never taken. (The other
  four settings are inherited, through their \<open>_set\<close> flags.)
\<close>

theorem vhost_prefix_not_inherited:
  "allowed_socket_prefix (vhost_config main vhost) =
     Some (case last_some accepted_prefix vhost of Some p \<Rightarrow> p | None \<Rightarrow> ''/run/'')"
proof -
  have "allowed_socket_prefix (server_config vhost)
     = Some (case last_some accepted_prefix vhost of Some p \<Rightarrow> p | None \<Rightarrow> ''/run/'')"
    unfolding server_config_def by (rule fold_prefix_value)
  then show ?thesis by (simp add: vhost_config_def merge_server_config_def)
qed

text \<open>
  The cache of the startup hook changes nothing. When the file system resolves names at the
  request as it did at startup, the check with the cached prefixes decides every path as the check
  that resolves the prefix at each request.
\<close>

theorem cached_prefix_equivalent:
  assumes "fp_absolute fp" "uncached conf"
  shows "validate_socket_path fp path (post_config_server fp conf) = validate_socket_path fp path conf"
proof (cases "allowed_socket_prefix conf")
  case None
  then show ?thesis by (simp add: validate_socket_path_def)
next
  case (Some p)
  show ?thesis
  proof (cases "p = []")
    case True
    then show ?thesis using Some by (simp add: validate_socket_path_def)
  next
    case False
    show ?thesis
      unfolding validate_after_post_config [OF assms Some False] validate_uncached [OF assms Some False]
      by simp
  qed
qed

lemma cached_prefix_equivalent_witness:
  "validate_socket_path ex_merge ''/run/d.sock'' (post_config_server ex_merge create_server_config)
     = validate_socket_path ex_merge ''/run/d.sock'' create_server_config"
  by (rule cached_prefix_equivalent [OF ex_facts(4) uncached_create])

end
