(* ===== verification/Write_Buffer.thy ===== *)
theory Write_Buffer
  imports Prelude
begin

text \<open>
  The per-connection write buffer of the io_uring daemon (write_buffer.c, write_buffer.h): a linear
  buffer that resets when it drains, compacts when a write is not in flight, and grows otherwise.

  Sizes are natural numbers: the invariant keeps \<open>tail \<le> head \<le> capacity\<close> and the capacity at most
  one megabyte, so no \<open>size_t\<close> subtraction of the code wraps; lengths are lengths of objects in
  memory. The buffer's address is part of the state, because the kernel reads from it while a write
  is in flight. \<open>malloc\<close> and \<open>realloc\<close> are parameters that give an address and the indeterminate
  bytes of the new memory, or fail.
\<close>

section \<open>State and operations\<close>

record write_buffer =
  buffer :: string \<comment> \<open>all \<open>capacity\<close> bytes\<close>
  buf_addr :: nat
  capacity :: nat
  head :: nat
  tail :: nat
  bytes_written :: nat
  write_pending :: bool

type_synonym memory = "nat \<times> (nat \<Rightarrow> char)"

definition WRITE_BUFFER_DEFAULT_SIZE :: nat where "WRITE_BUFFER_DEFAULT_SIZE = 8 * 1024"
definition WRITE_BUFFER_MAX_SIZE :: nat where "WRITE_BUFFER_MAX_SIZE = 1024 * 1024"

definition write_buffer_init_sized :: "(nat \<Rightarrow> memory option) \<Rightarrow> nat \<Rightarrow> write_buffer option" where
  "write_buffer_init_sized malloc cap =
     (case malloc cap of
        None \<Rightarrow> None
      | Some (a, g) \<Rightarrow> Some \<lparr>buffer = map g [0..<cap], buf_addr = a, capacity = cap,
                           head = 0, tail = 0, bytes_written = 0, write_pending = False\<rparr>)"

definition write_buffer_init :: "(nat \<Rightarrow> memory option) \<Rightarrow> write_buffer option" where
  "write_buffer_init malloc = write_buffer_init_sized malloc WRITE_BUFFER_DEFAULT_SIZE"

definition write_buffer_cleanup :: "write_buffer \<Rightarrow> write_buffer" where
  \<comment> \<open>no memory, and the address that is tested for NULL\<close>
  "write_buffer_cleanup wb = wb\<lparr>buffer := [], buf_addr := 0, capacity := 0, head := 0, tail := 0\<rparr>"

definition write_buffer_reset :: "write_buffer \<Rightarrow> write_buffer" where
  "write_buffer_reset wb = wb\<lparr>head := 0, tail := 0, write_pending := False\<rparr>"

definition write_buffer_has_data :: "write_buffer \<Rightarrow> bool" where
  "write_buffer_has_data wb \<longleftrightarrow> head wb > tail wb"

definition write_buffer_is_busy :: "write_buffer \<Rightarrow> bool" where
  "write_buffer_is_busy wb \<longleftrightarrow> write_pending wb"

definition write_buffer_set_pending :: "bool \<Rightarrow> write_buffer \<Rightarrow> write_buffer" where
  "write_buffer_set_pending p wb = wb\<lparr>write_pending := p\<rparr>"

definition write_buffer_size :: "write_buffer \<Rightarrow> nat" where
  "write_buffer_size wb = head wb - tail wb"

definition write_buffer_is_full :: "write_buffer \<Rightarrow> bool" where
  "write_buffer_is_full wb \<longleftrightarrow> head wb - tail wb \<ge> WRITE_BUFFER_MAX_SIZE"

definition grow_to :: "nat \<Rightarrow> memory \<Rightarrow> write_buffer \<Rightarrow> write_buffer" where
  \<comment> \<open>after a successful \<open>realloc\<close>: the old bytes, at the new address\<close>
  "grow_to new_cap m wb = (case m of (a, g) \<Rightarrow>
     wb\<lparr>buffer := buffer wb @ map g [length (buffer wb)..<new_cap], buf_addr := a, capacity := new_cap\<rparr>)"

definition store_bytes :: "string \<Rightarrow> write_buffer \<Rightarrow> write_buffer" where
  \<comment> \<open>\<open>memcpy\<close> at \<open>head\<close>, then \<open>head\<close> moves on\<close>
  "store_bytes data wb =
     wb\<lparr>buffer := take (head wb) (buffer wb) @ data @ drop (head wb + length data) (buffer wb),
        head := head wb + length data\<rparr>"

definition compact :: "write_buffer \<Rightarrow> write_buffer" where
  \<comment> \<open>\<open>memmove\<close> of the pending bytes to the start\<close>
  "compact wb = (let pending = head wb - tail wb in
     wb\<lparr>buffer := take pending (drop (tail wb) (buffer wb)) @ drop pending (buffer wb),
        head := pending, tail := 0\<rparr>)"

definition write_buffer_append ::
    "(nat \<Rightarrow> nat \<Rightarrow> memory option) \<Rightarrow> string \<Rightarrow> write_buffer \<Rightarrow> int \<times> write_buffer" where
  "write_buffer_append realloc data wb =
     (let len = length data; pending = head wb - tail wb in
      if pending + len > WRITE_BUFFER_MAX_SIZE then (-2, wb)
      else
        let space_at_end = capacity wb - head wb in
        if len > space_at_end then
          if write_pending wb then
            let c1 = capacity wb * 2;
                c2 = (if c1 > WRITE_BUFFER_MAX_SIZE then WRITE_BUFFER_MAX_SIZE else c1);
                new_cap = (if c2 < head wb + len then head wb + len + WRITE_BUFFER_DEFAULT_SIZE else c2)
            in if new_cap > WRITE_BUFFER_MAX_SIZE then (-2, wb)
               else (case realloc (buf_addr wb) new_cap of
                       None \<Rightarrow> (-1, wb)
                     | Some m \<Rightarrow> (0, store_bytes data (grow_to new_cap m wb)))
          else
            let wb1 = compact wb in
            if pending + len > capacity wb1 then
              let c1 = capacity wb1 * 2;
                  new_cap = (if c1 < pending + len then pending + len else c1)
              in if new_cap > WRITE_BUFFER_MAX_SIZE then (-2, wb1)
                 else (case realloc (buf_addr wb1) new_cap of
                         None \<Rightarrow> (-1, wb1)
                       | Some m \<Rightarrow> (0, store_bytes data (grow_to new_cap m wb1)))
            else (0, store_bytes data wb1)
        else (0, store_bytes data wb))"

definition write_buffer_consume :: "nat \<Rightarrow> write_buffer \<Rightarrow> nat \<times> write_buffer" where
  "write_buffer_consume n wb =
     (let pending = head wb - tail wb;
          bytes = (if n > pending then pending else n);
          wb1 = wb\<lparr>tail := tail wb + bytes, bytes_written := bytes_written wb + bytes\<rparr>
      in (bytes, if tail wb1 = head wb1 then wb1\<lparr>head := 0, tail := 0\<rparr> else wb1))"

definition write_buffer_get_next :: "write_buffer \<Rightarrow> string option" where
  "write_buffer_get_next wb =
     (let pending = head wb - tail wb in
      if pending = 0 then None else Some (take pending (drop (tail wb) (buffer wb))))"

section \<open>Invariant and abstraction\<close>

definition wb_ok :: "write_buffer \<Rightarrow> bool" where
  "wb_ok wb \<longleftrightarrow> tail wb \<le> head wb \<and> head wb \<le> capacity wb \<and> length (buffer wb) = capacity wb
     \<and> capacity wb \<le> WRITE_BUFFER_MAX_SIZE"

text \<open>The abstract value: the bytes accepted and not yet written.\<close>

definition wb_content :: "write_buffer \<Rightarrow> string" where
  "wb_content wb = take (head wb - tail wb) (drop (tail wb) (buffer wb))"

lemma wb_content_length: "wb_ok wb \<Longrightarrow> length (wb_content wb) = head wb - tail wb"
  by (auto simp: wb_ok_def wb_content_def min_def)

lemma get_next_content:
  "wb_ok wb \<Longrightarrow> write_buffer_get_next wb = (if wb_content wb = [] then None else Some (wb_content wb))"
  by (auto simp: write_buffer_get_next_def wb_content_def wb_ok_def Let_def)

lemma has_data_content: "wb_ok wb \<Longrightarrow> write_buffer_has_data wb \<longleftrightarrow> wb_content wb \<noteq> []"
  by (auto simp: write_buffer_has_data_def wb_content_def wb_ok_def)

lemma init_ok:
  "write_buffer_init_sized malloc cap = Some wb \<Longrightarrow> cap \<le> WRITE_BUFFER_MAX_SIZE
     \<Longrightarrow> wb_ok wb \<and> wb_content wb = []"
  by (auto simp: write_buffer_init_sized_def wb_ok_def wb_content_def split: option.splits)

text \<open>The three steps an append is made of.\<close>

lemma wb_content_alt: "wb_content wb = drop (tail wb) (take (head wb) (buffer wb))"
  by (simp add: wb_content_def drop_take)

lemma store_bytes_content:
  assumes "wb_ok wb"
  shows "wb_content (store_bytes data wb) = wb_content wb @ data"
proof -
  have l: "length (take (head wb) (buffer wb)) = head wb" "tail wb \<le> head wb"
    using assms by (auto simp: wb_ok_def)
  have "take (head wb + length data) (buffer (store_bytes data wb)) = take (head wb) (buffer wb) @ data"
    using l by (simp add: store_bytes_def)
  then have "wb_content (store_bytes data wb) = drop (tail wb) (take (head wb) (buffer wb) @ data)"
    by (simp add: wb_content_alt store_bytes_def)
  also have "\<dots> = wb_content wb @ data" using l by (simp add: wb_content_alt)
  finally show ?thesis .
qed

lemma store_bytes_spec:
  assumes "wb_ok wb" "length data \<le> capacity wb - head wb"
  shows "wb_ok (store_bytes data wb)"
    and "wb_content (store_bytes data wb) = wb_content wb @ data"
    and "take (head wb) (buffer (store_bytes data wb)) = take (head wb) (buffer wb)"
    and "tail (store_bytes data wb) = tail wb" "buf_addr (store_bytes data wb) = buf_addr wb"
    "write_pending (store_bytes data wb) = write_pending wb"
  using assms store_bytes_content [OF assms(1)]
  by (auto simp: wb_ok_def store_bytes_def)

lemma compact_spec:
  assumes "wb_ok wb"
  shows "wb_ok (compact wb)" "wb_content (compact wb) = wb_content wb"
    and "head (compact wb) = head wb - tail wb" "tail (compact wb) = 0"
    and "capacity (compact wb) = capacity wb" "buf_addr (compact wb) = buf_addr wb"
    and "write_pending (compact wb) = write_pending wb"
  using assms by (auto simp: wb_ok_def compact_def wb_content_def Let_def)

lemma grow_to_spec:
  assumes "wb_ok wb" "capacity wb \<le> n" "n \<le> WRITE_BUFFER_MAX_SIZE"
  shows "wb_ok (grow_to n m wb)" "wb_content (grow_to n m wb) = wb_content wb"
    and "head (grow_to n m wb) = head wb" "tail (grow_to n m wb) = tail wb"
    and "capacity (grow_to n m wb) = n" "buf_addr (grow_to n m wb) = fst m"
    and "take (head wb) (buffer (grow_to n m wb)) = take (head wb) (buffer wb)"
    and "write_pending (grow_to n m wb) = write_pending wb"
  using assms by (auto simp: wb_ok_def grow_to_def wb_content_def split: prod.split)

text \<open>An append, on every branch.\<close>

lemma append_spec:
  assumes ok: "wb_ok wb" and a: "write_buffer_append realloc data wb = (r, wb')"
  shows "wb_ok wb'"
    and "wb_content wb' = (if r = 0 then wb_content wb @ data else wb_content wb)"
    and "r \<in> {0, -1, -2}" "write_pending wb' = write_pending wb"
    and "write_pending wb \<Longrightarrow> tail wb' = tail wb \<and> take (head wb) (buffer wb') = take (head wb) (buffer wb)"
proof -
  let ?len = "length data" and ?p = "head wb - tail wb"
  have cap: "capacity wb \<le> WRITE_BUFFER_MAX_SIZE" using ok by (simp add: wb_ok_def)
  have "wb_ok wb' \<and> wb_content wb' = (if r = 0 then wb_content wb @ data else wb_content wb)
      \<and> r \<in> {0, -1, -2} \<and> write_pending wb' = write_pending wb
      \<and> (write_pending wb \<longrightarrow> tail wb' = tail wb \<and> take (head wb) (buffer wb') = take (head wb) (buffer wb))"
  proof (cases "?p + ?len > WRITE_BUFFER_MAX_SIZE")
    case True
    with a ok show ?thesis by (auto simp: write_buffer_append_def)
  next
    case fits: False
    show ?thesis
    proof (cases "?len > capacity wb - head wb")
      case False
      with a fits have "r = 0" "wb' = store_bytes data wb"
        by (auto simp: write_buffer_append_def)
      with False show ?thesis using store_bytes_spec [OF ok, of data] by auto
    next
      case small: True
      show ?thesis
      proof (cases "write_pending wb")
        case True
        define c2 where "c2 = (if capacity wb * 2 > WRITE_BUFFER_MAX_SIZE then WRITE_BUFFER_MAX_SIZE
            else capacity wb * 2)"
        define n where "n = (if c2 < head wb + ?len then head wb + ?len + WRITE_BUFFER_DEFAULT_SIZE else c2)"
        have n: "capacity wb \<le> n" "head wb + ?len \<le> n"
          using cap ok by (auto simp: n_def c2_def wb_ok_def)
        have d: "write_buffer_append realloc data wb =
           (if n > WRITE_BUFFER_MAX_SIZE then (-2, wb)
            else case realloc (buf_addr wb) n of None \<Rightarrow> (-1, wb)
              | Some m \<Rightarrow> (0, store_bytes data (grow_to n m wb)))"
          unfolding write_buffer_append_def Let_def n_def c2_def using fits small True by simp
        show ?thesis
        proof (cases "n > WRITE_BUFFER_MAX_SIZE \<or> realloc (buf_addr wb) n = None")
          case True
          with a ok d show ?thesis by (auto split: if_splits)
        next
          case False
          then obtain m where "r = 0" "wb' = store_bytes data (grow_to n m wb)"
            using a d by (auto split: if_splits)
          moreover note g = grow_to_spec [OF ok n(1), of m]
          moreover have "wb_ok (grow_to n m wb)" "?len \<le> capacity (grow_to n m wb) - head (grow_to n m wb)"
            using g False n by auto
          ultimately show ?thesis
            using store_bytes_spec [of "grow_to n m wb" data] False by auto
        qed
      next
        case idle: False
        let ?w = "compact wb"
        note c = compact_spec [OF ok]
        define n where "n = (if capacity wb * 2 < ?p + ?len then ?p + ?len else capacity wb * 2)"
        have n: "capacity wb \<le> n" "?p + ?len \<le> n" by (auto simp: n_def)
        have d: "write_buffer_append realloc data wb =
           (if ?p + ?len > capacity wb then
              if n > WRITE_BUFFER_MAX_SIZE then (-2, ?w)
              else case realloc (buf_addr wb) n of None \<Rightarrow> (-1, ?w)
                | Some m \<Rightarrow> (0, store_bytes data (grow_to n m ?w))
            else (0, store_bytes data ?w))"
          unfolding write_buffer_append_def Let_def n_def
          using fits small idle c by (simp cong: option.case_cong)
        show ?thesis
        proof (cases "?p + ?len > capacity wb")
          case False
          with a d have "r = 0" "wb' = store_bytes data ?w" by auto
          with False idle c show ?thesis using store_bytes_spec [OF c(1), of data] by auto
        next
          case big: True
          show ?thesis
          proof (cases "n > WRITE_BUFFER_MAX_SIZE \<or> realloc (buf_addr wb) n = None")
            case True
            with a d big idle c show ?thesis by (auto split: if_splits)
          next
            case False
            then obtain m where "r = 0" "wb' = store_bytes data (grow_to n m ?w)"
              using a d big by (auto split: if_splits)
            moreover have g: "wb_ok (grow_to n m ?w)" "wb_content (grow_to n m ?w) = wb_content wb"
              "head (grow_to n m ?w) = ?p" "capacity (grow_to n m ?w) = n"
              "write_pending (grow_to n m ?w) = write_pending wb"
              using grow_to_spec [OF c(1), of n m] n False c by auto
            ultimately show ?thesis
              using store_bytes_spec [OF g(1), of data] n idle by auto
          qed
        qed
      qed
    qed
  qed
  then show "wb_ok wb'"
    "wb_content wb' = (if r = 0 then wb_content wb @ data else wb_content wb)"
    "r \<in> {0, -1, -2}" "write_pending wb' = write_pending wb"
    "write_pending wb \<Longrightarrow> tail wb' = tail wb \<and> take (head wb) (buffer wb') = take (head wb) (buffer wb)"
    by auto
qed

lemma consume_spec:
  assumes "wb_ok wb" "write_buffer_consume n wb = (k, wb')"
  shows "wb_ok wb'" "k = min n (length (wb_content wb))" "wb_content wb' = drop k (wb_content wb)"
    and "bytes_written wb' = bytes_written wb + k" "buf_addr wb' = buf_addr wb"
  using assms wb_content_length [OF assms(1)]
  by (auto simp: write_buffer_consume_def wb_ok_def wb_content_def Let_def min_def drop_take add.commute
      split: if_splits)

section \<open>A byte queue\<close>

text \<open>The operations in the form of the queue interface.\<close>

definition wb_put :: "(nat \<Rightarrow> nat \<Rightarrow> memory option) \<Rightarrow> string \<Rightarrow> write_buffer \<Rightarrow> bool \<times> write_buffer" where
  "wb_put realloc data wb = (case write_buffer_append realloc data wb of (r, wb') \<Rightarrow> (r = 0, wb'))"

text \<open>A write of the next bytes of which the kernel took \<open>n\<close>: the bytes written and the buffer after.\<close>

definition wb_write :: "nat \<Rightarrow> write_buffer \<Rightarrow> string \<times> write_buffer" where
  "wb_write n wb =
     (case write_buffer_get_next wb of
        None \<Rightarrow> ([], wb)
      | Some data \<Rightarrow> (take n data, snd (write_buffer_consume n wb)))"

interpretation wbq: fifo "wb_put realloc" wb_write wb_content wb_ok
proof
  fix q :: write_buffer and xs b q'
  assume q: "wb_ok q" "wb_put realloc xs q = (b, q')"
  obtain r w where r: "write_buffer_append realloc xs q = (r, w)" by fastforce
  show "wb_content q' = (if b then wb_content q @ xs else wb_content q)" "wb_ok q'"
    using q r append_spec [OF q(1) r] by (auto simp: wb_put_def)
next
  fix q :: write_buffer and n ys q'
  assume q: "wb_ok q" "wb_write n q = (ys, q')"
  obtain k w where k: "write_buffer_consume n q = (k, w)" by fastforce
  show "wb_content q = ys @ wb_content q'" "wb_ok q'"
    using q k consume_spec [OF q(1) k] get_next_content [OF q(1)]
    by (auto simp: wb_write_def min_def split: if_splits)
qed

section \<open>The protocol of asynchronous writes\<close>

text \<open>
  How the daemon drives a buffer: it appends at any time (each append with whatever \<open>realloc\<close>
  answers then), starts a write of all that is pending when none is in flight, and later learns how
  many bytes the kernel took. The state adds the bytes in flight, all that was accepted and all that
  was written.
\<close>

datatype wb_op = Append string "memory option" | Start_write | Complete nat

record wb_state =
  wbuf :: write_buffer
  inflight :: "string option"
  accepted :: string
  written :: string

fun wb_step :: "wb_op \<Rightarrow> wb_state \<Rightarrow> wb_state" where
  "wb_step (Append data m) s =
     (case wb_put (\<lambda>_ _. m) data (wbuf s) of (taken, wb') \<Rightarrow>
        s\<lparr>wbuf := wb', accepted := accepted s @ (if taken then data else [])\<rparr>)"
| "wb_step Start_write s =
     (if write_buffer_has_data (wbuf s) \<and> \<not> write_buffer_is_busy (wbuf s)
      then s\<lparr>wbuf := write_buffer_set_pending True (wbuf s), inflight := write_buffer_get_next (wbuf s)\<rparr>
      else s)"
| "wb_step (Complete n) s =
     (case inflight s of
        None \<Rightarrow> s
      | Some data \<Rightarrow>
          let k = min n (length data) in
          s\<lparr>wbuf := write_buffer_set_pending False (snd (write_buffer_consume k (wbuf s))),
            inflight := None, written := written s @ take k data\<rparr>)"

definition wb_inv :: "wb_state \<Rightarrow> bool" where
  "wb_inv s \<longleftrightarrow> wb_ok (wbuf s) \<and> accepted s = written s @ wb_content (wbuf s)
     \<and> (write_pending (wbuf s) \<longleftrightarrow> inflight s \<noteq> None)
     \<and> (\<forall>data. inflight s = Some data \<longrightarrow> has_prefix data (wb_content (wbuf s)))"

lemma set_pending_frame [simp]:
  "wb_ok (write_buffer_set_pending b wb) = wb_ok wb"
  "wb_content (write_buffer_set_pending b wb) = wb_content wb"
  "write_pending (write_buffer_set_pending b wb) = b"
  by (simp_all add: write_buffer_set_pending_def wb_ok_def wb_content_def)

lemma wb_put_pending:
  "wb_ok wb \<Longrightarrow> wb_put realloc data wb = (b, wb') \<Longrightarrow> write_pending wb' = write_pending wb"
  by (auto simp: wb_put_def append_spec(4) split: prod.splits)

lemma wb_step_append:
  assumes "wb_inv s"
  shows "wb_inv (wb_step (Append data m) s)"
proof -
  obtain b wb' where p: "wb_put (\<lambda>_ _. m) data (wbuf s) = (b, wb')" by fastforce
  have ok: "wb_ok (wbuf s)" using assms by (simp add: wb_inv_def)
  note c = wbq.put_content [OF ok p] and k = wbq.put_ok [OF ok p] and w = wb_put_pending [OF ok p]
  have "has_prefix d (wb_content wb')" if "has_prefix d (wb_content (wbuf s))" for d
    using that c by (auto simp: has_prefix_iff)
  then show ?thesis using assms c k w by (auto simp: wb_inv_def p)
qed

lemma wb_step_complete:
  assumes "wb_inv s"
  shows "wb_inv (wb_step (Complete n) s)"
proof (cases "inflight s")
  case None
  with assms show ?thesis by simp
next
  case (Some data)
  then obtain rest where c: "wb_content (wbuf s) = data @ rest"
    using assms by (auto simp: wb_inv_def has_prefix_iff)
  have ok: "wb_ok (wbuf s)" using assms by (simp add: wb_inv_def)
  let ?k = "min n (length data)"
  obtain k wb' where w: "write_buffer_consume ?k (wbuf s) = (k, wb')" by fastforce
  note sp = consume_spec [OF ok w]
  have "k = ?k" using sp(2) c by simp
  then have "wb_content wb' = drop ?k data @ rest" using sp(3) c by simp
  moreover have "data = take ?k data @ drop ?k data" by simp
  ultimately have "data @ rest = take ?k data @ wb_content wb'" by (metis append.assoc)
  then show ?thesis
    using assms sp(1) c Some by (simp add: wb_inv_def w Let_def)
qed

interpretation wbm: invariant_machine wb_step wb_inv
proof
  fix s op
  assume s: "wb_inv s"
  show "wb_inv (wb_step op s)"
  proof (cases op)
    case (Append data m)
    with wb_step_append [OF s] show ?thesis by simp
  next
    case Start_write
    have "wb_ok (wbuf s)" using s by (simp add: wb_inv_def)
    from has_data_content [OF this] get_next_content [OF this] s show ?thesis
      by (auto simp: Start_write wb_inv_def has_prefix_def)
  next
    case (Complete n)
    with wb_step_complete [OF s] show ?thesis by simp
  qed
qed

definition wb_start :: "write_buffer \<Rightarrow> wb_state" where
  "wb_start wb = \<lparr>wbuf = wb, inflight = None, accepted = [], written = []\<rparr>"

lemma wb_start_inv: "write_buffer_init malloc = Some wb \<Longrightarrow> wb_inv (wb_start wb)"
  using init_ok [of malloc WRITE_BUFFER_DEFAULT_SIZE wb]
  by (auto simp: wb_inv_def wb_start_def write_buffer_init_def write_buffer_init_sized_def
      WRITE_BUFFER_DEFAULT_SIZE_def WRITE_BUFFER_MAX_SIZE_def split: option.splits)

end
