(* ===== verification/Daemon_Types.thy ===== *)
theory Daemon_Types
  imports Write_Buffer
begin

text \<open>
  The types of the io_uring daemon (examples/streaming-daemon-uring/daemon.h): connection states,
  operation types, the connection and the daemon context. A pointer to a connection is its index in
  the array; a pointer into the handoff buffer is an offset. Time stamps and the timeout spec of a
  linked timeout, which no decision of the code reads, are left out; the descriptors the process has
  open are part of the context, so that a close can be seen.
\<close>

datatype conn_state =
    CONN_STATE_UNUSED
  | CONN_STATE_ACCEPTING
  | CONN_STATE_RECEIVING_FD
  | CONN_STATE_PARSING
  | CONN_STATE_LLM_QUEUED
  | CONN_STATE_LLM_PENDING
  | CONN_STATE_CURL_PENDING
  | CONN_STATE_CURL_ACTIVE
  | CONN_STATE_STREAMING
  | CONN_STATE_STREAMED
  | CONN_STATE_CLOSING

datatype op_type =
    OP_ACCEPT | OP_RECV_FD | OP_WRITE | OP_TIMEOUT | OP_CANCEL | OP_EVENTFD
  | OP_CURL_POLL | OP_CURL_TIMEOUT | OP_POLL_CANCEL

definition HANDOFF_TIER1_SIZE :: nat where "HANDOFF_TIER1_SIZE = 4096"
definition HANDOFF_TIER2_SIZE :: nat where "HANDOFF_TIER2_SIZE = 16384"
definition HANDOFF_TIER3_SIZE :: nat where "HANDOFF_TIER3_SIZE = 65536"
definition MAX_POOL_SIZE :: int where "MAX_POOL_SIZE = 64"

record handoff_data =
  user_id :: int
  prompt :: "nat option" \<comment> \<open>offset into the handoff buffer\<close>
  model :: "nat option"
  max_tokens :: int

definition empty_handoff_data :: handoff_data where
  "empty_handoff_data = \<lparr>user_id = 0, prompt = None, model = None, max_tokens = 0\<rparr>"

record connection =
  conn_id :: nat
  state :: conn_state
  unix_fd :: int
  client_fd :: int
  handoff_buf :: "string option"
  handoff_len :: nat
  handoff_cap :: nat
  hdata :: handoff_data
  stream_index :: int
  bytes_sent :: nat
  use_llm_response :: bool
  llm_response_pos :: nat
  write_buf :: "string option"
  write_len :: nat
  write_offset :: nat
  async_write_buf :: "write_buffer option"
  curl_easy :: "nat option"
  sse_line_buf :: "string option"
  sse_line_len :: nat
  sse_line_cap :: nat
  next_free :: "nat option"
  dirty_next :: "nat option"
  on_dirty_list :: bool

record daemon_ctx =
  socket_path :: string
  connections :: "connection list"
  free_list :: "nat option"
  max_connections :: int
  active_connections :: int
  dirty_head :: "nat option"
  dirty_tail :: "nat option"
  pool_size :: int
  use_curl_multi :: bool
  handoff_timeout_ms :: int
  write_timeout_ms :: int
  shutdown_timeout_s :: int
  message_delay_ms :: int
  socket_mode :: int
  benchmark_mode :: bool
  use_thread_pool :: bool
  use_sqpoll :: bool
  metrics_port :: int
  shutdown_requested :: bool
  total_started :: nat
  total_completed :: nat
  total_failed :: nat
  total_bytes :: nat
  peak_connections :: int
  d_fds :: "int list" \<comment> \<open>descriptors open in the process\<close>

definition c_string_at :: "string \<Rightarrow> nat \<Rightarrow> string" where
  \<comment> \<open>the C string at an offset of a buffer\<close>
  "c_string_at b off = takeWhile (\<lambda>c. c \<noteq> NUL) (drop off b)"

text \<open>\<open>calloc\<close> of the array: a connection with every field zero, before its initialisation.\<close>

definition zero_connection :: connection where
  "zero_connection = \<lparr>conn_id = 0, state = CONN_STATE_UNUSED, unix_fd = 0, client_fd = 0,
     handoff_buf = None, handoff_len = 0, handoff_cap = 0, hdata = empty_handoff_data,
     stream_index = 0, bytes_sent = 0, use_llm_response = False, llm_response_pos = 0,
     write_buf = None, write_len = 0, write_offset = 0, async_write_buf = None, curl_easy = None,
     sse_line_buf = None, sse_line_len = 0, sse_line_cap = 0, next_free = None,
     dirty_next = None, on_dirty_list = False\<rparr>"

section \<open>The context at the start\<close>

definition DEFAULT_SOCKET_PATH :: string where "DEFAULT_SOCKET_PATH = ''/run/streaming-daemon.sock''"
definition DEFAULT_MAX_CONNECTIONS :: int where "DEFAULT_MAX_CONNECTIONS = 10000"
definition DEFAULT_POOL_SIZE :: int where "DEFAULT_POOL_SIZE = 8"

definition daemon_init :: "bool \<Rightarrow> daemon_ctx" where
  \<comment> \<open>the argument: whether the daemon is built with \<open>BACKEND_OPENAI\<close>; no descriptor is open\<close>
  "daemon_init openai = \<lparr>socket_path = DEFAULT_SOCKET_PATH, connections = [], free_list = None,
     max_connections = DEFAULT_MAX_CONNECTIONS, active_connections = 0,
     dirty_head = None, dirty_tail = None, pool_size = DEFAULT_POOL_SIZE, use_curl_multi = openai,
     handoff_timeout_ms = 5000, write_timeout_ms = 30000, shutdown_timeout_s = 120,
     message_delay_ms = 50, socket_mode = 432, benchmark_mode = False, use_thread_pool = False,
     use_sqpoll = False, metrics_port = 0, shutdown_requested = False,
     total_started = 0, total_completed = 0, total_failed = 0, total_bytes = 0,
     peak_connections = 0, d_fds = []\<rparr>"

section \<open>Updating one connection of the array\<close>

definition conn_at :: "daemon_ctx \<Rightarrow> nat \<Rightarrow> connection" where
  "conn_at ctx i = connections ctx ! i"

definition upd_conn :: "nat \<Rightarrow> (connection \<Rightarrow> connection) \<Rightarrow> daemon_ctx \<Rightarrow> daemon_ctx" where
  "upd_conn i f ctx = ctx\<lparr>connections := (connections ctx)[i := f (connections ctx ! i)]\<rparr>"

lemma upd_conn_fields [simp]:
  "length (connections (upd_conn i f ctx)) = length (connections ctx)"
  "free_list (upd_conn i f ctx) = free_list ctx"
  "active_connections (upd_conn i f ctx) = active_connections ctx"
  "peak_connections (upd_conn i f ctx) = peak_connections ctx"
  "max_connections (upd_conn i f ctx) = max_connections ctx"
  "dirty_head (upd_conn i f ctx) = dirty_head ctx"
  "dirty_tail (upd_conn i f ctx) = dirty_tail ctx"
  "d_fds (upd_conn i f ctx) = d_fds ctx"
  by (simp_all add: upd_conn_def)

lemma conn_at_upd:
  "j < length (connections ctx) \<Longrightarrow> conn_at (upd_conn i f ctx) j = (if i = j then f (conn_at ctx j) else conn_at ctx j)"
  by (simp add: conn_at_def upd_conn_def)

lemma conn_at_upd_same [simp]:
  "i < length (connections ctx) \<Longrightarrow> conn_at (upd_conn i f ctx) i = f (conn_at ctx i)"
  by (simp add: conn_at_upd)

lemma conn_at_upd_other [simp]: "i \<noteq> j \<Longrightarrow> conn_at (upd_conn i f ctx) j = conn_at ctx j"
  by (simp add: conn_at_def upd_conn_def)

lemma conn_at_frame [simp]:
  "conn_at (ctx\<lparr>free_list := v\<rparr>) = conn_at ctx"
  "conn_at (ctx\<lparr>active_connections := n\<rparr>) = conn_at ctx"
  "conn_at (ctx\<lparr>peak_connections := n\<rparr>) = conn_at ctx"
  "conn_at (ctx\<lparr>dirty_head := v\<rparr>) = conn_at ctx"
  "conn_at (ctx\<lparr>dirty_tail := v\<rparr>) = conn_at ctx"
  "conn_at (ctx\<lparr>d_fds := fs\<rparr>) = conn_at ctx"
  by (simp_all add: conn_at_def fun_eq_iff)

end
