(* ===== verification/Linked_List.thy ===== *)
theory Linked_List
  imports Prelude
begin

text \<open>
  Intrusive singly linked lists: the elements are cells of a store, each with a link to the next
  one. The daemon threads two such lists through its connections (the free list and the dirty list)
  and one through the work items of its thread pool; each is an interpretation of \<open>link_field\<close>.
\<close>

section \<open>Chains\<close>

fun chain :: "(nat \<Rightarrow> nat option) \<Rightarrow> nat option \<Rightarrow> nat list \<Rightarrow> bool" where
  "chain nxt s [] \<longleftrightarrow> s = None"
| "chain nxt s (x # xs) \<longleftrightarrow> s = Some x \<and> chain nxt (nxt x) xs"

lemma chain_unique: "chain nxt s xs \<Longrightarrow> chain nxt s ys \<Longrightarrow> xs = ys"
proof (induction xs arbitrary: s ys)
  case Nil
  then show ?case by (cases ys) auto
next
  case (Cons x xs)
  then show ?case by (cases ys) auto
qed

lemma chain_cong: "(\<And>x. x \<in> set xs \<Longrightarrow> nxt x = nxt' x) \<Longrightarrow> chain nxt s xs = chain nxt' s xs"
  by (induction xs arbitrary: s) auto

lemma chain_fun_upd: "y \<notin> set xs \<Longrightarrow> chain (nxt(y := v)) s xs = chain nxt s xs"
  by (rule chain_cong) auto

lemma chain_start: "chain nxt s xs \<Longrightarrow> s = (if xs = [] then None else Some (hd xs))"
  by (cases xs) auto

lemma chain_Some: "chain nxt (Some x) xs \<longleftrightarrow> (\<exists>ys. xs = x # ys \<and> chain nxt (nxt x) ys)"
  by (cases xs) auto

text \<open>A chain split at an element: the links before, at and after it.\<close>

lemma chain_append_last:
  assumes "chain nxt s xs" "xs \<noteq> []" "distinct xs" "y \<notin> set xs"
  shows "chain (nxt(last xs := Some y, y := None)) s (xs @ [y])"
  using assms
proof (induction xs arbitrary: s)
  case Nil
  then show ?case by simp
next
  case (Cons x xs)
  show ?case
  proof (cases "xs = []")
    case True
    with Cons.prems show ?thesis by auto
  next
    case False
    then have l: "last xs \<in> set xs" by simp
    then have "x \<noteq> last xs" "y \<noteq> last xs" using Cons.prems by auto
    moreover have "chain (nxt(last xs := Some y, y := None)) (nxt x) (xs @ [y])"
      using Cons.IH [of "nxt x"] Cons.prems False by (simp del: fun_upd_apply)
    ultimately show ?thesis using Cons.prems False by (simp del: fun_upd_apply add: fun_upd_other)
  qed
qed

lemma chain_remove_after:
  assumes "chain nxt s (us @ p # x # vs)" "distinct (us @ p # x # vs)"
  shows "chain (nxt(p := nxt x)) s (us @ p # vs)"
  using assms
proof (induction us arbitrary: s)
  case Nil
  then have "chain nxt (nxt x) vs" "p \<notin> set vs" by auto
  then have "chain (nxt(p := nxt x)) (nxt x) vs" by (simp add: chain_fun_upd)
  with Nil show ?case by (simp del: fun_upd_apply add: fun_upd_same)
next
  case (Cons u us)
  then have "chain (nxt(p := nxt x)) (nxt u) (us @ p # vs)" "u \<noteq> p"
    by (auto simp del: fun_upd_apply)
  with Cons.prems show ?case by (simp del: fun_upd_apply add: fun_upd_other)
qed

lemma chain_split_next:
  "chain nxt s (us @ x # vs) \<Longrightarrow> chain nxt (nxt x) vs"
  by (induction us arbitrary: s) auto

section \<open>The interface\<close>

text \<open>
  A field of a cell that holds a link. \<open>upd\<close> stores a link in one cell of the store, and reading
  after it gives what the function update says.
\<close>

locale link_field =
  fixes link :: "'s \<Rightarrow> nat \<Rightarrow> nat option"
    and set_link :: "nat \<Rightarrow> nat option \<Rightarrow> 's \<Rightarrow> 's"
    and cells :: "'s \<Rightarrow> nat set"
  assumes link_set: "x \<in> cells s \<Longrightarrow> link (set_link x v s) = (link s)(x := v)"
    and cells_set: "cells (set_link x v s) = cells s"
begin

lemma push_chain:
  assumes "chain (link s) h xs" "x \<in> cells s" "x \<notin> set xs"
  shows "chain (link (set_link x h s)) (Some x) (x # xs)"
  using assms by (simp add: link_set chain_fun_upd)

lemma pop_chain:
  assumes "chain (link s) (Some x) (x # xs)" "x \<in> cells s" "distinct (x # xs)"
  shows "chain (link (set_link x v s)) (link s x) xs"
  using assms by (simp add: link_set chain_fun_upd)

lemma append_chain:
  assumes "chain (link s) h xs" "xs \<noteq> []" "distinct (xs @ [y])" "insert y (set xs) \<subseteq> cells s"
  shows "chain (link (set_link (last xs) (Some y) (set_link y None s))) h (xs @ [y])"
proof -
  have l: "last xs \<in> set xs" using assms(2) by simp
  then have ly: "last xs \<noteq> y" "last xs \<in> cells s" "y \<in> cells s" using assms by auto
  have "link (set_link (last xs) (Some y) (set_link y None s)) = (link s)(y := None, last xs := Some y)"
    using ly by (simp add: link_set cells_set)
  also have "\<dots> = (link s)(last xs := Some y, y := None)"
    using ly by (simp add: fun_upd_twist)
  finally show ?thesis using chain_append_last [OF assms(1,2)] assms(3) by simp
qed

lemma unlink_chain:
  assumes "chain (link s) h (us @ p # x # vs)" "distinct (us @ p # x # vs)" "p \<in> cells s"
  shows "chain (link (set_link p (link s x) s)) h (us @ p # vs)"
  using assms by (simp add: link_set chain_remove_after)

lemma unlinked_clear:
  assumes "chain (link s) h xs" "x \<in> cells s" "x \<notin> set xs"
  shows "chain (link (set_link x None s)) h xs"
  using assms by (simp add: link_set chain_fun_upd)

end

end
