(* ===== verification/Connection_Pool.thy ===== *)
theory Connection_Pool
  imports Daemon_Types Linked_List
begin

text \<open>
  The pool of connections of the io_uring daemon (connection.c): a fixed array whose unused elements
  are threaded on a free list. \<open>malloc\<close> is an argument: the indeterminate bytes of the new memory,
  or a failure.
\<close>

section \<open>Operations\<close>

definition init_connection :: "nat \<Rightarrow> nat option \<Rightarrow> connection \<Rightarrow> connection" where
  "init_connection i free c =
     c\<lparr>conn_id := i, state := CONN_STATE_UNUSED, unix_fd := -1, client_fd := -1, next_free := free\<rparr>"

fun init_loop :: "nat \<Rightarrow> daemon_ctx \<Rightarrow> daemon_ctx" where
  \<comment> \<open>\<open>for (i = max - 1; i >= 0; i--)\<close>, the argument is how many are left\<close>
  "init_loop 0 ctx = ctx"
| "init_loop (Suc i) ctx =
     init_loop i ((upd_conn i (init_connection i (free_list ctx)) ctx)\<lparr>free_list := Some i\<rparr>)"

definition conn_pool_init :: "bool \<Rightarrow> daemon_ctx \<Rightarrow> daemon_ctx option" where
  \<comment> \<open>the first argument: whether \<open>calloc\<close> succeeds\<close>
  "conn_pool_init calloc_ok ctx =
     (if \<not> calloc_ok then None
      else
        let n = nat (max_connections ctx);
            ctx1 = ctx\<lparr>connections := replicate n zero_connection, free_list := None\<rparr>
        in Some ((init_loop n ctx1)\<lparr>active_connections := 0\<rparr>))"

definition close_fd :: "int \<Rightarrow> daemon_ctx \<Rightarrow> daemon_ctx" where
  "close_fd fd ctx = ctx\<lparr>d_fds := removeAll fd (d_fds ctx)\<rparr>"

definition conn_close_fds :: "nat \<Rightarrow> daemon_ctx \<Rightarrow> daemon_ctx" where
  "conn_close_fds i ctx =
     (let ctx1 = (if unix_fd (conn_at ctx i) \<ge> 0
                  then upd_conn i (unix_fd_update (\<lambda>_. -1)) (close_fd (unix_fd (conn_at ctx i)) ctx)
                  else ctx)
      in if client_fd (conn_at ctx1 i) \<ge> 0
         then upd_conn i (client_fd_update (\<lambda>_. -1)) (close_fd (client_fd (conn_at ctx1 i)) ctx1)
         else ctx1)"

definition conn_reset :: "connection \<Rightarrow> connection" where
  "conn_reset c =
     c\<lparr>state := CONN_STATE_UNUSED, unix_fd := -1, client_fd := -1,
       handoff_len := 0, hdata := empty_handoff_data,
       stream_index := 0, bytes_sent := 0, use_llm_response := False, llm_response_pos := 0,
       write_buf := None, write_len := 0, write_offset := 0,
       async_write_buf := None, curl_easy := None,
       sse_line_buf := None, sse_line_len := 0, sse_line_cap := 0,
       dirty_next := None, on_dirty_list := False\<rparr>"

definition attach_handoff_buf :: "(nat \<Rightarrow> char) option \<Rightarrow> connection \<Rightarrow> connection option" where
  \<comment> \<open>reuse the buffer of the previous use, or allocate one of the first tier\<close>
  "attach_handoff_buf malloc c =
     (case handoff_buf c of
        Some _ \<Rightarrow> Some c
      | None \<Rightarrow> (case malloc of
            None \<Rightarrow> None
          | Some g \<Rightarrow> Some (c\<lparr>handoff_buf := Some (map g [0..<HANDOFF_TIER1_SIZE]),
                              handoff_cap := HANDOFF_TIER1_SIZE\<rparr>)))"

definition conn_alloc :: "(nat \<Rightarrow> char) option \<Rightarrow> daemon_ctx \<Rightarrow> nat option \<times> daemon_ctx" where
  "conn_alloc malloc ctx =
     (case free_list ctx of
        None \<Rightarrow> (None, ctx)
      | Some i \<Rightarrow>
          let ctx1 = upd_conn i (next_free_update (\<lambda>_. None)) (ctx\<lparr>free_list := next_free (conn_at ctx i)\<rparr>) in
          (case attach_handoff_buf malloc (conn_at ctx1 i) of
             None \<Rightarrow>
               (None, (upd_conn i (next_free_update (\<lambda>_. free_list ctx1)) ctx1)\<lparr>free_list := Some i\<rparr>)
           | Some c \<Rightarrow>
               let ctx2 = upd_conn i (\<lambda>_. c) ctx1;
                   active = active_connections ctx2 + 1
               in (Some i, ctx2\<lparr>active_connections := active,
                                peak_connections := max (peak_connections ctx2) active\<rparr>)))"

definition conn_grow_handoff_buf :: "(nat \<Rightarrow> char) option \<Rightarrow> connection \<Rightarrow> int \<times> connection" where
  "conn_grow_handoff_buf realloc c =
     (let grow = (\<lambda>new_cap. case realloc of
            None \<Rightarrow> (-1, c)
          | Some g \<Rightarrow> (0, c\<lparr>handoff_buf := Some (case handoff_buf c of
                 None \<Rightarrow> map g [0..<new_cap]
               | Some b \<Rightarrow> b @ map g [length b..<new_cap]),
               handoff_cap := new_cap\<rparr>))
      in if handoff_cap c < HANDOFF_TIER2_SIZE then grow HANDOFF_TIER2_SIZE
         else if handoff_cap c < HANDOFF_TIER3_SIZE then grow HANDOFF_TIER3_SIZE
         else (-1, c))"

definition conn_free :: "nat \<Rightarrow> daemon_ctx \<Rightarrow> daemon_ctx" where
  "conn_free i ctx =
     (let ctx1 = upd_conn i conn_reset (conn_close_fds i ctx);
          ctx2 = upd_conn i (next_free_update (\<lambda>_. free_list ctx1)) ctx1
      in ctx2\<lparr>free_list := Some i, active_connections := active_connections ctx2 - 1\<rparr>)"

definition conn_get :: "nat \<Rightarrow> daemon_ctx \<Rightarrow> nat option" where
  "conn_get i ctx = (if int i \<ge> max_connections ctx then None else Some i)"

definition conn_set_state :: "conn_state \<Rightarrow> nat \<Rightarrow> daemon_ctx \<Rightarrow> daemon_ctx" where
  "conn_set_state s i ctx = upd_conn i (state_update (\<lambda>_. s)) ctx"

definition conn_pool_cleanup :: "daemon_ctx \<Rightarrow> daemon_ctx" where
  "conn_pool_cleanup ctx =
     (fold conn_close_fds [0..<length (connections ctx)] ctx)\<lparr>connections := [], free_list := None\<rparr>"

section \<open>The free list is a stack\<close>

abbreviation free_link :: "daemon_ctx \<Rightarrow> nat \<Rightarrow> nat option" where
  "free_link ctx i \<equiv> next_free (conn_at ctx i)"

lemma free_link_set:
  "x < length (connections ctx) \<Longrightarrow>
     free_link (upd_conn x (next_free_update (\<lambda>_. v)) ctx) = (free_link ctx)(x := v)"
  by (auto simp: fun_eq_iff conn_at_def upd_conn_def nth_list_update)

interpretation free: link_field free_link "\<lambda>x v. upd_conn x (next_free_update (\<lambda>_. v))"
    "\<lambda>ctx. {..<length (connections ctx)}"
  by unfold_locales (simp_all add: free_link_set)

definition buf_ok :: "connection \<Rightarrow> bool" where
  "buf_ok c \<longleftrightarrow> (case handoff_buf c of None \<Rightarrow> True
     | Some b \<Rightarrow> length b = handoff_cap c
         \<and> handoff_cap c \<in> {HANDOFF_TIER1_SIZE, HANDOFF_TIER2_SIZE, HANDOFF_TIER3_SIZE})"

lemma buf_ok_frame [simp]:
  "buf_ok (conn_reset c) = buf_ok c" "buf_ok (c\<lparr>next_free := v\<rparr>) = buf_ok c"
  "buf_ok (c\<lparr>unix_fd := a, client_fd := b\<rparr>) = buf_ok c"
  by (simp_all add: buf_ok_def conn_reset_def cong: option.case_cong)

text \<open>
  \<open>pool_ok ctx fs\<close>: the free list is the stack \<open>fs\<close> of pairwise different connections, the counter
  of active connections counts the others, every connection has its index as its id.
\<close>

definition pool_ok :: "daemon_ctx \<Rightarrow> nat list \<Rightarrow> bool" where
  "pool_ok ctx fs \<longleftrightarrow>
     chain (free_link ctx) (free_list ctx) fs \<and> distinct fs
     \<and> set fs \<subseteq> {..<length (connections ctx)}
     \<and> max_connections ctx = int (length (connections ctx))
     \<and> active_connections ctx = int (length (connections ctx)) - int (length fs)
     \<and> (\<forall>i < length (connections ctx). conn_id (conn_at ctx i) = i \<and> buf_ok (conn_at ctx i))
     \<and> (\<forall>i \<in> set fs. state (conn_at ctx i) = CONN_STATE_UNUSED
          \<and> unix_fd (conn_at ctx i) = -1 \<and> client_fd (conn_at ctx i) = -1)"

lemma pool_ok_unique: "pool_ok ctx fs \<Longrightarrow> pool_ok ctx gs \<Longrightarrow> fs = gs"
  by (auto simp: pool_ok_def intro: chain_unique)

lemma pool_ok_active:
  assumes "pool_ok ctx fs"
  shows "0 \<le> active_connections ctx" "active_connections ctx \<le> max_connections ctx"
proof -
  have "length fs = card (set fs)" using assms by (simp add: pool_ok_def distinct_card)
  also have "\<dots> \<le> card {..<length (connections ctx)}"
    using assms by (intro card_mono) (auto simp: pool_ok_def)
  finally show "0 \<le> active_connections ctx" "active_connections ctx \<le> max_connections ctx"
    using assms by (auto simp: pool_ok_def)
qed

subsection \<open>Initialisation\<close>

lemma init_loop_spec:
  assumes "chain (free_link ctx) (free_list ctx) [k..<n]" "k \<le> n" "n = length (connections ctx)"
    and "\<forall>i\<in>{k..<n}. conn_id (conn_at ctx i) = i \<and> state (conn_at ctx i) = CONN_STATE_UNUSED
           \<and> unix_fd (conn_at ctx i) = -1 \<and> client_fd (conn_at ctx i) = -1"
    and "\<forall>i<n. handoff_buf (conn_at ctx i) = None"
  shows "(let ctx' = init_loop k ctx in
     chain (free_link ctx') (free_list ctx') [0..<n] \<and> length (connections ctx') = n
     \<and> max_connections ctx' = max_connections ctx
     \<and> (\<forall>i<n. conn_id (conn_at ctx' i) = i \<and> state (conn_at ctx' i) = CONN_STATE_UNUSED
           \<and> unix_fd (conn_at ctx' i) = -1 \<and> client_fd (conn_at ctx' i) = -1
           \<and> handoff_buf (conn_at ctx' i) = None))"
  using assms
proof (induction k arbitrary: ctx)
  case 0
  then show ?case by (simp add: Let_def)
next
  case (Suc k)
  define c where "c = (upd_conn k (init_connection k (free_list ctx)) ctx)\<lparr>free_list := Some k\<rparr>"
  have k: "k < length (connections ctx)" using Suc.prems by simp
  have l: "free_link c = (free_link ctx)(k := free_list ctx)"
    using k by (auto simp: c_def fun_eq_iff conn_at_def upd_conn_def init_connection_def nth_list_update)
  have f: "free_list c = Some k" "length (connections c) = length (connections ctx)"
    "max_connections c = max_connections ctx" by (simp_all add: c_def)
  have "chain (free_link c) (free_list c) [k..<n]"
    using Suc.prems(1,2) by (simp add: l f upt_conv_Cons chain_fun_upd)
  moreover have "\<forall>i\<in>{k..<n}. conn_id (conn_at c i) = i \<and> state (conn_at c i) = CONN_STATE_UNUSED
           \<and> unix_fd (conn_at c i) = -1 \<and> client_fd (conn_at c i) = -1"
    using Suc.prems k by (auto simp: c_def conn_at_upd init_connection_def)
  moreover have "\<forall>i<n. handoff_buf (conn_at c i) = None"
    using Suc.prems k by (auto simp: c_def conn_at_upd init_connection_def)
  moreover have "init_loop (Suc k) ctx = init_loop k c" by (simp add: c_def)
  ultimately show ?case
    using Suc.IH [of c] Suc.prems f by (simp add: Let_def del: init_loop.simps)
qed

lemma conn_pool_init_ok:
  assumes "conn_pool_init True ctx = Some ctx'" "0 \<le> max_connections ctx"
  shows "pool_ok ctx' [0..<nat (max_connections ctx)]"
proof -
  let ?n = "nat (max_connections ctx)"
  let ?c = "ctx\<lparr>connections := replicate ?n zero_connection, free_list := None\<rparr>"
  have b: "\<forall>i<?n. handoff_buf (conn_at ?c i) = None"
    by (simp add: conn_at_def zero_connection_def)
  note i = init_loop_spec [of ?c ?n ?n, OF _ _ _ _ b, simplified, unfolded Let_def]
  have "ctx' = (init_loop ?n ?c)\<lparr>active_connections := 0\<rparr>"
    using assms by (simp add: conn_pool_init_def Let_def)
  then show ?thesis using i assms(2) by (auto simp: pool_ok_def buf_ok_def)
qed

subsection \<open>Allocation\<close>

lemma conn_alloc_empty: "pool_ok ctx [] \<Longrightarrow> conn_alloc m ctx = (None, ctx)"
  by (simp add: pool_ok_def conn_alloc_def)

lemma attach_handoff_buf_spec:
  assumes "attach_handoff_buf m c = Some c'"
  shows "handoff_buf c' \<noteq> None" "next_free c' = next_free c" "conn_id c' = conn_id c"
    and "buf_ok c \<Longrightarrow> buf_ok c'" "state c' = state c" "dirty_next c' = dirty_next c"
    "on_dirty_list c' = on_dirty_list c"
  using assms by (auto simp: attach_handoff_buf_def buf_ok_def HANDOFF_TIER1_SIZE_def split: option.splits)

lemma conn_alloc_ok:
  assumes ok: "pool_ok ctx (x # xs)" and m: "handoff_buf (conn_at ctx x) \<noteq> None \<or> m \<noteq> None"
  shows "\<exists>ctx'. conn_alloc m ctx = (Some x, ctx') \<and> pool_ok ctx' xs
     \<and> handoff_buf (conn_at ctx' x) \<noteq> None \<and> next_free (conn_at ctx' x) = None
     \<and> peak_connections ctx' = max (peak_connections ctx) (active_connections ctx')
     \<and> (\<forall>i. i \<noteq> x \<longrightarrow> conn_at ctx' i = conn_at ctx i)
     \<and> dirty_head ctx' = dirty_head ctx \<and> d_fds ctx' = d_fds ctx"
proof -
  have x: "x < length (connections ctx)" "free_list ctx = Some x" "x \<notin> set xs"
    using ok by (auto simp: pool_ok_def)
  have ch: "chain (free_link ctx) (next_free (conn_at ctx x)) xs" using ok by (simp add: pool_ok_def)
  define ctx1 where "ctx1 = upd_conn x (next_free_update (\<lambda>_. None)) (ctx\<lparr>free_list := next_free (conn_at ctx x)\<rparr>)"
  have at1: "conn_at ctx1 x = (conn_at ctx x)\<lparr>next_free := None\<rparr>"
    using x by (simp add: ctx1_def)
  obtain c where c: "attach_handoff_buf m (conn_at ctx1 x) = Some c"
    using m at1
    by (cases "handoff_buf (conn_at ctx x)"; cases m) (auto simp: attach_handoff_buf_def)
  define ctx' where "ctx' = (upd_conn x (\<lambda>_. c) ctx1)\<lparr>active_connections := active_connections ctx + 1,
      peak_connections := max (peak_connections ctx) (active_connections ctx + 1)\<rparr>"
  have a: "conn_alloc m ctx = (Some x, ctx')"
    using x c by (simp add: conn_alloc_def ctx'_def ctx1_def Let_def)
  have at: "conn_at ctx' i = (if i = x then c else conn_at ctx i)" for i
    using x by (cases "i = x") (auto simp: ctx'_def ctx1_def)
  have rest: "length (connections ctx') = length (connections ctx)"
    "free_list ctx' = next_free (conn_at ctx x)" "max_connections ctx' = max_connections ctx"
    "active_connections ctx' = active_connections ctx + 1" "d_fds ctx' = d_fds ctx"
    "dirty_head ctx' = dirty_head ctx"
    "peak_connections ctx' = max (peak_connections ctx) (active_connections ctx')"
    by (simp_all add: ctx'_def ctx1_def)
  note sp = attach_handoff_buf_spec [OF c]
  have "buf_ok (conn_at ctx1 x)" "conn_id (conn_at ctx1 x) = x"
    using ok x by (auto simp: at1 pool_ok_def)
  then have self: "conn_id c = x" "buf_ok c" "next_free c = None" using sp at1 by auto
  have "chain (free_link ctx') (free_list ctx') xs"
    using ch x self by (subst chain_cong [where nxt' = "free_link ctx"]) (auto simp: at rest)
  then have "pool_ok ctx' xs"
    using ok x self by (auto simp: pool_ok_def rest at)
  then show ?thesis using a self sp rest by (auto simp: at)
qed

lemma conn_alloc_no_memory:
  assumes ok: "pool_ok ctx (x # xs)" and "handoff_buf (conn_at ctx x) = None"
  shows "conn_alloc None ctx = (None, ctx)"
proof -
  have "x < length (connections ctx)" "free_list ctx = Some x"
    using ok by (auto simp: pool_ok_def)
  then show ?thesis using assms(2)
    by (simp add: conn_alloc_def attach_handoff_buf_def Let_def upd_conn_def conn_at_def)
qed

subsection \<open>Release\<close>

lemma conn_close_fds_frame [simp]:
  "length (connections (conn_close_fds i ctx)) = length (connections ctx)"
  "free_list (conn_close_fds i ctx) = free_list ctx"
  "active_connections (conn_close_fds i ctx) = active_connections ctx"
  "max_connections (conn_close_fds i ctx) = max_connections ctx"
  "dirty_head (conn_close_fds i ctx) = dirty_head ctx"
  "dirty_tail (conn_close_fds i ctx) = dirty_tail ctx"
  "peak_connections (conn_close_fds i ctx) = peak_connections ctx"
  by (simp_all add: conn_close_fds_def close_fd_def Let_def)

lemma conn_close_fds_other [simp]:
  "i \<noteq> j \<Longrightarrow> conn_at (conn_close_fds i ctx) j = conn_at ctx j"
  by (auto simp: conn_close_fds_def close_fd_def Let_def)

lemma conn_close_fds_self:
  "i < length (connections ctx) \<Longrightarrow> conn_at (conn_close_fds i ctx) i =
     (conn_at ctx i)\<lparr>unix_fd := (if unix_fd (conn_at ctx i) \<ge> 0 then -1 else unix_fd (conn_at ctx i)),
        client_fd := (if client_fd (conn_at ctx i) \<ge> 0 then -1 else client_fd (conn_at ctx i))\<rparr>"
  by (simp add: conn_close_fds_def close_fd_def Let_def conn_at_upd)

lemma conn_close_fds_fds:
  "i < length (connections ctx) \<Longrightarrow> d_fds (conn_close_fds i ctx) =
     filter (\<lambda>fd. \<not> (0 \<le> fd \<and> (fd = unix_fd (conn_at ctx i) \<or> fd = client_fd (conn_at ctx i)))) (d_fds ctx)"
  by (auto simp: conn_close_fds_def close_fd_def Let_def conn_at_upd removeAll_filter_not_eq
      intro!: filter_cong)

lemma conn_reset_fields [simp]:
  "conn_id (conn_reset c) = conn_id c" "handoff_buf (conn_reset c) = handoff_buf c"
  "handoff_cap (conn_reset c) = handoff_cap c" "next_free (conn_reset c) = next_free c"
  "state (conn_reset c) = CONN_STATE_UNUSED" "unix_fd (conn_reset c) = -1"
  "client_fd (conn_reset c) = -1" "on_dirty_list (conn_reset c) = False"
  "dirty_next (conn_reset c) = None" "async_write_buf (conn_reset c) = None"
  by (simp_all add: conn_reset_def)

lemma conn_free_at:
  assumes "i < length (connections ctx)"
  shows "conn_at (conn_free i ctx) i = (conn_reset (conn_at (conn_close_fds i ctx) i))\<lparr>next_free := free_list ctx\<rparr>"
    and "j \<noteq> i \<Longrightarrow> conn_at (conn_free i ctx) j = conn_at ctx j"
  using assms by (simp_all add: conn_free_def Let_def)

lemma conn_free_fields [simp]:
  "length (connections (conn_free i ctx)) = length (connections ctx)"
  "free_list (conn_free i ctx) = Some i"
  "active_connections (conn_free i ctx) = active_connections ctx - 1"
  "max_connections (conn_free i ctx) = max_connections ctx"
  "d_fds (conn_free i ctx) = d_fds (conn_close_fds i ctx)"
  "dirty_head (conn_free i ctx) = dirty_head ctx"
  "dirty_tail (conn_free i ctx) = dirty_tail ctx"
  by (simp_all add: conn_free_def Let_def)

lemma conn_free_ok:
  assumes ok: "pool_ok ctx fs" and i: "i < length (connections ctx)" "i \<notin> set fs"
  shows "pool_ok (conn_free i ctx) (i # fs)"
proof -
  let ?c = "conn_free i ctx"
  note at = conn_free_at [OF i(1)]
  have l: "free_link ?c = (free_link ctx)(i := free_list ctx)"
    using at by (auto simp: fun_eq_iff)
  have "chain (free_link ?c) (free_list ctx) fs"
    using ok i by (simp add: l chain_fun_upd pool_ok_def)
  then have "chain (free_link ?c) (free_list ?c) (i # fs)" by (simp add: l)
  moreover have "conn_id (conn_at ?c j) = j \<and> buf_ok (conn_at ?c j)" if "j < length (connections ctx)" for j
    using that ok at i by (cases "j = i") (auto simp: pool_ok_def conn_close_fds_self)
  moreover have "state (conn_at ?c j) = CONN_STATE_UNUSED \<and> unix_fd (conn_at ?c j) = -1
      \<and> client_fd (conn_at ?c j) = -1" if "j \<in> set (i # fs)" for j
    using that ok at i by (cases "j = i") (auto simp: pool_ok_def)
  ultimately show ?thesis using ok i by (auto simp: pool_ok_def)
qed

end
