(* ===== verification/Dirty_List.thy ===== *)
theory Dirty_List
  imports Connection_Pool
begin

text \<open>
  The dirty list of the io_uring daemon (daemon.c): the connections with bytes still to be written,
  linked through \<open>dirty_next\<close> with a head and a tail pointer. The search of
  \<open>daemon_unmark_connection_dirty\<close> walks the links, and would not end on a cyclic list: it is a
  partial function, and the lemmas show that on a well-formed list it ends.
\<close>

section \<open>Operations\<close>

abbreviation dirty_link :: "daemon_ctx \<Rightarrow> nat \<Rightarrow> nat option" where
  "dirty_link ctx i \<equiv> dirty_next (conn_at ctx i)"

definition daemon_mark_connection_dirty :: "nat \<Rightarrow> daemon_ctx \<Rightarrow> daemon_ctx" where
  "daemon_mark_connection_dirty i ctx =
     (if on_dirty_list (conn_at ctx i) then ctx
      else
        let ctx1 = upd_conn i (\<lambda>c. c\<lparr>on_dirty_list := True, dirty_next := None\<rparr>) ctx in
        (case dirty_tail ctx1 of
           Some t \<Rightarrow> (upd_conn t (dirty_next_update (\<lambda>_. Some i)) ctx1)\<lparr>dirty_tail := Some i\<rparr>
         | None \<Rightarrow> ctx1\<lparr>dirty_head := Some i, dirty_tail := Some i\<rparr>))"

text \<open>The search: found with the element before, or not found; \<open>None\<close> is not returning.\<close>

partial_function (option) dirty_search ::
    "(nat \<Rightarrow> nat option) \<Rightarrow> nat \<Rightarrow> nat option \<Rightarrow> nat option \<Rightarrow> nat option option option" where
  "dirty_search nxt i prev cur =
     (if cur = None then Some None
      else if the cur = i then Some (Some prev)
      else dirty_search nxt i cur (nxt (the cur)))"

declare dirty_search.simps [code]

definition dirty_unlink :: "nat \<Rightarrow> nat option \<Rightarrow> daemon_ctx \<Rightarrow> daemon_ctx" where
  \<comment> \<open>take the element out, given the one before it\<close>
  "dirty_unlink i prev ctx =
     (let nx = dirty_link ctx i;
          ctx1 = (case prev of
             Some p \<Rightarrow> upd_conn p (dirty_next_update (\<lambda>_. nx)) ctx
           | None \<Rightarrow> ctx\<lparr>dirty_head := nx\<rparr>)
      in if dirty_tail ctx1 = Some i then ctx1\<lparr>dirty_tail := prev\<rparr> else ctx1)"

definition clear_dirty :: "nat \<Rightarrow> daemon_ctx \<Rightarrow> daemon_ctx" where
  "clear_dirty i ctx = upd_conn i (\<lambda>c. c\<lparr>on_dirty_list := False, dirty_next := None\<rparr>) ctx"

definition daemon_unmark_connection_dirty :: "nat \<Rightarrow> daemon_ctx \<Rightarrow> daemon_ctx option" where
  "daemon_unmark_connection_dirty i ctx =
     (if \<not> on_dirty_list (conn_at ctx i) then Some ctx
      else do {
        found \<leftarrow> dirty_search (dirty_link ctx) i None (dirty_head ctx);
        Some (clear_dirty i (case found of None \<Rightarrow> ctx | Some prev \<Rightarrow> dirty_unlink i prev ctx)) })"

section \<open>The dirty list is a list without repetition\<close>

lemma dirty_link_set:
  "x < length (connections ctx) \<Longrightarrow>
     dirty_link (upd_conn x (dirty_next_update (\<lambda>_. v)) ctx) = (dirty_link ctx)(x := v)"
  by (auto simp: fun_eq_iff conn_at_def upd_conn_def nth_list_update)

interpretation dirty: link_field dirty_link "\<lambda>x v. upd_conn x (dirty_next_update (\<lambda>_. v))"
    "\<lambda>ctx. {..<length (connections ctx)}"
  by unfold_locales (simp_all add: dirty_link_set)

definition dirty_ok :: "daemon_ctx \<Rightarrow> nat list \<Rightarrow> bool" where
  "dirty_ok ctx ds \<longleftrightarrow>
     chain (dirty_link ctx) (dirty_head ctx) ds \<and> distinct ds
     \<and> set ds \<subseteq> {..<length (connections ctx)}
     \<and> dirty_tail ctx = (if ds = [] then None else Some (last ds))
     \<and> (\<forall>i < length (connections ctx). on_dirty_list (conn_at ctx i) \<longleftrightarrow> i \<in> set ds)"

lemma dirty_ok_unique: "dirty_ok ctx ds \<Longrightarrow> dirty_ok ctx es \<Longrightarrow> ds = es"
  by (auto simp: dirty_ok_def intro: chain_unique)

subsection \<open>Marking\<close>

lemma mark_on_list: "dirty_ok ctx ds \<Longrightarrow> i \<in> set ds \<Longrightarrow> daemon_mark_connection_dirty i ctx = ctx"
  by (auto simp: dirty_ok_def daemon_mark_connection_dirty_def)

lemma mark_appends:
  assumes ok: "dirty_ok ctx ds" and i: "i < length (connections ctx)" "i \<notin> set ds"
  shows "dirty_ok (daemon_mark_connection_dirty i ctx) (ds @ [i])"
proof -
  define ctx1 where "ctx1 = upd_conn i (\<lambda>c. c\<lparr>on_dirty_list := True, dirty_next := None\<rparr>) ctx"
  have off: "\<not> on_dirty_list (conn_at ctx i)" using ok i by (auto simp: dirty_ok_def)
  have at1: "conn_at ctx1 j = (if j = i then (conn_at ctx i)\<lparr>on_dirty_list := True, dirty_next := None\<rparr>
      else conn_at ctx j)" for j
    using i by (cases "j = i") (auto simp: ctx1_def)
  have l1: "dirty_link ctx1 = (dirty_link ctx)(i := None)" by (auto simp: fun_eq_iff at1)
  have f1: "length (connections ctx1) = length (connections ctx)" "dirty_head ctx1 = dirty_head ctx"
    "dirty_tail ctx1 = dirty_tail ctx" by (simp_all add: ctx1_def)
  have c1: "chain (dirty_link ctx1) (dirty_head ctx) ds"
    using ok i by (simp add: l1 chain_fun_upd dirty_ok_def)
  show ?thesis
  proof (cases "ds = []")
    case True
    then have "daemon_mark_connection_dirty i ctx = ctx1\<lparr>dirty_head := Some i, dirty_tail := Some i\<rparr>"
      using ok off f1 by (simp add: daemon_mark_connection_dirty_def ctx1_def [symmetric] Let_def dirty_ok_def)
    then show ?thesis using True ok i f1 by (auto simp: dirty_ok_def at1)
  next
    case False
    let ?t = "last ds"
    have t: "?t \<in> set ds" using False by simp
    then have tl: "?t < length (connections ctx)" "?t \<noteq> i" using ok i by (auto simp: dirty_ok_def)
    define ctx2 where "ctx2 = upd_conn ?t (dirty_next_update (\<lambda>_. Some i)) ctx1"
    have m: "daemon_mark_connection_dirty i ctx = ctx2\<lparr>dirty_tail := Some i\<rparr>"
      using False ok off f1
      by (simp add: daemon_mark_connection_dirty_def ctx1_def [symmetric] ctx2_def Let_def dirty_ok_def)
    have l2: "dirty_link ctx2 = (dirty_link ctx1)(?t := Some i)"
      using tl f1 unfolding ctx2_def by (intro dirty_link_set) simp
    have "dirty_link ctx2 = (dirty_link ctx)(?t := Some i, i := None)"
      unfolding l2 l1 using tl by (simp add: fun_upd_twist)
    moreover have "chain ((dirty_link ctx)(?t := Some i, i := None)) (dirty_head ctx) (ds @ [i])"
      using ok i False by (intro chain_append_last) (auto simp: dirty_ok_def)
    moreover have on: "on_dirty_list (conn_at ctx2 j) = on_dirty_list (conn_at ctx1 j)" for j
      using tl f1 by (cases "j = ?t") (auto simp: ctx2_def)
    moreover have "length (connections ctx2) = length (connections ctx)" "dirty_head ctx2 = dirty_head ctx"
      using f1 by (simp_all add: ctx2_def)
    ultimately show ?thesis
      using ok i by (auto simp: m dirty_ok_def on at1)
  qed
qed

lemma mark_dirty_ok:
  "dirty_ok ctx ds \<Longrightarrow> i < length (connections ctx) \<Longrightarrow>
     dirty_ok (daemon_mark_connection_dirty i ctx) (if i \<in> set ds then ds else ds @ [i])"
  using mark_appends mark_on_list by auto

subsection \<open>Unmarking\<close>

lemma dirty_search_chain:
  "chain nxt cur xs \<Longrightarrow> distinct xs \<Longrightarrow>
     dirty_search nxt i prev cur =
       (if i \<in> set xs then Some (Some (let us = takeWhile (\<lambda>y. y \<noteq> i) xs in
            if us = [] then prev else Some (last us)))
        else Some None)"
proof (induction xs arbitrary: prev cur)
  case Nil
  then show ?case by (subst dirty_search.simps) simp
next
  case (Cons x xs)
  then show ?case by (subst dirty_search.simps) (auto simp: Let_def)
qed

lemma clear_dirty_fields [simp]:
  "length (connections (clear_dirty i ctx)) = length (connections ctx)"
  "dirty_head (clear_dirty i ctx) = dirty_head ctx" "dirty_tail (clear_dirty i ctx) = dirty_tail ctx"
  "free_list (clear_dirty i ctx) = free_list ctx"
  "max_connections (clear_dirty i ctx) = max_connections ctx"
  "active_connections (clear_dirty i ctx) = active_connections ctx"
  by (simp_all add: clear_dirty_def)

lemma clear_dirty_ok:
  assumes "chain (dirty_link ctx) (dirty_head ctx) ds" "distinct ds" "set ds \<subseteq> {..<length (connections ctx)}"
    and "dirty_tail ctx = (if ds = [] then None else Some (last ds))"
    and "\<forall>j < length (connections ctx). j \<noteq> i \<longrightarrow> on_dirty_list (conn_at ctx j) = (j \<in> set ds)"
    and "i < length (connections ctx)" "i \<notin> set ds"
  shows "dirty_ok (clear_dirty i ctx) ds"
proof -
  have at: "conn_at (clear_dirty i ctx) j = (if j = i then (conn_at ctx i)\<lparr>on_dirty_list := False, dirty_next := None\<rparr>
      else conn_at ctx j)" for j
    using assms(6) by (cases "j = i") (auto simp: clear_dirty_def)
  have "dirty_link (clear_dirty i ctx) = (dirty_link ctx)(i := None)" by (auto simp: fun_eq_iff at)
  then show ?thesis
    using assms by (simp add: dirty_ok_def at chain_fun_upd)
qed

lemma dirty_unlink_spec:
  assumes ok: "dirty_ok ctx (us @ i # vs)"
  defines "prev \<equiv> (if us = [] then None else Some (last us))"
  defines "ctx' \<equiv> dirty_unlink i prev ctx"
  shows "chain (dirty_link ctx') (dirty_head ctx') (us @ vs)"
    and "dirty_tail ctx' = (if us @ vs = [] then None else Some (last (us @ vs)))"
    and "length (connections ctx') = length (connections ctx)"
    and "on_dirty_list (conn_at ctx' j) = on_dirty_list (conn_at ctx j)"
proof -
  have d: "distinct (us @ i # vs)" and ch: "chain (dirty_link ctx) (dirty_head ctx) (us @ i # vs)"
    and tl: "dirty_tail ctx = Some (last (us @ i # vs))" and n: "set (us @ i # vs) \<subseteq> {..<length (connections ctx)}"
    using ok by (auto simp: dirty_ok_def)
  have lst: "last (us @ i # vs) = i \<longleftrightarrow> vs = []" using d by auto
  have "chain (dirty_link ctx') (dirty_head ctx') (us @ vs)
      \<and> dirty_tail ctx' = (if us @ vs = [] then None else Some (last (us @ vs)))
      \<and> length (connections ctx') = length (connections ctx)
      \<and> on_dirty_list (conn_at ctx' j) = on_dirty_list (conn_at ctx j)"
  proof (cases us rule: rev_cases)
    case Nil
    then have "ctx' = (if vs = [] then ctx\<lparr>dirty_head := dirty_link ctx i, dirty_tail := None\<rparr>
        else ctx\<lparr>dirty_head := dirty_link ctx i\<rparr>)"
      using tl lst by (auto simp: ctx'_def prev_def dirty_unlink_def Let_def)
    then show ?thesis using Nil ch tl lst by auto
  next
    case (snoc ws p)
    define ctx1 where "ctx1 = upd_conn p (dirty_next_update (\<lambda>_. dirty_link ctx i)) ctx"
    have c': "ctx' = (if vs = [] then ctx1\<lparr>dirty_tail := Some p\<rparr> else ctx1)"
      using snoc tl lst by (auto simp: ctx'_def prev_def dirty_unlink_def ctx1_def Let_def)
    have p: "p < length (connections ctx)" using n snoc by simp
    have "chain (dirty_link ctx1) (dirty_head ctx) (ws @ p # vs)"
      using dirty.unlink_chain [of ctx "dirty_head ctx" ws p i vs] ch d snoc p by (simp add: ctx1_def)
    moreover have "on_dirty_list (conn_at ctx1 j) = on_dirty_list (conn_at ctx j)"
      using p by (cases "j = p") (auto simp: ctx1_def)
    ultimately show ?thesis
      using snoc tl lst by (auto simp: c') (simp_all add: ctx1_def)
  qed
  then show "chain (dirty_link ctx') (dirty_head ctx') (us @ vs)"
    "dirty_tail ctx' = (if us @ vs = [] then None else Some (last (us @ vs)))"
    "length (connections ctx') = length (connections ctx)"
    "on_dirty_list (conn_at ctx' j) = on_dirty_list (conn_at ctx j)"
    by auto
qed

lemma unmark_dirty_ok:
  assumes ok: "dirty_ok ctx ds" and i: "i < length (connections ctx)"
  shows "\<exists>ctx'. daemon_unmark_connection_dirty i ctx = Some ctx' \<and> dirty_ok ctx' (remove1 i ds)"
proof (cases "i \<in> set ds")
  case False
  then have "\<not> on_dirty_list (conn_at ctx i)" using ok i by (auto simp: dirty_ok_def)
  with ok False show ?thesis by (simp add: daemon_unmark_connection_dirty_def remove1_idem)
next
  case True
  then obtain us vs where ds: "ds = us @ i # vs" "i \<notin> set us" by (meson split_list_first)
  have d: "distinct ds" and ch: "chain (dirty_link ctx) (dirty_head ctx) ds"
    and on: "on_dirty_list (conn_at ctx i)" using ok i True by (auto simp: dirty_ok_def)
  let ?prev = "if us = [] then None else Some (last us)"
  have tw: "takeWhile (\<lambda>y. y \<noteq> i) ds = us" using ds by (auto simp: takeWhile_append)
  have u: "daemon_unmark_connection_dirty i ctx = Some (clear_dirty i (dirty_unlink i ?prev ctx))"
    using True by (simp add: daemon_unmark_connection_dirty_def on dirty_search_chain [OF ch d] tw Let_def)
  note sp = dirty_unlink_spec [OF ok [unfolded ds(1)]]
  have "dirty_ok (clear_dirty i (dirty_unlink i ?prev ctx)) (us @ vs)"
  proof (rule clear_dirty_ok [OF sp(1) _ _ sp(2)])
    show "distinct (us @ vs)" "i \<notin> set (us @ vs)" using d ds by auto
    show "set (us @ vs) \<subseteq> {..<length (connections (dirty_unlink i ?prev ctx))}"
      using ok ds by (auto simp: sp(3) dirty_ok_def)
    show "i < length (connections (dirty_unlink i ?prev ctx))" using i by (simp add: sp(3))
    show "\<forall>j<length (connections (dirty_unlink i ?prev ctx)). j \<noteq> i \<longrightarrow>
        on_dirty_list (conn_at (dirty_unlink i ?prev ctx) j) = (j \<in> set (us @ vs))"
      using ok ds by (auto simp: sp(3,4) dirty_ok_def)
  qed
  moreover have "remove1 i ds = us @ vs" using ds by (simp add: remove1_append)
  ultimately show ?thesis using u by simp
qed

section \<open>The pool does not see the dirty list\<close>

text \<open>
  \<open>pool_view\<close> is what the invariant of the pool reads of a connection; an operation that keeps it
  for every connection keeps the invariant.
\<close>

definition pool_view :: "connection \<Rightarrow> nat \<times> conn_state \<times> int \<times> int \<times> nat option \<times> string option \<times> nat" where
  "pool_view c = (conn_id c, state c, unix_fd c, client_fd c, next_free c, handoff_buf c, handoff_cap c)"

lemma pool_ok_view:
  assumes "pool_ok ctx fs"
    and "\<And>i. pool_view (conn_at ctx' i) = pool_view (conn_at ctx i)"
    and "length (connections ctx') = length (connections ctx)" "free_list ctx' = free_list ctx"
    and "max_connections ctx' = max_connections ctx" "active_connections ctx' = active_connections ctx"
  shows "pool_ok ctx' fs"
proof -
  have v: "conn_id (conn_at ctx' i) = conn_id (conn_at ctx i)" "state (conn_at ctx' i) = state (conn_at ctx i)"
    "unix_fd (conn_at ctx' i) = unix_fd (conn_at ctx i)" "client_fd (conn_at ctx' i) = client_fd (conn_at ctx i)"
    "free_link ctx' i = free_link ctx i" "handoff_buf (conn_at ctx' i) = handoff_buf (conn_at ctx i)"
    "handoff_cap (conn_at ctx' i) = handoff_cap (conn_at ctx i)" for i
    using assms(2) [of i] by (simp_all add: pool_view_def)
  have "free_link ctx' = free_link ctx" by (simp add: fun_eq_iff v)
  moreover have "buf_ok (conn_at ctx' i) = buf_ok (conn_at ctx i)" for i
    by (simp add: buf_ok_def v cong: option.case_cong)
  ultimately show ?thesis using assms(1,3-6) by (simp add: pool_ok_def v)
qed

lemma pool_view_upd:
  "(\<And>c. pool_view (f c) = pool_view c) \<Longrightarrow> pool_view (conn_at (upd_conn j f ctx) i) = pool_view (conn_at ctx i)"
  by (cases "i = j"; cases "j < length (connections ctx)") (auto simp: conn_at_def upd_conn_def list_update_beyond)

lemma pool_view_dirty [simp]:
  "pool_view (c\<lparr>dirty_next := v\<rparr>) = pool_view c" "pool_view (c\<lparr>on_dirty_list := b\<rparr>) = pool_view c"
  "pool_view (c\<lparr>on_dirty_list := b, dirty_next := v\<rparr>) = pool_view c"
  "pool_view (dirty_next_update g c) = pool_view c"
  by (simp_all add: pool_view_def)

lemma mark_pool_ok: "pool_ok ctx fs \<Longrightarrow> pool_ok (daemon_mark_connection_dirty i ctx) fs"
  by (erule pool_ok_view)
    (auto simp: daemon_mark_connection_dirty_def Let_def pool_view_upd split: option.split)

lemma clear_dirty_pool_ok: "pool_ok ctx fs \<Longrightarrow> pool_ok (clear_dirty i ctx) fs"
  by (erule pool_ok_view) (simp_all add: clear_dirty_def pool_view_upd)

lemma dirty_unlink_pool_ok: "pool_ok ctx fs \<Longrightarrow> pool_ok (dirty_unlink i p ctx) fs"
  by (erule pool_ok_view)
    (auto simp: dirty_unlink_def Let_def pool_view_upd split: option.split)

lemma unmark_pool_ok:
  assumes "pool_ok ctx fs" "daemon_unmark_connection_dirty i ctx = Some ctx'"
  shows "pool_ok ctx' fs"
  using assms
  by (auto simp: daemon_unmark_connection_dirty_def bind_eq_Some_conv
      intro: clear_dirty_pool_ok dirty_unlink_pool_ok split: if_splits option.splits)

end
