(* ===== verification/Sse_Stream.thy ===== *)
theory Sse_Stream
  imports Daemon_Types
begin

text \<open>
  The event stream sent to the client (streaming.c, streaming.h) and the line parser that reads the
  API's event stream (\<open>process_sse_line\<close> of curl_manager.c and backend_openai.c, which are the same
  up to the forwarding of the content).
\<close>

section \<open>Formatting an event\<close>

definition hex_digit :: "nat \<Rightarrow> char" where
  "hex_digit n = (if n < 10 then char_of (48 + n) else char_of (87 + n))"

definition u_escape :: "char \<Rightarrow> string" where
  \<comment> \<open>\<open>"\\u%04x"\<close> of a byte\<close>
  "u_escape c = (let n = of_char c :: nat in
     [BSL, CHR ''u'', CHR ''0'', CHR ''0'', hex_digit (n div 16), hex_digit (n mod 16)])"

definition escape_char :: "char \<Rightarrow> string" where
  "escape_char c =
     (if c = DQ then [BSL, DQ]
      else if c = BSL then [BSL, BSL]
      else if c = LF then [BSL, CHR ''n'']
      else if c = CR then [BSL, CHR ''r'']
      else if c = TAB then [BSL, CHR ''t'']
      else if (of_char c :: nat) < 32 then u_escape c
      else [c])"

fun escape_loop :: "nat \<Rightarrow> string \<Rightarrow> string" where
  \<comment> \<open>\<open>while (*content && remaining > 6)\<close>\<close>
  "escape_loop remaining [] = []"
| "escape_loop remaining (c # cs) =
     (if remaining > 6
      then escape_char c @ escape_loop (remaining - length (escape_char c)) cs
      else [])"

definition sse_open :: string where
  "sse_open = ''data: {'' @ [DQ] @ ''content'' @ [DQ] @ '':'' @ [DQ]"

definition sse_close :: string where
  "sse_close = [DQ] @ ''}'' @ [LF, LF]"

definition stream_format_sse :: "nat \<Rightarrow> string \<Rightarrow> string option" where
  \<comment> \<open>\<open>None\<close> is the result -1: the event does not fit into \<open>buflen\<close> bytes\<close>
  "stream_format_sse buflen content =
     (let escaped = escape_loop (4096 - 1) content;
          out = sse_open @ escaped @ sse_close
      in if length out \<ge> buflen then None else Some out)"

section \<open>Parsing a line of the API's stream\<close>

definition unescape_char :: "char \<Rightarrow> char" where
  "unescape_char c =
     (if c = CHR ''n'' then LF else if c = CHR ''r'' then CR else if c = CHR ''t'' then TAB else c)"

fun unescape_loop :: "nat \<Rightarrow> string \<Rightarrow> string" where
  \<comment> \<open>the first argument is \<open>i\<close>, the bytes already in \<open>content[4096]\<close>\<close>
  "unescape_loop i [] = []"
| "unescape_loop i (c # cs) =
     (if c = DQ \<or> \<not> i < 4096 - 1 then []
      else if c = BSL then
        (case cs of
           [] \<Rightarrow> [c]
         | d # ds \<Rightarrow> unescape_char d # unescape_loop (Suc i) ds)
      else c # unescape_loop (Suc i) cs)"

fun after_first :: "string \<Rightarrow> string \<Rightarrow> string option" where
  \<comment> \<open>\<open>strstr\<close>, and the string after the match\<close>
  "after_first key s =
     (if has_prefix key s then Some (drop (length key) s)
      else case s of [] \<Rightarrow> None | _ # rest \<Rightarrow> after_first key rest)"

declare after_first.simps [simp del]

definition content_key :: string where
  "content_key = [DQ] @ ''content'' @ [DQ] @ '':'' @ [DQ]"

definition sse_line_content :: "string \<Rightarrow> string option" where
  \<comment> \<open>the content a line carries, if there is any to forward\<close>
  "sse_line_content line =
     (if \<not> has_prefix ''data: '' line then None
      else
        let json = drop 6 line in
        if has_prefix ''[DONE]'' json then None
        else case after_first content_key json of
          None \<Rightarrow> None
        | Some rest \<Rightarrow>
            let content = unescape_loop 0 rest in
            if content = [] then None else Some content)"

section \<open>Bounds\<close>

lemma escape_char_length: "length (escape_char c) \<le> 6" "1 \<le> length (escape_char c)"
  by (auto simp: escape_char_def u_escape_def Let_def)

lemma escape_loop_length: "length (escape_loop r cs) \<le> r"
proof (induction r cs rule: escape_loop.induct)
  case (1 r)
  then show ?case by simp
next
  case (2 r c cs)
  then show ?case using escape_char_length [of c] by auto
qed

lemma sse_frame_length: "length sse_open = 18" "length sse_close = 4"
  by (simp_all add: sse_open_def sse_close_def)

text \<open>Without truncation the loop is the concatenation of the escapes.\<close>

definition escape :: "string \<Rightarrow> string" where
  "escape cs = concat (map escape_char cs)"

lemma escape_simps [simp]: "escape [] = []" "escape (c # cs) = escape_char c @ escape cs"
  "escape (xs @ ys) = escape xs @ escape ys"
  by (simp_all add: escape_def)

lemma escape_loop_exact: "length (escape cs) + 6 \<le> r \<Longrightarrow> escape_loop r cs = escape cs"
proof (induction r cs rule: escape_loop.induct)
  case (1 r)
  then show ?case by simp
next
  case (2 r c cs)
  have "1 \<le> length (escape_char c)" by (rule escape_char_length)
  with "2.prems" have "r > 6" "length (escape cs) + 6 \<le> r - length (escape_char c)" by auto
  then show ?case using "2.IH" by simp
qed

lemma escape_length: "length (escape cs) \<le> 6 * length cs"
proof (induction cs)
  case (Cons c cs)
  then show ?case using escape_char_length(1) [of c] by simp
qed simp

lemma length_le_escape: "length cs \<le> length (escape cs)"
proof (induction cs)
  case (Cons c cs)
  then show ?case using escape_char_length(2) [of c] by simp
qed simp

section \<open>Round trip\<close>

text \<open>
  The content that survives: no NUL (it would end the C string) and no control character but the
  three with a short escape; the parser has no case for \<open>\\uXXXX\<close>.
\<close>

definition plain_char :: "char \<Rightarrow> bool" where
  "plain_char c \<longleftrightarrow> 32 \<le> (of_char c :: nat) \<or> c \<in> {LF, CR, TAB}"

lemma unescape_escape_char:
  assumes "plain_char c" "i < 4095"
  shows "unescape_loop i (escape_char c @ rest) = c # unescape_loop (Suc i) rest"
  using assms by (auto simp: escape_char_def plain_char_def unescape_char_def)

lemma unescape_escape:
  "list_all plain_char cs \<Longrightarrow> i + length cs \<le> 4095 \<Longrightarrow> unescape_loop i (escape cs @ DQ # rest) = cs"
proof (induction cs arbitrary: i)
  case Nil
  then show ?case by simp
next
  case (Cons c cs)
  then show ?case using unescape_escape_char [of c i "escape cs @ DQ # rest"] by simp
qed

lemma after_first_here: "after_first key (key @ s) = Some s"
  by (simp add: after_first.simps)

lemma after_first_skip: "\<not> has_prefix key (c # s) \<Longrightarrow> after_first key (c # s) = after_first key s"
  by (subst after_first.simps) simp

lemma sse_open_split: "sse_open = ''data: '' @ CHR ''{'' # content_key"
  by (simp add: sse_open_def content_key_def)

lemma sse_line_content_open:
  "sse_line_content (sse_open @ s) =
     (if unescape_loop 0 s = [] then None else Some (unescape_loop 0 s))"
proof -
  have "drop 6 (sse_open @ s) = CHR ''{'' # content_key @ s" by (simp add: sse_open_def content_key_def)
  moreover have "\<not> has_prefix content_key (CHR ''{'' # t)" for t
    by (simp add: has_prefix_def content_key_def)
  ultimately show ?thesis
    by (simp add: sse_line_content_def sse_open_split after_first_skip after_first_here Let_def)
      (simp add: has_prefix_def)
qed

section \<open>The messages of a stream\<close>

definition SSE_DONE :: string where "SSE_DONE = ''data: [DONE]'' @ [LF, LF]"

definition SSE_HEADERS :: string where
  "SSE_HEADERS = ''HTTP/1.1 200 OK'' @ [CR, LF] @ ''Content-Type: text/event-stream'' @ [CR, LF]
     @ ''Cache-Control: no-cache'' @ [CR, LF] @ ''Connection: close'' @ [CR, LF]
     @ ''X-Accel-Buffering: no'' @ [CR, LF] @ [CR, LF]"

definition demo_messages :: "string list" where
  "demo_messages = [
     ''This daemon uses io_uring for async I/O.'',
     ''Single-threaded event loop with high concurrency.'',
     ''Expected capacity: 100,000+ concurrent connections.'',
     ''Memory per connection: ~68 KB (64KB handoff + 4KB write buffer).'',
     ''The Apache worker was freed immediately after handoff.'',
     ''Replace this mock backend with your LLM API integration.'',
     ''io_uring provides true async I/O with kernel polling.'',
     ''Zero-copy operations minimize memory bandwidth.'',
     ''Multishot accept reduces syscall overhead.'',
     ''This is pure C with no runtime overhead.'',
     ''This is message 13 of 18.'',
     ''This is message 14 of 18.'',
     ''This is message 15 of 18.'',
     ''This is message 16 of 18.'',
     ''This is message 17 of 18.'',
     ''[DONE-CONTENT]'']"

definition LLM_CHUNK_TARGET_SIZE :: nat where "LLM_CHUNK_TARGET_SIZE = 150"

definition dec_int :: "int \<Rightarrow> string" where
  "dec_int k = (if k < 0 then CHR ''-'' # decimal (nat (- k)) else decimal (nat k))"

definition truncate_prompt :: "string option \<Rightarrow> nat \<Rightarrow> string" where
  \<comment> \<open>\<open>truncated\<close> has 64 bytes\<close>
  "truncate_prompt pr max_len =
     (case pr of
        None \<Rightarrow> ''(none)''
      | Some p \<Rightarrow>
          if length p \<le> max_len then p
          else take (if max_len > 64 - 4 then 64 - 4 else max_len) p @ ''...'')"

definition prompt_string :: "connection \<Rightarrow> string option" where
  "prompt_string c = (case (handoff_buf c, prompt (hdata c)) of
     (Some b, Some off) \<Rightarrow> Some (c_string_at b off) | _ \<Rightarrow> None)"

fun back_to_space :: "string \<Rightarrow> nat \<Rightarrow> nat" where
  \<comment> \<open>\<open>while (i > 0 && start[i] != ' ' && start[i] != '\n') i--\<close>\<close>
  "back_to_space start 0 = 0"
| "back_to_space start (Suc i) =
     (if start ! Suc i \<noteq> CHR '' '' \<and> start ! Suc i \<noteq> LF then back_to_space start i else Suc i)"

definition llm_chunk_size :: "string \<Rightarrow> nat" where
  \<comment> \<open>of the bytes that remain\<close>
  "llm_chunk_size start =
     (let remaining = length start;
          chunk_size = (if remaining < LLM_CHUNK_TARGET_SIZE then remaining else LLM_CHUNK_TARGET_SIZE)
      in if chunk_size < remaining then
           let i = back_to_space start chunk_size in if i > 0 then i + 1 else chunk_size
         else chunk_size)"

definition stream_next_message :: "connection \<Rightarrow> string option \<times> connection" where
  "stream_next_message conn =
     (if use_llm_response conn then
        let remaining = handoff_len conn - llm_response_pos conn in
        if remaining = 0 then (None, conn)
        else
          let start = take remaining (drop (llm_response_pos conn)
                        (case handoff_buf conn of Some b \<Rightarrow> b | None \<Rightarrow> []));
              chunk_size = llm_chunk_size start
          in (Some (take chunk_size start),
              conn\<lparr>llm_response_pos := llm_response_pos conn + chunk_size,
                   stream_index := stream_index conn + 1\<rparr>)
      else
        let index = stream_index conn in
        if index = 0 then
          (Some (take 255 (''Hello from C io_uring daemon! Prompt: '' @ truncate_prompt (prompt_string conn) 50)),
           conn\<lparr>stream_index := stream_index conn + 1\<rparr>)
        else if index = 1 then
          (Some (take 127 (''User ID: '' @ dec_int (user_id (hdata conn)))),
           conn\<lparr>stream_index := stream_index conn + 1\<rparr>)
        else
          let static_index = index - 2 in
          if static_index \<ge> 0 \<and> nat static_index < length demo_messages then
            (Some (demo_messages ! nat static_index), conn\<lparr>stream_index := stream_index conn + 1\<rparr>)
          else (None, conn))"

definition stream_start :: "connection \<Rightarrow> connection" where
  "stream_start conn = conn\<lparr>stream_index := 0\<rparr>"

text \<open>All the messages of a connection, at most \<open>n\<close> of them.\<close>

fun stream_messages :: "nat \<Rightarrow> connection \<Rightarrow> string list \<times> connection" where
  "stream_messages 0 conn = ([], conn)"
| "stream_messages (Suc n) conn =
     (case stream_next_message conn of
        (None, conn') \<Rightarrow> ([], conn')
      | (Some m, conn') \<Rightarrow> (case stream_messages n conn' of (ms, conn'') \<Rightarrow> (m # ms, conn'')))"

subsection \<open>Chunks of a response\<close>

lemma back_to_space_le: "back_to_space s i \<le> i"
  by (induction i) auto

lemma llm_chunk_size_bounds:
  assumes "start \<noteq> []"
  shows "1 \<le> llm_chunk_size start" "llm_chunk_size start \<le> length start"
    and "llm_chunk_size start \<le> LLM_CHUNK_TARGET_SIZE + 1"
proof -
  have len: "1 \<le> length start" using assms by (cases start) auto
  have "back_to_space start LLM_CHUNK_TARGET_SIZE \<le> LLM_CHUNK_TARGET_SIZE" by (rule back_to_space_le)
  then show "1 \<le> llm_chunk_size start" "llm_chunk_size start \<le> length start"
    "llm_chunk_size start \<le> LLM_CHUNK_TARGET_SIZE + 1"
    using len by (auto simp: llm_chunk_size_def Let_def LLM_CHUNK_TARGET_SIZE_def)
qed

text \<open>What remains to be streamed of a response.\<close>

definition llm_rest :: "connection \<Rightarrow> string" where
  "llm_rest conn = take (handoff_len conn - llm_response_pos conn)
     (drop (llm_response_pos conn) (case handoff_buf conn of Some b \<Rightarrow> b | None \<Rightarrow> []))"

definition llm_ok :: "connection \<Rightarrow> bool" where
  \<comment> \<open>a response in the handoff buffer\<close>
  "llm_ok conn \<longleftrightarrow> use_llm_response conn \<and> llm_response_pos conn \<le> handoff_len conn
     \<and> (\<exists>b. handoff_buf conn = Some b \<and> handoff_len conn \<le> length b)"

lemma llm_rest_length: "llm_ok conn \<Longrightarrow> length (llm_rest conn) = handoff_len conn - llm_response_pos conn"
  by (auto simp: llm_ok_def llm_rest_def)

lemma llm_step:
  assumes "llm_ok conn" "llm_rest conn \<noteq> []"
  shows "\<exists>m conn'. stream_next_message conn = (Some m, conn') \<and> llm_ok conn'
     \<and> llm_rest conn = m @ llm_rest conn' \<and> m \<noteq> [] \<and> length m \<le> LLM_CHUNK_TARGET_SIZE + 1"
proof -
  let ?k = "llm_chunk_size (llm_rest conn)"
  let ?c = "conn\<lparr>llm_response_pos := llm_response_pos conn + ?k, stream_index := stream_index conn + 1\<rparr>"
  note b = llm_chunk_size_bounds [OF assms(2)] and l = llm_rest_length [OF assms(1)]
  have pos: "0 < handoff_len conn - llm_response_pos conn" using assms(2) by (simp add: l [symmetric])
  have s: "stream_next_message conn = (Some (take ?k (llm_rest conn)), ?c)"
    using assms(1) pos by (auto simp: stream_next_message_def llm_ok_def llm_rest_def Let_def)
  have ok: "llm_ok ?c" using assms(1) b l by (auto simp: llm_ok_def)
  have "llm_rest ?c = drop ?k (llm_rest conn)"
    using assms(1) by (auto simp: llm_ok_def llm_rest_def drop_take add.commute)
  then have "llm_rest conn = take ?k (llm_rest conn) @ llm_rest ?c" by simp
  moreover have "take ?k (llm_rest conn) \<noteq> []" "length (take ?k (llm_rest conn)) \<le> LLM_CHUNK_TARGET_SIZE + 1"
    using b assms(2) by auto
  ultimately show ?thesis using s ok by blast
qed

lemma llm_end: "llm_ok conn \<Longrightarrow> llm_rest conn = [] \<Longrightarrow> stream_next_message conn = (None, conn)"
  using llm_rest_length [of conn] by (auto simp: stream_next_message_def llm_ok_def Let_def)

lemma llm_stream:
  "llm_ok conn \<Longrightarrow> length (llm_rest conn) < n \<Longrightarrow>
     concat (fst (stream_messages n conn)) = llm_rest conn
     \<and> list_all (\<lambda>m. m \<noteq> [] \<and> length m \<le> LLM_CHUNK_TARGET_SIZE + 1) (fst (stream_messages n conn))
     \<and> stream_next_message (snd (stream_messages n conn)) = (None, snd (stream_messages n conn))"
proof (induction n arbitrary: conn)
  case 0
  then show ?case by simp
next
  case (Suc n)
  show ?case
  proof (cases "llm_rest conn = []")
    case True
    then show ?thesis using llm_end [OF Suc.prems(1)] by simp
  next
    case False
    then obtain m c where s: "stream_next_message conn = (Some m, c)" "llm_ok c"
      "llm_rest conn = m @ llm_rest c" "m \<noteq> []" "length m \<le> LLM_CHUNK_TARGET_SIZE + 1"
      using llm_step [OF Suc.prems(1)] by blast
    moreover have "length (llm_rest c) < n" using s(3,4) Suc.prems(2) by (cases m) simp_all
    ultimately show ?thesis using Suc.IH [of c] by (auto split: prod.split)
  qed
qed

subsection \<open>The demo messages\<close>

lemma demo_messages_length: "length demo_messages = 16"
  by (simp add: demo_messages_def)

lemma demo_step:
  assumes "\<not> use_llm_response conn" "stream_index conn = int k" "2 \<le> k"
  shows "stream_next_message conn =
     (if k < 18 then (Some (demo_messages ! (k - 2)), conn\<lparr>stream_index := int (Suc k)\<rparr>) else (None, conn))"
proof -
  have k: "int k - 2 = int (k - 2)" "\<not> int k = 0" "\<not> int k = 1" "0 \<le> int (k - 2)" "int k + 1 = int (Suc k)"
    "(k - 2 < 16) = (k < 18)"
    using assms(3) by auto
  have "stream_next_message conn =
     (if k < 18 then (Some (demo_messages ! nat (int (k - 2))), conn\<lparr>stream_index := stream_index conn + 1\<rparr>)
      else (None, conn))"
    by (simp only: stream_next_message_def Let_def assms k demo_messages_length nat_int simp_thms
        if_False cong: if_weak_cong)
  then show ?thesis by (simp only: assms k nat_int)
qed

lemma demo_rest:
  "\<not> use_llm_response conn \<Longrightarrow> stream_index conn = int k \<Longrightarrow> 2 \<le> k \<Longrightarrow> k \<le> 18 \<Longrightarrow> 18 - k < n \<Longrightarrow>
     stream_messages n conn = (drop (k - 2) demo_messages, conn\<lparr>stream_index := 18\<rparr>)"
proof (induction n arbitrary: conn k)
  case 0
  from 0(5) show ?case by (rule notE [OF not_less0])
next
  case (Suc n)
  note step = demo_step [OF Suc.prems(1,2,3)]
  show ?case
  proof (cases "k = 18")
    case True
    with step Suc.prems(2) demo_messages_length show ?thesis by simp
  next
    case False
    with Suc.prems have k: "k < 18" by simp
    let ?c = "conn\<lparr>stream_index := int (Suc k)\<rparr>"
    have "stream_messages n ?c = (drop (Suc k - 2) demo_messages, ?c\<lparr>stream_index := 18\<rparr>)"
      using Suc.prems k by (intro Suc.IH) auto
    moreover have "k - 2 < length demo_messages" "Suc (k - 2) = Suc k - 2"
      using demo_messages_length Suc.prems(3) k by auto
    then have "drop (k - 2) demo_messages = demo_messages ! (k - 2) # drop (Suc k - 2) demo_messages"
      by (metis Cons_nth_drop_Suc)
    ultimately show ?thesis using step k by simp
  qed
qed

text \<open>The first two messages, without opening their texts.\<close>

lemma demo_first:
  assumes "\<not> use_llm_response conn" "stream_index conn = 0"
  shows "\<exists>g. stream_next_message conn = (Some g, conn\<lparr>stream_index := 1\<rparr>)
     \<and> has_prefix ''Hello from C io_uring daemon! Prompt: '' g"
proof -
  let ?g = "take 255 (''Hello from C io_uring daemon! Prompt: '' @ truncate_prompt (prompt_string conn) 50)"
  have "stream_next_message conn = (Some ?g, conn\<lparr>stream_index := 1\<rparr>)"
    by (simp only: stream_next_message_def Let_def assms simp_thms if_False if_True add_0 cong: if_weak_cong)
  moreover have "has_prefix ''Hello from C io_uring daemon! Prompt: '' ?g"
    by (rule has_prefix_take) simp
  ultimately show ?thesis by blast
qed

lemma demo_second:
  assumes "\<not> use_llm_response conn" "stream_index conn = 1"
  shows "\<exists>g. stream_next_message conn = (Some g, conn\<lparr>stream_index := 2\<rparr>) \<and> has_prefix ''User ID: '' g"
proof -
  let ?g = "take 127 (''User ID: '' @ dec_int (user_id (hdata conn)))"
  have "stream_next_message conn = (Some ?g, conn\<lparr>stream_index := 2\<rparr>)"
    by (simp only: stream_next_message_def Let_def assms simp_thms if_False if_True one_neq_zero
        one_add_one cong: if_weak_cong)
  moreover have "has_prefix ''User ID: '' ?g" by (rule has_prefix_take) simp
  ultimately show ?thesis by blast
qed

lemma demo_stream_messages:
  assumes "\<not> use_llm_response conn" "18 < n"
  shows "\<exists>greeting user. fst (stream_messages n (stream_start conn)) = greeting # user # demo_messages
    \<and> has_prefix ''Hello from C io_uring daemon! Prompt: '' greeting
    \<and> has_prefix ''User ID: '' user
    \<and> length (fst (stream_messages n (stream_start conn))) = 18
    \<and> fst (stream_next_message (snd (stream_messages n (stream_start conn)))) = None"
proof -
  let ?c0 = "stream_start conn" and ?c1 = "conn\<lparr>stream_index := 1\<rparr>" and ?c2 = "conn\<lparr>stream_index := 2\<rparr>"
  define k where "k = n - 2"
  have n: "n = Suc (Suc k)" "16 < k" using assms(2) by (simp_all add: k_def)
  obtain g where g: "stream_next_message ?c0 = (Some g, ?c1)" "has_prefix ''Hello from C io_uring daemon! Prompt: '' g"
    using demo_first [of ?c0] assms(1) by (auto simp: stream_start_def)
  obtain u where u: "stream_next_message ?c1 = (Some u, ?c2)" "has_prefix ''User ID: '' u"
    using demo_second [of ?c1] assms(1) by auto
  have r: "stream_messages k ?c2 = (demo_messages, conn\<lparr>stream_index := 18\<rparr>)"
    using demo_rest [of ?c2 2 k] assms(1) n by simp
  have e: "stream_next_message (conn\<lparr>stream_index := 18\<rparr>) = (None, conn\<lparr>stream_index := 18\<rparr>)"
    using demo_step [of "conn\<lparr>stream_index := 18\<rparr>" 18] assms(1) by simp
  show ?thesis using g u r e n(1) by (simp add: demo_messages_length)
qed

text \<open>No byte of an event but its end is a line feed.\<close>

lemma hex_digit_lf:
  assumes "n < 16"
  shows "hex_digit n \<noteq> LF"
proof
  assume "hex_digit n = LF"
  then have "(of_char (hex_digit n) :: nat) = 10" by simp
  with assms show False by (simp add: hex_digit_def split: if_splits)
qed

lemma byte_halves: "(n::nat) < 256 \<Longrightarrow> n div 16 < 16 \<and> n mod 16 < 16"
  by auto

lemma escape_char_no_lf: "LF \<notin> set (escape_char c)"
proof -
  have "(of_char c :: nat) < 256" by simp
  note h = byte_halves [OF this]
  show ?thesis
    using hex_digit_lf [OF conjunct1 [OF h]] hex_digit_lf [OF conjunct2 [OF h]]
    by (auto simp: escape_char_def u_escape_def Let_def)
qed

lemma escape_loop_no_lf: "LF \<notin> set (escape_loop r cs)"
  by (induction r cs rule: escape_loop.induct) (auto simp: escape_char_no_lf)

lemma escape_no_lf: "LF \<notin> set (escape cs)"
  by (induction cs) (auto simp: escape_char_no_lf)

lemma sse_open_no_lf: "LF \<notin> set sse_open"
  by (simp add: sse_open_def)

lemma event_line:
  "takeWhile (\<lambda>c. c \<noteq> LF) (sse_open @ escape cs @ sse_close) = sse_open @ escape cs @ DQ # ''}''"
proof -
  have "\<forall>c \<in> set (sse_open @ escape cs). c \<noteq> LF"
    using sse_open_no_lf escape_no_lf by auto
  then have "takeWhile (\<lambda>c. c \<noteq> LF) ((sse_open @ escape cs) @ sse_close)
      = (sse_open @ escape cs) @ takeWhile (\<lambda>c. c \<noteq> LF) sse_close"
    by (simp add: takeWhile_append2)
  then show ?thesis by (simp add: sse_close_def)
qed

end
