(* ===== verification/Daemon_Correctness.thy ===== *)
theory Daemon_Correctness
  imports Dirty_List Sse_Stream
begin

text \<open>
  What the building blocks of the io_uring daemon promise: the write buffer, the pool of connections,
  the dirty list and the event stream, over the definitions of \<open>Write_Buffer\<close>,
  \<open>Connection_Pool\<close>, \<open>Dirty_List\<close> and \<open>Sse_Stream\<close>.
\<close>

section \<open>A small daemon\<close>

definition ex_malloc :: "nat \<Rightarrow> memory option" where
  "ex_malloc n = Some (4096, \<lambda>_. NUL)"

definition ex_wb :: write_buffer where
  "ex_wb = the (write_buffer_init ex_malloc)"

lemma ex_wb_init: "write_buffer_init ex_malloc = Some ex_wb"
  by (simp add: ex_wb_def write_buffer_init_def write_buffer_init_sized_def ex_malloc_def)

definition ex_full :: write_buffer where
  \<comment> \<open>600 KB, all used\<close>
  "ex_full = \<lparr>buffer = replicate 614400 NUL, buf_addr = 4096, capacity = 614400,
     head = 614400, tail = 0, bytes_written = 0, write_pending = False\<rparr>"

definition ex_ctx :: daemon_ctx where
  "ex_ctx = the (conn_pool_init True ((daemon_init True)\<lparr>max_connections := 2\<rparr>))"

lemma ex_ctx_ok: "pool_ok ex_ctx [0, 1]"
proof -
  have "conn_pool_init True ((daemon_init True)\<lparr>max_connections := 2\<rparr>) = Some ex_ctx"
    by (simp add: ex_ctx_def conn_pool_init_def Let_def)
  from conn_pool_init_ok [OF this] show ?thesis by (simp add: upt_rec)
qed

section \<open>The write buffer\<close>

text \<open>
  C14. The write buffer loses, repeats and reorders nothing. Start from a new buffer and let the
  daemon append (with whatever \<open>realloc\<close> answers each time), start writes and learn of partial or
  complete writes in any order: the bytes it accepted are the bytes that were written followed by
  the bytes still stored, the stored bytes are at most one megabyte, and a write that is in flight
  covers the first bytes of what is stored.
\<close>

theorem write_buffer_stream:
  assumes "write_buffer_init malloc = Some wb"
  shows "(let s = fold wb_step ops (wb_start wb) in
      accepted s = written s @ wb_content (wbuf s)
      \<and> length (wb_content (wbuf s)) \<le> WRITE_BUFFER_MAX_SIZE
      \<and> (case inflight s of None \<Rightarrow> True | Some data \<Rightarrow> has_prefix data (wb_content (wbuf s))))"
proof -
  have "wb_inv (fold wb_step ops (wb_start wb))"
    by (rule wbm.run_inv [OF wb_start_inv [OF assms]])
  then show ?thesis
    using wb_content_length [of "wbuf (fold wb_step ops (wb_start wb))"]
    by (auto simp: wb_inv_def wb_ok_def Let_def split: option.split)
qed

lemma write_buffer_stream_witness:
  "(let s = fold wb_step [Append ''abc'' None, Start_write, Append ''de'' None, Complete 2] (wb_start ex_wb) in
      accepted s = written s @ wb_content (wbuf s)
      \<and> length (wb_content (wbuf s)) \<le> WRITE_BUFFER_MAX_SIZE
      \<and> (case inflight s of None \<Rightarrow> True | Some data \<Rightarrow> has_prefix data (wb_content (wbuf s))))"
  by (rule write_buffer_stream [OF ex_wb_init])

text \<open>
  An append, on every branch. It reports success, a failed allocation or a full buffer; it
  stores all of the data or nothing; the buffer stays well formed and within one megabyte; it
  leaves the in-flight mark alone, and while a write is in flight no byte already stored moves to
  another offset. It never fails while the data fits behind the bytes in the buffer.
\<close>

theorem append_all_or_nothing:
  assumes "wb_ok wb"
  shows "(case write_buffer_append realloc data wb of (r, wb') \<Rightarrow>
      r \<in> {0, -1, -2} \<and> wb_ok wb'
      \<and> wb_content wb' = (if r = 0 then wb_content wb @ data else wb_content wb)
      \<and> write_pending wb' = write_pending wb
      \<and> (if write_pending wb then tail wb' = tail wb \<and> take (head wb) (buffer wb') = take (head wb) (buffer wb) else True)
      \<and> (if head wb + length data \<le> capacity wb then r = 0 \<and> buf_addr wb' = buf_addr wb else True))"
proof -
  obtain r wb' where a: "write_buffer_append realloc data wb = (r, wb')" by fastforce
  have "head wb + length data \<le> capacity wb \<Longrightarrow> r = 0 \<and> buf_addr wb' = buf_addr wb"
    using a assms by (auto simp: write_buffer_append_def wb_ok_def store_bytes_def Let_def split: if_splits)
  then show ?thesis using append_spec [OF assms a] by (auto simp: a)
qed

lemma append_all_or_nothing_witness:
  "(case write_buffer_append (\<lambda>_ _. None) ''x'' ex_full of (r, wb') \<Rightarrow>
      r \<in> {0, -1, -2} \<and> wb_ok wb'
      \<and> wb_content wb' = (if r = 0 then wb_content ex_full @ ''x'' else wb_content ex_full)
      \<and> write_pending wb' = write_pending ex_full
      \<and> (if write_pending ex_full then tail wb' = tail ex_full
           \<and> take (head ex_full) (buffer wb') = take (head ex_full) (buffer ex_full) else True)
      \<and> (if head ex_full + length ''x'' \<le> capacity ex_full then r = 0 \<and> buf_addr wb' = buf_addr ex_full else True))"
  by (rule append_all_or_nothing) (simp add: wb_ok_def ex_full_def WRITE_BUFFER_MAX_SIZE_def)

text \<open>
  A buffer larger than half a megabyte refuses early. When it has to grow, the new capacity is
  the double of the old one, which is over the limit, and the append reports a full buffer although
  the data and what is stored together are within one megabyte.
\<close>

theorem append_refuses_early:
  assumes "wb_ok wb" "\<not> write_pending wb"
    and "2 * capacity wb > WRITE_BUFFER_MAX_SIZE"
    and "length (wb_content wb) + length data > capacity wb"
    and "length (wb_content wb) + length data \<le> WRITE_BUFFER_MAX_SIZE"
  shows "fst (write_buffer_append realloc data wb) = -2"
  using assms wb_content_length [OF assms(1)]
  by (auto simp: write_buffer_append_def compact_def wb_ok_def Let_def)

lemma append_refuses_early_witness:
  "fst (write_buffer_append (\<lambda>_ _. None) ''x'' ex_full) = -2"
proof (rule append_refuses_early)
  show ok: "wb_ok ex_full" by (simp add: wb_ok_def ex_full_def WRITE_BUFFER_MAX_SIZE_def)
  show "length (wb_content ex_full) + length ''x'' > capacity ex_full"
    "length (wb_content ex_full) + length ''x'' \<le> WRITE_BUFFER_MAX_SIZE"
    using wb_content_length [OF ok] by (simp_all add: ex_full_def WRITE_BUFFER_MAX_SIZE_def)
qed (simp_all add: ex_full_def WRITE_BUFFER_MAX_SIZE_def)

text \<open>
  An append can move the memory that the kernel is reading. With a write in flight and no room
  behind the stored bytes, the buffer goes to \<open>realloc\<close>, and the address the submitted write
  points to is not the buffer's address any more: the in-flight test prevents compaction only.
\<close>

theorem append_moves_inflight_memory:
  assumes "wb_ok wb" "write_pending wb" "data \<noteq> []"
    and "head wb + length data > capacity wb" "head wb + length data \<le> 2 * capacity wb"
    and "2 * capacity wb \<le> WRITE_BUFFER_MAX_SIZE"
    and "realloc (buf_addr wb) (2 * capacity wb) = Some (a, g)"
  shows "fst (write_buffer_append realloc data wb) = 0
       \<and> buf_addr (snd (write_buffer_append realloc data wb)) = a"
  using assms
  by (auto simp: write_buffer_append_def wb_ok_def grow_to_def store_bytes_def mult.commute Let_def)

lemma append_moves_inflight_memory_witness:
  "fst (write_buffer_append (\<lambda>_ _. Some (8192, \<lambda>_. NUL)) (replicate 5000 CHR ''x'')
      (ex_wb\<lparr>head := 5000, write_pending := True\<rparr>)) = 0
   \<and> buf_addr (snd (write_buffer_append (\<lambda>_ _. Some (8192, \<lambda>_. NUL)) (replicate 5000 CHR ''x'')
      (ex_wb\<lparr>head := 5000, write_pending := True\<rparr>))) = 8192"
  by (rule append_moves_inflight_memory)
    (simp_all add: wb_ok_def ex_wb_def write_buffer_init_def write_buffer_init_sized_def ex_malloc_def
      WRITE_BUFFER_DEFAULT_SIZE_def WRITE_BUFFER_MAX_SIZE_def)

section \<open>The pool of connections\<close>

text \<open>
  Allocation takes the top of a stack of free connections. With an empty stack it fails; with
  a top that has a buffer, or memory for one, it returns the top, which then has a handoff buffer,
  leaves the rest of the stack, counts one more active connection and keeps the peak as a maximum;
  without memory it fails and changes nothing at all. No other connection is touched.
\<close>

theorem conn_alloc_refines:
  assumes "pool_ok ctx fs"
  shows "(case fs of
      [] \<Rightarrow> conn_alloc m ctx = (None, ctx)
    | x # xs \<Rightarrow>
        if handoff_buf (conn_at ctx x) = None \<and> m = None then conn_alloc m ctx = (None, ctx)
        else \<exists>ctx'. conn_alloc m ctx = (Some x, ctx') \<and> pool_ok ctx' xs
          \<and> handoff_buf (conn_at ctx' x) \<noteq> None
          \<and> active_connections ctx' = active_connections ctx + 1
          \<and> peak_connections ctx' = max (peak_connections ctx) (active_connections ctx')
          \<and> conn_at ctx' = (conn_at ctx)(x := conn_at ctx' x))"
proof (cases fs)
  case Nil
  then show ?thesis using assms conn_alloc_empty by simp
next
  case (Cons x xs)
  with assms have ok: "pool_ok ctx (x # xs)" by simp
  have "active_connections ctx' = active_connections ctx + 1"
    if "pool_ok ctx' xs" "conn_alloc m ctx = (Some x, ctx')" for ctx'
    using that ok by (auto simp: conn_alloc_def Let_def split: option.splits)
  with Cons show ?thesis
    using conn_alloc_ok [OF ok, of m] conn_alloc_no_memory [OF ok] by (auto simp: fun_eq_iff)
qed

lemma conn_alloc_refines_witness:
  "(case [0, 1] of
      [] \<Rightarrow> conn_alloc None ex_ctx = (None, ex_ctx)
    | x # xs \<Rightarrow>
        if handoff_buf (conn_at ex_ctx x) = None \<and> (None :: (nat \<Rightarrow> char) option) = None
        then conn_alloc None ex_ctx = (None, ex_ctx)
        else \<exists>ctx'. conn_alloc None ex_ctx = (Some x, ctx') \<and> pool_ok ctx' xs
          \<and> handoff_buf (conn_at ctx' x) \<noteq> None
          \<and> active_connections ctx' = active_connections ex_ctx + 1
          \<and> peak_connections ctx' = max (peak_connections ex_ctx) (active_connections ctx')
          \<and> conn_at ctx' = (conn_at ex_ctx)(x := conn_at ctx' x))"
  by (rule conn_alloc_refines [OF ex_ctx_ok])

text \<open>
  A release pushes the connection back. The pool is well formed with the connection on top of
  the free stack, both its descriptors are closed in the process and gone from the connection, its
  memory but the handoff buffer is released, every other connection and descriptor is as before, and
  the next allocation returns this connection.
\<close>

theorem conn_free_refines:
  assumes "pool_ok ctx fs" "i < length (connections ctx)" "i \<notin> set fs"
  shows "pool_ok (conn_free i ctx) (i # fs)
    \<and> conn_at (conn_free i ctx) i = (conn_reset (conn_at ctx i))\<lparr>next_free := free_list ctx\<rparr>
    \<and> d_fds (conn_free i ctx) = filter (\<lambda>fd. \<not> (0 \<le> fd
          \<and> (fd = unix_fd (conn_at ctx i) \<or> fd = client_fd (conn_at ctx i)))) (d_fds ctx)
    \<and> conn_at (conn_free i ctx) = (conn_at ctx)(i := conn_at (conn_free i ctx) i)
    \<and> (if handoff_buf (conn_at ctx i) = None then True else fst (conn_alloc m (conn_free i ctx)) = Some i)"
proof -
  have ok: "pool_ok (conn_free i ctx) (i # fs)" by (rule conn_free_ok [OF assms])
  have at: "conn_at (conn_free i ctx) i = (conn_reset (conn_at ctx i))\<lparr>next_free := free_list ctx\<rparr>"
    using assms(2) by (simp add: conn_free_at conn_close_fds_self conn_reset_def)
  moreover have "handoff_buf (conn_at ctx i) \<noteq> None \<Longrightarrow> fst (conn_alloc m (conn_free i ctx)) = Some i"
    using conn_alloc_ok [OF ok, of m] at by auto
  ultimately show ?thesis using ok assms(2) by (auto simp: conn_close_fds_fds conn_free_at fun_eq_iff)
qed

definition ex_busy :: daemon_ctx where
  \<comment> \<open>the first connection is taken\<close>
  "ex_busy = snd (conn_alloc (Some (\<lambda>_. NUL)) ex_ctx)"

lemma ex_busy_ok: "pool_ok ex_busy [1]"
  using conn_alloc_ok [OF ex_ctx_ok, of "Some (\<lambda>_. NUL)"] by (auto simp: ex_busy_def)

lemma conn_free_refines_witness:
  "pool_ok (conn_free 0 ex_busy) (0 # [1])
    \<and> conn_at (conn_free 0 ex_busy) 0 = (conn_reset (conn_at ex_busy 0))\<lparr>next_free := free_list ex_busy\<rparr>
    \<and> d_fds (conn_free 0 ex_busy) = filter (\<lambda>fd. \<not> (0 \<le> fd
          \<and> (fd = unix_fd (conn_at ex_busy 0) \<or> fd = client_fd (conn_at ex_busy 0)))) (d_fds ex_busy)
    \<and> conn_at (conn_free 0 ex_busy) = (conn_at ex_busy)(0 := conn_at (conn_free 0 ex_busy) 0)
    \<and> (if handoff_buf (conn_at ex_busy 0) = None then True else fst (conn_alloc None (conn_free 0 ex_busy)) = Some 0)"
proof (rule conn_free_refines [OF ex_busy_ok])
  show "0 < length (connections ex_busy)" using ex_busy_ok by (auto simp: pool_ok_def)
qed simp

section \<open>The dirty list\<close>

text \<open>
  C25. The dirty list is a queue without duplicates. Marking a connection appends it unless it is
  already there; unmarking one, wherever it stands in the list, returns and removes exactly it and
  keeps the order of the others, the tail pointer and the marks right; neither touches what the pool
  keeps of a connection.
\<close>

theorem dirty_list_refines:
  assumes "dirty_ok ctx ds" "pool_ok ctx fs" "i < length (connections ctx)"
  shows "dirty_ok (daemon_mark_connection_dirty i ctx) (if i \<in> set ds then ds else ds @ [i])
    \<and> pool_ok (daemon_mark_connection_dirty i ctx) fs
    \<and> (\<exists>ctx'. daemon_unmark_connection_dirty i ctx = Some ctx'
         \<and> dirty_ok ctx' (remove1 i ds) \<and> pool_ok ctx' fs)"
  using mark_dirty_ok [OF assms(1,3)] mark_pool_ok [OF assms(2)] unmark_dirty_ok [OF assms(1,3)]
    unmark_pool_ok [OF assms(2)] by blast

lemma ex_ctx_dirty: "dirty_ok ex_ctx []"
  by (simp add: dirty_ok_def ex_ctx_def conn_pool_init_def daemon_init_def zero_connection_def
      init_connection_def upd_conn_def conn_at_def numeral_2_eq_2 less_Suc_eq)

lemma dirty_list_refines_witness:
  "dirty_ok (daemon_mark_connection_dirty 1 ex_ctx) (if (1::nat) \<in> set [] then [] else [] @ [1])
    \<and> pool_ok (daemon_mark_connection_dirty 1 ex_ctx) [0, 1]
    \<and> (\<exists>ctx'. daemon_unmark_connection_dirty 1 ex_ctx = Some ctx'
         \<and> dirty_ok ctx' (remove1 1 []) \<and> pool_ok ctx' [0, 1])"
proof (rule dirty_list_refines [OF ex_ctx_dirty ex_ctx_ok])
  show "1 < length (connections ex_ctx)" using ex_ctx_ok by (auto simp: pool_ok_def)
qed

section \<open>The event stream\<close>

text \<open>
  C31. What the daemon formats, its parser reads. For a content without control characters other
  than the three that have a short escape, whose escaped form fits the formatter's buffer, formatting
  gives an event within 8192 bytes whose line carries exactly the content.
\<close>

theorem sse_round_trip:
  assumes "list_all plain_char content" "content \<noteq> []" "length (escape content) \<le> 4089"
  shows "\<exists>event. stream_format_sse 8192 content = Some event
    \<and> sse_line_content (takeWhile (\<lambda>c. c \<noteq> LF) event) = Some content"
proof -
  have e: "escape_loop 4095 content = escape content" using assms(3) by (intro escape_loop_exact) simp
  let ?event = "sse_open @ escape content @ sse_close"
  have f: "stream_format_sse 8192 content = Some ?event"
    using assms(3) by (simp add: stream_format_sse_def e sse_frame_length)
  have "takeWhile (\<lambda>c. c \<noteq> LF) ?event = sse_open @ escape content @ DQ # ''}''"
    by (rule event_line)
  moreover have "unescape_loop 0 (escape content @ DQ # ''}'') = content"
    using assms length_le_escape [of content] by (intro unescape_escape) auto
  ultimately show ?thesis using f assms(2) by (simp add: sse_line_content_open)
qed

lemma sse_round_trip_witness:
  "\<exists>event. stream_format_sse 8192 ''a b'' = Some event
    \<and> sse_line_content (takeWhile (\<lambda>c. c \<noteq> LF) event) = Some ''a b''"
  by (rule sse_round_trip) (simp_all add: plain_char_def escape_def escape_char_def)

text \<open>
  The bounds of the formatter. Whatever the content, the escaped text never overruns its 4096
  bytes with the terminator, a buffer of 8192 bytes is always enough, so the daemon's callers that
  pass one never see a failure, and the event that is produced is one line between the frame and an
  empty line: no byte of the content can end the event.
\<close>

theorem stream_format_sse_bounds:
  "length (escape_loop (4096 - 1) content) \<le> 4095
   \<and> (\<exists>event. stream_format_sse 8192 content = Some event
        \<and> event = sse_open @ escape_loop (4096 - 1) content @ sse_close
        \<and> LF \<notin> set (sse_open @ escape_loop (4096 - 1) content) \<and> length event \<le> 4117)"
proof -
  have "length (escape_loop (4096 - 1) content) \<le> 4095"
    using escape_loop_length [of "4096 - 1" content] by simp
  then show ?thesis
    by (simp add: stream_format_sse_def sse_frame_length escape_loop_no_lf sse_open_no_lf)
qed

text \<open>
  The demo stream is finite and fixed. From its start, a connection without a response of its
  own yields exactly 18 messages: the greeting with the prompt, the user, and the 16 fixed messages
  in order; then it yields nothing more.
\<close>

theorem demo_stream:
  assumes "\<not> use_llm_response conn" "18 < n"
  shows "\<exists>greeting user. fst (stream_messages n (stream_start conn)) = greeting # user # demo_messages
    \<and> has_prefix ''Hello from C io_uring daemon! Prompt: '' greeting
    \<and> has_prefix ''User ID: '' user
    \<and> length (fst (stream_messages n (stream_start conn))) = 18
    \<and> fst (stream_next_message (snd (stream_messages n (stream_start conn)))) = None"
  by (rule demo_stream_messages [OF assms])

lemma demo_stream_witness:
  "\<exists>greeting user. fst (stream_messages 19 (stream_start zero_connection)) = greeting # user # demo_messages
    \<and> has_prefix ''Hello from C io_uring daemon! Prompt: '' greeting
    \<and> has_prefix ''User ID: '' user
    \<and> length (fst (stream_messages 19 (stream_start zero_connection))) = 18
    \<and> fst (stream_next_message (snd (stream_messages 19 (stream_start zero_connection)))) = None"
  by (rule demo_stream) (simp_all add: zero_connection_def)

text \<open>
  A stored response is streamed whole. The messages of a connection with a response of \<open>n\<close>
  bytes are, put together, exactly the response; each has between 1 and 151 bytes, so at most \<open>n\<close> of
  them come before the stream says that it has ended.
\<close>

theorem llm_response_stream:
  assumes "llm_ok conn" "length (llm_rest conn) < n"
  shows "concat (fst (stream_messages n conn)) = llm_rest conn
     \<and> list_all (\<lambda>m. m \<noteq> [] \<and> length m \<le> 151) (fst (stream_messages n conn))
     \<and> stream_next_message (snd (stream_messages n conn)) = (None, snd (stream_messages n conn))"
  using llm_stream [OF assms] by (simp add: LLM_CHUNK_TARGET_SIZE_def)

definition ex_llm :: connection where
  "ex_llm = zero_connection\<lparr>use_llm_response := True, handoff_buf := Some ''some answer'', handoff_len := 11\<rparr>"

lemma llm_response_stream_witness:
  "concat (fst (stream_messages 12 ex_llm)) = llm_rest ex_llm
     \<and> list_all (\<lambda>m. m \<noteq> [] \<and> length m \<le> 151) (fst (stream_messages 12 ex_llm))
     \<and> stream_next_message (snd (stream_messages 12 ex_llm)) = (None, snd (stream_messages 12 ex_llm))"
  by (rule llm_response_stream)
    (simp_all add: llm_ok_def llm_rest_def ex_llm_def zero_connection_def)

end
