(* ===== verification/Work_Pool.thy ===== *)
theory Work_Pool
  imports Daemon_Types Linked_List
begin

text \<open>
  The thread pool of the io_uring daemon (pool.c, pool.h): a linked queue of work items from the
  event loop to the workers, and a ring of completed connections back. The critical sections are
  functions; the threads are a step relation that interleaves them.
\<close>

section \<open>State and critical sections\<close>

record pool_work =
  work_conn :: nat
  work_next :: "nat option"

record pool_ctx =
  items :: "nat \<Rightarrow> pool_work option" \<comment> \<open>the work items allocated, by address\<close>
  queue_head :: "nat option"
  queue_tail :: "nat option"
  pool_shut :: bool
  completions :: "nat list"
  completion_head :: nat
  completion_tail :: nat
  completion_size :: nat
  event_count :: nat \<comment> \<open>signals written to the eventfd\<close>

definition pool_init :: "bool \<Rightarrow> bool \<Rightarrow> bool \<Rightarrow> daemon_ctx \<Rightarrow> pool_ctx option" where
  \<comment> \<open>whether the eventfd and mutexes, the memory, and the threads can be had; a failure undoes the
      steps before it and returns -1\<close>
  "pool_init sync_ok memory_ok threads_ok ctx =
     (if \<not> sync_ok then None
      else if \<not> memory_ok then None
      else if \<not> threads_ok then None
      else Some \<lparr>items = Map.empty, queue_head = None, queue_tail = None, pool_shut = False,
             completions = replicate (nat (max_connections ctx)) 0,
             completion_head = 0, completion_tail = 0,
             completion_size = nat (max_connections ctx), event_count = 0\<rparr>)"

definition set_work_next :: "nat \<Rightarrow> nat option \<Rightarrow> pool_ctx \<Rightarrow> pool_ctx" where
  "set_work_next i v p =
     p\<lparr>items := (\<lambda>j. if j = i then map_option (\<lambda>w. w\<lparr>work_next := v\<rparr>) (items p j) else items p j)\<rparr>"

definition pool_submit :: "nat option \<Rightarrow> nat \<Rightarrow> pool_ctx \<Rightarrow> int \<times> pool_ctx" where
  \<comment> \<open>the first argument: the address \<open>malloc\<close> gives\<close>
  "pool_submit malloc c p =
     (case malloc of
        None \<Rightarrow> (-1, p)
      | Some a \<Rightarrow>
          let p1 = p\<lparr>items := (items p)(a \<mapsto> \<lparr>work_conn = c, work_next = None\<rparr>)\<rparr>;
              p2 = (case queue_tail p1 of
                      Some t \<Rightarrow> set_work_next t (Some a) p1
                    | None \<Rightarrow> p1\<lparr>queue_head := Some a\<rparr>)
          in (0, p2\<lparr>queue_tail := Some a\<rparr>))"

definition work_link :: "pool_ctx \<Rightarrow> nat \<Rightarrow> nat option" where
  "work_link p i = (case items p i of None \<Rightarrow> None | Some w \<Rightarrow> work_next w)"

definition pool_dequeue :: "pool_ctx \<Rightarrow> nat option \<times> pool_ctx" where
  "pool_dequeue p =
     (case queue_head p of
        None \<Rightarrow> (None, p)
      | Some a \<Rightarrow>
          let p1 = p\<lparr>queue_head := work_link p a\<rparr>
          in (Some a, if queue_head p1 = None then p1\<lparr>queue_tail := None\<rparr> else p1))"

definition take_work :: "pool_ctx \<Rightarrow> nat option \<times> pool_ctx" where
  \<comment> \<open>a worker's dequeue: the connection of the item, which is freed\<close>
  "take_work p =
     (case pool_dequeue p of
        (None, p1) \<Rightarrow> (None, p1)
      | (Some a, p1) \<Rightarrow> (map_option work_conn (items p1 a), p1\<lparr>items := (items p1)(a := None)\<rparr>))"

definition pool_add_completion :: "nat \<Rightarrow> pool_ctx \<Rightarrow> bool \<times> pool_ctx" where
  \<comment> \<open>\<open>False\<close>: the ring is full, the worker sleeps and tries again\<close>
  "pool_add_completion c p =
     (let next_tail = (completion_tail p + 1) mod completion_size p in
      if next_tail = completion_head p then (False, p)
      else (True, p\<lparr>completions := (completions p)[completion_tail p := c],
                    completion_tail := next_tail, event_count := event_count p + 1\<rparr>))"

definition pool_get_completion :: "pool_ctx \<Rightarrow> nat option \<times> pool_ctx" where
  "pool_get_completion p =
     (if completion_head p \<noteq> completion_tail p
      then (Some (completions p ! completion_head p),
            p\<lparr>completion_head := (completion_head p + 1) mod completion_size p\<rparr>)
      else (None, p))"

definition pool_shutdown :: "pool_ctx \<Rightarrow> pool_ctx" where
  "pool_shutdown p = p\<lparr>pool_shut := True\<rparr>"

definition pool_cleanup :: "pool_ctx \<Rightarrow> pool_ctx" where
  \<comment> \<open>after the workers have ended: every item and the ring are freed\<close>
  "pool_cleanup p = (pool_shutdown p)\<lparr>items := Map.empty, completions := []\<rparr>"

section \<open>The work queue\<close>

lemma link_set_work_next: "x \<in> dom (items p) \<Longrightarrow> work_link (set_work_next x v p) = (work_link p)(x := v)"
  by (auto simp: fun_eq_iff work_link_def set_work_next_def split: option.split)

lemma dom_set_work_next [simp]: "dom (items (set_work_next x v p)) = dom (items p)"
  by (auto simp: set_work_next_def dom_def)

interpretation work: link_field work_link set_work_next "\<lambda>p. dom (items p)"
  by unfold_locales (simp_all add: link_set_work_next)

definition item_conn :: "pool_ctx \<Rightarrow> nat \<Rightarrow> nat" where
  "item_conn p a = (case items p a of Some w \<Rightarrow> work_conn w | None \<Rightarrow> 0)"

definition queue_items :: "pool_ctx \<Rightarrow> nat list \<Rightarrow> bool" where
  \<comment> \<open>the items in the queue, and no other item is allocated\<close>
  "queue_items p xs \<longleftrightarrow> chain (work_link p) (queue_head p) xs \<and> distinct xs
     \<and> set xs = dom (items p) \<and> queue_tail p = (if xs = [] then None else Some (last xs))"

definition queue_conns :: "pool_ctx \<Rightarrow> nat list \<Rightarrow> bool" where
  \<comment> \<open>the connections in the queue\<close>
  "queue_conns p cs \<longleftrightarrow> (\<exists>xs. queue_items p xs \<and> cs = map (item_conn p) xs)"

lemma submit_items:
  assumes q: "queue_items p xs" and a: "items p a = None"
    and s: "pool_submit (Some a) c p = (r, p')"
  shows "r = 0 \<and> queue_items p' (xs @ [a]) \<and> map (item_conn p') (xs @ [a]) = map (item_conn p) xs @ [c]"
proof -
  define p1 where "p1 = p\<lparr>items := (items p)(a \<mapsto> \<lparr>work_conn = c, work_next = None\<rparr>)\<rparr>"
  have ax: "a \<notin> set xs" using q a by (auto simp: queue_items_def dom_def)
  have l1: "work_link p1 = (work_link p)(a := None)"
    by (auto simp: fun_eq_iff work_link_def p1_def)
  have d1: "dom (items p1) = insert a (set xs)" using q by (auto simp: p1_def queue_items_def)
  have c1: "chain (work_link p1) (queue_head p1) xs"
    using q ax by (simp add: l1 chain_fun_upd queue_items_def) (simp add: p1_def)
  have n1: "set_work_next a None p1 = p1"
    by (auto simp: set_work_next_def p1_def fun_eq_iff intro!: pool_ctx.equality)
  show ?thesis
  proof (cases "xs = []")
    case True
    then have p': "r = 0" "p' = p1\<lparr>queue_head := Some a, queue_tail := Some a\<rparr>"
      using s q by (auto simp: pool_submit_def queue_items_def p1_def Let_def)
    have "work_link p' = work_link p1" by (simp add: p' work_link_def fun_eq_iff)
    then have "queue_items p' [a]" using True d1 by (simp add: queue_items_def p' l1)
    then show ?thesis using True p' by (simp add: item_conn_def p1_def)
  next
    case False
    then have p': "r = 0" "p' = (set_work_next (last xs) (Some a) p1)\<lparr>queue_tail := Some a\<rparr>"
      using s q by (auto simp: pool_submit_def queue_items_def p1_def Let_def)
    have "chain (work_link (set_work_next (last xs) (Some a) (set_work_next a None p1))) (queue_head p1) (xs @ [a])"
      using c1 False q ax d1 by (intro work.append_chain) (auto simp: queue_items_def)
    then have "chain (work_link p') (queue_head p') (xs @ [a])"
      by (simp add: n1 p' work_link_def [abs_def]) (simp add: set_work_next_def)
    moreover have "dom (items p') = insert a (set xs)" using d1 by (simp add: p')
    ultimately have "queue_items p' (xs @ [a])" using q ax by (auto simp: queue_items_def p')
    moreover have "item_conn p' x = (if x = a then c else item_conn p x)" for x
      by (auto simp: item_conn_def p' set_work_next_def p1_def split: option.split)
    ultimately show ?thesis using ax p' by auto
  qed
qed

lemma take_work_first:
  assumes q: "queue_items p (a # xs)"
  shows "\<exists>p'. take_work p = (Some (item_conn p a), p') \<and> queue_items p' xs
     \<and> map (item_conn p') xs = map (item_conn p) xs"
proof -
  obtain w where w: "items p a = Some w" using q by (auto simp: queue_items_def)
  have ax: "a \<notin> set xs" and h: "queue_head p = Some a" and ch: "chain (work_link p) (work_link p a) xs"
    using q by (auto simp: queue_items_def)
  define p' where "p' = p\<lparr>queue_head := work_link p a,
     queue_tail := (if work_link p a = None then None else queue_tail p), items := (items p)(a := None)\<rparr>"
  have t: "take_work p = (Some (item_conn p a), p')"
    by (auto simp: take_work_def pool_dequeue_def h Let_def w item_conn_def p'_def)
  have l: "work_link p' = (work_link p)(a := None)" by (auto simp: fun_eq_iff work_link_def p'_def)
  have "chain (work_link p') (queue_head p') xs" using ch ax by (simp add: l chain_fun_upd) (simp add: p'_def)
  moreover have "work_link p a = None \<longleftrightarrow> xs = []" using chain_start [OF ch] by simp
  ultimately have "queue_items p' xs"
    using q ax by (auto simp: queue_items_def p'_def)
  moreover have "map (item_conn p') xs = map (item_conn p) xs"
    using ax by (auto simp: item_conn_def p'_def)
  ultimately show ?thesis using t by blast
qed

text \<open>The queue interface: \<open>usable\<close> is what \<open>malloc\<close> promises, an address not in use.\<close>

definition work_enq :: "nat option \<Rightarrow> nat \<Rightarrow> pool_ctx \<Rightarrow> bool \<times> pool_ctx" where
  "work_enq malloc c p = (case pool_submit malloc c p of (r, p') \<Rightarrow> (r = 0, p'))"

definition fresh_item :: "nat option \<Rightarrow> pool_ctx \<Rightarrow> bool" where
  "fresh_item malloc p \<longleftrightarrow> (case malloc of None \<Rightarrow> True | Some a \<Rightarrow> items p a = None)"

lemma take_work_empty: "queue_items p [] \<Longrightarrow> take_work p = (None, p)"
  by (simp add: queue_items_def take_work_def pool_dequeue_def)

interpretation workq: queue work_enq take_work fresh_item queue_conns
proof
  fix p cs e c b p'
  assume r: "queue_conns p cs" "fresh_item e p" "work_enq e c p = (b, p')"
  then obtain xs where xs: "queue_items p xs" "cs = map (item_conn p) xs" by (auto simp: queue_conns_def)
  show "queue_conns p' (if b then cs @ [c] else cs)"
  proof (cases e)
    case None
    with r show ?thesis by (auto simp: work_enq_def pool_submit_def)
  next
    case (Some a)
    obtain s p1 where s: "pool_submit (Some a) c p = (s, p1)" by fastforce
    have "items p a = None" using r Some by (simp add: fresh_item_def)
    from submit_items [OF xs(1) this s] r(3) s xs Some show ?thesis
      unfolding queue_conns_def by (auto simp: work_enq_def intro!: exI [of _ "xs @ [a]"])
  qed
next
  fix p
  show "queue_conns p [] \<Longrightarrow> take_work p = (None, p)"
    by (auto simp: queue_conns_def take_work_empty)
next
  fix p c cs
  assume "queue_conns p (c # cs)"
  then obtain a xs where "queue_items p (a # xs)" "c = item_conn p a" "cs = map (item_conn p) xs"
    by (auto simp: queue_conns_def map_eq_Cons_conv Cons_eq_map_conv)
  with take_work_first [OF this(1)]
  show "\<exists>p'. take_work p = (Some c, p') \<and> queue_conns p' cs"
    by (force simp: queue_conns_def)
qed

section \<open>The completion ring\<close>

definition ring_conns :: "pool_ctx \<Rightarrow> nat list \<Rightarrow> bool" where
  \<comment> \<open>the connections in the ring; one slot always stays empty\<close>
  "ring_conns p cs \<longleftrightarrow> length cs < completion_size p
     \<and> completion_head p < completion_size p \<and> length (completions p) = completion_size p
     \<and> completion_tail p = (completion_head p + length cs) mod completion_size p
     \<and> (\<forall>k < length cs. completions p ! ((completion_head p + k) mod completion_size p) = cs ! k)"

lemma mod_offset_neq:
  assumes "j < k" "k < (n::nat)"
  shows "(h + j) mod n \<noteq> (h + k) mod n"
proof
  assume "(h + j) mod n = (h + k) mod n"
  then have "n dvd (h + k) - (h + j)"
    using assms(1) by (intro iffD1 [OF mod_eq_dvd_iff_nat]) auto
  with assms show False by (auto dest: dvd_imp_le)
qed

lemma add_completion_ring:
  assumes r: "ring_conns p cs" and a: "pool_add_completion c p = (b, p')"
  shows "ring_conns p' (if b then cs @ [c] else cs)"
    and "b \<longleftrightarrow> Suc (length cs) < completion_size p"
    and "completion_size p' = completion_size p"
proof -
  let ?n = "completion_size p" and ?h = "completion_head p" and ?l = "length cs"
  have t: "completion_tail p = (?h + ?l) mod ?n" and l: "?l < ?n" and h: "?h < ?n"
    using r by (auto simp: ring_conns_def)
  have nt: "(completion_tail p + 1) mod ?n = (?h + Suc ?l) mod ?n" by (simp add: t mod_simps)
  show full: "b \<longleftrightarrow> Suc ?l < ?n"
  proof (cases "Suc ?l < ?n")
    case True
    then have "(?h + 0) mod ?n \<noteq> (?h + Suc ?l) mod ?n" by (intro mod_offset_neq) auto
    then have "(completion_tail p + 1) mod ?n \<noteq> ?h" using h nt by simp
    with a True show ?thesis by (auto simp: pool_add_completion_def Let_def split: if_splits)
  next
    case False
    then have "Suc ?l = ?n" using l by simp
    then have "(completion_tail p + 1) mod ?n = ?h" using h nt by simp
    with a False show ?thesis by (auto simp: pool_add_completion_def Let_def split: if_splits)
  qed
  show "completion_size p' = ?n"
    using a by (auto simp: pool_add_completion_def Let_def split: if_splits)
  show "ring_conns p' (if b then cs @ [c] else cs)"
  proof (cases b)
    case False
    with a r show ?thesis by (auto simp: pool_add_completion_def Let_def split: if_splits)
  next
    case True
    with a have p': "p' = p\<lparr>completions := (completions p)[completion_tail p := c],
        completion_tail := (completion_tail p + 1) mod ?n, event_count := event_count p + 1\<rparr>"
      by (auto simp: pool_add_completion_def Let_def split: if_splits)
    have sl: "Suc ?l < ?n" using full True by simp
    have old: "(completions p)[completion_tail p := c] ! ((?h + k) mod ?n) = cs ! k" if "k < ?l" for k
      using that r mod_offset_neq [of k ?l ?n ?h] l by (auto simp: ring_conns_def t)
    have new: "(completions p)[completion_tail p := c] ! ((?h + ?l) mod ?n) = c"
      using r l by (auto simp: ring_conns_def t)
    show ?thesis
      using True r sl nt old new
      by (auto simp: ring_conns_def p' nth_append less_Suc_eq)
  qed
qed

lemma get_completion_ring:
  assumes r: "ring_conns p cs"
  shows "cs = [] \<Longrightarrow> pool_get_completion p = (None, p)"
    and "cs = c # rest \<Longrightarrow> \<exists>p'. pool_get_completion p = (Some c, p') \<and> ring_conns p' rest
       \<and> completion_size p' = completion_size p"
proof -
  let ?n = "completion_size p" and ?h = "completion_head p"
  have h: "?h < ?n" using r by (simp add: ring_conns_def)
  show "cs = [] \<Longrightarrow> pool_get_completion p = (None, p)"
    using r h by (auto simp: ring_conns_def pool_get_completion_def)
  assume cs: "cs = c # rest"
  have ne: "(?h + 0) mod ?n \<noteq> (?h + Suc (length rest)) mod ?n"
    using r cs by (intro mod_offset_neq) (auto simp: ring_conns_def)
  then have ht: "?h \<noteq> completion_tail p" using r h cs by (auto simp: ring_conns_def)
  have first: "completions p ! ?h = c"
  proof -
    have "completions p ! ((?h + 0) mod ?n) = cs ! 0" using r cs unfolding ring_conns_def by blast
    then show ?thesis using h cs by simp
  qed
  let ?p = "p\<lparr>completion_head := (?h + 1) mod ?n\<rparr>"
  have "completions p ! (((?h + 1) mod ?n + k) mod ?n) = rest ! k" if "k < length rest" for k
  proof -
    have "completions p ! ((?h + Suc k) mod ?n) = cs ! Suc k" using r that cs unfolding ring_conns_def by auto
    then show ?thesis using cs by (simp add: mod_simps)
  qed
  then have "ring_conns ?p rest"
    using r cs h by (auto simp: ring_conns_def mod_simps)
  then show "\<exists>p'. pool_get_completion p = (Some c, p') \<and> ring_conns p' rest \<and> completion_size p' = ?n"
    using ht first by (auto simp: pool_get_completion_def)
qed

interpretation completionq: queue "\<lambda>_. pool_add_completion" pool_get_completion "\<lambda>_ _. True" ring_conns
proof
  fix p cs e c b p'
  show "ring_conns p cs \<Longrightarrow> pool_add_completion c p = (b, p') \<Longrightarrow> ring_conns p' (if b then cs @ [c] else cs)"
    by (rule add_completion_ring)
next
  fix p
  show "ring_conns p [] \<Longrightarrow> pool_get_completion p = (None, p)" by (rule get_completion_ring(1)) auto
next
  fix p c cs
  assume "ring_conns p (c # cs)"
  from get_completion_ring(2) [OF this refl]
  show "\<exists>p'. pool_get_completion p = (Some c, p') \<and> ring_conns p' cs" by blast
qed

text \<open>The two queues do not see each other.\<close>

lemma ring_frame:
  "ring_conns (p\<lparr>items := m, queue_head := h, queue_tail := t\<rparr>) cs = ring_conns p cs"
  "pool_submit e c p = (r, p1) \<Longrightarrow> ring_conns p1 cs = ring_conns p cs"
  "take_work p = (x, p2) \<Longrightarrow> ring_conns p2 cs = ring_conns p cs"
  "ring_conns (pool_shutdown p) cs = ring_conns p cs"
  by (auto simp: ring_conns_def pool_submit_def take_work_def pool_dequeue_def set_work_next_def
      pool_shutdown_def Let_def split: option.splits if_splits)

lemma queue_frame:
  "pool_add_completion c p = (b, p1) \<Longrightarrow> queue_conns p1 cs = queue_conns p cs"
  "pool_get_completion p = (x, p2) \<Longrightarrow> queue_conns p2 cs = queue_conns p cs"
  "queue_conns (pool_shutdown p) cs = queue_conns p cs"
proof -
  have f: "queue_conns (p\<lparr>completions := a, completion_tail := b, event_count := n\<rparr>) cs = queue_conns p cs"
    "queue_conns (p\<lparr>completion_head := h\<rparr>) cs = queue_conns p cs"
    "queue_conns (p\<lparr>pool_shut := s\<rparr>) cs = queue_conns p cs" for a b n h s
    by (simp_all add: queue_conns_def queue_items_def work_link_def [abs_def] item_conn_def [abs_def])
  show "pool_add_completion c p = (b, p1) \<Longrightarrow> queue_conns p1 cs = queue_conns p cs"
    "pool_get_completion p = (x, p2) \<Longrightarrow> queue_conns p2 cs = queue_conns p cs"
    "queue_conns (pool_shutdown p) cs = queue_conns p cs"
    using f by (auto simp: pool_add_completion_def pool_get_completion_def pool_shutdown_def Let_def
        split: if_splits)
qed

end
