(* ===== verification/Pool_Threads.thy ===== *)
theory Pool_Threads
  imports Work_Pool "HOL-Library.Multiset"
begin

text \<open>
  The threads of the pool (pool.c, \<open>worker_thread\<close>) and the event loop, interleaved at the critical
  sections: a step relation over the pool, the connection states and the point each worker is at.
  \<open>submitted\<close> and \<open>delivered\<close> record what went in and came out.
\<close>

section \<open>The step relation\<close>

datatype worker =
    Waiting \<comment> \<open>at the top of the loop, with or without work to find\<close>
  | Processing nat \<comment> \<open>in the blocking call of the backend\<close>
  | Adding nat \<comment> \<open>about to put the connection into the ring, or sleeping because it is full\<close>
  | Exited

record pool_sys =
  pool :: pool_ctx
  conn_states :: "nat \<Rightarrow> conn_state"
  workers :: "worker list"
  submitted :: "nat list"
  delivered :: "nat list"

definition result_state :: "int \<Rightarrow> conn_state" where
  \<comment> \<open>by the result of \<open>backend_process\<close>\<close>
  "result_state r = (if r = 0 then CONN_STATE_STREAMING
     else if r > 0 then CONN_STATE_STREAMED else CONN_STATE_CLOSING)"

definition outstanding :: "pool_sys \<Rightarrow> nat multiset" where
  "outstanding s = mset (submitted s) - mset (delivered s)"

text \<open>The steps that bring work forward: three of a worker, one of the event loop.\<close>

inductive pool_work_step :: "pool_sys \<Rightarrow> pool_sys \<Rightarrow> bool" where
  take: "i < length (workers s) \<Longrightarrow> workers s ! i = Waiting \<Longrightarrow> take_work (pool s) = (Some c, p)
    \<Longrightarrow> pool_work_step s (s\<lparr>pool := p, workers := (workers s)[i := Processing c]\<rparr>)"
| finish: "i < length (workers s) \<Longrightarrow> workers s ! i = Processing c
    \<Longrightarrow> pool_work_step s (s\<lparr>conn_states := (conn_states s)(c := result_state r),
                            workers := (workers s)[i := Adding c]\<rparr>)"
| add: "i < length (workers s) \<Longrightarrow> workers s ! i = Adding c \<Longrightarrow> pool_add_completion c (pool s) = (True, p)
    \<Longrightarrow> pool_work_step s (s\<lparr>pool := p, workers := (workers s)[i := Waiting]\<rparr>)"
| get: "pool_get_completion (pool s) = (Some c, p)
    \<Longrightarrow> pool_work_step s (s\<lparr>pool := p, delivered := delivered s @ [c]\<rparr>)"

text \<open>
  All steps. The event loop submits connections it owns, changes the states of connections it owns
  only (those that are not outstanding), and may shut the pool down.
\<close>

inductive pool_step :: "pool_sys \<Rightarrow> pool_sys \<Rightarrow> bool" where
  work: "pool_work_step s s' \<Longrightarrow> pool_step s s'"
| submit: "c \<notin># outstanding s \<Longrightarrow> fresh_item m (pool s) \<Longrightarrow> pool_submit m c (pool s) = (r, p)
    \<Longrightarrow> pool_step s (s\<lparr>pool := p, conn_states := (conn_states s)(c := CONN_STATE_LLM_QUEUED),
                       submitted := (if r = 0 then submitted s @ [c] else submitted s)\<rparr>)"
| own: "c \<notin># outstanding s \<Longrightarrow> pool_step s (s\<lparr>conn_states := (conn_states s)(c := st)\<rparr>)"
| exit: "i < length (workers s) \<Longrightarrow> workers s ! i = Waiting \<Longrightarrow> pool_shut (pool s)
    \<Longrightarrow> queue_head (pool s) = None \<Longrightarrow> pool_step s (s\<lparr>workers := (workers s)[i := Exited]\<rparr>)"
| shutdown: "pool_step s (s\<lparr>pool := pool_shutdown (pool s)\<rparr>)"

inductive_cases pool_work_stepE: "pool_work_step s s'"
inductive_cases pool_stepE: "pool_step s s'"

definition pool_start :: "nat \<Rightarrow> pool_ctx \<Rightarrow> (nat \<Rightarrow> conn_state) \<Rightarrow> pool_sys" where
  "pool_start n p st = \<lparr>pool = p, conn_states = st, workers = replicate n Waiting,
     submitted = [], delivered = []\<rparr>"

section \<open>What the workers hold\<close>

fun held :: "worker \<Rightarrow> nat list" where
  "held Waiting = []"
| "held (Processing c) = [c]"
| "held (Adding c) = [c]"
| "held Exited = []"

definition all_held :: "worker list \<Rightarrow> nat multiset" where
  "all_held ws = mset (concat (map held ws))"

lemma all_held_update:
  "i < length ws \<Longrightarrow> all_held (ws[i := w]) + mset (held (ws ! i)) = all_held ws + mset (held w)"
proof (induction ws arbitrary: i)
  case Nil
  then show ?case by simp
next
  case (Cons v ws)
  show ?case
  proof (cases i)
    case 0
    then show ?thesis by (simp add: all_held_def)
  next
    case (Suc j)
    with Cons.IH [of j] Cons.prems show ?thesis by (simp add: all_held_def)
  qed
qed

lemma held_in_all: "i < length ws \<Longrightarrow> c \<in> set (held (ws ! i)) \<Longrightarrow> c \<in># all_held ws"
  using nth_mem [of i ws] by (auto simp: all_held_def)

lemma distinct_count_le_one: "(\<And>c. count (mset xs) c \<le> 1) \<Longrightarrow> distinct xs"
proof (induction xs)
  case (Cons x xs)
  have "count (mset xs) c \<le> 1" for c
    by (rule order_trans [OF _ Cons.prems [of c]]) simp
  moreover have "x \<notin> set xs" using Cons.prems [of x] by (simp add: count_eq_zero_iff)
  ultimately show ?case using Cons.IH by simp
qed simp

text \<open>
  The invariant: every connection that went in came out or is in exactly one place (queue, worker,
  ring), no connection is in two places, and the state tells the phase: queued until the backend
  has answered, one of the three outcomes after it.
\<close>

definition outcome :: "conn_state \<Rightarrow> bool" where
  "outcome st \<longleftrightarrow> st \<in> {CONN_STATE_STREAMING, CONN_STATE_STREAMED, CONN_STATE_CLOSING}"

fun worker_ok :: "(nat \<Rightarrow> conn_state) \<Rightarrow> worker \<Rightarrow> bool" where
  "worker_ok st (Processing c) = (st c = CONN_STATE_LLM_QUEUED)"
| "worker_ok st (Adding c) = outcome (st c)"
| "worker_ok st Waiting = True"
| "worker_ok st Exited = True"

lemma worker_ok_cong: "(\<And>c. c \<in> set (held w) \<Longrightarrow> st c = st' c) \<Longrightarrow> worker_ok st w = worker_ok st' w"
  by (cases w) auto

definition places :: "nat list \<Rightarrow> worker list \<Rightarrow> nat list \<Rightarrow> nat multiset" where
  "places q ws rs = mset q + all_held ws + mset rs"

definition pool_inv_at :: "pool_sys \<Rightarrow> nat list \<Rightarrow> nat list \<Rightarrow> bool" where
  "pool_inv_at s q rs \<longleftrightarrow> queue_conns (pool s) q \<and> ring_conns (pool s) rs
     \<and> mset (submitted s) = mset (delivered s) + places q (workers s) rs
     \<and> (\<forall>c. count (places q (workers s) rs) c \<le> 1)
     \<and> (\<forall>c \<in> set rs. outcome (conn_states s c))
     \<and> (\<forall>i < length (workers s). worker_ok (conn_states s) (workers s ! i))
     \<and> (\<forall>c \<in> set q. conn_states s c = CONN_STATE_LLM_QUEUED)"

definition pool_inv :: "pool_sys \<Rightarrow> bool" where
  "pool_inv s \<longleftrightarrow> (\<exists>q rs. pool_inv_at s q rs)"

lemma outcome_result [simp]: "outcome (result_state r)"
  by (simp add: outcome_def result_state_def)

lemma inv_outstanding: "pool_inv_at s q rs \<Longrightarrow> outstanding s = places q (workers s) rs"
  by (simp add: pool_inv_at_def outstanding_def)

text \<open>A connection held by one worker is nowhere else.\<close>

lemma all_held_split:
  assumes "i < length ws"
  shows "all_held ws = mset (held (ws ! i)) + all_held (ws[i := Waiting])"
  using all_held_update [OF assms, of Waiting] by (simp add: add.commute)

lemma held_alone:
  assumes c: "\<forall>d. count (places q ws rs) d \<le> 1" and i: "i < length ws" "c \<in> set (held (ws ! i))"
  shows "c \<notin> set q" "c \<notin> set rs" "j < length ws \<Longrightarrow> j \<noteq> i \<Longrightarrow> c \<notin> set (held (ws ! j))"
proof -
  have one: "1 \<le> count (mset (held (ws ! i))) c" using i by (simp add: Suc_le_eq count_greater_zero_iff)
  have "count (places q ws rs) c = count (mset q) c + count (mset (held (ws ! i))) c
      + count (all_held (ws[i := Waiting])) c + count (mset rs) c"
    by (simp add: places_def all_held_split [OF i(1)])
  moreover have "count (places q ws rs) c \<le> 1" using c by blast
  ultimately have z: "count (mset q) c = 0" "count (mset rs) c = 0" "count (all_held (ws[i := Waiting])) c = 0"
    using one by linarith+
  then show "c \<notin> set q" "c \<notin> set rs" by (auto simp: count_eq_zero_iff)
  assume "j < length ws" "j \<noteq> i"
  with z(3) held_in_all [of j "ws[i := Waiting]" c] show "c \<notin> set (held (ws ! j))"
    by (auto simp: count_eq_zero_iff)
qed

lemma inv_in_places:
  assumes "pool_inv_at s q rs" "c \<notin># outstanding s"
  shows "c \<notin> set q" "c \<notin> set rs" "i < length (workers s) \<Longrightarrow> c \<notin> set (held (workers s ! i))"
  using assms inv_outstanding [OF assms(1)] held_in_all [of i "workers s" c] by (auto simp: places_def)

section \<open>Every step keeps the invariant\<close>

lemma step_take:
  assumes inv: "pool_inv_at s q rs" and i: "i < length (workers s)" "workers s ! i = Waiting"
    and t: "take_work (pool s) = (Some c, p)"
  shows "\<exists>q'. q = c # q' \<and> pool_inv_at (s\<lparr>pool := p, workers := (workers s)[i := Processing c]\<rparr>) q' rs"
proof -
  have qc: "queue_conns (pool s) q" using inv by (simp add: pool_inv_at_def)
  obtain q' where q: "q = c # q'" "queue_conns p q'"
  proof (cases q)
    case Nil
    with qc workq.deq_empty t show ?thesis by fastforce
  next
    case (Cons d q')
    with qc workq.deq_first [of "pool s" d q'] t that show ?thesis by auto
  qed
  have h: "all_held ((workers s)[i := Processing c]) = all_held (workers s) + {#c#}"
    using all_held_update [OF i(1), of "Processing c"] i(2) by simp
  have "pool_inv_at (s\<lparr>pool := p, workers := (workers s)[i := Processing c]\<rparr>) q' rs"
    using inv q i ring_frame(3) [OF t]
    by (auto simp: pool_inv_at_def places_def h nth_list_update)
  with q(1) show ?thesis by blast
qed

lemma step_finish:
  assumes inv: "pool_inv_at s q rs" and i: "i < length (workers s)" "workers s ! i = Processing c"
  shows "pool_inv_at (s\<lparr>conn_states := (conn_states s)(c := result_state r),
           workers := (workers s)[i := Adding c]\<rparr>) q rs"
proof -
  have h: "all_held ((workers s)[i := Adding c]) = all_held (workers s)"
    using all_held_update [OF i(1), of "Adding c"] i(2) by simp
  have alone: "c \<notin> set q" "c \<notin> set rs"
    "\<And>j. j < length (workers s) \<Longrightarrow> j \<noteq> i \<Longrightarrow> c \<notin> set (held (workers s ! j))"
    using held_alone [of q "workers s" rs i c] inv i by (auto simp: pool_inv_at_def)
  let ?s = "s\<lparr>conn_states := (conn_states s)(c := result_state r), workers := (workers s)[i := Adding c]\<rparr>"
  have w: "worker_ok (conn_states ?s) (workers ?s ! j)" if "j < length (workers s)" for j
  proof (cases "j = i")
    case True
    with i show ?thesis by simp
  next
    case False
    with that inv have "worker_ok (conn_states s) (workers s ! j)" by (simp add: pool_inv_at_def)
    then show ?thesis
      using alone(3) [OF that False] False
      by (subst worker_ok_cong [where st' = "conn_states s"]) auto
  qed
  show "pool_inv_at ?s q rs"
    using inv alone(1,2) w by (auto simp: pool_inv_at_def places_def h)
qed

lemma step_add:
  assumes inv: "pool_inv_at s q rs" and i: "i < length (workers s)" "workers s ! i = Adding c"
    and a: "pool_add_completion c (pool s) = (True, p)"
  shows "pool_inv_at (s\<lparr>pool := p, workers := (workers s)[i := Waiting]\<rparr>) q (rs @ [c])"
proof -
  have h: "all_held (workers s) = all_held ((workers s)[i := Waiting]) + {#c#}"
    using all_held_update [OF i(1), of Waiting] i(2) by simp
  have "ring_conns (pool s) rs" using inv by (simp add: pool_inv_at_def)
  from add_completion_ring(1) [OF this a] have r: "ring_conns p (rs @ [c])" by simp
  have "worker_ok (conn_states s) (workers s ! i)" using inv i(1) by (simp add: pool_inv_at_def)
  then have "outcome (conn_states s c)" using i(2) by simp
  then show ?thesis
    using inv r i queue_frame(1) [OF a] by (auto simp: pool_inv_at_def places_def h nth_list_update)
qed

lemma step_get:
  assumes inv: "pool_inv_at s q rs" and g: "pool_get_completion (pool s) = (Some c, p)"
  shows "\<exists>rs'. rs = c # rs' \<and> pool_inv_at (s\<lparr>pool := p, delivered := delivered s @ [c]\<rparr>) q rs'"
proof -
  have rr: "ring_conns (pool s) rs" using inv by (simp add: pool_inv_at_def)
  obtain rs' where rs: "rs = c # rs'" "ring_conns p rs'"
  proof (cases rs)
    case Nil
    with rr completionq.deq_empty g show ?thesis by fastforce
  next
    case (Cons d rs')
    with rr completionq.deq_first [of "pool s" d rs'] g that show ?thesis by auto
  qed
  have "count (places q (workers s) rs') d \<le> 1" for d
  proof -
    have "count (places q (workers s) rs) d \<le> 1" using inv by (simp add: pool_inv_at_def)
    moreover have "count (places q (workers s) rs') d \<le> count (places q (workers s) rs) d"
      by (simp add: places_def rs(1))
    ultimately show ?thesis by simp
  qed
  then show ?thesis
    using inv rs queue_frame(2) [OF g] by (auto simp: pool_inv_at_def places_def)
qed

lemma work_step_inv:
  assumes "pool_work_step s s'" "pool_inv s"
  shows "pool_inv s'"
proof -
  obtain q rs where inv: "pool_inv_at s q rs" using assms(2) by (auto simp: pool_inv_def)
  from assms(1) show ?thesis
  proof cases
    case (take i c p)
    with step_take [OF inv take(2,3,4)] show ?thesis unfolding pool_inv_def by blast
  next
    case (finish i c r)
    with step_finish [OF inv finish(2,3)] show ?thesis unfolding pool_inv_def by blast
  next
    case (add i c p)
    with step_add [OF inv add(2,3,4)] show ?thesis unfolding pool_inv_def by blast
  next
    case (get c p)
    with step_get [OF inv] show ?thesis by (auto simp: pool_inv_def)
  qed
qed

lemma step_submit:
  assumes inv: "pool_inv_at s q rs" and c: "c \<notin># outstanding s" and m: "fresh_item m (pool s)"
    and r: "pool_submit m c (pool s) = (r, p)"
  shows "pool_inv (s\<lparr>pool := p, conn_states := (conn_states s)(c := CONN_STATE_LLM_QUEUED),
           submitted := (if r = 0 then submitted s @ [c] else submitted s)\<rparr>)"
    (is "pool_inv ?s")
proof -
  note out = inv_in_places [OF inv c]
  have n: "count (places q (workers s) rs) c = 0"
    using c by (simp add: inv_outstanding [OF inv] count_eq_zero_iff)
  have qc: "queue_conns (pool s) q" using inv by (simp add: pool_inv_at_def)
  have "work_enq m c (pool s) = (r = 0, p)" using r by (simp add: work_enq_def)
  from workq.enq_represents [OF qc m this] have q: "queue_conns p (if r = 0 then q @ [c] else q)" .
  have w: "worker_ok (conn_states ?s) (workers ?s ! j)" if "j < length (workers s)" for j
    using that inv out(3) [OF that]
    by (subst worker_ok_cong [where st' = "conn_states s"]) (auto simp: pool_inv_at_def)
  have d: "count (places (if r = 0 then q @ [c] else q) (workers s) rs) e \<le> 1" for e
  proof -
    have "count (places q (workers s) rs) e \<le> 1" using inv by (simp add: pool_inv_at_def)
    moreover have "count (places (if r = 0 then q @ [c] else q) (workers s) rs) e
        \<le> count (places q (workers s) rs) e + (if e = c then 1 else 0)" by (simp add: places_def)
    ultimately show ?thesis using n by (cases "e = c") auto
  qed
  have "pool_inv_at ?s (if r = 0 then q @ [c] else q) rs"
    using inv q w d out ring_frame(2) [OF r] by (auto simp: pool_inv_at_def places_def)
  then show ?thesis unfolding pool_inv_def by blast
qed

lemma step_own:
  assumes inv: "pool_inv_at s q rs" and c: "c \<notin># outstanding s"
  shows "pool_inv (s\<lparr>conn_states := (conn_states s)(c := st)\<rparr>)"
proof -
  note out = inv_in_places [OF inv c]
  have w: "worker_ok ((conn_states s)(c := st)) (workers s ! j)" if "j < length (workers s)" for j
    using that inv out(3) [OF that]
    by (subst worker_ok_cong [where st' = "conn_states s"]) (auto simp: pool_inv_at_def)
  have "pool_inv_at (s\<lparr>conn_states := (conn_states s)(c := st)\<rparr>) q rs"
    using inv w out by (auto simp: pool_inv_at_def)
  then show ?thesis unfolding pool_inv_def by blast
qed

lemma step_exit:
  assumes inv: "pool_inv_at s q rs" and i: "i < length (workers s)" "workers s ! i = Waiting"
  shows "pool_inv (s\<lparr>workers := (workers s)[i := Exited]\<rparr>)"
proof -
  have "all_held ((workers s)[i := Exited]) = all_held (workers s)"
    using all_held_update [OF i(1), of Exited] i(2) by simp
  then have "pool_inv_at (s\<lparr>workers := (workers s)[i := Exited]\<rparr>) q rs"
    using inv i by (auto simp: pool_inv_at_def places_def nth_list_update)
  then show ?thesis unfolding pool_inv_def by blast
qed

lemma pool_step_inv:
  assumes "pool_step s s'" "pool_inv s"
  shows "pool_inv s'"
proof -
  obtain q rs where inv: "pool_inv_at s q rs" using assms(2) by (auto simp: pool_inv_def)
  from assms(1) show ?thesis
  proof cases
    case work
    with work_step_inv assms(2) show ?thesis by blast
  next
    case (submit c m r p)
    with step_submit [OF inv] show ?thesis by simp
  next
    case (own c st)
    with step_own [OF inv] show ?thesis by simp
  next
    case (exit i)
    with step_exit [OF inv] show ?thesis by simp
  next
    case shutdown
    with inv show ?thesis
      by (auto simp: pool_inv_def pool_inv_at_def queue_frame(3) ring_frame(4))
  qed
qed

lemma pool_init_inv:
  assumes "pool_init a b c ctx = Some p" "0 < max_connections ctx"
  shows "pool_inv (pool_start n p st)"
proof -
  have p: "p = \<lparr>items = Map.empty, queue_head = None, queue_tail = None, pool_shut = False,
      completions = replicate (nat (max_connections ctx)) 0, completion_head = 0, completion_tail = 0,
      completion_size = nat (max_connections ctx), event_count = 0\<rparr>"
    using assms by (auto simp: pool_init_def split: if_splits)
  have "all_held (replicate n Waiting) = {#}" by (induction n) (auto simp: all_held_def)
  then have "pool_inv_at (pool_start n p st) [] []"
    using assms(2) by (simp add: pool_inv_at_def p pool_start_def queue_conns_def queue_items_def
        ring_conns_def places_def)
  then show ?thesis unfolding pool_inv_def by blast
qed

lemma pool_run_inv: "pool_step\<^sup>*\<^sup>* s s' \<Longrightarrow> pool_inv s \<Longrightarrow> pool_inv s'"
  by (induction rule: rtranclp_induct) (auto intro: pool_step_inv)

section \<open>Draining\<close>

text \<open>The size of the ring never changes, and every working step brings the pool nearer to empty.\<close>

fun worker_weight :: "worker \<Rightarrow> nat" where
  "worker_weight (Processing c) = 3"
| "worker_weight (Adding c) = 2"
| "worker_weight Waiting = 0"
| "worker_weight Exited = 0"

definition pool_weight :: "worker list \<Rightarrow> nat list \<Rightarrow> nat list \<Rightarrow> nat" where
  "pool_weight ws q rs = 4 * length q + sum_list (map worker_weight ws) + length rs"

lemma weight_update:
  "i < length ws \<Longrightarrow>
     sum_list (map worker_weight (ws[i := w])) + worker_weight (ws ! i)
       = sum_list (map worker_weight ws) + worker_weight w"
proof (induction ws arbitrary: i)
  case (Cons v ws)
  then show ?case by (cases i) auto
qed simp

definition all_working :: "pool_sys \<Rightarrow> bool" where
  \<comment> \<open>at least one worker, none has exited, a ring that can hold something\<close>
  "all_working s \<longleftrightarrow> workers s \<noteq> [] \<and> Exited \<notin> set (workers s) \<and> 2 \<le> completion_size (pool s)"

lemma ring_size_kept:
  "take_work p = (x, p1) \<Longrightarrow> completion_size p1 = completion_size p"
  "pool_get_completion p = (x, p2) \<Longrightarrow> completion_size p2 = completion_size p"
  "pool_submit m c p = (r, p3) \<Longrightarrow> completion_size p3 = completion_size p"
  "pool_add_completion c p = (b, p4) \<Longrightarrow> completion_size p4 = completion_size p"
  by (auto simp: take_work_def pool_dequeue_def pool_get_completion_def pool_submit_def set_work_next_def
      pool_add_completion_def Let_def split: option.splits if_splits)

text \<open>A step forward, with what it leads to and a smaller weight.\<close>

definition advances :: "pool_sys \<Rightarrow> nat list \<Rightarrow> nat list \<Rightarrow> bool" where
  "advances s q rs \<longleftrightarrow> (\<exists>s' q' rs'. pool_work_step s s' \<and> pool_inv_at s' q' rs' \<and> all_working s'
     \<and> submitted s' = submitted s
     \<and> pool_weight (workers s') q' rs' < pool_weight (workers s) q rs)"

lemma advances_get:
  assumes inv: "pool_inv_at s q rs" and aw: "all_working s" and rs: "rs \<noteq> []"
  shows "advances s q rs"
proof -
  have rr: "ring_conns (pool s) rs" using inv by (simp add: pool_inv_at_def)
  obtain c rs1 where c: "rs = c # rs1" using rs by (cases rs) auto
  then obtain p where g: "pool_get_completion (pool s) = (Some c, p)"
    using rr completionq.deq_first by blast
  let ?s = "s\<lparr>pool := p, delivered := delivered s @ [c]\<rparr>"
  have "pool_inv_at ?s q rs1" using step_get [OF inv g] c by simp
  moreover have "pool_work_step s ?s" using g by (rule pool_work_step.get)
  moreover have "all_working ?s" using aw ring_size_kept(2) [OF g] by (simp add: all_working_def)
  ultimately show ?thesis
    unfolding advances_def using c by (intro exI [of _ ?s] exI [of _ q] exI [of _ rs1]) (simp add: pool_weight_def)
qed

lemma advances_worker:
  assumes inv: "pool_inv_at s q rs" and aw: "all_working s"
    and i: "i < length (workers s)" "workers s ! i \<noteq> Waiting \<or> q \<noteq> []" and rs: "rs = []"
  shows "advances s q rs"
proof (cases "workers s ! i")
  case Waiting
  with i(2) obtain c q1 where q: "q = c # q1" by (cases q) auto
  have "queue_conns (pool s) q" using inv by (simp add: pool_inv_at_def)
  then obtain p where t: "take_work (pool s) = (Some c, p)" using q workq.deq_first by blast
  let ?s = "s\<lparr>pool := p, workers := (workers s)[i := Processing c]\<rparr>"
  have "pool_inv_at ?s q1 rs" using step_take [OF inv i(1) Waiting t] q by simp
  moreover have "pool_work_step s ?s" using i(1) Waiting t by (rule pool_work_step.take)
  moreover have "all_working ?s"
    using aw ring_size_kept(1) [OF t] set_update_subset_insert [of "workers s" i "Processing c"]
    by (auto simp: all_working_def)
  moreover have "pool_weight (workers ?s) q1 rs < pool_weight (workers s) q rs"
    using weight_update [OF i(1), of "Processing c"] Waiting q by (simp add: pool_weight_def)
  ultimately show ?thesis unfolding advances_def by fastforce
next
  case (Processing c)
  let ?s = "s\<lparr>conn_states := (conn_states s)(c := result_state 0), workers := (workers s)[i := Adding c]\<rparr>"
  have "pool_inv_at ?s q rs" by (rule step_finish [OF inv i(1) Processing])
  moreover have "pool_work_step s ?s" using i(1) Processing by (rule pool_work_step.finish)
  moreover have "all_working ?s"
    using aw set_update_subset_insert [of "workers s" i "Adding c"] by (auto simp: all_working_def)
  moreover have "pool_weight (workers ?s) q rs < pool_weight (workers s) q rs"
    using weight_update [OF i(1), of "Adding c"] Processing by (simp add: pool_weight_def)
  ultimately show ?thesis unfolding advances_def by fastforce
next
  case (Adding c)
  obtain b p where a: "pool_add_completion c (pool s) = (b, p)" by fastforce
  have "ring_conns (pool s) []" using inv rs by (simp add: pool_inv_at_def)
  from add_completion_ring(2) [OF this a] aw have b: "b = True" by (simp add: all_working_def)
  let ?s = "s\<lparr>pool := p, workers := (workers s)[i := Waiting]\<rparr>"
  have "pool_inv_at ?s q (rs @ [c])" using step_add [OF inv i(1) Adding] a b by simp
  moreover have "pool_work_step s ?s" using i(1) Adding a [unfolded b] by (rule pool_work_step.add)
  moreover have "all_working ?s"
    using aw ring_size_kept(4) [OF a] set_update_subset_insert [of "workers s" i "Waiting"]
    by (auto simp: all_working_def)
  moreover have "pool_weight (workers ?s) q (rs @ [c]) < pool_weight (workers s) q rs"
    using weight_update [OF i(1), of Waiting] Adding by (simp add: pool_weight_def)
  ultimately show ?thesis unfolding advances_def by fastforce
next
  case Exited
  with aw i(1) show ?thesis by (metis all_working_def nth_mem)
qed

lemma work_advances:
  assumes inv: "pool_inv_at s q rs" and aw: "all_working s" and out: "outstanding s \<noteq> {#}"
  shows "advances s q rs"
proof (cases "rs = []")
  case False
  with advances_get [OF inv aw] show ?thesis .
next
  case True
  have "\<exists>i < length (workers s). workers s ! i \<noteq> Waiting \<or> q \<noteq> []"
  proof (rule ccontr)
    assume no: "\<not> ?thesis"
    then have q: "q = []" using aw by (auto simp: all_working_def)
    have "held w = []" if "w \<in> set (workers s)" for w
      using that no by (auto simp: in_set_conv_nth)
    then have "all_held (workers s) = {#}" by (simp add: all_held_def)
    with out inv_outstanding [OF inv] True q show False by (simp add: places_def)
  qed
  with advances_worker [OF inv aw _ _ True] show ?thesis by blast
qed

lemma drain:
  assumes "pool_inv_at s q rs" "all_working s"
  shows "\<exists>s'. pool_work_step\<^sup>*\<^sup>* s s' \<and> submitted s' = submitted s \<and> mset (delivered s') = mset (submitted s)"
  using assms
proof (induction "pool_weight (workers s) q rs" arbitrary: s q rs rule: less_induct)
  case less
  show ?case
  proof (cases "outstanding s = {#}")
    case True
    with inv_outstanding [OF less.prems(1)] less.prems(1)
    have "mset (delivered s) = mset (submitted s)" by (simp add: pool_inv_at_def)
    then show ?thesis by blast
  next
    case False
    from work_advances [OF less.prems False] obtain s1 q1 rs1 where
      a: "pool_work_step s s1" "pool_inv_at s1 q1 rs1" "all_working s1" "submitted s1 = submitted s"
        "pool_weight (workers s1) q1 rs1 < pool_weight (workers s) q rs"
      unfolding advances_def by blast
    from less.hyps [OF a(5,2,3)] a(1,4) show ?thesis
      by (metis converse_rtranclp_into_rtranclp)
  qed
qed

section \<open>A ring of one slot\<close>

lemma size_one_step:
  assumes "pool_step s s'" "pool_inv s" "completion_size (pool s) = 1" "delivered s = []"
  shows "completion_size (pool s') = 1 \<and> delivered s' = []"
proof -
  obtain q rs where inv: "pool_inv_at s q rs" using assms(2) by (auto simp: pool_inv_def)
  then have "rs = []" "ring_conns (pool s) []" using assms(3) by (auto simp: pool_inv_at_def ring_conns_def)
  then have no: "pool_get_completion (pool s) = (None, pool s)" using completionq.deq_empty by blast
  from assms(1) show ?thesis
  proof cases
    case work
    then show ?thesis
    proof cases
      case (take i c p)
      with assms(3,4) ring_size_kept(1) [OF take(4)] show ?thesis by simp
    next
      case (finish i c r)
      with assms(3,4) show ?thesis by simp
    next
      case (add i c p)
      with assms(3,4) ring_size_kept(4) [OF add(4)] show ?thesis by simp
    next
      case (get c p)
      with no show ?thesis by simp
    qed
  next
    case (submit c m r p)
    with assms(3,4) ring_size_kept(3) [OF submit(4)] show ?thesis by simp
  next
    case (own c st)
    with assms(3,4) show ?thesis by simp
  next
    case (exit i)
    with assms(3,4) show ?thesis by simp
  next
    case shutdown
    with assms(3,4) show ?thesis by (simp add: pool_shutdown_def)
  qed
qed

lemma size_one_run:
  "pool_step\<^sup>*\<^sup>* s s' \<Longrightarrow> pool_inv s \<Longrightarrow> completion_size (pool s) = 1 \<Longrightarrow> delivered s = []
     \<Longrightarrow> completion_size (pool s') = 1 \<and> delivered s' = []"
proof (induction rule: rtranclp_induct)
  case base
  then show ?case by simp
next
  case (step y z)
  then show ?case using size_one_step pool_run_inv by blast
qed

end
