(* ===== verification/Pool_Correctness.thy ===== *)
theory Pool_Correctness
  imports Pool_Threads
begin

text \<open>
  What the thread pool of the io_uring daemon promises, over the definitions of \<open>Work_Pool\<close> and
  \<open>Pool_Threads\<close>: the order of its two queues, and exclusive ownership, no loss and progress for
  every interleaving of the event loop and the workers.
\<close>

section \<open>A small pool\<close>

definition ex_pool :: pool_ctx where
  "ex_pool = the (pool_init True True True ((daemon_init False)\<lparr>max_connections := 3\<rparr>))"

lemma ex_pool_init: "pool_init True True True ((daemon_init False)\<lparr>max_connections := 3\<rparr>) = Some ex_pool"
  by (simp add: ex_pool_def pool_init_def)

lemma ex_pool_fields: "items ex_pool = Map.empty" "completion_size ex_pool = 3"
  by (simp_all add: ex_pool_def pool_init_def)

definition ex_tiny :: pool_ctx where
  "ex_tiny = the (pool_init True True True ((daemon_init False)\<lparr>max_connections := 1\<rparr>))"

lemma ex_tiny_init: "pool_init True True True ((daemon_init False)\<lparr>max_connections := 1\<rparr>) = Some ex_tiny"
  by (simp add: ex_tiny_def pool_init_def)

section \<open>The two queues\<close>

text \<open>
  C26. The work queue is first in, first out and leaks nothing. From a new pool, over any sequence
  of submissions (each with an address that is free, or none) and dequeues, the connections that were
  taken, followed by those still queued, are the connections accepted, in their order; and the work
  items still allocated are exactly those of the queue.
\<close>

theorem work_queue_order:
  assumes "pool_init sync_ok memory_ok threads_ok ctx = Some p"
    and "queue_run work_enq take_work fresh_item ops p [] [] = (put, taken, p')"
  shows "\<exists>xs. queue_items p' xs \<and> put = taken @ map (item_conn p') xs \<and> set xs = dom (items p')"
proof -
  have "queue_conns p []"
    using assms(1) by (auto simp: pool_init_def queue_conns_def queue_items_def split: if_splits)
  from workq.run_order [OF this assms(2)] obtain cs where "queue_conns p' cs" "put = taken @ cs" by auto
  then obtain xs where "queue_items p' xs" "put = taken @ map (item_conn p') xs"
    unfolding queue_conns_def by blast
  moreover from this(1) have "set xs = dom (items p')" by (simp add: queue_items_def)
  ultimately show ?thesis by blast
qed

definition ex_work_run :: "nat list \<times> nat list \<times> pool_ctx" where
  "ex_work_run = queue_run work_enq take_work fresh_item [Enq (Some 64) 0, Enq (Some 128) 1, Deq] ex_pool [] []"

lemma work_queue_order_witness:
  "case ex_work_run of (put, taken, p') \<Rightarrow>
     \<exists>xs. queue_items p' xs \<and> put = taken @ map (item_conn p') xs \<and> set xs = dom (items p')"
proof -
  obtain put taken p' where r: "ex_work_run = (put, taken, p')" by (metis surj_pair)
  show ?thesis using work_queue_order [OF ex_pool_init r [unfolded ex_work_run_def]] unfolding r by simp
qed

text \<open>
  C27. The completion ring is first in, first out and holds one connection less than the pool has.
  From a new pool, over any sequence of completions and reads, the connections read, followed by
  those still in the ring, are the ones accepted; a completion is refused exactly when the ring holds
  \<open>max_connections - 1\<close> of them, and then nothing changes.
\<close>

theorem completion_ring_order:
  assumes "pool_init sync_ok memory_ok threads_ok ctx = Some p" "0 < max_connections ctx"
    and "queue_run (\<lambda>_. pool_add_completion) pool_get_completion (\<lambda>_ _. True) ops p [] []
           = (put, got, p')"
  shows "\<exists>cs. ring_conns p' cs \<and> put = got @ cs
    \<and> fst (pool_add_completion c p') = (Suc (length cs) < completion_size p')
    \<and> (if fst (pool_add_completion c p') then True else snd (pool_add_completion c p') = p')"
proof -
  have "ring_conns p []"
    using assms(1,2) by (auto simp: pool_init_def ring_conns_def split: if_splits)
  from completionq.run_order [OF this assms(3)] obtain cs where
    cs: "ring_conns p' cs" "put = got @ cs" by auto
  obtain b p1 where a: "pool_add_completion c p' = (b, p1)" by fastforce
  have "\<not> b \<Longrightarrow> p1 = p'" using a by (auto simp: pool_add_completion_def Let_def split: if_splits)
  with add_completion_ring(2) [OF cs(1) a] cs a show ?thesis by auto
qed

definition ex_ring_run :: "nat list \<times> nat list \<times> pool_ctx" where
  "ex_ring_run = queue_run (\<lambda>_. pool_add_completion) pool_get_completion (\<lambda>_ _. True)
     [Enq () 2, Deq, Enq () 0] ex_pool [] []"

lemma completion_ring_order_witness:
  "case ex_ring_run of (put, got, p') \<Rightarrow> \<exists>cs. ring_conns p' cs \<and> put = got @ cs
    \<and> fst (pool_add_completion 1 p') = (Suc (length cs) < completion_size p')
    \<and> (if fst (pool_add_completion 1 p') then True else snd (pool_add_completion 1 p') = p')"
proof -
  obtain put got p' where r: "ex_ring_run = (put, got, p')" by (metis surj_pair)
  show ?thesis
    using completion_ring_order [OF ex_pool_init _ r [unfolded ex_ring_run_def], of 1] unfolding r by simp
qed

section \<open>All interleavings\<close>

text \<open>
  Exclusive ownership under concurrency. In every state that the event loop and any number of
  workers can reach in any interleaving, each connection that was submitted has been delivered or is
  in exactly one place (the queue, one worker, the ring), no connection is in two places, and a
  connection in the ring is in one of the three states that \<open>handle_eventfd\<close> knows.
\<close>

theorem pool_exclusive_ownership:
  assumes "pool_init sync_ok memory_ok threads_ok ctx = Some p" "0 < max_connections ctx"
    and "pool_step\<^sup>*\<^sup>* (pool_start n p st) s"
  shows "\<exists>q rs. queue_conns (pool s) q \<and> ring_conns (pool s) rs
    \<and> mset (submitted s) = mset (delivered s) + (mset q + all_held (workers s) + mset rs)
    \<and> distinct (q @ concat (map held (workers s)) @ rs)
    \<and> list_all (\<lambda>c. outcome (conn_states s c)) rs"
proof -
  obtain q rs where i: "pool_inv_at s q rs"
    using pool_run_inv [OF assms(3) pool_init_inv [OF assms(1,2)]] by (auto simp: pool_inv_def)
  have "count (mset (q @ concat (map held (workers s)) @ rs)) c \<le> 1" for c
  proof -
    have "count (mset (q @ concat (map held (workers s)) @ rs)) c = count (places q (workers s) rs) c"
      by (simp add: places_def all_held_def)
    with i show ?thesis by (simp add: pool_inv_at_def)
  qed
  then have "distinct (q @ concat (map held (workers s)) @ rs)"
    by (rule distinct_count_le_one)
  then show ?thesis using i by (auto simp: pool_inv_at_def places_def list_all_iff)
qed

text \<open>The pool with two workers after one submission.\<close>

definition ex_queued :: pool_sys where
  "ex_queued = (let s = pool_start 2 ex_pool (\<lambda>_. CONN_STATE_PARSING) in
     s\<lparr>pool := snd (pool_submit (Some 64) 1 ex_pool),
       conn_states := (conn_states s)(1 := CONN_STATE_LLM_QUEUED), submitted := [1]\<rparr>)"

lemma ex_queued_reachable: "pool_step\<^sup>*\<^sup>* (pool_start 2 ex_pool (\<lambda>_. CONN_STATE_PARSING)) ex_queued"
proof -
  let ?s = "pool_start 2 ex_pool (\<lambda>_. CONN_STATE_PARSING)"
  obtain p where p: "pool_submit (Some 64) 1 ex_pool = (0, p)"
    by (simp add: pool_submit_def Let_def)
  have "fresh_item (Some 64) (pool ?s)" by (simp add: fresh_item_def pool_start_def ex_pool_fields)
  moreover have "(1::nat) \<notin># outstanding ?s" by (simp add: outstanding_def pool_start_def)
  moreover have "pool_submit (Some 64) 1 (pool ?s) = (0, p)" using p by (simp add: pool_start_def)
  ultimately have "pool_step ?s (?s\<lparr>pool := p, conn_states := (conn_states ?s)(1 := CONN_STATE_LLM_QUEUED),
      submitted := (if (0::int) = 0 then submitted ?s @ [1] else submitted ?s)\<rparr>)"
    by (intro pool_step.submit)
  then show ?thesis by (simp add: ex_queued_def p [unfolded One_nat_def] Let_def pool_start_def r_into_rtranclp)
qed

lemma ex_queued_fields:
  "workers ex_queued = [Waiting, Waiting]" "completion_size (pool ex_queued) = 3" "submitted ex_queued = [1]"
  using ring_size_kept(3) [of "Some 64" 1 ex_pool]
  by (auto simp: ex_queued_def pool_start_def Let_def ex_pool_fields numeral_2_eq_2 prod_eq_iff)

lemma pool_exclusive_ownership_witness:
  "\<exists>q rs. queue_conns (pool ex_queued) q \<and> ring_conns (pool ex_queued) rs
    \<and> mset (submitted ex_queued)
      = mset (delivered ex_queued) + (mset q + all_held (workers ex_queued) + mset rs)
    \<and> distinct (q @ concat (map held (workers ex_queued)) @ rs)
    \<and> list_all (\<lambda>c. outcome (conn_states ex_queued c)) rs"
  by (rule pool_exclusive_ownership [OF ex_pool_init _ ex_queued_reachable]) simp

text \<open>
  C28. No work is ever stuck. From every reachable state with at least two connections in the pool's
  configuration, a worker, and no worker gone, working steps alone lead to a state in which every
  submitted connection has been delivered: the pool has no deadlock and loses nothing.
\<close>

theorem pool_drains:
  assumes "pool_init sync_ok memory_ok threads_ok ctx = Some p" "0 < max_connections ctx"
    and "pool_step\<^sup>*\<^sup>* (pool_start n p st) s"
    and "workers s \<noteq> []" "Exited \<notin> set (workers s)" "2 \<le> completion_size (pool s)"
  shows "\<exists>s'. pool_work_step\<^sup>*\<^sup>* s s' \<and> mset (delivered s') = mset (submitted s)"
proof -
  obtain q rs where i: "pool_inv_at s q rs"
    using pool_run_inv [OF assms(3) pool_init_inv [OF assms(1,2)]] by (auto simp: pool_inv_def)
  have "all_working s" using assms(4-6) by (simp add: all_working_def)
  from drain [OF i this] show ?thesis by blast
qed

lemma pool_drains_witness:
  "\<exists>s'. pool_work_step\<^sup>*\<^sup>* ex_queued s' \<and> mset (delivered s') = mset (submitted ex_queued)"
  by (rule pool_drains [OF ex_pool_init _ ex_queued_reachable]) (simp_all add: ex_queued_fields)

text \<open>
  With one connection the pool never answers. A daemon configured with
  \<open>max_connections = 1\<close> gets a completion ring of one slot, which is full when it is empty: in no
  reachable state has a connection been delivered, whatever the workers do.
\<close>

theorem single_connection_never_delivered:
  assumes "pool_init sync_ok memory_ok threads_ok ctx = Some p" "max_connections ctx = 1"
    and "pool_step\<^sup>*\<^sup>* (pool_start n p st) s"
  shows "delivered s = []"
proof -
  have "0 < max_connections ctx" using assms(2) by simp
  from pool_init_inv [OF assms(1) this] have "pool_inv (pool_start n p st)" .
  moreover have "completion_size p = 1" using assms(1,2) by (auto simp: pool_init_def split: if_splits)
  ultimately show ?thesis using size_one_run [OF assms(3)] by (simp add: pool_start_def)
qed

lemma single_connection_never_delivered_witness:
  "delivered (pool_start 4 ex_tiny (\<lambda>_. CONN_STATE_PARSING)) = []"
  by (rule single_connection_never_delivered [OF ex_tiny_init _ rtranclp.rtrancl_refl]) simp

end
