(* ===== verification/Daemon_Config.thy ===== *)
theory Daemon_Config
  imports Daemon_Types
begin

text \<open>
  The configuration of the io_uring daemon: the TOML-like file (config.c) and the command line
  (\<open>parse_args\<close> of daemon.c). Opening a file, and what \<open>getopt_long\<close> makes of the arguments, are
  parameters: a file is its content or an \<open>errno\<close>, the arguments are the list of recognised options
  with their values. Messages to standard error are left out.
\<close>

section \<open>Lines of a file\<close>

definition trim :: "string \<Rightarrow> string" where
  "trim s = (let s1 = dropWhile c_isspace s in
     if s1 = [] then [] else rev (dropWhile c_isspace (rev s1)))"

fun take_line :: "nat \<Rightarrow> string \<Rightarrow> string \<times> string" where
  \<comment> \<open>\<open>fgets\<close>: at most \<open>n\<close> bytes, up to and with a line feed; and what is left\<close>
  "take_line 0 s = ([], s)"
| "take_line (Suc n) [] = ([], [])"
| "take_line (Suc n) (c # cs) =
     (if c = LF then ([c], cs) else (case take_line n cs of (l, r) \<Rightarrow> (c # l, r)))"

lemma take_line_le: "length (snd (take_line n s)) \<le> length s"
  by (induction n s rule: take_line.induct) (auto split: prod.split)

lemma take_line_shorter:
  assumes "s \<noteq> []" "0 < n"
  shows "length (snd (take_line n s)) < length s"
proof -
  obtain m c cs where "n = Suc m" "s = c # cs" using assms by (cases n; cases s) auto
  then show ?thesis using take_line_le [of m cs] by (auto split: prod.split)
qed

function file_lines :: "string \<Rightarrow> string list" where
  \<comment> \<open>the C strings that a buffer of 1024 bytes holds after each \<open>fgets\<close>\<close>
  "file_lines s =
     (if s = [] then []
      else takeWhile (\<lambda>c. c \<noteq> NUL) (fst (take_line 1023 s)) # file_lines (snd (take_line 1023 s)))"
  by pat_completeness auto
termination
  by (relation "measure length") (auto intro: take_line_shorter)

declare file_lines.simps [simp del]

section \<open>One setting\<close>

definition in_range :: "int \<Rightarrow> int \<Rightarrow> int \<Rightarrow> bool" where
  "in_range lo hi n \<longleftrightarrow> \<not> (n < lo \<or> n > hi)"

definition set_number :: "string \<Rightarrow> int \<Rightarrow> daemon_ctx \<Rightarrow> int \<times> daemon_ctx" where
  \<comment> \<open>an integer value, by its key\<close>
  "set_number key num ctx =
     (if key = ''max_connections'' then
        (if in_range 1 1000000 num then (0, ctx\<lparr>max_connections := num\<rparr>) else (-1, ctx))
      else if key = ''socket_mode'' then
        (if in_range 0 511 num then (0, ctx\<lparr>socket_mode := num\<rparr>) else (-1, ctx))
      else if key = ''delay'' \<or> key = ''message_delay_ms'' then
        (if in_range 0 60000 num then (0, ctx\<lparr>message_delay_ms := num\<rparr>) else (-1, ctx))
      else if key = ''pool_size'' then
        (if in_range 1 MAX_POOL_SIZE num then (0, ctx\<lparr>pool_size := num\<rparr>) else (-1, ctx))
      else if key = ''metrics_port'' then
        (if in_range 0 65535 num then (0, ctx\<lparr>metrics_port := num\<rparr>) else (-1, ctx))
      else if key = ''write_timeout_ms'' then
        (if in_range 1 300000 num then (0, ctx\<lparr>write_timeout_ms := num\<rparr>) else (-1, ctx))
      else if key = ''shutdown_timeout_s'' then
        (if in_range 1 3600 num then (0, ctx\<lparr>shutdown_timeout_s := num\<rparr>) else (-1, ctx))
      else (0, ctx))"

definition set_flag :: "string \<Rightarrow> bool \<Rightarrow> daemon_ctx \<Rightarrow> daemon_ctx" where
  "set_flag key b ctx =
     (if key = ''benchmark'' then ctx\<lparr>benchmark_mode := b\<rparr>
      else if key = ''thread_pool'' then ctx\<lparr>use_thread_pool := b\<rparr>
      else if key = ''sqpoll'' then ctx\<lparr>use_sqpoll := b\<rparr>
      else ctx)"

definition parse_line :: "bool \<Rightarrow> string \<Rightarrow> string \<Rightarrow> daemon_ctx \<Rightarrow> int \<times> daemon_ctx" where
  \<comment> \<open>the first argument: whether \<open>strndup\<close> gets memory\<close>
  "parse_line mem key value ctx =
     (if value \<noteq> [] \<and> hd value = DQ then
        (if length value < 2 \<or> last value \<noteq> DQ then (-1, ctx)
         else if \<not> mem then (-1, ctx)
         else let str = take (length value - 2) (tl value) in
           (0, if key = ''socket'' \<or> key = ''socket_path'' then ctx\<lparr>socket_path := str\<rparr> else ctx))
      else if value = ''true'' then (0, set_flag key True ctx)
      else if value = ''false'' then (0, set_flag key False ctx)
      else let num = strtol 0 value in
        if st_rest num = [] then set_number key (st_value num) ctx
        else (0, ctx))"

section \<open>A file\<close>

definition config_line :: "bool \<Rightarrow> string \<Rightarrow> daemon_ctx \<Rightarrow> daemon_ctx" where
  "config_line mem line ctx =
     (let s = trim line in
      if s = [] \<or> hd s = CHR ''#'' then ctx
      else if hd s = CHR ''['' then ctx
      else if CHR ''='' \<notin> set s then ctx
      else
        let key = trim (takeWhile (\<lambda>c. c \<noteq> CHR ''='') s);
            value = trim (tl (dropWhile (\<lambda>c. c \<noteq> CHR ''='') s))
        in snd (parse_line mem key value ctx))"

type_synonym files = "string \<Rightarrow> int + string" \<comment> \<open>an \<open>errno\<close>, or the content\<close>

definition config_load :: "bool \<Rightarrow> files \<Rightarrow> string \<Rightarrow> daemon_ctx \<Rightarrow> int \<times> daemon_ctx" where
  "config_load mem fs path ctx =
     (case fs path of
        Inl e \<Rightarrow> (if e = 2 then (0, ctx) else (-1, ctx)) \<comment> \<open>2 is \<open>ENOENT\<close>\<close>
      | Inr content \<Rightarrow> (0, fold (config_line mem) (file_lines content) ctx))"

definition default_paths :: "string list" where
  "default_paths = [''./streaming-daemon.toml'', ''/etc/streaming-daemon/config.toml'',
     ''/etc/streaming-daemon.toml'']"

fun first_readable :: "files \<Rightarrow> string list \<Rightarrow> string option" where
  "first_readable fs [] = None"
| "first_readable fs (p # ps) = (case fs p of Inr _ \<Rightarrow> Some p | Inl _ \<Rightarrow> first_readable fs ps)"

definition config_load_default :: "bool \<Rightarrow> files \<Rightarrow> daemon_ctx \<Rightarrow> int \<times> daemon_ctx" where
  "config_load_default mem fs ctx =
     (case first_readable fs default_paths of
        Some p \<Rightarrow> config_load mem fs p ctx
      | None \<Rightarrow> (0, ctx))"

section \<open>The command line\<close>

definition atoi :: "string \<Rightarrow> int" where
  "atoi s = c_int (st_value (strtol 10 s))"

datatype cli = Opt char string \<comment> \<open>the option's letter and its argument, if it has one\<close>

datatype args_result = Continue daemon_ctx | Args_error daemon_ctx | Exit_zero

fun find_config :: "cli list \<Rightarrow> string option" where
  "find_config [] = None"
| "find_config (Opt l a # os) = (if l = CHR ''C'' then Some a else find_config os)"

definition apply_option :: "char \<Rightarrow> string \<Rightarrow> daemon_ctx \<Rightarrow> args_result" where
  "apply_option l a ctx =
     (if l = CHR ''s'' then Continue (ctx\<lparr>socket_path := a\<rparr>)
      else if l = CHR ''m'' then Continue (ctx\<lparr>socket_mode := c_int (st_value (strtol 8 a))\<rparr>)
      else if l = CHR ''c'' then
        let ctx1 = ctx\<lparr>max_connections := atoi a\<rparr> in
        if max_connections ctx1 < 1 then Args_error ctx1 else Continue ctx1
      else if l = CHR ''d'' then Continue (ctx\<lparr>message_delay_ms := atoi a\<rparr>)
      else if l = CHR ''p'' then
        let ctx1 = ctx\<lparr>pool_size := atoi a\<rparr> in
        if pool_size ctx1 < 1 \<or> pool_size ctx1 > MAX_POOL_SIZE then Args_error ctx1 else Continue ctx1
      else if l = CHR ''t'' then Continue (ctx\<lparr>use_thread_pool := True, use_curl_multi := False\<rparr>)
      else if l = CHR ''a'' then Continue (ctx\<lparr>use_curl_multi := True, use_thread_pool := False\<rparr>)
      else if l = CHR ''q'' then Continue (ctx\<lparr>use_sqpoll := True\<rparr>)
      else if l = CHR ''M'' then
        let ctx1 = ctx\<lparr>metrics_port := atoi a\<rparr> in
        if metrics_port ctx1 < 0 \<or> metrics_port ctx1 > 65535 then Args_error ctx1 else Continue ctx1
      else if l = CHR ''C'' then Continue ctx
      else if l = CHR ''b'' then Continue (ctx\<lparr>benchmark_mode := True\<rparr>)
      else if l = CHR ''h'' \<or> l = CHR ''v'' then Exit_zero
      else Args_error ctx)"

fun apply_options :: "cli list \<Rightarrow> daemon_ctx \<Rightarrow> args_result" where
  "apply_options [] ctx = Continue ctx"
| "apply_options (Opt l a # os) ctx =
     (case apply_option l a ctx of Continue ctx1 \<Rightarrow> apply_options os ctx1 | r \<Rightarrow> r)"

definition parse_args :: "bool \<Rightarrow> files \<Rightarrow> cli list \<Rightarrow> daemon_ctx \<Rightarrow> args_result" where
  "parse_args mem fs args ctx =
     (case find_config args of
        Some path \<Rightarrow>
          (case config_load mem fs path ctx of
             (r, ctx1) \<Rightarrow> if r < 0 then Args_error ctx1 else apply_options args ctx1)
      | None \<Rightarrow> apply_options args (snd (config_load_default mem fs ctx)))"

text \<open>
  The start of the program as far as the configuration decides it: \<open>main\<close> creates the thread pool
  when the thread pool is on and curl is off, and \<open>daemon_run\<close> asks the pool for its eventfd when
  the thread pool is on. \<open>None\<close> is a read through the null pointer \<open>ctx->pool\<close>.
\<close>

definition main_creates_pool :: "daemon_ctx \<Rightarrow> bool" where
  "main_creates_pool ctx \<longleftrightarrow> use_thread_pool ctx \<and> \<not> use_curl_multi ctx"

definition daemon_run_start :: "daemon_ctx \<Rightarrow> bool option" where
  \<comment> \<open>whether the eventfd read is submitted\<close>
  "daemon_run_start ctx =
     (if use_thread_pool ctx
      then (if main_creates_pool ctx then Some True else None)
      else Some False)"

section \<open>Bounds of a file's settings\<close>

definition settings_ok :: "daemon_ctx \<Rightarrow> bool" where
  "settings_ok c \<longleftrightarrow> 1 \<le> max_connections c \<and> max_connections c \<le> 1000000
     \<and> 0 \<le> socket_mode c \<and> socket_mode c \<le> 511
     \<and> 0 \<le> message_delay_ms c \<and> message_delay_ms c \<le> 60000
     \<and> 1 \<le> pool_size c \<and> pool_size c \<le> MAX_POOL_SIZE
     \<and> 0 \<le> metrics_port c \<and> metrics_port c \<le> 65535
     \<and> 1 \<le> write_timeout_ms c \<and> write_timeout_ms c \<le> 300000
     \<and> 1 \<le> shutdown_timeout_s c \<and> shutdown_timeout_s c \<le> 3600"

lemma settings_ok_init: "settings_ok (daemon_init openai)"
  by (simp add: settings_ok_def daemon_init_def DEFAULT_MAX_CONNECTIONS_def DEFAULT_POOL_SIZE_def MAX_POOL_SIZE_def)

lemma settings_ok_number: "settings_ok ctx \<Longrightarrow> settings_ok (snd (set_number key num ctx))"
  by (simp add: set_number_def settings_ok_def in_range_def)

lemma settings_ok_flag: "settings_ok ctx \<Longrightarrow> settings_ok (set_flag key b ctx)"
  by (simp add: set_flag_def settings_ok_def)

lemma settings_ok_path: "settings_ok (ctx\<lparr>socket_path := p\<rparr>) = settings_ok ctx"
  by (simp add: settings_ok_def)

lemma settings_ok_parse: "settings_ok ctx \<Longrightarrow> settings_ok (snd (parse_line mem key value ctx))"
  by (simp add: parse_line_def Let_def settings_ok_path settings_ok_flag settings_ok_number)

interpretation settings: invariant_machine "config_line mem" settings_ok
  by unfold_locales (simp add: config_line_def Let_def settings_ok_parse)

lemma settings_ok_load: "settings_ok ctx \<Longrightarrow> settings_ok (snd (config_load mem fs path ctx))"
  by (auto simp: config_load_def intro: settings.run_inv split: sum.split)

section \<open>Which setting is in force\<close>

text \<open>The key and the value of a line that has them.\<close>

definition line_setting :: "string \<Rightarrow> (string \<times> string) option" where
  "line_setting line =
     (let s = trim line in
      if s = [] \<or> hd s = CHR ''#'' \<or> hd s = CHR ''['' \<or> CHR ''='' \<notin> set s then None
      else Some (trim (takeWhile (\<lambda>c. c \<noteq> CHR ''='') s), trim (tl (dropWhile (\<lambda>c. c \<noteq> CHR ''='') s))))"

lemma config_line_setting:
  "config_line mem line ctx = (case line_setting line of None \<Rightarrow> ctx
     | Some (key, value) \<Rightarrow> snd (parse_line mem key value ctx))"
  by (simp add: config_line_def line_setting_def Let_def)

definition number_value :: "string \<Rightarrow> int option" where
  \<comment> \<open>the number a value denotes: all of it, in base 10, 8 or 16\<close>
  "number_value v = (if st_rest (strtol 0 v) = [] then Some (st_value (strtol 0 v)) else None)"

lemma number_value_word:
  "number_value ''true'' = None" "number_value ''false'' = None"
  "hd v = DQ \<Longrightarrow> v \<noteq> [] \<Longrightarrow> number_value v = None"
proof -
  show "number_value ''true'' = None" "number_value ''false'' = None"
    by (simp_all add: number_value_def strtol_def base_prefix_def is_digit_def digit_of_def c_isspace_def Let_def)
  assume "hd v = DQ" "v \<noteq> []"
  then obtain t where "v = DQ # t" by (cases v) auto
  then show "number_value v = None"
    by (simp add: number_value_def strtol_def base_prefix_def is_digit_def digit_of_def c_isspace_def Let_def)
qed

text \<open>The three kinds of values.\<close>

lemma parse_line_quoted:
  assumes "v \<noteq> []" "hd v = DQ"
  shows "\<exists>p. snd (parse_line mem k v ctx) = ctx\<lparr>socket_path := p\<rparr>"
proof -
  have "snd (parse_line mem k v ctx) = ctx\<lparr>socket_path := socket_path ctx\<rparr>
      \<or> snd (parse_line mem k v ctx) = ctx\<lparr>socket_path := take (length v - 2) (tl v)\<rparr>"
    using assms by (simp add: parse_line_def Let_def)
  then show ?thesis by blast
qed

lemma parse_line_word:
  "snd (parse_line mem k ''true'' ctx) = set_flag k True ctx"
  "snd (parse_line mem k ''false'' ctx) = set_flag k False ctx"
  by (simp_all add: parse_line_def)

lemma parse_line_number:
  assumes "v = [] \<or> hd v \<noteq> DQ" "v \<noteq> ''true''" "v \<noteq> ''false''"
  shows "snd (parse_line mem k v ctx) = (case number_value v of
     Some n \<Rightarrow> snd (set_number k n ctx) | None \<Rightarrow> ctx)"
proof -
  have "\<not> (v \<noteq> [] \<and> hd v = DQ)" using assms(1) by blast
  then show ?thesis
    by (simp only: parse_line_def assms(2,3) if_False number_value_def Let_def split: if_split) simp
qed

lemma value_kinds:
  obtains (quoted) "v \<noteq> []" "hd v = DQ" | (yes) "v = ''true''" | (no) "v = ''false''"
  | (number) "v = [] \<or> hd v \<noteq> DQ" "v \<noteq> ''true''" "v \<noteq> ''false''"
  by blast

lemma set_number_pool_size:
  "pool_size (snd (set_number k n ctx)) =
     (if k = ''pool_size'' \<and> 1 \<le> n \<and> n \<le> 64 then n else pool_size ctx)"
  by (simp add: set_number_def in_range_def MAX_POOL_SIZE_def)

lemma set_number_modes:
  "use_thread_pool (snd (set_number k n ctx)) = use_thread_pool ctx"
  "use_curl_multi (snd (set_number k n ctx)) = use_curl_multi ctx"
  by (simp_all add: set_number_def)

lemma set_flag_fields:
  "pool_size (set_flag k b ctx) = pool_size ctx" "use_curl_multi (set_flag k b ctx) = use_curl_multi ctx"
  "use_thread_pool (set_flag k b ctx) = (if k = ''thread_pool'' then b else use_thread_pool ctx)"
  by (simp_all add: set_flag_def)

definition pool_size_of :: "string \<Rightarrow> string \<Rightarrow> int option" where
  "pool_size_of k v = (case number_value v of
     Some n \<Rightarrow> if k = ''pool_size'' \<and> 1 \<le> n \<and> n \<le> 64 then Some n else None | None \<Rightarrow> None)"

definition thread_pool_of :: "string \<Rightarrow> string \<Rightarrow> bool option" where
  "thread_pool_of k v = (if k \<noteq> ''thread_pool'' then None
     else if v = ''true'' then Some True else if v = ''false'' then Some False else None)"

lemma parse_line_pool_size:
  "pool_size (snd (parse_line mem k v ctx)) =
     (case pool_size_of k v of Some n \<Rightarrow> n | None \<Rightarrow> pool_size ctx)"
proof (cases v rule: value_kinds)
  case quoted
  with parse_line_quoted [OF quoted, of mem k ctx] show ?thesis
    by (auto simp: pool_size_of_def number_value_word(3))
next
  case yes
  show ?thesis unfolding yes by (simp only: parse_line_word set_flag_fields pool_size_of_def number_value_word) simp
next
  case no
  show ?thesis unfolding no by (simp only: parse_line_word set_flag_fields pool_size_of_def number_value_word) simp
next
  case number
  show ?thesis
    by (simp only: parse_line_number [OF number] pool_size_of_def)
      (simp split: option.split add: set_number_pool_size)
qed

lemma parse_line_thread_pool:
  "use_thread_pool (snd (parse_line mem k v ctx)) =
     (case thread_pool_of k v of Some b \<Rightarrow> b | None \<Rightarrow> use_thread_pool ctx)"
proof (cases v rule: value_kinds)
  case quoted
  then have "v \<noteq> ''true''" "v \<noteq> ''false''" by auto
  with parse_line_quoted [OF quoted, of mem k ctx] show ?thesis by (auto simp: thread_pool_of_def)
next
  case yes
  show ?thesis unfolding yes by (simp only: parse_line_word set_flag_fields thread_pool_of_def) simp
next
  case no
  show ?thesis unfolding no by (simp only: parse_line_word set_flag_fields thread_pool_of_def) simp
next
  case number
  then have "thread_pool_of k v = None" by (simp add: thread_pool_of_def)
  then show ?thesis
    by (simp only: parse_line_number [OF number]) (simp split: option.split add: set_number_modes)
qed

lemma parse_line_curl: "use_curl_multi (snd (parse_line mem k v ctx)) = use_curl_multi ctx"
proof (cases v rule: value_kinds)
  case quoted
  with parse_line_quoted [OF quoted, of mem k ctx] show ?thesis by auto
next
  case yes
  show ?thesis unfolding yes by (simp only: parse_line_word set_flag_fields)
next
  case no
  show ?thesis unfolding no by (simp only: parse_line_word set_flag_fields)
next
  case number
  show ?thesis
    by (simp only: parse_line_number [OF number]) (simp split: option.split add: set_number_modes)
qed

text \<open>The same for a line.\<close>

definition of_line :: "(string \<Rightarrow> string \<Rightarrow> 'a option) \<Rightarrow> string \<Rightarrow> 'a option" where
  "of_line f line = (case line_setting line of Some (k, v) \<Rightarrow> f k v | None \<Rightarrow> None)"

lemma config_line_field:
  assumes "\<And>k v. get (snd (parse_line mem k v ctx)) = (case f k v of Some x \<Rightarrow> x | None \<Rightarrow> get ctx)"
  shows "get (config_line mem l ctx) = (case of_line f l of Some x \<Rightarrow> x | None \<Rightarrow> get ctx)"
  using assms by (simp add: config_line_setting of_line_def split: option.split)

lemmas config_line_pool_size = config_line_field [of pool_size, OF parse_line_pool_size]
lemmas config_line_thread_pool = config_line_field [of use_thread_pool, OF parse_line_thread_pool]

lemma config_line_curl: "use_curl_multi (config_line mem l ctx) = use_curl_multi ctx"
  by (simp add: config_line_setting parse_line_curl split: option.split)

lemma fold_curl: "use_curl_multi (fold (config_line mem) ls ctx) = use_curl_multi ctx"
  by (induction ls arbitrary: ctx) (simp_all add: config_line_curl)

text \<open>The options, in the order in which they are applied.\<close>

definition cli_pool_size :: "cli \<Rightarrow> int option" where
  "cli_pool_size x = (case x of Opt l a \<Rightarrow> if l = CHR ''p'' then Some (atoi a) else None)"

lemma apply_option_pool:
  "apply_option l a ctx = Continue c \<Longrightarrow>
     pool_size c = (case cli_pool_size (Opt l a) of Some v \<Rightarrow> v | None \<Rightarrow> pool_size ctx)"
  by (auto simp: apply_option_def cli_pool_size_def Let_def split: if_splits)

lemma apply_options_pool:
  "apply_options os ctx = Continue c \<Longrightarrow>
     pool_size c = (case last_some cli_pool_size os of Some v \<Rightarrow> v | None \<Rightarrow> pool_size ctx)"
proof (induction os arbitrary: ctx)
  case Nil
  then show ?case by simp
next
  case (Cons x os)
  obtain l a where x: "x = Opt l a" by (cases x)
  with Cons.prems obtain c1 where c1: "apply_option l a ctx = Continue c1" "apply_options os c1 = Continue c"
    by (auto split: args_result.splits)
  show ?case using Cons.IH [OF c1(2)] apply_option_pool [OF c1(1)] x by (simp split: option.split)
qed

definition mode_option :: "cli \<Rightarrow> bool" where
  "mode_option x = (case x of Opt l a \<Rightarrow> l = CHR ''t'' \<or> l = CHR ''a'')"

lemma apply_options_mode:
  "apply_options os ctx = Continue c \<Longrightarrow> list_all (\<lambda>x. \<not> mode_option x) os \<Longrightarrow>
     use_thread_pool c = use_thread_pool ctx \<and> use_curl_multi c = use_curl_multi ctx"
proof (induction os arbitrary: ctx)
  case Nil
  then show ?case by simp
next
  case (Cons x os)
  obtain l a where x: "x = Opt l a" by (cases x)
  with Cons.prems obtain c1 where c1: "apply_option l a ctx = Continue c1" "apply_options os c1 = Continue c"
    by (auto split: args_result.splits)
  have "use_thread_pool c1 = use_thread_pool ctx \<and> use_curl_multi c1 = use_curl_multi ctx"
    using c1(1) Cons.prems(2) x
    by (auto simp: apply_option_def mode_option_def Let_def split: if_splits)
  with Cons.IH [OF c1(2)] Cons.prems(2) show ?case by simp
qed

text \<open>The content of the file that is loaded.\<close>

definition loaded_lines :: "files \<Rightarrow> cli list \<Rightarrow> string list" where
  "loaded_lines fs args = (case find_config args of
     Some p \<Rightarrow> (case fs p of Inr content \<Rightarrow> file_lines content | Inl _ \<Rightarrow> [])
   | None \<Rightarrow> (case first_readable fs default_paths of
       Some p \<Rightarrow> (case fs p of Inr content \<Rightarrow> file_lines content | Inl _ \<Rightarrow> [])
     | None \<Rightarrow> []))"

lemma parse_args_loaded:
  assumes "parse_args mem fs args ctx = Continue c"
  shows "apply_options args (fold (config_line mem) (loaded_lines fs args) ctx) = Continue c"
proof -
  have e: "snd (config_load mem fs p ctx) = fold (config_line mem)
      (case fs p of Inr content \<Rightarrow> file_lines content | Inl _ \<Rightarrow> []) ctx" for p
    by (simp add: config_load_def split: sum.split)
  show ?thesis
  proof (cases "find_config args")
    case None
    then show ?thesis
      using assms e by (auto simp: parse_args_def loaded_lines_def config_load_default_def split: option.splits)
  next
    case (Some p)
    obtain r ctx1 where l: "config_load mem fs p ctx = (r, ctx1)" by fastforce
    with Some assms have "apply_options args ctx1 = Continue c" by (auto simp: parse_args_def split: if_splits)
    then show ?thesis using e [of p] l Some by (simp add: loaded_lines_def)
  qed
qed

lemma apply_options_pool_bounds:
  "apply_options os ctx = Continue c \<Longrightarrow> 1 \<le> pool_size ctx \<and> pool_size ctx \<le> MAX_POOL_SIZE
     \<Longrightarrow> 1 \<le> pool_size c \<and> pool_size c \<le> MAX_POOL_SIZE"
proof (induction os arbitrary: ctx)
  case Nil
  then show ?case by simp
next
  case (Cons x os)
  obtain l a where x: "x = Opt l a" by (cases x)
  with Cons.prems obtain c1 where c1: "apply_option l a ctx = Continue c1" "apply_options os c1 = Continue c"
    by (auto split: args_result.splits)
  have "1 \<le> pool_size c1 \<and> pool_size c1 \<le> MAX_POOL_SIZE"
    using c1(1) Cons.prems(2) by (auto simp: apply_option_def Let_def split: if_splits)
  with Cons.IH [OF c1(2)] show ?case by simp
qed

section \<open>Trimming\<close>

lemma trim_value:
  assumes "s \<noteq> []" "list_all (\<lambda>c. \<not> c_isspace c) s"
  shows "trim (CHR '' '' # s) = s"
proof -
  have "\<not> c_isspace (hd s)" "\<not> c_isspace (last s)"
    using assms by (auto simp: list_all_iff)
  then have "dropWhile c_isspace s = s" "dropWhile c_isspace (rev s) = rev s"
    using assms(1) by (cases s; cases "rev s"; force simp: dropWhile_eq_self_iff hd_rev)+
  moreover have "c_isspace (CHR '' '')" by (simp add: c_isspace_def)
  ultimately show ?thesis using assms(1) by (simp add: trim_def)
qed

lemma trim_line:
  assumes "p \<noteq> []" "\<not> c_isspace (hd p)" "s \<noteq> []" "list_all (\<lambda>c. \<not> c_isspace c) s"
  shows "trim (p @ s @ [LF]) = p @ s"
proof -
  have l: "c_isspace LF" by (simp add: c_isspace_def)
  have "dropWhile c_isspace (p @ s @ [LF]) = p @ s @ [LF]"
    using assms(1,2) by (cases p) auto
  moreover have "\<not> c_isspace (last s)" using assms(3,4) by (auto simp: list_all_iff)
  then have "dropWhile c_isspace (rev (p @ s @ [LF])) = rev (p @ s)"
    using assms(3) l by (cases s rule: rev_cases) auto
  ultimately show ?thesis using assms(1) by (simp add: trim_def)
qed

lemma decimal_nonempty: "decimal n \<noteq> []"
  by (subst decimal.simps) simp

lemma decimal_plain: "list_all (\<lambda>c. \<not> c_isspace c \<and> c \<noteq> CHR ''='' \<and> c \<noteq> DQ) (decimal n)"
proof -
  have "\<not> c_isspace c \<and> c \<noteq> CHR ''='' \<and> c \<noteq> DQ" if "is_digit 10 c" for c
  proof -
    have d: "48 \<le> (of_char c :: nat)" "(of_char c :: nat) \<le> 57"
      using that by (auto simp: is_digit_def digit_of_def Let_def split: if_splits)
    then have "c \<noteq> CHR '' ''" "c \<noteq> CHR ''=''" "c \<noteq> DQ" by auto
    with d show ?thesis by (simp add: c_isspace_def Let_def)
  qed
  then show ?thesis using decimal_digits [of n] by (auto simp: list_all_iff)
qed

end
