(* ===== verification/Config_Correctness.thy ===== *)
theory Config_Correctness
  imports Daemon_Config
begin

text \<open>
  What the configuration of the io_uring daemon promises, over the definitions of \<open>Daemon_Config\<close>:
  the bounds of a file's settings, which setting is in force, and what a daemon built for the OpenAI
  backend makes of \<open>thread_pool = true\<close>.
\<close>

section \<open>A small file system\<close>

definition ex_files :: files where
  "ex_files p = (if p = ''/etc/streaming-daemon.toml''
     then Inr (''# pool'' @ [LF] @ ''thread_pool = true'' @ [LF]) else Inl 2)"

lemma ex_file_lines: "file_lines (''# pool'' @ [LF] @ ''thread_pool = true'' @ [LF])
    = [''# pool'' @ [LF], ''thread_pool = true'' @ [LF]]"
  by (simp add: file_lines.simps eval_nat_numeral)

lemma ex_loaded: "loaded_lines ex_files [] = [''# pool'' @ [LF], ''thread_pool = true'' @ [LF]]"
  using ex_file_lines by (simp add: loaded_lines_def default_paths_def ex_files_def)

lemma ex_config_lines:
  "config_line True (''# pool'' @ [LF]) (daemon_init True) = daemon_init True"
  "config_line True (''thread_pool = true'' @ [LF]) (daemon_init True)
     = (daemon_init True)\<lparr>use_thread_pool := True\<rparr>"
  by (simp_all add: config_line_def trim_def c_isspace_def parse_line_word set_flag_def Let_def)

section \<open>The settings of a file\<close>

text \<open>
  C33. Whatever a configuration file holds, loading it keeps every setting within its bounds: a line
  with a value out of range, an unterminated string, an unknown key or no separator changes nothing
  it could break. Loading fails, and then changes nothing, only when the file exists and cannot be
  opened.
\<close>

theorem config_load_bounds:
  assumes "settings_ok ctx"
  shows "settings_ok (snd (config_load mem fs path ctx))
    \<and> (case fs path of
         Inr content \<Rightarrow> fst (config_load mem fs path ctx) = 0
       | Inl e \<Rightarrow> config_load mem fs path ctx = (if e = 2 then 0 else -1, ctx))"
  using settings_ok_load [OF assms] by (auto simp: config_load_def split: sum.split)

lemma config_load_bounds_witness:
  "settings_ok (snd (config_load True ex_files ''/etc/streaming-daemon.toml'' (daemon_init True)))
    \<and> (case ex_files ''/etc/streaming-daemon.toml'' of
         Inr content \<Rightarrow> fst (config_load True ex_files ''/etc/streaming-daemon.toml'' (daemon_init True)) = 0
       | Inl e \<Rightarrow> config_load True ex_files ''/etc/streaming-daemon.toml'' (daemon_init True)
           = (if e = 2 then 0 else -1, daemon_init True))"
  by (rule config_load_bounds [OF settings_ok_init])

text \<open>
  A number written in decimal is the number that is set. The line
  \<open>max_connections = <n>\<close> sets exactly \<open>n\<close>, for every \<open>n\<close> from 1 to a million, and nothing else.
\<close>

theorem config_number_line:
  assumes "1 \<le> n" "n \<le> 1000000"
  shows "config_line mem (''max_connections = '' @ decimal n @ [LF]) ctx = ctx\<lparr>max_connections := int n\<rparr>"
proof -
  let ?k = "''max_connections''" and ?v = "decimal n"
  have d: "list_all (\<lambda>c. \<not> c_isspace c \<and> c \<noteq> CHR ''='' \<and> c \<noteq> DQ) ?v" by (rule decimal_plain)
  have ne: "?v \<noteq> []" by (rule decimal_nonempty)
  have d': "list_all (\<lambda>c. \<not> c_isspace c) ?v" using d by (simp add: list_all_iff)
  have m: "\<not> c_isspace (hd ''max_connections = '')" by (simp add: c_isspace_def Let_def)
  have t1: "trim (''max_connections = '' @ ?v @ [LF]) = ''max_connections = '' @ ?v"
    by (rule trim_line [OF _ m ne d']) simp
  have "line_setting (''max_connections = '' @ ?v @ [LF]) = Some (trim ''max_connections '', trim (CHR '' '' # ?v))"
    unfolding line_setting_def t1 by (simp add: Let_def)
  moreover have "trim ''max_connections '' = ?k" by (simp add: trim_def c_isspace_def Let_def)
  moreover have "trim (CHR '' '' # ?v) = ?v" by (rule trim_value [OF ne d'])
  ultimately have s: "line_setting (''max_connections = '' @ ?v @ [LF]) = Some (?k, ?v)" by simp
  have num: "strtol 0 ?v = \<lparr>st_value = int n, st_erange = False, st_rest = []\<rparr>"
    using assms by (intro strtol_decimal) auto
  then have nv: "number_value ?v = Some (int n)" by (simp add: number_value_def)
  then have w: "?v \<noteq> ''true''" "?v \<noteq> ''false''" using number_value_word by force+
  have q: "hd ?v \<noteq> DQ" using d ne by (cases ?v) auto
  have "config_line mem (''max_connections = '' @ ?v @ [LF]) ctx = snd (set_number ?k (int n) ctx)"
    using parse_line_number [OF disjI2 [OF q] w, of mem ?k ctx] by (simp only: config_line_setting s nv option.case prod.case)
  then show ?thesis using assms by (simp add: set_number_def in_range_def)
qed

lemma config_number_line_witness:
  "config_line True (''max_connections = '' @ decimal 5000 @ [LF]) (daemon_init True)
     = (daemon_init True)\<lparr>max_connections := int 5000\<rparr>"
  by (rule config_number_line) simp_all

section \<open>Which setting is in force\<close>

text \<open>
  The command line overrides the file, and later settings override earlier ones. When the
  arguments are accepted, the size of the thread pool is the value of the last \<open>--pool-size\<close>, else
  the last accepted value in the file that was loaded, else what it was; and it is within bounds.
\<close>

theorem pool_size_in_force:
  assumes "settings_ok ctx" "parse_args mem fs args ctx = Continue c"
  shows "pool_size c =
     (case last_some cli_pool_size args of
        Some v \<Rightarrow> v
      | None \<Rightarrow> (case last_some (of_line pool_size_of) (loaded_lines fs args) of
                   Some v \<Rightarrow> v | None \<Rightarrow> pool_size ctx))
    \<and> 1 \<le> pool_size c \<and> pool_size c \<le> MAX_POOL_SIZE"
proof -
  let ?f = "fold (config_line mem) (loaded_lines fs args) ctx"
  note a = parse_args_loaded [OF assms(2)]
  have "settings_ok ?f" by (rule settings.run_inv [OF assms(1)])
  then have "1 \<le> pool_size ?f \<and> pool_size ?f \<le> MAX_POOL_SIZE" by (simp add: settings_ok_def)
  from apply_options_pool_bounds [OF a this] apply_options_pool [OF a]
    fold_last_some [where step = "config_line mem" and get = pool_size, OF config_line_pool_size]
  show ?thesis by (simp cong: option.case_cong)
qed

lemma pool_size_in_force_witness:
  "pool_size ((daemon_init True)\<lparr>use_thread_pool := True, pool_size := 16\<rparr>) =
     (case last_some cli_pool_size [Opt CHR ''p'' ''16''] of
        Some v \<Rightarrow> v
      | None \<Rightarrow> (case last_some (of_line pool_size_of) (loaded_lines ex_files [Opt CHR ''p'' ''16'']) of
                   Some v \<Rightarrow> v | None \<Rightarrow> pool_size (daemon_init True)))
    \<and> 1 \<le> pool_size ((daemon_init True)\<lparr>use_thread_pool := True, pool_size := 16\<rparr>)
    \<and> pool_size ((daemon_init True)\<lparr>use_thread_pool := True, pool_size := 16\<rparr>) \<le> MAX_POOL_SIZE"
proof (rule pool_size_in_force [OF settings_ok_init])
  have a: "atoi ''16'' = 16"
    by (simp add: atoi_def c_int_def strtol_def base_prefix_def is_digit_def digit_of_def c_isspace_def Let_def
        signed_take_bit_int_eq_self)
  show "parse_args True ex_files [Opt CHR ''p'' ''16''] (daemon_init True)
      = Continue ((daemon_init True)\<lparr>use_thread_pool := True, pool_size := 16\<rparr>)"
    using ex_file_lines
    by (simp add: parse_args_def config_load_default_def default_paths_def ex_files_def config_load_def
        ex_config_lines [simplified] apply_option_def a MAX_POOL_SIZE_def)
qed

text \<open>
  A daemon built for the OpenAI backend, started without an option for its mode, reads through a
  null pointer exactly when the file turns the thread pool on: the file sets \<open>use_thread_pool\<close> and
  leaves the curl mode on, so the pool is not created, but its eventfd is asked for. (The options
  \<open>--thread-pool\<close> and \<open>--curl-multi\<close> each switch the other mode off.)
\<close>

theorem openai_thread_pool_file_crashes:
  assumes "parse_args mem fs args (daemon_init True) = Continue c"
    and "list_all (\<lambda>x. \<not> mode_option x) args"
  shows "daemon_run_start c = None
     \<longleftrightarrow> last_some (of_line thread_pool_of) (loaded_lines fs args) = Some True"
proof -
  let ?f = "fold (config_line mem) (loaded_lines fs args) (daemon_init True)"
  from apply_options_mode [OF parse_args_loaded [OF assms(1)] assms(2)]
  have m: "use_thread_pool c = use_thread_pool ?f" "use_curl_multi c = use_curl_multi ?f" by auto
  have "use_curl_multi c" using m(2) by (simp add: fold_curl daemon_init_def)
  moreover have "use_thread_pool c = (last_some (of_line thread_pool_of) (loaded_lines fs args) = Some True)"
    using m(1) fold_last_some [where step = "config_line mem" and get = use_thread_pool, OF config_line_thread_pool]
    by (auto simp: daemon_init_def split: option.split)
  ultimately show ?thesis by (simp add: daemon_run_start_def main_creates_pool_def)
qed

lemma openai_thread_pool_file_crashes_witness:
  "daemon_run_start ((daemon_init True)\<lparr>use_thread_pool := True\<rparr>) = None
     \<longleftrightarrow> last_some (of_line thread_pool_of) (loaded_lines ex_files []) = Some True"
proof (rule openai_thread_pool_file_crashes)
  show "parse_args True ex_files [] (daemon_init True)
      = Continue ((daemon_init True)\<lparr>use_thread_pool := True\<rparr>)"
    using ex_file_lines
    by (simp add: parse_args_def config_load_default_def default_paths_def ex_files_def config_load_def
        ex_config_lines [simplified])
qed simp

end
