(* ===== verification/Json_Tokens.thy ===== *)
theory Json_Tokens
  imports Prelude
begin

text \<open>
  The JSON tokenizer of the io_uring daemon (jsmn.h, as it is built there: not strict, without
  parent links) and the helpers on its tokens (json.c). The text is the list of the \<open>len\<close> bytes that
  are parsed; the array of tokens is the list of those already allocated, and \<open>toknext\<close> its length.
\<close>

section \<open>Tokens\<close>

datatype jsmntype = JSMN_UNDEFINED | JSMN_OBJECT | JSMN_ARRAY | JSMN_STRING | JSMN_PRIMITIVE
datatype jsmnerr = JSMN_ERROR_NOMEM | JSMN_ERROR_INVAL | JSMN_ERROR_PART

record jsmntok =
  ttype :: jsmntype
  tstart :: int
  tend :: int
  tsize :: nat

record jsmn_parser =
  pos :: nat
  toksuper :: "nat option" \<comment> \<open>\<open>None\<close> is -1\<close>
  tokens :: "jsmntok list"

definition jsmn_init :: jsmn_parser where
  "jsmn_init = \<lparr>pos = 0, toksuper = None, tokens = []\<rparr>"

type_synonym 'a parsed = "jsmnerr + 'a"

definition jsmn_fill_token :: "jsmntype \<Rightarrow> nat \<Rightarrow> nat \<Rightarrow> jsmntok" where
  "jsmn_fill_token ty s e = \<lparr>ttype = ty, tstart = int s, tend = int e, tsize = 0\<rparr>"

definition push_token :: "nat \<Rightarrow> jsmntok \<Rightarrow> jsmn_parser \<Rightarrow> jsmn_parser option" where
  \<comment> \<open>\<open>jsmn_alloc_token\<close> with the number of tokens there are, and what is then stored in it\<close>
  "push_token num t p = (if length (tokens p) \<ge> num then None else Some (p\<lparr>tokens := tokens p @ [t]\<rparr>))"

definition bump_super :: "jsmn_parser \<Rightarrow> jsmn_parser" where
  \<comment> \<open>\<open>if (toksuper != -1) tokens[toksuper].size++\<close>\<close>
  "bump_super p = (case toksuper p of
     None \<Rightarrow> p
   | Some i \<Rightarrow> p\<lparr>tokens := (tokens p)[i := tsize_update Suc (tokens p ! i)]\<rparr>)"

section \<open>Primitives and strings\<close>

definition prim_stop :: "char \<Rightarrow> bool" where
  "prim_stop c \<longleftrightarrow> c \<in> {TAB, CR, LF, CHR '' '', CHR '','', CHR '']'', CHR ''}''}"

definition prim_bad :: "char \<Rightarrow> bool" where
  \<comment> \<open>below 32, or 127 and above (a negative \<open>char\<close> is below 32)\<close>
  "prim_bad c \<longleftrightarrow> (of_char c :: nat) < 32 \<or> (of_char c :: nat) \<ge> 127"

function prim_end :: "string \<Rightarrow> nat \<Rightarrow> nat parsed" where
  "prim_end js k =
     (if k < length js \<and> js ! k \<noteq> NUL then
        if prim_stop (js ! k) then Inr k
        else if prim_bad (js ! k) then Inl JSMN_ERROR_INVAL
        else prim_end js (Suc k)
      else Inr k)"
  by pat_completeness auto
termination by (relation "measure (\<lambda>(js, k). length js - k)") auto

declare prim_end.simps [simp del]

definition jsmn_parse_primitive :: "string \<Rightarrow> nat \<Rightarrow> jsmn_parser \<Rightarrow> jsmn_parser parsed" where
  "jsmn_parse_primitive js num p =
     (case prim_end js (pos p) of
        Inl e \<Rightarrow> Inl e
      | Inr k \<Rightarrow> (case push_token num (jsmn_fill_token JSMN_PRIMITIVE (pos p) k) p of
            None \<Rightarrow> Inl JSMN_ERROR_NOMEM
          | Some p1 \<Rightarrow> Inr (p1\<lparr>pos := k - 1\<rparr>)))"

definition is_hex :: "char \<Rightarrow> bool" where
  "is_hex c \<longleftrightarrow> (let n = (of_char c :: nat) in
     48 \<le> n \<and> n \<le> 57 \<or> 65 \<le> n \<and> n \<le> 70 \<or> 97 \<le> n \<and> n \<le> 102)"

fun hex_end :: "nat \<Rightarrow> string \<Rightarrow> nat \<Rightarrow> nat parsed" where
  \<comment> \<open>the loop over the four digits after \<open>\\u\<close>; the argument is how many are left\<close>
  "hex_end 0 js k = Inr k"
| "hex_end (Suc i) js k =
     (if k < length js \<and> js ! k \<noteq> NUL
      then if is_hex (js ! k) then hex_end i js (Suc k) else Inl JSMN_ERROR_INVAL
      else Inr k)"

definition escape_end :: "string \<Rightarrow> nat \<Rightarrow> nat parsed" where
  \<comment> \<open>the last byte of the escape whose letter is at \<open>k\<close>\<close>
  "escape_end js k =
     (if js ! k \<in> {DQ, CHR ''/'', BSL, CHR ''b'', CHR ''f'', CHR ''r'', CHR ''n'', CHR ''t''} then Inr k
      else if js ! k = CHR ''u'' then
        (case hex_end 4 js (Suc k) of Inl e \<Rightarrow> Inl e | Inr j \<Rightarrow> Inr (j - 1))
      else Inl JSMN_ERROR_INVAL)"

lemma hex_end_ge: "hex_end i js k = Inr j \<Longrightarrow> k \<le> j"
  by (induction i js k rule: hex_end.induct) (auto split: if_splits)

lemma escape_end_ge: "escape_end js k = Inr j \<Longrightarrow> k \<le> j"
  by (auto simp: escape_end_def split: if_splits sum.splits dest: hex_end_ge)

function string_end :: "string \<Rightarrow> nat \<Rightarrow> nat parsed" where
  \<comment> \<open>the position of the closing quote\<close>
  "string_end js k =
     (if k < length js \<and> js ! k \<noteq> NUL then
        if js ! k = DQ then Inr k
        else if js ! k = BSL \<and> k + 1 < length js then
          (case escape_end js (Suc k) of Inl e \<Rightarrow> Inl e | Inr j \<Rightarrow> string_end js (Suc j))
        else string_end js (Suc k)
      else Inl JSMN_ERROR_PART)"
  by pat_completeness auto
termination
  by (relation "measure (\<lambda>(js, k). length js - k)") (auto dest: escape_end_ge)

declare string_end.simps [simp del]

definition jsmn_parse_string :: "string \<Rightarrow> nat \<Rightarrow> jsmn_parser \<Rightarrow> jsmn_parser parsed" where
  "jsmn_parse_string js num p =
     (case string_end js (Suc (pos p)) of
        Inl e \<Rightarrow> Inl e
      | Inr k \<Rightarrow> (case push_token num (jsmn_fill_token JSMN_STRING (pos p + 1) k) p of
            None \<Rightarrow> Inl JSMN_ERROR_NOMEM
          | Some p1 \<Rightarrow> Inr (p1\<lparr>pos := k\<rparr>)))"

section \<open>The parser\<close>

definition tok_open :: "jsmntok \<Rightarrow> bool" where
  "tok_open t \<longleftrightarrow> tstart t \<noteq> -1 \<and> tend t = -1"

fun last_index :: "(jsmntok \<Rightarrow> bool) \<Rightarrow> jsmntok list \<Rightarrow> nat \<Rightarrow> nat option" where
  \<comment> \<open>the loop \<open>for (i = n - 1; i >= 0; i--)\<close> that looks for a token\<close>
  "last_index P ts 0 = None"
| "last_index P ts (Suc i) = (if P (ts ! i) then Some i else last_index P ts i)"

definition open_bracket :: "jsmntype \<Rightarrow> nat \<Rightarrow> jsmn_parser \<Rightarrow> jsmn_parser parsed" where
  "open_bracket ty num p =
     (case push_token num \<lparr>ttype = ty, tstart = int (pos p), tend = -1, tsize = 0\<rparr> p of
        None \<Rightarrow> Inl JSMN_ERROR_NOMEM
      | Some p1 \<Rightarrow> Inr ((bump_super p1)\<lparr>toksuper := Some (length (tokens p1) - 1)\<rparr>))"

definition close_bracket :: "jsmntype \<Rightarrow> jsmn_parser \<Rightarrow> jsmn_parser parsed" where
  "close_bracket ty p =
     (case last_index tok_open (tokens p) (length (tokens p)) of
        None \<Rightarrow> Inl JSMN_ERROR_INVAL
      | Some i \<Rightarrow>
          if ttype (tokens p ! i) \<noteq> ty then Inl JSMN_ERROR_INVAL
          else
            let ts = (tokens p)[i := tend_update (\<lambda>_. int (pos p) + 1) (tokens p ! i)]
            in Inr (p\<lparr>tokens := ts, toksuper := last_index tok_open ts (Suc i)\<rparr>))"

definition is_container :: "jsmntok \<Rightarrow> bool" where
  "is_container t \<longleftrightarrow> ttype t = JSMN_ARRAY \<or> ttype t = JSMN_OBJECT"

definition comma :: "jsmn_parser \<Rightarrow> jsmn_parser" where
  "comma p = (case toksuper p of
     None \<Rightarrow> p
   | Some s \<Rightarrow>
       if is_container (tokens p ! s) then p
       else (case last_index (\<lambda>t. is_container t \<and> tok_open t) (tokens p) (length (tokens p)) of
               None \<Rightarrow> p
             | Some i \<Rightarrow> p\<lparr>toksuper := Some i\<rparr>))"

definition jsmn_step :: "string \<Rightarrow> nat \<Rightarrow> jsmn_parser \<Rightarrow> (nat \<times> jsmn_parser) parsed" where
  \<comment> \<open>one round of the loop before \<open>pos++\<close>: how many tokens are counted, and the parser\<close>
  "jsmn_step js num p =
     (let c = js ! pos p;
          one = (\<lambda>r. case r of Inl e \<Rightarrow> Inl e | Inr p1 \<Rightarrow> Inr (1, p1));
          none = (\<lambda>r. case r of Inl e \<Rightarrow> Inl e | Inr p1 \<Rightarrow> Inr (0, p1))
      in if c = CHR ''{'' then one (open_bracket JSMN_OBJECT num p)
         else if c = CHR ''['' then one (open_bracket JSMN_ARRAY num p)
         else if c = CHR ''}'' then none (close_bracket JSMN_OBJECT p)
         else if c = CHR '']'' then none (close_bracket JSMN_ARRAY p)
         else if c = DQ then
           (case jsmn_parse_string js num p of Inl e \<Rightarrow> Inl e | Inr p1 \<Rightarrow> Inr (1, bump_super p1))
         else if c \<in> {TAB, CR, LF, CHR '' ''} then Inr (0, p)
         else if c = CHR '':'' then
           Inr (0, p\<lparr>toksuper := (if tokens p = [] then None else Some (length (tokens p) - 1))\<rparr>)
         else if c = CHR '','' then Inr (0, comma p)
         else
           (case jsmn_parse_primitive js num p of Inl e \<Rightarrow> Inl e | Inr p1 \<Rightarrow> Inr (1, bump_super p1)))"

lemma prim_end_ge: "prim_end js k = Inr j \<Longrightarrow> k \<le> j"
proof (induction js k rule: prim_end.induct)
  case (1 js k)
  then show ?case by (subst (asm) (2) prim_end.simps) (auto split: if_splits)
qed

lemma prim_end_progress:
  assumes "prim_end js k = Inr j" "k < length js" "js ! k \<noteq> NUL" "\<not> prim_stop (js ! k)"
  shows "k < j"
  using assms by (subst (asm) prim_end.simps) (auto split: if_splits dest: prim_end_ge)

lemma string_end_ge: "string_end js k = Inr j \<Longrightarrow> k \<le> j \<and> j < length js \<and> js ! j = DQ"
proof (induction js k rule: string_end.induct)
  case (1 js k)
  have k: "k < length js \<and> js ! k \<noteq> NUL"
    using "1.prems" by (subst (asm) string_end.simps) (auto split: if_splits)
  show ?case
  proof (cases "js ! k = DQ")
    case True
    with k "1.prems" show ?thesis by (subst (asm) string_end.simps) auto
  next
    case dq: False
    show ?thesis
    proof (cases "js ! k = BSL \<and> k + 1 < length js")
      case True
      with k dq "1.prems" obtain x where x: "escape_end js (Suc k) = Inr x" "string_end js (Suc x) = Inr j"
        by (subst (asm) string_end.simps) (auto split: sum.splits)
      from "1.IH"(1) [OF k dq True x] escape_end_ge [OF x(1)] show ?thesis by simp
    next
      case False
      with k dq "1.prems" have "string_end js (Suc k) = Inr j" by (subst (asm) string_end.simps) auto
      from "1.IH"(2) [OF k dq False this] show ?thesis by simp
    qed
  qed
qed

lemma bump_super_fields [simp]:
  "pos (bump_super p) = pos p" "toksuper (bump_super p) = toksuper p"
  "length (tokens (bump_super p)) = length (tokens p)"
  by (auto simp: bump_super_def split: option.split)

lemma push_token_fields:
  "push_token num t p = Some p1 \<Longrightarrow> tokens p1 = tokens p @ [t] \<and> pos p1 = pos p
     \<and> toksuper p1 = toksuper p \<and> length (tokens p) < num"
  by (auto simp: push_token_def split: if_splits)

lemma comma_fields [simp]: "pos (comma p) = pos p" "tokens (comma p) = tokens p"
  by (auto simp: comma_def split: option.split)

lemma jsmn_step_pos:
  assumes s: "jsmn_step js num p = Inr (n, p1)" and k: "pos p < length js" "js ! pos p \<noteq> NUL"
  shows "pos p \<le> pos p1"
proof -
  have prim: "pos p \<le> pos q" if "jsmn_parse_primitive js num p = Inr q" "\<not> prim_stop (js ! pos p)" for q
    using that k prim_end_progress [of js "pos p"] push_token_fields
    by (fastforce simp: jsmn_parse_primitive_def split: sum.splits option.splits)
  have str: "pos p \<le> pos q" if "jsmn_parse_string js num p = Inr q" for q
    using that string_end_ge [of js "Suc (pos p)"] push_token_fields
    by (fastforce simp: jsmn_parse_string_def split: sum.splits option.splits)
  have br: "pos q = pos p" if "open_bracket ty num p = Inr q" for q ty
    using that push_token_fields by (fastforce simp: open_bracket_def split: option.splits)
  have cl: "pos q = pos p" if "close_bracket ty p = Inr q" for q ty
    using that by (auto simp: close_bracket_def Let_def split: option.splits if_splits)
  show ?thesis
    using s prim str br cl
    by (auto simp: jsmn_step_def prim_stop_def Let_def split: if_splits sum.splits)
qed

function jsmn_loop :: "string \<Rightarrow> nat \<Rightarrow> nat \<Rightarrow> jsmn_parser \<Rightarrow> (nat \<times> jsmn_parser) parsed" where
  "jsmn_loop js num count p =
     (if pos p < length js \<and> js ! pos p \<noteq> NUL then
        (case jsmn_step js num p of
           Inl e \<Rightarrow> Inl e
         | Inr (n, p1) \<Rightarrow> jsmn_loop js num (count + n) (p1\<lparr>pos := pos p1 + 1\<rparr>))
      else if last_index tok_open (tokens p) (length (tokens p)) \<noteq> None then Inl JSMN_ERROR_PART
      else Inr (count, p))"
  by pat_completeness auto
termination
  by (relation "measure (\<lambda>(js, num, count, p). length js - pos p)") (auto dest!: jsmn_step_pos)

declare jsmn_loop.simps [simp del]

definition jsmn_parse :: "string \<Rightarrow> nat \<Rightarrow> (nat \<times> jsmntok list) parsed" where
  "jsmn_parse js num = (case jsmn_loop js num 0 jsmn_init of
     Inl e \<Rightarrow> Inl e | Inr (count, p) \<Rightarrow> Inr (count, tokens p))"

section \<open>Every token lies inside the text\<close>

definition tok_ok :: "string \<Rightarrow> jsmntok \<Rightarrow> bool" where
  "tok_ok js t \<longleftrightarrow> 0 \<le> tstart t \<and> tstart t \<le> int (length js) \<and> tend t \<le> int (length js)
     \<and> (if tok_open t then is_container t else tstart t \<le> tend t)
     \<and> (ttype t = JSMN_STRING \<longrightarrow> tend t < int (length js) \<and> js ! nat (tend t) = DQ)"

definition parser_ok :: "string \<Rightarrow> nat \<Rightarrow> nat \<Rightarrow> jsmn_parser \<Rightarrow> bool" where
  "parser_ok js num count p \<longleftrightarrow> list_all (tok_ok js) (tokens p) \<and> count = length (tokens p)
     \<and> length (tokens p) \<le> num \<and> (case toksuper p of None \<Rightarrow> True | Some i \<Rightarrow> i < length (tokens p))
     \<and> list_all (\<lambda>t. tstart t \<le> int (pos p)) (tokens p)"

lemma last_index_Some: "last_index P ts n = Some i \<Longrightarrow> i < n \<and> P (ts ! i)"
  by (induction n) (auto split: if_splits)

lemma last_index_None: "last_index P ts n = None \<Longrightarrow> i < n \<Longrightarrow> \<not> P (ts ! i)"
  by (induction n) (auto split: if_splits simp: less_Suc_eq)

lemma bump_super_ok: "parser_ok js num count p \<Longrightarrow> parser_ok js num count (bump_super p)"
  by (auto simp: parser_ok_def bump_super_def list_all_length nth_list_update tok_ok_def tok_open_def
      is_container_def split: option.splits if_splits)

lemma push_token_ok:
  assumes "parser_ok js num count p" "push_token num t p = Some p1" "tok_ok js t"
    and "tstart t \<le> int k" "pos p \<le> k"
  shows "parser_ok js num (Suc count) (p1\<lparr>pos := k\<rparr>)"
  using assms by (fastforce simp: parser_ok_def push_token_def list_all_iff split: if_splits option.splits)

lemma parser_ok_pos:
  "parser_ok js num count p \<Longrightarrow> pos p \<le> k \<Longrightarrow> parser_ok js num count (p\<lparr>pos := k\<rparr>)"
  by (auto simp: parser_ok_def list_all_iff intro: order_trans split: option.split)

lemma prim_end_le: "prim_end js k = Inr j \<Longrightarrow> k \<le> length js \<Longrightarrow> j \<le> length js"
proof (induction js k rule: prim_end.induct)
  case (1 js k)
  then show ?case by (subst (asm) (2) prim_end.simps) (auto split: if_splits)
qed

lemma parse_primitive_ok:
  assumes "parser_ok js num count p" "pos p < length js" "js ! pos p \<noteq> NUL" "\<not> prim_stop (js ! pos p)"
    and "jsmn_parse_primitive js num p = Inr p1"
  shows "parser_ok js num (Suc count) p1"
proof -
  obtain k p2 where k: "prim_end js (pos p) = Inr k"
    and p2: "push_token num (jsmn_fill_token JSMN_PRIMITIVE (pos p) k) p = Some p2" "p1 = p2\<lparr>pos := k - 1\<rparr>"
    using assms(5) by (auto simp: jsmn_parse_primitive_def split: sum.splits option.splits)
  have kb: "pos p < k" "k \<le> length js"
    using prim_end_progress [OF k assms(2,3,4)] prim_end_le [OF k] assms(2) by auto
  then have "tok_ok js (jsmn_fill_token JSMN_PRIMITIVE (pos p) k)"
    using assms(2) by (auto simp: tok_ok_def jsmn_fill_token_def tok_open_def)
  from push_token_ok [OF assms(1) p2(1) this, of "k - 1"] p2(2) kb show ?thesis
    by (simp add: jsmn_fill_token_def)
qed

lemma parse_string_ok:
  assumes "parser_ok js num count p" "jsmn_parse_string js num p = Inr p1"
  shows "parser_ok js num (Suc count) p1"
proof -
  obtain k p2 where k: "string_end js (Suc (pos p)) = Inr k"
    and p2: "push_token num (jsmn_fill_token JSMN_STRING (pos p + 1) k) p = Some p2" "p1 = p2\<lparr>pos := k\<rparr>"
    using assms(2) by (auto simp: jsmn_parse_string_def split: sum.splits option.splits)
  from string_end_ge [OF k] have "tok_ok js (jsmn_fill_token JSMN_STRING (pos p + 1) k)"
    by (auto simp: tok_ok_def jsmn_fill_token_def tok_open_def)
  from push_token_ok [OF assms(1) p2(1) this, of k] p2(2) string_end_ge [OF k] show ?thesis
    by (simp add: jsmn_fill_token_def)
qed

lemma open_bracket_ok:
  assumes "parser_ok js num count p" "pos p < length js" "ty = JSMN_OBJECT \<or> ty = JSMN_ARRAY"
    and "open_bracket ty num p = Inr p1"
  shows "parser_ok js num (Suc count) p1"
proof -
  let ?t = "\<lparr>ttype = ty, tstart = int (pos p), tend = -1, tsize = 0\<rparr>"
  obtain p2 where p2: "push_token num ?t p = Some p2"
    "p1 = (bump_super p2)\<lparr>toksuper := Some (length (tokens p2) - 1)\<rparr>"
    using assms(4) by (auto simp: open_bracket_def split: option.splits)
  have "tok_ok js ?t" using assms(2,3) by (auto simp: tok_ok_def tok_open_def is_container_def)
  from push_token_ok [OF assms(1) p2(1) this, of "pos p"] push_token_fields [OF p2(1)]
  have "parser_ok js num (Suc count) p2" by (auto simp: parser_ok_def split: option.split)
  from bump_super_ok [OF this] p2(2) push_token_fields [OF p2(1)]
  show ?thesis by (auto simp: parser_ok_def)
qed

lemma close_bracket_ok:
  assumes "parser_ok js num count p" "pos p < length js" "ty = JSMN_OBJECT \<or> ty = JSMN_ARRAY"
    and "close_bracket ty p = Inr p1"
  shows "parser_ok js num count p1"
proof -
  obtain i where i: "last_index tok_open (tokens p) (length (tokens p)) = Some i"
    using assms(4) by (auto simp: close_bracket_def split: option.splits)
  define t where "t = tend_update (\<lambda>_. int (pos p) + 1) (tokens p ! i)"
  define ts where "ts = (tokens p)[i := t]"
  have ty: "ttype (tokens p ! i) = ty"
    and p1: "p1 = p\<lparr>tokens := ts, toksuper := last_index tok_open ts (Suc i)\<rparr>"
    using assms(4) i by (auto simp: close_bracket_def Let_def ts_def t_def split: if_splits)
  have il: "i < length (tokens p)" using last_index_Some [OF i] by simp
  then have "tok_ok js (tokens p ! i)" "tstart (tokens p ! i) \<le> int (pos p)"
    using assms(1) by (auto simp: parser_ok_def list_all_length)
  then have "tok_ok js t" "tstart t \<le> int (pos p)"
    using assms(2,3) ty by (auto simp: tok_ok_def t_def tok_open_def)
  then have "list_all (tok_ok js) ts" "list_all (\<lambda>t. tstart t \<le> int (pos p)) ts"
    using assms(1) il by (auto simp: parser_ok_def ts_def list_all_length nth_list_update)
  moreover have "j < length ts" if "last_index tok_open ts (Suc i) = Some j" for j
    using last_index_Some [OF that] il by (simp add: ts_def)
  moreover have "length ts = length (tokens p)" by (simp add: ts_def)
  ultimately show ?thesis
    using assms(1) by (auto simp: parser_ok_def p1 simp del: last_index.simps split: option.split)
qed

lemma comma_ok: "parser_ok js num count p \<Longrightarrow> parser_ok js num count (comma p)"
  using last_index_Some [of "\<lambda>t. is_container t \<and> tok_open t" "tokens p" "length (tokens p)"]
  by (auto simp: parser_ok_def comma_def split: option.splits)

lemma jsmn_step_ok:
  assumes ok: "parser_ok js num count p" and k: "pos p < length js" "js ! pos p \<noteq> NUL"
    and s: "jsmn_step js num p = Inr (n, p1)"
  shows "parser_ok js num (count + n) p1"
proof -
  consider (ob) ty where "ty = JSMN_OBJECT \<or> ty = JSMN_ARRAY" "open_bracket ty num p = Inr p1" "n = 1"
    | (cb) ty where "ty = JSMN_OBJECT \<or> ty = JSMN_ARRAY" "close_bracket ty p = Inr p1" "n = 0"
    | (st) q where "jsmn_parse_string js num p = Inr q" "n = 1" "p1 = bump_super q"
    | (sp) "n = 0" "p1 = p"
    | (co) "n = 0" "p1 = p\<lparr>toksuper := (if tokens p = [] then None else Some (length (tokens p) - 1))\<rparr>"
    | (cm) "n = 0" "p1 = comma p"
    | (pr) q where "\<not> prim_stop (js ! pos p)" "jsmn_parse_primitive js num p = Inr q" "n = 1" "p1 = bump_super q"
    using s by (auto simp: jsmn_step_def prim_stop_def Let_def split: if_splits sum.splits)
  then show ?thesis
  proof cases
    case ob
    then show ?thesis using open_bracket_ok [OF ok k(1)] by auto
  next
    case cb
    then show ?thesis using close_bracket_ok [OF ok k(1)] by auto
  next
    case st
    then show ?thesis using bump_super_ok [OF parse_string_ok [OF ok]] by auto
  next
    case sp
    then show ?thesis using ok by simp
  next
    case co
    then show ?thesis using ok by (auto simp: parser_ok_def)
  next
    case cm
    then show ?thesis using comma_ok [OF ok] by simp
  next
    case pr
    then show ?thesis using bump_super_ok [OF parse_primitive_ok [OF ok k]] by auto
  qed
qed

lemma jsmn_loop_ok:
  "jsmn_loop js num count p = Inr (n, p1) \<Longrightarrow> parser_ok js num count p \<Longrightarrow>
     parser_ok js num n p1 \<and> list_all (\<lambda>t. \<not> tok_open t) (tokens p1)"
proof (induction js num count p rule: jsmn_loop.induct)
  case (1 js num count p)
  show ?case
  proof (cases "pos p < length js \<and> js ! pos p \<noteq> NUL")
    case True
    with "1.prems"(1) obtain m q where q: "jsmn_step js num p = Inr (m, q)"
      "jsmn_loop js num (count + m) (q\<lparr>pos := pos q + 1\<rparr>) = Inr (n, p1)"
      by (subst (asm) jsmn_loop.simps) (auto split: sum.splits)
    have "parser_ok js num (count + m) (q\<lparr>pos := pos q + 1\<rparr>)"
      using jsmn_step_ok [OF "1.prems"(2) _ _ q(1)] True by (intro parser_ok_pos) auto
    with "1.IH" [OF True q(1) refl q(2)] show ?thesis .
  next
    case False
    with "1.prems"(1) have "last_index tok_open (tokens p) (length (tokens p)) = None" "n = count" "p1 = p"
      by (subst (asm) jsmn_loop.simps; auto split: if_splits)+
    then show ?thesis
      using "1.prems"(2) last_index_None [of tok_open "tokens p" "length (tokens p)"]
      by (auto simp: list_all_length)
  qed
qed

lemma jsmn_parse_ok:
  assumes "jsmn_parse js num = Inr (n, ts)"
  shows "n = length ts \<and> n \<le> num \<and> list_all (\<lambda>t. 0 \<le> tstart t \<and> tstart t \<le> tend t
     \<and> tend t \<le> int (length js)
     \<and> (ttype t = JSMN_STRING \<longrightarrow> tend t < int (length js) \<and> js ! nat (tend t) = DQ)) ts"
proof -
  have "parser_ok js num 0 jsmn_init" by (simp add: parser_ok_def jsmn_init_def)
  with assms jsmn_loop_ok [of js num 0 jsmn_init n] show ?thesis
    by (auto simp: jsmn_parse_def parser_ok_def tok_ok_def list_all_iff split: sum.splits)
qed

end
