(* ===== verification/Handoff.thy ===== *)
theory Handoff
  imports Json_Tokens Daemon_Types
begin

text \<open>
  What the io_uring daemon receives from Apache: the helpers on JSON tokens (json.c) and the message
  with the descriptor and the data (handoff.c). A control message is its level, type and first
  descriptor; the bytes are a buffer of which the first \<open>len\<close> were received.
\<close>

section \<open>Helpers on tokens\<close>

definition MAX_JSON_TOKENS :: nat where "MAX_JSON_TOKENS = 32"

definition json_tok_len :: "jsmntok \<Rightarrow> int" where
  "json_tok_len t = tend t - tstart t"

definition tok_bytes :: "string \<Rightarrow> jsmntok \<Rightarrow> string" where
  "tok_bytes json t = take (nat (json_tok_len t)) (drop (nat (tstart t)) json)"

definition json_tok_eq :: "string \<Rightarrow> jsmntok \<Rightarrow> string \<Rightarrow> bool" where
  "json_tok_eq json t s \<longleftrightarrow> ttype t = JSMN_STRING \<and> int (length s) = json_tok_len t \<and> tok_bytes json t = s"

definition json_tok_copy :: "string \<Rightarrow> jsmntok \<Rightarrow> nat \<Rightarrow> string option" where
  \<comment> \<open>the C string stored, \<open>None\<close> when it does not fit\<close>
  "json_tok_copy json t buflen =
     (if nat (json_tok_len t) \<ge> buflen then None else Some (tok_bytes json t))"

definition json_tok_int :: "string \<Rightarrow> jsmntok \<Rightarrow> int" where
  "json_tok_int json t =
     (if ttype t \<noteq> JSMN_PRIMITIVE then 0
      else if json_tok_len t \<ge> 32 then 0
      else st_value (strtol 10 (takeWhile (\<lambda>c. c \<noteq> NUL) (tok_bytes json t))))"

function find_key_loop :: "string \<Rightarrow> jsmntok list \<Rightarrow> nat \<Rightarrow> string \<Rightarrow> nat \<Rightarrow> nat option" where
  \<comment> \<open>\<open>None\<close> is -1\<close>
  "find_key_loop json ts num key i =
     (if i < num then
        if json_tok_eq json (ts ! i) key then (if i + 1 < num then Some (i + 1) else None)
        else if i + 1 < num \<and> is_container (ts ! (i + 1))
             then find_key_loop json ts num key (i + 1 + (1 + tsize (ts ! (i + 1)) * 2))
             else if i + 1 < num then find_key_loop json ts num key (i + 2)
             else find_key_loop json ts num key (i + 1)
      else None)"
  by pat_completeness auto
termination by (relation "measure (\<lambda>(json, ts, num, key, i). num - i)") auto

declare find_key_loop.simps [simp del]

definition json_find_key :: "string \<Rightarrow> jsmntok list \<Rightarrow> nat \<Rightarrow> string \<Rightarrow> nat option" where
  "json_find_key json ts num key =
     (if num < 1 \<or> ttype (ts ! 0) \<noteq> JSMN_OBJECT then None else find_key_loop json ts num key 1)"

definition json_parse :: "string \<Rightarrow> nat \<Rightarrow> (nat \<times> jsmntok list) option" where
  "json_parse json num = (case jsmn_parse json num of Inl e \<Rightarrow> None | Inr r \<Rightarrow> Some r)"

section \<open>The message\<close>

record cmsg =
  cmsg_level :: int
  cmsg_type :: int
  cmsg_fd :: int

abbreviation (input) SOL_SOCKET :: int where "SOL_SOCKET \<equiv> 1"
abbreviation (input) SCM_RIGHTS :: int where "SCM_RIGHTS \<equiv> 1"
abbreviation (input) SOCK_STREAM :: int where "SOCK_STREAM \<equiv> 1"

definition handoff_extract_fd :: "cmsg option \<Rightarrow> int" where
  "handoff_extract_fd c =
     (case c of
        None \<Rightarrow> -1
      | Some m \<Rightarrow> if cmsg_level m \<noteq> SOL_SOCKET \<or> cmsg_type m \<noteq> SCM_RIGHTS then -1 else cmsg_fd m)"

definition handoff_recv_fd ::
    "int \<Rightarrow> bool \<Rightarrow> bool \<Rightarrow> cmsg option \<Rightarrow> (int \<times> nat) option" where
  \<comment> \<open>the answer of \<open>recvmsg\<close>: bytes or -1, \<open>MSG_TRUNC\<close>, \<open>MSG_CTRUNC\<close>, control message;
      the result is the descriptor and \<open>*data_len\<close>\<close>
  "handoff_recv_fd n trunc ctrunc c =
     (if n < 0 then None
      else if trunc then None
      else if ctrunc then None
      else (case c of
          None \<Rightarrow> None
        | Some m \<Rightarrow> if cmsg_level m \<noteq> SOL_SOCKET \<or> cmsg_type m \<noteq> SCM_RIGHTS then None
                    else Some (cmsg_fd m, nat n)))"

definition handoff_validate_socket :: "int option \<Rightarrow> int" where
  \<comment> \<open>the socket type \<open>getsockopt\<close> gives\<close>
  "handoff_validate_socket ty =
     (case ty of None \<Rightarrow> -1 | Some n \<Rightarrow> if n \<noteq> SOCK_STREAM then -1 else 0)"

section \<open>The data\<close>

definition is_blank :: "char \<Rightarrow> bool" where
  "is_blank c \<longleftrightarrow> c = NUL \<or> c = CHR '' '' \<or> c = TAB \<or> c = LF \<or> c = CR"

definition lead_blanks :: "string \<Rightarrow> nat" where
  "lead_blanks s = length (takeWhile is_blank s)"

definition handoff_text :: "string \<Rightarrow> string" where
  \<comment> \<open>the received bytes without blanks at both ends\<close>
  "handoff_text received = rev (dropWhile is_blank (rev (dropWhile is_blank received)))"

text \<open>
  A string value: the offset of its first byte in the buffer, and the buffer after the byte behind
  it, the closing quote, has become the terminator.
\<close>

definition take_string ::
    "nat \<Rightarrow> jsmntok list \<Rightarrow> nat \<Rightarrow> string \<Rightarrow> string \<Rightarrow> nat option \<times> string" where
  "take_string lead ts num key buf =
     (case json_find_key (drop lead buf) ts num key of
        None \<Rightarrow> (None, buf)
      | Some idx \<Rightarrow>
          if idx > 0 \<and> ttype (ts ! idx) = JSMN_STRING
          then (Some (lead + nat (tstart (ts ! idx))), buf[lead + nat (tend (ts ! idx)) := NUL])
          else (None, buf))"

definition take_int :: "nat \<Rightarrow> jsmntok list \<Rightarrow> nat \<Rightarrow> string \<Rightarrow> string \<Rightarrow> int" where
  "take_int lead ts num key buf =
     (case json_find_key (drop lead buf) ts num key of
        None \<Rightarrow> 0
      | Some idx \<Rightarrow> if idx > 0 then json_tok_int (drop lead buf) (ts ! idx) else 0)"

definition handoff_parse_data :: "string \<Rightarrow> nat \<Rightarrow> handoff_data \<times> string" where
  "handoff_parse_data buf len =
     (let received = take len buf; lead = lead_blanks received; text = handoff_text received in
      if text = [] then (empty_handoff_data, buf)
      else case json_parse text MAX_JSON_TOKENS of
        None \<Rightarrow> (empty_handoff_data, buf)
      | Some (num, ts) \<Rightarrow>
          let u = take_int lead ts num ''user_id'' buf;
              mt = c_int (take_int lead ts num ''max_tokens'' buf);
              (pr, buf1) = take_string lead ts num ''prompt'' buf;
              (mo, buf2) = take_string lead ts num ''model'' buf1
          in (\<lparr>user_id = u, prompt = pr, model = mo, max_tokens = mt\<rparr>, buf2))"

section \<open>Everything stays inside the received bytes\<close>

lemma find_key_loop_bound: "find_key_loop json ts num key i = Some k \<Longrightarrow> i < k \<and> k < num"
proof (induction json ts num key i rule: find_key_loop.induct)
  case (1 json ts num key i)
  have i: "i < num" using "1.prems" by (subst (asm) find_key_loop.simps) (auto split: if_splits)
  show ?case
  proof (cases "json_tok_eq json (ts ! i) key")
    case True
    with i "1.prems" show ?thesis by (subst (asm) find_key_loop.simps) (auto split: if_splits)
  next
    case False
    note next_key = "1.prems" [unfolded find_key_loop.simps [of json ts num key i] if_P [OF i] if_not_P [OF False]]
    show ?thesis
    proof (cases "i + 1 < num \<and> is_container (ts ! (i + 1))")
      case c: True
      from "1.IH"(1) [OF i False c next_key [unfolded if_P [OF c]]] show ?thesis by simp
    next
      case c: False
      note next_key = next_key [unfolded if_not_P [OF c]]
      show ?thesis
      proof (cases "i + 1 < num")
        case v: True
        from "1.IH"(2) [OF i False c v next_key [unfolded if_P [OF v]]] show ?thesis by simp
      next
        case v: False
        from "1.IH"(3) [OF i False c v next_key [unfolded if_not_P [OF v]]] show ?thesis by simp
      qed
    qed
  qed
qed

lemma find_key_bound: "json_find_key json ts num key = Some k \<Longrightarrow> 1 < k \<and> k < num"
  using find_key_loop_bound by (auto simp: json_find_key_def split: if_splits)

lemma handoff_text_place:
  "take (length (handoff_text s)) (drop (lead_blanks s) s) = handoff_text s
     \<and> lead_blanks s + length (handoff_text s) \<le> length s"
proof -
  have d: "drop (lead_blanks s) s = dropWhile is_blank s"
    by (simp add: lead_blanks_def dropWhile_eq_drop)
  define t where "t = dropWhile is_blank s"
  have "t = rev (dropWhile is_blank (rev t)) @ rev (takeWhile is_blank (rev t))"
    by (metis rev_append rev_rev_ident takeWhile_dropWhile_id)
  then obtain r where r: "t = handoff_text s @ r" by (metis handoff_text_def t_def)
  have "length s = lead_blanks s + length t"
    by (metis lead_blanks_def length_append t_def takeWhile_dropWhile_id)
  with r d t_def show ?thesis by simp
qed

lemma handoff_parse_length: "handoff_parse_data buf len = (h, buf') \<Longrightarrow> length buf' = length buf"
proof -
  have t: "length (snd (take_string lead ts num key b)) = length b" for lead ts num key b
    by (simp add: take_string_def split: option.split)
  assume "handoff_parse_data buf len = (h, buf')"
  then show ?thesis
    using t by (auto simp: handoff_parse_data_def Let_def case_prod_unfold split: if_splits option.splits)
qed

end
