(* ===== verification/Handoff_Correctness.thy ===== *)
theory Handoff_Correctness
  imports Handoff
begin

text \<open>
  What the daemon makes of the data that comes with a descriptor: nothing outside the received bytes
  is touched, flat JSON objects are read back as they were printed, and where the reading goes wrong.
\<close>

section \<open>Flat objects\<close>

text \<open>
  The objects applications send: keys with strings that need no escape, or with numbers.
\<close>

datatype jval = JStr string | JNum nat

fun jval_text :: "jval \<Rightarrow> string" where
  "jval_text (JStr s) = DQ # s @ [DQ]"
| "jval_text (JNum n) = decimal n"

definition member_text :: "string \<times> jval \<Rightarrow> string" where
  "member_text m = DQ # fst m @ DQ # CHR '':'' # jval_text (snd m)"

fun members_text :: "(string \<times> jval) list \<Rightarrow> string" where
  "members_text [] = []"
| "members_text [m] = member_text m"
| "members_text (m # m1 # ms) = member_text m @ CHR '','' # members_text (m1 # ms)"

definition object_text :: "(string \<times> jval) list \<Rightarrow> string" where
  "object_text ms = CHR ''{'' # members_text ms @ [CHR ''}'']"

definition plain :: "string \<Rightarrow> bool" where
  "plain s \<longleftrightarrow> list_all (\<lambda>c. c \<noteq> DQ \<and> c \<noteq> BSL \<and> c \<noteq> NUL) s"

fun plain_val :: "jval \<Rightarrow> bool" where
  "plain_val (JStr s) = plain s"
| "plain_val (JNum n) = (int n \<le> LONG_MAX)"

definition plain_object :: "(string \<times> jval) list \<Rightarrow> bool" where
  "plain_object ms \<longleftrightarrow> list_all (\<lambda>m. plain (fst m) \<and> plain_val (snd m)) ms"

text \<open>The tokens of the members that start at an offset.\<close>

fun jval_tok :: "nat \<Rightarrow> jval \<Rightarrow> jsmntok" where
  "jval_tok k (JStr s) = jsmn_fill_token JSMN_STRING (k + 1) (k + 1 + length s)"
| "jval_tok k (JNum n) = jsmn_fill_token JSMN_PRIMITIVE k (k + length (decimal n))"

fun member_toks :: "nat \<Rightarrow> (string \<times> jval) list \<Rightarrow> jsmntok list" where
  "member_toks k [] = []"
| "member_toks k (m # ms) =
     (jsmn_fill_token JSMN_STRING (k + 1) (k + 1 + length (fst m)))\<lparr>tsize := 1\<rparr>
     # jval_tok (k + length (fst m) + 3) (snd m)
     # member_toks (k + length (member_text m) + 1) ms"

section \<open>The tokenizer on a flat object\<close>

lemma nth_of_drop: "drop k js = c # cs \<Longrightarrow> k < length js \<and> js ! k = c \<and> drop (Suc k) js = cs"
  by (metis Cons_nth_drop_Suc drop_all linorder_not_le list.distinct(1) list.inject)

lemma drop_of_drop: "drop k js = s @ t \<Longrightarrow> drop (k + length s) js = t"
  by (metis append_eq_conv_conj drop_drop add.commute)

lemma string_end_plain:
  "drop k js = s @ DQ # rest \<Longrightarrow> plain s \<Longrightarrow> string_end js k = Inr (k + length s)"
proof (induction s arbitrary: k)
  case Nil
  then have "k < length js" "js ! k = DQ" using nth_of_drop [of k js DQ rest] by auto
  then show ?case by (subst string_end.simps) simp
next
  case (Cons c s)
  then have "k < length js" "js ! k = c" "drop (Suc k) js = s @ DQ # rest"
    using nth_of_drop [of k js c "s @ DQ # rest"] by auto
  with Cons show ?case by (subst string_end.simps) (simp add: plain_def)
qed

lemma digit_plain: "is_digit 10 c \<Longrightarrow> \<not> prim_stop c \<and> \<not> prim_bad c \<and> c \<noteq> NUL \<and> c \<noteq> CHR ''{''
   \<and> c \<noteq> CHR ''['' \<and> c \<noteq> DQ \<and> c \<noteq> CHR '':''"
  by (auto simp: is_digit_def digit_of_def prim_stop_def prim_bad_def Let_def split: if_splits)

lemma prim_end_digits:
  "drop k js = ds @ c # rest \<Longrightarrow> list_all (is_digit 10) ds \<Longrightarrow> prim_stop c
     \<Longrightarrow> prim_end js k = Inr (k + length ds)"
proof (induction ds arbitrary: k)
  case Nil
  then have k: "k < length js" "js ! k = c" using nth_of_drop [of k js c rest] by auto
  moreover have "c \<noteq> NUL" using Nil by (auto simp: prim_stop_def)
  ultimately show ?case using Nil by (subst prim_end.simps) simp
next
  case (Cons d ds)
  then have "k < length js" "js ! k = d" "drop (Suc k) js = ds @ c # rest"
    using nth_of_drop [of k js d "ds @ c # rest"] by auto
  with Cons show ?case by (subst prim_end.simps) (simp add: digit_plain)
qed

lemma loop_string:
  assumes "drop k js = DQ # s @ DQ # rest" "plain s" "i < length ts" "length ts < num"
  shows "jsmn_loop js num n \<lparr>pos = k, toksuper = Some i, tokens = ts\<rparr>
    = jsmn_loop js num (Suc n) \<lparr>pos = k + length s + 2, toksuper = Some i,
        tokens = ts[i := tsize_update Suc (ts ! i)]
                 @ [jsmn_fill_token JSMN_STRING (k + 1) (k + 1 + length s)]\<rparr>"
proof -
  have k: "k < length js" "js ! k = DQ" "drop (Suc k) js = s @ DQ # rest"
    using nth_of_drop [OF assms(1)] by auto
  show ?thesis using assms(3,4) k string_end_plain [OF k(3) assms(2)]
    by (subst jsmn_loop.simps)
      (simp add: jsmn_step_def jsmn_parse_string_def push_token_def bump_super_def
        list_update_append nth_append)
qed

lemma loop_number:
  assumes "drop k js = decimal d @ c # rest" "prim_stop c" "i < length ts" "length ts < num"
  shows "jsmn_loop js num n \<lparr>pos = k, toksuper = Some i, tokens = ts\<rparr>
    = jsmn_loop js num (Suc n) \<lparr>pos = k + length (decimal d), toksuper = Some i,
        tokens = ts[i := tsize_update Suc (ts ! i)]
                 @ [jsmn_fill_token JSMN_PRIMITIVE k (k + length (decimal d))]\<rparr>"
proof -
  have "decimal d \<noteq> []" by (subst decimal.simps) simp
  then obtain e es where e: "decimal d = e # es" by (meson neq_Nil_conv)
  have k: "k < length js" "js ! k = e" using nth_of_drop [of k js e] assms(1) e by auto
  have "is_digit 10 e" using decimal_digits [of d] e by simp
  note dg = digit_plain [OF this]
  have "e \<noteq> CHR ''}''" "e \<noteq> CHR '']''" "e \<notin> {TAB, CR, LF, CHR '' ''}" "e \<noteq> CHR '',''"
    using dg by (auto simp: prim_stop_def)
  then show ?thesis
    using assms(3,4) k dg prim_end_digits [OF assms(1) decimal_digits assms(2)] e
    by (subst jsmn_loop.simps)
      (simp add: jsmn_step_def jsmn_parse_primitive_def push_token_def bump_super_def
        list_update_append nth_append)
qed

lemma loop_colon:
  assumes "drop k js = CHR '':'' # rest" "ts \<noteq> []"
  shows "jsmn_loop js num n \<lparr>pos = k, toksuper = sp, tokens = ts\<rparr>
    = jsmn_loop js num n \<lparr>pos = Suc k, toksuper = Some (length ts - 1), tokens = ts\<rparr>"
  using nth_of_drop [OF assms(1)] assms(2) by (subst jsmn_loop.simps) (simp add: jsmn_step_def)

lemma last_index_first:
  assumes "P t" "list_all (\<lambda>u. \<not> P u) us" "n \<le> length us"
  shows "last_index P (t # us) (Suc n) = Some 0"
  using assms by (induction n) (auto simp: list_all_length)

definition closed_tokens :: "jsmntok list \<Rightarrow> bool" where
  "closed_tokens ts \<longleftrightarrow> list_all (\<lambda>t. \<not> tok_open t) ts"

lemma loop_comma:
  assumes "drop k js = CHR '','' # rest" "\<not> is_container (ts ! i)"
    and "is_container t" "tok_open t" "closed_tokens ts'" "ts = t # ts'"
  shows "jsmn_loop js num n \<lparr>pos = k, toksuper = Some i, tokens = ts\<rparr>
    = jsmn_loop js num n \<lparr>pos = Suc k, toksuper = Some 0, tokens = ts\<rparr>"
proof -
  have "last_index (\<lambda>t. is_container t \<and> tok_open t) ts (length ts) = Some 0"
    unfolding assms(6) length_Cons
    by (rule last_index_first) (use assms(3,4,5) in \<open>auto simp: closed_tokens_def list_all_iff\<close>)
  then show ?thesis using nth_of_drop [OF assms(1)] assms(2)
    by (subst jsmn_loop.simps) (simp add: jsmn_step_def comma_def)
qed

lemma loop_close:
  assumes "drop k js = [CHR ''}'']" "ttype t = JSMN_OBJECT" "tok_open t" "closed_tokens ts'"
  shows "jsmn_loop js num n \<lparr>pos = k, toksuper = sp, tokens = t # ts'\<rparr>
    = Inr (n, \<lparr>pos = length js, toksuper = None,
               tokens = tend_update (\<lambda>_. int (length js)) t # ts'\<rparr>)"
proof -
  have k: "k < length js" "js ! k = CHR ''}''" "drop (Suc k) js = []" using nth_of_drop [OF assms(1)] by auto
  then have l: "length js = Suc k" by simp
  have o: "last_index tok_open (t # ts') (Suc (length ts')) = Some 0"
    by (rule last_index_first) (use assms(3,4) in \<open>auto simp: closed_tokens_def\<close>)
  let ?t = "tend_update (\<lambda>_. 1 + int k) t"
  have "\<not> tok_open ?t" by (simp add: tok_open_def)
  then have "list_all (\<lambda>t. \<not> tok_open t) (?t # ts')" using assms(4) by (simp add: closed_tokens_def)
  then have none: "last_index tok_open (?t # ts') m = None" if "m \<le> Suc (length ts')" for m
    using that by (induction m) (auto simp: list_all_length nth_Cons split: nat.splits)
  have "jsmn_loop js num n \<lparr>pos = k, toksuper = sp, tokens = t # ts'\<rparr>
    = jsmn_loop js num n \<lparr>pos = Suc k, toksuper = None, tokens = ?t # ts'\<rparr>"
    using k o none [of "Suc 0"] assms(2)
    by (subst jsmn_loop.simps) (simp add: jsmn_step_def close_bracket_def Let_def add.commute del: last_index.simps)
  also have "\<dots> = Inr (n, \<lparr>pos = length js, toksuper = None, tokens = tend_update (\<lambda>_. int (length js)) t # ts'\<rparr>)"
    using none [of "Suc (length ts')"] l
    by (subst jsmn_loop.simps) (simp add: add.commute del: last_index.simps)
  finally show ?thesis .
qed

lemma jval_text_loop:
  assumes "drop k js = jval_text v @ c # rest" "prim_stop c" "plain_val v" "i < length ts" "length ts < num"
  shows "jsmn_loop js num n \<lparr>pos = k, toksuper = Some i, tokens = ts\<rparr>
    = jsmn_loop js num (Suc n) \<lparr>pos = k + length (jval_text v), toksuper = Some i,
        tokens = ts[i := tsize_update Suc (ts ! i)] @ [jval_tok k v]\<rparr>"
proof (cases v)
  case (JStr s)
  then show ?thesis using loop_string [of k js s "c # rest" i ts num n] assms by simp
next
  case (JNum d)
  then show ?thesis using loop_number [of k js d c rest i ts num n] assms by simp
qed

lemma member_loop:
  assumes d: "drop k js = member_text m @ c # rest" and c: "prim_stop c"
    and m: "plain (fst m)" "plain_val (snd m)" and num: "length ts' + 3 \<le> num"
  shows "jsmn_loop js num n \<lparr>pos = k, toksuper = Some 0, tokens = t # ts'\<rparr>
    = jsmn_loop js num (n + 2) \<lparr>pos = k + length (member_text m), toksuper = Some (Suc (length ts')),
        tokens = tsize_update Suc t # ts' @ member_toks k [m]\<rparr>"
proof -
  let ?key = "jsmn_fill_token JSMN_STRING (k + 1) (k + 1 + length (fst m))"
  let ?k1 = "k + length (fst m) + 2"
  have d1: "drop k js = DQ # fst m @ DQ # (CHR '':'' # jval_text (snd m) @ c # rest)"
    using d by (simp add: member_text_def)
  have d2: "drop ?k1 js = CHR '':'' # (jval_text (snd m) @ c # rest)"
    using drop_of_drop [of k js "DQ # fst m @ [DQ]"] d1 by (simp add: ac_simps)
  have d3: "drop (Suc ?k1) js = jval_text (snd m) @ c # rest" using nth_of_drop [OF d2] by simp
  have "jsmn_loop js num n \<lparr>pos = k, toksuper = Some 0, tokens = t # ts'\<rparr>
    = jsmn_loop js num (Suc n) \<lparr>pos = ?k1, toksuper = Some 0, tokens = tsize_update Suc t # ts' @ [?key]\<rparr>"
    using loop_string [OF d1 m(1), of 0 "t # ts'" num n] num by simp
  also have "\<dots> = jsmn_loop js num (Suc n)
      \<lparr>pos = Suc ?k1, toksuper = Some (Suc (length ts')), tokens = tsize_update Suc t # ts' @ [?key]\<rparr>"
    using loop_colon [OF d2, of "tsize_update Suc t # ts' @ [?key]"] by simp
  also have "\<dots> = jsmn_loop js num (n + 2) \<lparr>pos = Suc ?k1 + length (jval_text (snd m)),
      toksuper = Some (Suc (length ts')),
      tokens = tsize_update Suc t # ts' @ [?key\<lparr>tsize := 1\<rparr>, jval_tok (Suc ?k1) (snd m)]\<rparr>"
    using jval_text_loop [OF d3 c m(2), of "Suc (length ts')" "tsize_update Suc t # ts' @ [?key]"] num
    by (simp add: nth_append list_update_append jsmn_fill_token_def)
  also have "Suc ?k1 + length (jval_text (snd m)) = k + length (member_text m)"
    by (simp add: member_text_def)
  finally show ?thesis by (simp add: numeral_eq_Suc)
qed

lemma member_toks_closed: "closed_tokens (member_toks k ms)"
proof (induction k ms rule: member_toks.induct)
  case (2 k m ms)
  have "\<not> tok_open (jval_tok j v)" for j v
    by (cases v) (auto simp: tok_open_def jsmn_fill_token_def)
  with 2 show ?case by (auto simp: closed_tokens_def tok_open_def jsmn_fill_token_def)
qed (simp add: closed_tokens_def)

lemma jval_tok_not_container: "\<not> is_container (jval_tok k v)"
  by (cases v) (auto simp: is_container_def jsmn_fill_token_def)

lemma member_toks_length [simp]: "length (member_toks k ms) = 2 * length ms"
  by (induction k ms rule: member_toks.induct) auto

lemma members_loop:
  assumes "drop k js = members_text ms @ [CHR ''}'']" "plain_object ms" "ms \<noteq> []"
    and "ttype t = JSMN_OBJECT" "tstart t \<noteq> -1" "tend t = -1" "closed_tokens ts'"
    and "length ts' + 2 * length ms < num"
  shows "jsmn_loop js num n \<lparr>pos = k, toksuper = Some 0, tokens = t # ts'\<rparr>
    = Inr (n + 2 * length ms, \<lparr>pos = length js, toksuper = None,
        tokens = t\<lparr>tend := int (length js), tsize := tsize t + length ms\<rparr> # ts' @ member_toks k ms\<rparr>)"
  using assms
proof (induction ms arbitrary: k t ts' n rule: members_text.induct)
  case (2 m)
  have o: "tok_open (tsize_update Suc t)" using "2.prems" by (simp add: tok_open_def)
  have cl: "closed_tokens (ts' @ member_toks k [m])"
    using "2.prems"(7) member_toks_closed [of k "[m]"] by (simp add: closed_tokens_def)
  have dr: "drop k js = member_text m @ CHR ''}'' # []" using "2.prems"(1) by simp
  have "drop (k + length (member_text m)) js = [CHR ''}'']" using drop_of_drop [OF dr] .
  from loop_close [OF this _ o cl] "2.prems"(4)
  have "jsmn_loop js num (n + 2) \<lparr>pos = k + length (member_text m), toksuper = Some (Suc (length ts')),
      tokens = tsize_update Suc t # ts' @ member_toks k [m]\<rparr>
    = Inr (n + 2, \<lparr>pos = length js, toksuper = None,
        tokens = tend_update (\<lambda>_. int (length js)) (tsize_update Suc t) # ts' @ member_toks k [m]\<rparr>)" by simp
  with member_loop [OF dr] "2.prems" show ?case
    by (simp add: plain_object_def prim_stop_def)
next
  case (3 m m1 ms)
  let ?ts = "ts' @ member_toks k [m]" and ?t = "tsize_update Suc t"
  have dr: "drop k js = member_text m @ CHR '','' # members_text (m1 # ms) @ [CHR ''}'']"
    using "3.prems"(1) by simp
  have d2: "drop (k + length (member_text m)) js = CHR '','' # (members_text (m1 # ms) @ [CHR ''}''])"
    using drop_of_drop [OF dr] .
  have cl: "closed_tokens ?ts"
    using "3.prems"(7) member_toks_closed [of k "[m]"] by (simp add: closed_tokens_def)
  have "jsmn_loop js num n \<lparr>pos = k, toksuper = Some 0, tokens = t # ts'\<rparr>
    = jsmn_loop js num (n + 2) \<lparr>pos = k + length (member_text m), toksuper = Some (Suc (length ts')),
        tokens = ?t # ?ts\<rparr>"
    using member_loop [OF dr] "3.prems" by (simp add: plain_object_def prim_stop_def)
  also have "\<dots> = jsmn_loop js num (n + 2) \<lparr>pos = Suc (k + length (member_text m)), toksuper = Some 0,
        tokens = ?t # ?ts\<rparr>"
    by (rule loop_comma [OF d2 _ _ _ cl refl])
      (use "3.prems" in \<open>auto simp: nth_append tok_open_def is_container_def jsmn_fill_token_def\<close>)
  also have "\<dots> = Inr (n + 2 + 2 * length (m1 # ms), \<lparr>pos = length js, toksuper = None,
        tokens = ?t\<lparr>tend := int (length js), tsize := tsize ?t + length (m1 # ms)\<rparr>
          # ?ts @ member_toks (Suc (k + length (member_text m))) (m1 # ms)\<rparr>)"
  proof (rule "3.IH")
    show "drop (Suc (k + length (member_text m))) js = members_text (m1 # ms) @ [CHR ''}'']"
      using nth_of_drop [OF d2] by simp
  qed (use "3.prems" cl in \<open>auto simp: plain_object_def\<close>)
  finally show ?case by simp
qed simp

definition object_toks :: "(string \<times> jval) list \<Rightarrow> jsmntok list" where
  "object_toks ms = \<lparr>ttype = JSMN_OBJECT, tstart = 0, tend = int (length (object_text ms)), tsize = length ms\<rparr>
     # member_toks 1 ms"

lemma json_parse_object:
  assumes "plain_object ms" "2 * length ms < num"
  shows "json_parse (object_text ms) num = Some (length (object_toks ms), object_toks ms)"
proof -
  let ?js = "object_text ms"
  let ?t = "\<lparr>ttype = JSMN_OBJECT, tstart = 0, tend = -1, tsize = 0\<rparr>"
  have "?js ! 0 = CHR ''{''" "0 < length ?js" by (simp_all add: object_text_def)
  then have s: "jsmn_loop ?js num 0 jsmn_init = jsmn_loop ?js num 1 \<lparr>pos = 1, toksuper = Some 0, tokens = [?t]\<rparr>"
    using assms(2) by (subst jsmn_loop.simps)
      (simp add: jsmn_step_def jsmn_init_def open_bracket_def push_token_def bump_super_def)
  have d: "drop 1 ?js = members_text ms @ [CHR ''}'']" by (simp add: object_text_def)
  show ?thesis
  proof (cases "ms = []")
    case True
    have "jsmn_loop ?js num 1 \<lparr>pos = 1, toksuper = Some 0, tokens = ?t # []\<rparr>
      = Inr (1, \<lparr>pos = length ?js, toksuper = None, tokens = tend_update (\<lambda>_. int (length ?js)) ?t # []\<rparr>)"
      by (rule loop_close) (use d True in \<open>auto simp: tok_open_def closed_tokens_def\<close>)
    with s True show ?thesis by (simp add: json_parse_def jsmn_parse_def object_toks_def)
  next
    case False
    have "jsmn_loop ?js num 1 \<lparr>pos = 1, toksuper = Some 0, tokens = ?t # []\<rparr>
      = Inr (1 + 2 * length ms, \<lparr>pos = length ?js, toksuper = None,
        tokens = ?t\<lparr>tend := int (length ?js), tsize := tsize ?t + length ms\<rparr> # [] @ member_toks 1 ms\<rparr>)"
      by (rule members_loop) (use d False assms in \<open>auto simp: closed_tokens_def\<close>)
    with s show ?thesis by (simp add: json_parse_def jsmn_parse_def object_toks_def)
  qed
qed

section \<open>Looking a key up\<close>

text \<open>
  The buffer while values are taken: the object's bytes, but some quotes may have become terminators.
\<close>

definition agrees :: "string \<Rightarrow> string \<Rightarrow> bool" where
  "agrees js J \<longleftrightarrow> length js \<le> length J
     \<and> (\<forall>i. i < length js \<longrightarrow> J ! i = js ! i \<or> js ! i = DQ)"

lemma agrees_bytes:
  assumes "agrees js J" "drop k js = s @ rest" "DQ \<notin> set s" "k \<le> length js"
  shows "take (length s) (drop k J) = s"
proof (rule nth_equalityI)
  have l: "length js = k + length s + length rest"
    using assms(4) arg_cong [OF assms(2), of length] by simp
  then show "length (take (length s) (drop k J)) = length s"
    using assms(1) by (auto simp: agrees_def)
  fix i assume "i < length (take (length s) (drop k J))"
  then have i: "i < length s" by simp
  then have e: "js ! (k + i) = s ! i" using arg_cong [OF assms(2), of "\<lambda>x. x ! i"] assms(4) by (simp add: nth_append)
  then have "js ! (k + i) \<noteq> DQ" using assms(3) i by (metis nth_mem)
  moreover have "k + i < length js" using i l by simp
  ultimately have "J ! (k + i) = s ! i" using assms(1) e unfolding agrees_def by metis
  then show "take (length s) (drop k J) ! i = s ! i" using i assms(1) l by (simp add: agrees_def)
qed

lemma plain_DQ: "plain s \<Longrightarrow> DQ \<notin> set s"
  by (auto simp: plain_def list_all_iff)

lemma key_tok_eq:
  assumes "agrees js J" "drop k js = DQ # s @ rest" "plain s"
  shows "json_tok_eq J ((jsmn_fill_token JSMN_STRING (k + 1) (k + 1 + length s))\<lparr>tsize := n\<rparr>) key
    \<longleftrightarrow> s = key"
proof -
  have d: "drop (Suc k) js = s @ rest" "Suc k \<le> length js" using nth_of_drop [OF assms(2)] by auto
  have n: "nat (1 + int k) = Suc k" by simp
  from agrees_bytes [OF assms(1) d(1) plain_DQ [OF assms(3)] d(2)] show ?thesis
    by (auto simp: n json_tok_eq_def jsmn_fill_token_def json_tok_len_def tok_bytes_def)
qed

lemma find_key_members:
  assumes "agrees js J" "drop k js = members_text ms @ [CHR ''}'']" "plain_object ms"
    and "ts = pre @ member_toks k ms"
  shows "case find_key_loop J ts (length ts) key (length pre) of
           None \<Rightarrow> map_of ms key = None
         | Some idx \<Rightarrow> (\<exists>v j rest. map_of ms key = Some v \<and> ts ! idx = jval_tok j v
             \<and> drop j js = jval_text v @ rest)"
  using assms
proof (induction ms arbitrary: k pre)
  case Nil
  then show ?case by (subst find_key_loop.simps) simp
next
  case (Cons m ms)
  let ?tail = "if ms = [] then [CHR ''}''] else CHR '','' # members_text ms @ [CHR ''}'']"
  have d: "drop k js = member_text m @ ?tail" using Cons.prems(2) by (cases ms) auto
  have d1: "drop k js = DQ # fst m @ (DQ # CHR '':'' # jval_text (snd m) @ ?tail)"
    using d by (simp add: member_text_def)
  have m: "plain (fst m)" using Cons.prems(3) by (simp add: plain_object_def)
  let ?i = "length pre"
  have toks: "ts ! ?i = (jsmn_fill_token JSMN_STRING (k + 1) (k + 1 + length (fst m)))\<lparr>tsize := 1\<rparr>"
    "ts ! Suc ?i = jval_tok (k + length (fst m) + 3) (snd m)" "length ts = ?i + 2 + 2 * length ms"
    by (simp_all add: Cons.prems(4) nth_append)
  have key: "json_tok_eq J (ts ! ?i) key \<longleftrightarrow> fst m = key"
    unfolding toks(1) by (rule key_tok_eq [OF Cons.prems(1) d1 m])
  show ?case
  proof (cases "fst m = key")
    case True
    have "drop (k + length (fst m) + 3) js = jval_text (snd m) @ ?tail"
      using drop_of_drop [of k js "DQ # fst m @ [DQ, CHR '':'']"] d1 by (simp add: ac_simps numeral_eq_Suc)
    moreover have "find_key_loop J ts (length ts) key ?i = Some (Suc ?i)"
      using key True toks(3) by (subst find_key_loop.simps) simp
    ultimately show ?thesis using True toks(2) by (cases m) auto
  next
    case False
    have step: "find_key_loop J ts (length ts) key ?i = find_key_loop J ts (length ts) key (?i + 2)"
      using key False toks by (subst find_key_loop.simps) (simp add: jval_tok_not_container)
    show ?thesis
    proof (cases "ms = []")
      case True
      then have "find_key_loop J ts (length ts) key (?i + 2) = None"
        using toks(3) by (subst find_key_loop.simps) simp
      with True step False show ?thesis by (cases m) simp
    next
      case ms: False
      let ?k2 = "k + length (member_text m) + 1"
      let ?pre = "pre @ [ts ! ?i, ts ! Suc ?i]"
      have "drop (k + length (member_text m)) js = CHR '','' # members_text ms @ [CHR ''}'']"
        using drop_of_drop [OF d] ms by simp
      then have d2: "drop ?k2 js = members_text ms @ [CHR ''}'']"
        using nth_of_drop [of "k + length (member_text m)" js] by simp
      have ts: "ts = ?pre @ member_toks ?k2 ms"
        using toks by (simp add: Cons.prems(4))
      have p: "plain_object ms" "length ?pre = ?i + 2" using Cons.prems(3) by (simp_all add: plain_object_def)
      have "map_of (m # ms) key = map_of ms key" using False by (cases m) simp
      then show ?thesis
        using Cons.IH [OF Cons.prems(1) d2 p(1) ts] unfolding step p(2) by (simp only:)
    qed
  qed
qed

lemma find_key_object:
  assumes "agrees (object_text ms) J" "plain_object ms" "ts = object_toks ms"
  shows "case json_find_key J ts (length ts) key of
           None \<Rightarrow> map_of ms key = None
         | Some idx \<Rightarrow> (\<exists>v j rest. map_of ms key = Some v \<and> ts ! idx = jval_tok j v
             \<and> drop j (object_text ms) = jval_text v @ rest)"
proof -
  have "drop 1 (object_text ms) = members_text ms @ [CHR ''}'']" by (simp add: object_text_def)
  from find_key_members [OF assms(1) this assms(2), of ts "[ts ! 0]" key] assms(3) show ?thesis
    by (simp add: json_find_key_def object_toks_def)
qed

section \<open>Taking the values\<close>

lemma take_string_cases:
  "take_string lead ts num key buf = (None, buf)
   \<or> (\<exists>idx. json_find_key (drop lead buf) ts num key = Some idx \<and> ttype (ts ! idx) = JSMN_STRING
        \<and> take_string lead ts num key buf
            = (Some (lead + nat (tstart (ts ! idx))), buf[lead + nat (tend (ts ! idx)) := NUL]))"
  by (auto simp: take_string_def split: option.splits)

lemma take_string_object:
  assumes "agrees (object_text ms) (drop lead buf)" "plain_object ms" "ts = object_toks ms"
    and "take_string lead ts (length ts) key buf = (r, buf')"
  shows "case map_of ms key of
           Some (JStr s) \<Rightarrow> (\<exists>k rest. r = Some (lead + k) \<and> buf' = buf[lead + k + length s := NUL]
             \<and> plain s \<and> drop k (object_text ms) = s @ DQ # rest)
         | _ \<Rightarrow> r = None \<and> buf' = buf"
proof -
  note fk = find_key_object [OF assms(1-3), of key]
  show ?thesis
  proof (cases "json_find_key (drop lead buf) ts (length ts) key")
    case None
    then show ?thesis using fk assms(4) by (simp add: take_string_def)
  next
    case (Some idx)
    with fk obtain v j rest where v: "map_of ms key = Some v" "ts ! idx = jval_tok j v"
      "drop j (object_text ms) = jval_text v @ rest" by auto
    have i: "0 < idx" using find_key_bound [OF Some] by simp
    have pv: "plain_val v" using map_of_SomeD [OF v(1)] assms(2) by (auto simp: plain_object_def list_all_iff)
    show ?thesis
    proof (cases v)
      case (JStr s)
      have n: "nat (1 + (int j + int (length s))) = Suc (j + length s)" "nat (1 + int j) = Suc j" by simp_all
      have "drop (Suc j) (object_text ms) = s @ DQ # rest"
        using nth_of_drop [of j "object_text ms" DQ "s @ DQ # rest"] v(3) JStr by simp
      with v Some i assms(4) JStr pv show ?thesis
        by (auto simp: take_string_def jsmn_fill_token_def n add.assoc intro!: exI [of _ "Suc j"])
    next
      case (JNum d)
      with v Some i assms(4) show ?thesis by (auto simp: take_string_def jsmn_fill_token_def)
    qed
  qed
qed

lemma agrees_terminated:
  assumes "agrees js (drop lead buf)" "js ! k = DQ" "lead \<le> length buf"
  shows "agrees js (drop lead (buf[lead + k := NUL]))"
proof -
  have "drop lead (buf[lead + k := NUL]) = (drop lead buf)[k := NUL]"
    using assms(3) by (simp add: drop_update_swap)
  moreover have "(drop lead buf)[k := NUL] ! i = js ! i \<or> js ! i = DQ" if "i < length js" for i
    using assms(1,2) that by (cases "i = k") (simp_all add: agrees_def)
  ultimately show ?thesis using assms(1) by (simp add: agrees_def)
qed

lemma terminated_string:
  assumes "agrees js (drop lead buf)" "drop k js = s @ DQ # rest" "plain s" "buf ! (lead + k + length s) = NUL"
    and "k \<le> length js"
  shows "c_string_at buf (lead + k) = s"
proof -
  have l: "lead + k + length s < length buf"
    using assms(1,5) arg_cong [OF assms(2), of length] by (auto simp: agrees_def)
  have "take (length s) (drop (lead + k) buf) = s"
    using agrees_bytes [OF assms(1,2) plain_DQ [OF assms(3)] assms(5)] by (simp add: add.commute)
  then have "drop (lead + k) buf = s @ drop (lead + k + length s) buf"
    by (metis add.commute append_take_drop_id drop_drop)
  also have "drop (lead + k + length s) buf = NUL # drop (Suc (lead + k + length s)) buf"
    using l assms(4) Cons_nth_drop_Suc by metis
  finally show ?thesis
    using assms(3) by (simp add: c_string_at_def plain_def list_all_iff takeWhile_append)
qed

lemma strtol_decimal_int: "int n \<le> LONG_MAX \<Longrightarrow> st_value (strtol 10 (decimal n)) = int n"
proof (cases "n = 0")
  case True
  have "st_value (strtol 10 ''0'') = 0"
    by (simp add: strtol_def Let_def base_prefix_def c_isspace_def is_digit_def digit_of_def)
  moreover have "decimal 0 = ''0''" using char_of_char [of "CHR ''0''", where 'a = nat] by (simp add: decimal.simps del: char_of_char)
  ultimately show ?thesis using True by simp
qed (simp add: strtol_decimal)

lemma take_int_object:
  assumes "agrees (object_text ms) (drop lead buf)" "plain_object ms" "ts = object_toks ms"
  shows "take_int lead ts (length ts) key buf = (case map_of ms key of Some (JNum n) \<Rightarrow> int n | _ \<Rightarrow> 0)"
proof -
  note fk = find_key_object [OF assms(1-3), of key]
  show ?thesis
  proof (cases "json_find_key (drop lead buf) ts (length ts) key")
    case None
    then show ?thesis using fk by (simp add: take_int_def)
  next
    case (Some idx)
    with fk obtain v j rest where v: "map_of ms key = Some v" "ts ! idx = jval_tok j v"
      "drop j (object_text ms) = jval_text v @ rest" by auto
    have i: "0 < idx" using find_key_bound [OF Some] by simp
    have pv: "plain_val v" using map_of_SomeD [OF v(1)] assms(2) by (auto simp: plain_object_def list_all_iff)
    show ?thesis
    proof (cases v)
      case (JStr s)
      with v Some i show ?thesis by (simp add: take_int_def json_tok_int_def jsmn_fill_token_def)
    next
      case (JNum d)
      have dd: "\<forall>c \<in> set (decimal d). c \<noteq> DQ \<and> c \<noteq> NUL"
        using decimal_digits [of d] digit_plain by (auto simp: list_all_iff)
      have jl: "j \<le> length (object_text ms)"
      proof (rule ccontr)
        assume "\<not> ?thesis"
        moreover have "decimal d \<noteq> []" by (subst decimal.simps) simp
        ultimately show False using v(3) JNum by simp
      qed
      have b: "take (length (decimal d)) (drop j (drop lead buf)) = decimal d"
        by (rule agrees_bytes [OF assms(1)]) (use v(3) JNum dd jl in auto)
      have len: "length (decimal d) < 32"
        using decimal_length [of d 19] pv JNum by simp
      have nul: "takeWhile (\<lambda>c. c \<noteq> NUL) (decimal d) = decimal d" using dd by (simp add: takeWhile_eq_all_conv)
      show ?thesis using v Some i JNum len b strtol_decimal_int [of d] pv
        by (simp add: take_int_def json_tok_int_def jsmn_fill_token_def json_tok_len_def tok_bytes_def nul)
    qed
  qed
qed

section \<open>Claims\<close>

lemma object_ends: "object_text ms = CHR ''{'' # members_text ms @ [CHR ''}'']" by (simp add: object_text_def)

lemma blanks_around:
  assumes "list_all is_blank ws" "list_all is_blank ws'"
  shows "lead_blanks (ws @ object_text ms @ ws') = length ws"
    and "handoff_text (ws @ object_text ms @ ws') = object_text ms"
proof -
  have b: "\<not> is_blank (CHR ''{'')" "\<not> is_blank (CHR ''}'')" by (simp_all add: is_blank_def)
  have all: "\<forall>c \<in> set ws. is_blank c" "\<forall>c \<in> set (rev ws'). is_blank c" using assms by (auto simp: list_all_iff)
  show "lead_blanks (ws @ object_text ms @ ws') = length ws"
    using all(1) b by (simp add: lead_blanks_def object_ends takeWhile_append)
  have d: "dropWhile is_blank (ws @ object_text ms @ ws') = object_text ms @ ws'"
    using all(1) b by (simp add: object_ends dropWhile_append)
  have "dropWhile is_blank (rev (object_text ms @ ws')) = rev (object_text ms)"
    using all(2) b by (simp add: object_ends dropWhile_append)
  then show "handoff_text (ws @ object_text ms @ ws') = object_text ms" by (simp add: handoff_text_def d)
qed

definition number_of :: "jval option \<Rightarrow> int" where
  "number_of v = (case v of Some (JNum n) \<Rightarrow> int n | _ \<Rightarrow> 0)"

definition string_of :: "jval option \<Rightarrow> string option" where
  "string_of v = (case v of Some (JStr s) \<Rightarrow> Some s | _ \<Rightarrow> None)"

text \<open>A pointer that the parse has stored for a value.\<close>

definition pointed :: "string \<Rightarrow> nat \<Rightarrow> string \<Rightarrow> nat option \<Rightarrow> jval option \<Rightarrow> bool" where
  "pointed js lead buf r v = (case v of
     Some (JStr s) \<Rightarrow> (\<exists>k rest. r = Some (lead + k) \<and> buf ! (lead + k + length s) = NUL
       \<and> plain s \<and> drop k js = s @ DQ # rest)
   | _ \<Rightarrow> r = None)"

lemma pointed_string:
  assumes "pointed js lead buf r v" "agrees js (drop lead buf)"
  shows "map_option (c_string_at buf) r = string_of v"
proof (cases "\<exists>s. v = Some (JStr s)")
  case True
  then obtain s k rest where s: "v = Some (JStr s)" "r = Some (lead + k)"
    "buf ! (lead + k + length s) = NUL" "plain s" "drop k js = s @ DQ # rest"
    using assms(1) by (auto simp: pointed_def)
  have "k \<le> length js" using s(5) by (cases "k \<le> length js") auto
  from terminated_string [OF assms(2) s(5,4,3) this] s(1,2) show ?thesis by (simp add: string_of_def)
next
  case False
  then show ?thesis using assms(1)
    by (auto simp: pointed_def string_of_def split: option.splits jval.splits)
qed

lemma take_string_pointed:
  assumes "agrees (object_text ms) (drop lead buf)" "plain_object ms" "ts = object_toks ms"
    and "take_string lead ts (length ts) key buf = (r, buf')"
  shows "pointed (object_text ms) lead buf' r (map_of ms key)
       \<and> agrees (object_text ms) (drop lead buf')
       \<and> (pointed (object_text ms) lead buf r' v' \<longrightarrow> pointed (object_text ms) lead buf' r' v')"
proof (cases "\<exists>s. map_of ms key = Some (JStr s)")
  case True
  let ?js = "object_text ms"
  obtain s k rest where s: "map_of ms key = Some (JStr s)" "r = Some (lead + k)"
    "buf' = buf[lead + (k + length s) := NUL]" "plain s" "drop k ?js = s @ DQ # rest"
    using take_string_object [OF assms] True by (auto simp: add.assoc)
  let ?e = "k + length s"
  have e: "?js ! ?e = DQ" "?e < length ?js" using nth_of_drop [OF drop_of_drop [OF s(5)]] by auto
  have l: "lead \<le> length buf" "lead + ?e < length buf" using assms(1) e(2) by (auto simp: agrees_def)
  have "agrees ?js (drop lead buf')" using agrees_terminated [OF assms(1) e(1) l(1)] s(3) by simp
  moreover have "buf' ! (lead + ?e) = NUL" using s(3) l(2) by simp
  moreover have "buf' ! i = NUL" if "buf ! i = NUL" for i
    using s(3) l(2) that by (cases "i = lead + ?e") auto
  ultimately show ?thesis using s
    by (auto simp: pointed_def add.assoc split: option.splits jval.splits)
next
  case False
  then have "pointed (object_text ms) lead buf' r (map_of ms key) \<and> buf' = buf"
    using take_string_object [OF assms] by (auto simp: pointed_def split: option.splits jval.splits)
  with assms(1) show ?thesis by (elim conjE) simp
qed

text \<open>
  C19. Whatever flat object of at most fifteen members an application sends, with blanks or NUL bytes
  around it, the daemon reads back the values under the four keys it knows: the numbers, and for
  prompt and model C strings in the buffer with exactly the bytes that were sent. A key that is
  missing, or has a value of another type, leaves the default.
\<close>

theorem flat_object_read_back:
  assumes "plain_object ms" "length ms \<le> 15" "list_all is_blank ws" "list_all is_blank ws'"
    and "handoff_parse_data (ws @ object_text ms @ ws' @ junk)
           (length ws + length (object_text ms) + length ws') = (h, buf')"
  shows "user_id h = number_of (map_of ms ''user_id'')
       \<and> max_tokens h = c_int (number_of (map_of ms ''max_tokens''))
       \<and> map_option (c_string_at buf') (prompt h) = string_of (map_of ms ''prompt'')
       \<and> map_option (c_string_at buf') (model h) = string_of (map_of ms ''model'')"
proof -
  let ?js = "object_text ms" and ?lead = "length ws" and ?ts = "object_toks ms"
  let ?buf = "ws @ ?js @ ws' @ junk"
  have rec: "take (?lead + length ?js + length ws') ?buf = ws @ ?js @ ws'" by simp
  have ne: "?js \<noteq> []" by (simp add: object_ends)
  have parse: "json_parse ?js MAX_JSON_TOKENS = Some (length ?ts, ?ts)"
    using json_parse_object [OF assms(1)] assms(2) by (simp add: MAX_JSON_TOKENS_def)
  obtain pr buf1 where t1: "take_string ?lead ?ts (length ?ts) ''prompt'' ?buf = (pr, buf1)" by fastforce
  obtain mo buf2 where t2: "take_string ?lead ?ts (length ?ts) ''model'' buf1 = (mo, buf2)" by fastforce
  have h: "h = \<lparr>user_id = take_int ?lead ?ts (length ?ts) ''user_id'' ?buf, prompt = pr, model = mo,
      max_tokens = c_int (take_int ?lead ?ts (length ?ts) ''max_tokens'' ?buf)\<rparr>" and b2: "buf' = buf2"
    using assms(5) ne parse t1 t2
    by (simp_all add: handoff_parse_data_def rec blanks_around [OF assms(3,4)] Let_def)
  have a0: "agrees ?js (drop ?lead ?buf)" by (simp add: agrees_def nth_append)
  note p1 = take_string_pointed [OF a0 assms(1) refl t1, of pr "map_of ms ''prompt''"]
  note p2 = take_string_pointed [OF p1 [THEN conjunct2, THEN conjunct1] assms(1) refl t2, of pr "map_of ms ''prompt''"]
  have "map_option (c_string_at buf') pr = string_of (map_of ms ''prompt'')"
    "map_option (c_string_at buf') mo = string_of (map_of ms ''model'')"
    using p1 p2 pointed_string [of ?js ?lead buf2] b2 by auto
  then show ?thesis
    using take_int_object [OF a0 assms(1) refl] by (simp add: h number_of_def)
qed


lemma flat_object_read_back_witness:
  "case handoff_parse_data
          ([LF] @ object_text [(''prompt'', JStr ''hi''), (''user_id'', JNum 7), (''max_tokens'', JStr ''x'')] @ [NUL] @ ''zz'')
          (length [LF] + length (object_text [(''prompt'', JStr ''hi''), (''user_id'', JNum 7), (''max_tokens'', JStr ''x'')])
             + length [NUL]) of
     (h, buf') \<Rightarrow> user_id h = 7 \<and> max_tokens h = 0 \<and> map_option (c_string_at buf') (prompt h) = Some ''hi''
       \<and> model h = None"
proof -
  let ?ms = "[(''prompt'', JStr ''hi''), (''user_id'', JNum 7), (''max_tokens'', JStr ''x'')]"
  obtain h buf' where r: "handoff_parse_data ([LF] @ object_text ?ms @ [NUL] @ ''zz'')
      (length [LF] + length (object_text ?ms) + length [NUL]) = (h, buf')" by fastforce
  have "plain_object ?ms" "length ?ms \<le> 15" "list_all is_blank [LF]" "list_all is_blank [NUL]"
    by (simp_all add: plain_object_def plain_def is_blank_def)
  from flat_object_read_back [OF this r] r show ?thesis
    by (simp add: number_of_def string_of_def c_int_def)
qed

definition inside :: "nat \<Rightarrow> string \<Rightarrow> nat option \<Rightarrow> bool" where
  "inside len buf r = (case r of None \<Rightarrow> True | Some k \<Rightarrow> k + length (c_string_at buf k) < len)"

lemma takeWhile_stops: "P (xs ! e) = False \<Longrightarrow> e < length xs \<Longrightarrow> length (takeWhile P xs) \<le> e"
  by (metis linorder_not_le nth_mem set_takeWhileD takeWhile_nth not_le_imp_less)

lemma inside_terminator:
  assumes "k \<le> e" "e < len" "len \<le> length buf" "buf ! e = NUL"
  shows "inside len buf (Some k)"
proof -
  have "length (takeWhile (\<lambda>c. c \<noteq> NUL) (drop k buf)) \<le> e - k"
    by (rule takeWhile_stops) (use assms in auto)
  with assms show ?thesis by (simp add: inside_def c_string_at_def)
qed

definition quotes_cut :: "nat \<Rightarrow> string \<Rightarrow> string \<Rightarrow> bool" where
  "quotes_cut len buf buf' \<longleftrightarrow> length buf' = length buf
     \<and> (\<forall>i. buf' ! i = buf ! i \<or> (i < len \<and> buf ! i = DQ \<and> buf' ! i = NUL))"

lemma quotes_cut_again:
  assumes "quotes_cut len buf b1" "e < len" "len \<le> length buf" "buf ! e = DQ"
  shows "quotes_cut len buf (b1[e := NUL])"
proof -
  have "b1[e := NUL] ! i = buf ! i \<or> (i < len \<and> buf ! i = DQ \<and> b1[e := NUL] ! i = NUL)" for i
    using assms by (cases "i = e") (auto simp: quotes_cut_def)
  then show ?thesis using assms(1) by (simp add: quotes_cut_def)
qed

lemma inside_again:
  assumes "inside len b r" "len \<le> length b"
  shows "inside len (b[e := NUL]) r"
proof (cases r)
  case (Some k)
  let ?t = "k + length (c_string_at b k)"
  have t: "?t < len" using assms(1) Some by (simp add: inside_def)
  then have "length (takeWhile (\<lambda>c. c \<noteq> NUL) (drop k b)) < length (drop k b)"
    using assms(2) by (simp add: c_string_at_def)
  from nth_length_takeWhile [OF this] have "b ! ?t = NUL" using t assms(2) by (simp add: c_string_at_def)
  then have "b[e := NUL] ! ?t = NUL" using t assms(2) by (cases "e = ?t") auto
  with inside_terminator [of k ?t len "b[e := NUL]"] t assms(2) Some show ?thesis by simp
qed (simp add: inside_def)

definition toks_inside :: "nat \<Rightarrow> nat \<Rightarrow> string \<Rightarrow> jsmntok list \<Rightarrow> bool" where
  \<comment> \<open>the string tokens of the text that starts at \<open>lead\<close>\<close>
  "toks_inside lead len buf ts \<longleftrightarrow> list_all (\<lambda>t. ttype t = JSMN_STRING \<longrightarrow>
     0 \<le> tstart t \<and> tstart t \<le> tend t \<and> lead + nat (tend t) < len \<and> buf ! (lead + nat (tend t)) = DQ) ts"

lemma take_string_safe:
  assumes "take_string lead ts (length ts) key b1 = (r, b2)" "toks_inside lead len buf ts"
    and "quotes_cut len buf b1" "len \<le> length buf"
  shows "quotes_cut len buf b2 \<and> inside len b2 r \<and> (inside len b1 r' \<longrightarrow> inside len b2 r')"
  using take_string_cases [of lead ts "length ts" key b1]
proof
  assume "take_string lead ts (length ts) key b1 = (None, b1)"
  with assms show ?thesis by (simp add: inside_def)
next
  have lb: "len \<le> length b1" using assms(3,4) by (simp add: quotes_cut_def)
  assume "\<exists>idx. json_find_key (drop lead b1) ts (length ts) key = Some idx \<and> ttype (ts ! idx) = JSMN_STRING
    \<and> take_string lead ts (length ts) key b1
        = (Some (lead + nat (tstart (ts ! idx))), b1[lead + nat (tend (ts ! idx)) := NUL])"
  then obtain idx where i: "json_find_key (drop lead b1) ts (length ts) key = Some idx"
    "ttype (ts ! idx) = JSMN_STRING" "r = Some (lead + nat (tstart (ts ! idx)))"
    "b2 = b1[lead + nat (tend (ts ! idx)) := NUL]" using assms(1) by auto
  let ?e = "lead + nat (tend (ts ! idx))"
  have t: "tstart (ts ! idx) \<le> tend (ts ! idx)" "?e < len" "buf ! ?e = DQ"
    using assms(2) find_key_bound [OF i(1)] i(2) by (auto simp: toks_inside_def list_all_length)
  have "quotes_cut len buf b2" unfolding i(4) by (rule quotes_cut_again [OF assms(3) t(2) assms(4) t(3)])
  moreover have "inside len b2 r" unfolding i(3)
    by (rule inside_terminator [of _ ?e]) (use t lb i(4) in auto)
  ultimately show ?thesis using inside_again [OF _ lb] i(4) by blast
qed

lemma parsed_toks_inside:
  assumes "json_parse (handoff_text (take len buf)) num = Some (n, ts)" "len \<le> length buf"
  shows "n = length ts \<and> toks_inside (lead_blanks (take len buf)) len buf ts"
proof -
  let ?r = "take len buf" let ?js = "handoff_text ?r" and ?lead = "lead_blanks ?r"
  have p: "jsmn_parse ?js num = Inr (n, ts)" using assms(1) by (auto simp: json_parse_def split: sum.splits)
  note ok = jsmn_parse_ok [OF p]
  have place: "take (length ?js) (drop ?lead ?r) = ?js" "?lead + length ?js \<le> len"
    using handoff_text_place [of ?r] assms(2) by auto
  have "buf ! (?lead + j) = ?js ! j \<and> ?lead + j < len" if "j < length ?js" for j
  proof -
    have "?js ! j = drop ?lead ?r ! j" by (metis place(1) nth_take that)
    also have "\<dots> = buf ! (?lead + j)" using place(2) that assms(2) by simp
    finally show ?thesis using place(2) that by simp
  qed
  with ok show ?thesis by (force simp: toks_inside_def list_all_iff nat_less_iff)
qed

text \<open>
  C20. Parsing never writes outside the bytes that were received: the buffer keeps its length and its
  bytes except for quotes inside the message that become terminators, and a pointer stored for the
  prompt or the model denotes a C string that ends inside the message.
\<close>

theorem handoff_parse_in_bounds:
  assumes "handoff_parse_data buf len = (h, buf')" "len \<le> length buf"
  shows "quotes_cut len buf buf' \<and> inside len buf' (prompt h) \<and> inside len buf' (model h)"
proof (cases "handoff_text (take len buf) = []
    \<or> json_parse (handoff_text (take len buf)) MAX_JSON_TOKENS = None")
  case True
  with assms(1) have "h = empty_handoff_data" "buf' = buf"
    by (auto simp: handoff_parse_data_def Let_def cong: option.case_cong split: if_splits)
  then show ?thesis by (simp add: quotes_cut_def inside_def empty_handoff_data_def)
next
  case False
  let ?lead = "lead_blanks (take len buf)"
  obtain n ts where p: "json_parse (handoff_text (take len buf)) MAX_JSON_TOKENS = Some (n, ts)"
    using False by auto
  note tk = parsed_toks_inside [OF p assms(2)]
  obtain pr b1 where t1: "take_string ?lead ts (length ts) ''prompt'' buf = (pr, b1)" by fastforce
  obtain mo b2 where t2: "take_string ?lead ts (length ts) ''model'' b1 = (mo, b2)" by fastforce
  have r: "prompt h = pr" "model h = mo" "buf' = b2"
    using assms(1) False p tk t1 t2 by (auto simp: handoff_parse_data_def Let_def)
  have q0: "quotes_cut len buf buf" by (simp add: quotes_cut_def)
  note s1 = take_string_safe [OF t1 tk [THEN conjunct2] q0 assms(2), of pr]
  from take_string_safe [OF t2 tk [THEN conjunct2] s1 [THEN conjunct1] assms(2), of pr] s1 r show ?thesis by blast
qed

lemma handoff_parse_in_bounds_witness:
  "case handoff_parse_data (object_text [(''prompt'', JStr ''hi'')]) 15 of
     (h, buf') \<Rightarrow> quotes_cut 15 (object_text [(''prompt'', JStr ''hi'')]) buf'
       \<and> inside 15 buf' (prompt h) \<and> inside 15 buf' (model h)"
proof -
  have "15 \<le> length (object_text [(''prompt'', JStr ''hi'')])" by (simp add: object_text_def member_text_def)
  then show ?thesis
    using handoff_parse_in_bounds [of "object_text [(''prompt'', JStr ''hi'')]" 15] by (auto split: prod.split)
qed

definition json_with_array_first :: string where
  "json_with_array_first = [CHR ''{'', DQ, CHR ''a'', DQ, CHR '':'', CHR ''['', CHR ''1'', CHR '']'', CHR '','']
     @ DQ # ''prompt'' @ [DQ, CHR '':'', DQ, CHR ''x'', DQ, CHR ''}'']"

definition json_with_array_last :: string where
  "json_with_array_last = CHR ''{'' # DQ # ''prompt'' @ [DQ, CHR '':'', DQ, CHR ''x'', DQ, CHR '','',
     DQ, CHR ''a'', DQ, CHR '':'', CHR ''['', CHR ''1'', CHR '']'', CHR ''}'']"

text \<open>
  A key that follows an array is missed: the loop skips twice the size of an array, so it goes
  on behind the next keys. The same members in the other order are found.
\<close>

theorem key_after_array_missed:
  "prompt (fst (handoff_parse_data json_with_array_first (length json_with_array_first))) = None
   \<and> prompt (fst (handoff_parse_data json_with_array_last (length json_with_array_last))) = Some 11"
  by code_simp

definition json_with_escape :: string where
  "json_with_escape = CHR ''{'' # DQ # ''prompt'' @ [DQ, CHR '':'', DQ, CHR ''a'', BSL, DQ, CHR ''b'', DQ, CHR ''}'']"

text \<open>
  The escapes of a JSON string are not decoded: when an application sends a prompt with a quote in
  it, the daemon's prompt keeps the backslash.
\<close>

theorem prompt_keeps_escapes:
  "case handoff_parse_data json_with_escape (length json_with_escape) of
     (h, buf') \<Rightarrow> map_option (c_string_at buf') (prompt h) = Some [CHR ''a'', BSL, DQ, CHR ''b'']"
  by code_simp

end
