(* ===== verification/Ring.thy ===== *)
theory Ring
  imports Daemon_Types
begin

text \<open>
  The io_uring wrapper of the daemon (ring.c, ring.h). liburing and the kernel are not part of the
  sources; the model uses what their documentation says: \<open>io_uring_get_sqe\<close> fails exactly when the
  submission queue is full, \<open>io_uring_submit\<close> either hands the whole queue to the kernel or fails and
  leaves it. Which calls fail is the field \<open>submit_ok\<close>, an arbitrary function of the number of the
  call. \<open>refused_links\<close> counts the linked timeouts for which there was no room.
\<close>

section \<open>User data\<close>

fun op_code :: "op_type \<Rightarrow> nat" where
  "op_code OP_ACCEPT = 1"
| "op_code OP_RECV_FD = 2"
| "op_code OP_WRITE = 3"
| "op_code OP_TIMEOUT = 4"
| "op_code OP_CANCEL = 5"
| "op_code OP_EVENTFD = 6"
| "op_code OP_CURL_POLL = 7"
| "op_code OP_CURL_TIMEOUT = 8"
| "op_code OP_POLL_CANCEL = 9"

definition all_ops :: "op_type list" where
  "all_ops = [OP_ACCEPT, OP_RECV_FD, OP_WRITE, OP_TIMEOUT, OP_CANCEL, OP_EVENTFD, OP_CURL_POLL,
     OP_CURL_TIMEOUT, OP_POLL_CANCEL]"

definition op_of_code :: "nat \<Rightarrow> op_type option" where
  \<comment> \<open>\<open>None\<close>: a value that is no operation type\<close>
  "op_of_code n = List.find (\<lambda>p. op_code p = n) all_ops"

definition ring_pack_data :: "op_type \<Rightarrow> 32 word \<Rightarrow> 64 word" where
  "ring_pack_data p i = push_bit 32 (of_nat (op_code p)) OR ucast i"

definition ring_unpack_data :: "64 word \<Rightarrow> op_type option \<times> 32 word" where
  "ring_unpack_data d = (op_of_code (unat (drop_bit 32 d)), ucast (d AND 0xFFFFFFFF))"

lemma op_of_code_op [simp]: "op_of_code (op_code p) = Some p"
  by (cases p) (simp_all add: op_of_code_def all_ops_def)

lemma op_code_le: "op_code p < 16" by (cases p) simp_all

lemma unpack_pack: "ring_unpack_data (ring_pack_data p i) = (Some p, i)"
proof -
  have "drop_bit 32 (ring_pack_data p i) = of_nat (op_code p)"
  proof (rule bit_word_eqI)
    fix n assume n: "n < LENGTH(64)"
    have "(of_nat (op_code p) :: 64 word) = take_bit 4 (of_nat (op_code p))"
      using op_code_le [of p] by (simp add: take_bit_of_nat take_bit_nat_eq_self)
    then have "\<not> bit (of_nat (op_code p) :: 64 word) m" if "32 \<le> m" for m
      using that by (metis bit_take_bit_iff less_le_trans not_less numeral_le_iff semiring_norm(68) semiring_norm(71))
    note small = this
    have "n < 32" if "bit (of_nat (op_code p) :: 64 word) n" using small [of n] that by (meson not_le)
    then show "bit (drop_bit 32 (ring_pack_data p i)) n \<longleftrightarrow> bit (of_nat (op_code p) :: 64 word) n"
      using n by (auto simp: ring_pack_data_def bit_simps dest: bit_imp_le_length)
  qed
  moreover have "ucast (ring_pack_data p i AND 0xFFFFFFFF) = i"
  proof (rule bit_word_eqI)
    fix n assume n: "n < LENGTH(32)"
    have m: "(0xFFFFFFFF :: 64 word) = mask 32" by (simp add: mask_eq_exp_minus_1)
    show "bit (ucast (ring_pack_data p i AND 0xFFFFFFFF) :: 32 word) n \<longleftrightarrow> bit i n"
      using n unfolding m by (auto simp: ring_pack_data_def bit_simps)
  qed
  ultimately show ?thesis using op_code_le [of p] by (simp add: ring_unpack_data_def unat_of_nat)
qed

section \<open>The submission queue\<close>

datatype prep =
    Prep_multishot_accept
  | Prep_recvmsg int
  | Prep_write int string \<comment> \<open>descriptor, and the bytes the code wants written\<close>
  | Prep_link_timeout int
  | Prep_cancel_fd int
  | Prep_read int
  | Prep_poll_add int int
  | Prep_timeout int
  | Prep_timeout_remove "64 word"

record sqe =
  prep :: prep
  io_link :: bool \<comment> \<open>\<open>IOSQE_IO_LINK\<close>\<close>
  sqe_data :: "64 word"

record ring =
  sq_entries :: nat
  sq :: "sqe list"
  inflight :: "sqe list" \<comment> \<open>handed to the kernel and not completed\<close>
  submit_ok :: "nat \<Rightarrow> bool"
  submits :: nat
  refused_links :: nat

definition io_uring_get_sqe :: "ring \<Rightarrow> bool" where
  "io_uring_get_sqe r \<longleftrightarrow> length (sq r) < sq_entries r"

definition io_uring_submit :: "ring \<Rightarrow> ring" where
  "io_uring_submit r =
     (if submit_ok r (submits r)
      then r\<lparr>sq := [], inflight := inflight r @ sq r, submits := submits r + 1\<rparr>
      else r\<lparr>submits := submits r + 1\<rparr>)"

definition ring_get_sqe_flush :: "ring \<Rightarrow> bool \<times> ring" where
  "ring_get_sqe_flush r =
     (if io_uring_get_sqe r then (True, r)
      else let r1 = io_uring_submit r in (io_uring_get_sqe r1, r1))"

definition fill_sqe :: "prep \<Rightarrow> bool \<Rightarrow> op_type \<Rightarrow> 32 word \<Rightarrow> ring \<Rightarrow> ring" where
  "fill_sqe p l opt i r = r\<lparr>sq := sq r @ [\<lparr>prep = p, io_link = l, sqe_data = ring_pack_data opt i\<rparr>]\<rparr>"

abbreviation (input) EAGAIN :: int where "EAGAIN \<equiv> 11"

definition with_flush :: "prep \<Rightarrow> bool \<Rightarrow> op_type \<Rightarrow> 32 word \<Rightarrow> ring \<Rightarrow> int \<times> ring" where
  "with_flush p l opt i r =
     (case ring_get_sqe_flush r of (ok, r1) \<Rightarrow> if \<not> ok then (- EAGAIN, r1) else (0, fill_sqe p l opt i r1))"

definition ring_submit_accept :: "ring \<Rightarrow> int \<times> ring" where
  "ring_submit_accept r =
     (if \<not> io_uring_get_sqe r then (- EAGAIN, r)
      else (0, fill_sqe Prep_multishot_accept False OP_ACCEPT 0 r))"

definition ring_submit_recvmsg :: "connection \<Rightarrow> ring \<Rightarrow> int \<times> ring" where
  "ring_submit_recvmsg c = with_flush (Prep_recvmsg (unix_fd c)) False OP_RECV_FD (of_nat (conn_id c))"

definition ring_submit_write :: "connection \<Rightarrow> string \<Rightarrow> ring \<Rightarrow> int \<times> ring" where
  "ring_submit_write c buf = with_flush (Prep_write (client_fd c) buf) True OP_WRITE (of_nat (conn_id c))"

definition ring_submit_linked_timeout :: "connection \<Rightarrow> int \<Rightarrow> ring \<Rightarrow> int \<times> ring" where
  "ring_submit_linked_timeout c ms r =
     (if \<not> io_uring_get_sqe r then (- EAGAIN, r\<lparr>refused_links := refused_links r + 1\<rparr>)
      else (0, fill_sqe (Prep_link_timeout ms) False OP_TIMEOUT (of_nat (conn_id c)) r))"

definition ring_submit_cancel :: "connection \<Rightarrow> ring \<Rightarrow> int \<times> ring" where
  "ring_submit_cancel c r =
     (if \<not> io_uring_get_sqe r then (- EAGAIN, r)
      else (0, fill_sqe (Prep_cancel_fd (client_fd c)) False OP_CANCEL (of_nat (conn_id c)) r))"

definition ring_submit_eventfd_read :: "int \<Rightarrow> ring \<Rightarrow> int \<times> ring" where
  "ring_submit_eventfd_read fd = with_flush (Prep_read fd) False OP_EVENTFD 0"

definition ring_submit_poll_add :: "int \<Rightarrow> int \<Rightarrow> ring \<Rightarrow> int \<times> ring" where
  "ring_submit_poll_add fd events = with_flush (Prep_poll_add fd events) False OP_CURL_POLL (of_int fd)"

definition ring_submit_poll_cancel :: "int \<Rightarrow> ring \<Rightarrow> int \<times> ring" where
  "ring_submit_poll_cancel fd = with_flush (Prep_cancel_fd fd) False OP_POLL_CANCEL (of_int fd)"

definition ring_submit_curl_timeout :: "int \<Rightarrow> 32 word \<Rightarrow> ring \<Rightarrow> int \<times> ring" where
  "ring_submit_curl_timeout ms timer = with_flush (Prep_timeout ms) False OP_CURL_TIMEOUT timer"

definition ring_cancel_curl_timeout :: "32 word \<Rightarrow> ring \<Rightarrow> int \<times> ring" where
  "ring_cancel_curl_timeout timer =
     with_flush (Prep_timeout_remove (ring_pack_data OP_CURL_TIMEOUT timer)) False OP_CANCEL timer"

definition ring_submit :: "ring \<Rightarrow> ring" where
  "ring_submit = io_uring_submit"

section \<open>What a submission adds\<close>

text \<open>Every entry that the ring holds, whether the kernel has seen it or not.\<close>

definition ring_sqes :: "ring \<Rightarrow> sqe list" where
  "ring_sqes r = inflight r @ sq r"

lemma io_uring_submit_sqes [simp]:
  "ring_sqes (io_uring_submit r) = ring_sqes r" "sq_entries (io_uring_submit r) = sq_entries r"
  "refused_links (io_uring_submit r) = refused_links r"
  by (simp_all add: io_uring_submit_def ring_sqes_def)

lemma with_flush_cases:
  assumes "with_flush p l opt i r = (rc, r')"
  shows "(rc = 0 \<and> ring_sqes r' = ring_sqes r @ [\<lparr>prep = p, io_link = l, sqe_data = ring_pack_data opt i\<rparr>]
      \<or> rc = - EAGAIN \<and> ring_sqes r' = ring_sqes r)
    \<and> refused_links r' = refused_links r \<and> sq_entries r' = sq_entries r"
proof -
  obtain ok r1 where g: "ring_get_sqe_flush r = (ok, r1)" by fastforce
  then have "ring_sqes r1 = ring_sqes r" "refused_links r1 = refused_links r" "sq_entries r1 = sq_entries r"
    by (auto simp: ring_get_sqe_flush_def Let_def split: if_splits)
  with assms g show ?thesis
    by (auto simp: with_flush_def fill_sqe_def ring_sqes_def split: if_splits)
qed

lemma linked_timeout_cases:
  assumes "ring_submit_linked_timeout c ms r = (rc, r')"
  shows "rc = 0 \<and> refused_links r' = refused_links r \<and> ring_sqes r' = ring_sqes r
        @ [\<lparr>prep = Prep_link_timeout ms, io_link = False, sqe_data = ring_pack_data OP_TIMEOUT (of_nat (conn_id c))\<rparr>]
      \<or> rc = - EAGAIN \<and> refused_links r' = Suc (refused_links r) \<and> ring_sqes r' = ring_sqes r"
  using assms by (auto simp: ring_submit_linked_timeout_def fill_sqe_def ring_sqes_def split: if_splits)

lemma submit_accept_cases:
  assumes "ring_submit_accept r = (rc, r')"
  shows "(rc = 0 \<and> ring_sqes r' = ring_sqes r
        @ [\<lparr>prep = Prep_multishot_accept, io_link = False, sqe_data = ring_pack_data OP_ACCEPT 0\<rparr>]
      \<or> rc = - EAGAIN \<and> r' = r) \<and> refused_links r' = refused_links r"
  using assms by (auto simp: ring_submit_accept_def fill_sqe_def ring_sqes_def split: if_splits)

end
