(* ===== verification/Event_Loop.thy ===== *)
theory Event_Loop
  imports Ring Dirty_List Sse_Stream Work_Pool Handoff
begin

text \<open>
  The completion handlers of the event loop (daemon.c), as the default build compiles them, without
  \<open>BACKEND_OPENAI\<close>. The state is the context, the ring and the thread pool. A handler that searches
  the dirty list is partial, because the search is; the invariant shows that it returns.

  What system calls and \<open>malloc\<close> answer while a completion is handled is the record \<open>answers\<close>.
  \<open>write_buf\<close> is the event stored in the 4096 bytes that are allocated for it. Time stamps, pauses
  between messages and messages to standard error are left out.
\<close>

record loop =
  dctx :: daemon_ctx
  lring :: ring
  wpool :: pool_ctx

record answers =
  a_handoff_mem :: "(nat \<Rightarrow> char) option" \<comment> \<open>\<open>malloc\<close> of a handoff buffer\<close>
  a_msg :: "cmsg option" \<comment> \<open>the control message received\<close>
  a_sotype :: "int option" \<comment> \<open>\<open>getsockopt(SO_TYPE)\<close>\<close>
  a_work :: "nat option" \<comment> \<open>\<open>malloc\<close> of a work item\<close>
  a_write_mem :: bool \<comment> \<open>\<open>malloc\<close> of a message buffer\<close>

record cqe =
  cqe_res :: int
  cqe_more :: bool \<comment> \<open>\<open>IORING_CQE_F_MORE\<close>\<close>
  cqe_data :: "64 word"

abbreviation conn :: "loop \<Rightarrow> nat \<Rightarrow> connection" where
  "conn L i \<equiv> conn_at (dctx L) i"

definition with_conn :: "nat \<Rightarrow> (connection \<Rightarrow> connection) \<Rightarrow> loop \<Rightarrow> loop" where
  "with_conn i f L = L\<lparr>dctx := upd_conn i f (dctx L)\<rparr>"

definition cleanup_connection :: "nat \<Rightarrow> loop \<Rightarrow> loop option" where
  "cleanup_connection i L = do {
     c \<leftarrow> daemon_unmark_connection_dirty i (dctx L);
     Some (L\<lparr>dctx := conn_free i c\<rparr>) }"

definition count_failed :: "loop \<Rightarrow> loop" where
  "count_failed L =
     (if benchmark_mode (dctx L) then L\<lparr>dctx := (dctx L)\<lparr>total_failed := total_failed (dctx L) + 1\<rparr>\<rparr> else L)"

definition count_completed :: "nat \<Rightarrow> loop \<Rightarrow> loop" where
  "count_completed i L =
     (if benchmark_mode (dctx L)
      then L\<lparr>dctx := (dctx L)\<lparr>total_completed := total_completed (dctx L) + 1,
                            total_bytes := total_bytes (dctx L) + bytes_sent (conn L i)\<rparr>\<rparr>
      else L)"

definition fail_connection :: "nat \<Rightarrow> loop \<Rightarrow> loop option" where
  "fail_connection i L = cleanup_connection i (count_failed L)"

section \<open>Writes\<close>

definition submit_write ::
    "nat \<Rightarrow> string \<Rightarrow> (loop \<Rightarrow> loop) \<Rightarrow> loop \<Rightarrow> (bool \<times> loop) option" where
  \<comment> \<open>\<open>ring_submit_write\<close> and \<open>ring_submit_linked_timeout\<close> with the handling of their failures; the
      third argument counts a refused write; the result tells whether the write was submitted\<close>
  "submit_write i buf refused L =
     (case ring_submit_write (conn L i) buf (lring L) of (rc, r1) \<Rightarrow>
        let L1 = L\<lparr>lring := r1\<rparr> in
        if rc < 0 then map_option (Pair False) (cleanup_connection i (refused L1))
        else (case ring_submit_linked_timeout (conn L1 i) (write_timeout_ms (dctx L1)) (lring L1) of (rc2, r2) \<Rightarrow>
          let L2 = L1\<lparr>lring := r2\<rparr> in
          if rc2 < 0 then map_option (Pair False) (fail_connection i L2)
          else Some (True, L2)))"

definition start_streaming :: "nat \<Rightarrow> loop \<Rightarrow> loop option" where
  "start_streaming i L =
     map_option snd (submit_write i SSE_HEADERS count_failed
       (with_conn i (\<lambda>c. c\<lparr>write_len := length SSE_HEADERS, write_offset := 0\<rparr>) L))"

definition start_async_write :: "nat \<Rightarrow> loop \<Rightarrow> loop option" where
  "start_async_write i L =
     (case async_write_buf (conn L i) of
        None \<Rightarrow> Some L
      | Some wb \<Rightarrow>
          if \<not> write_buffer_has_data wb \<or> write_buffer_is_busy wb then Some L
          else (case write_buffer_get_next wb of
              None \<Rightarrow> Some L
            | Some data \<Rightarrow>
                if data = [] then Some L
                else (case submit_write i data count_failed L of
                    None \<Rightarrow> None
                  | Some (submitted, L1) \<Rightarrow>
                      if \<not> submitted then Some L1
                      else
                        let L2 = with_conn i (\<lambda>c. c\<lparr>async_write_buf := Some (write_buffer_set_pending True wb)\<rparr>) L1
                        in Some (L2\<lparr>lring := ring_submit (lring L2)\<rparr>))))"

definition handle_async_write :: "nat \<Rightarrow> int \<Rightarrow> loop \<Rightarrow> loop option" where
  "handle_async_write i res L =
     (if res < 0 then fail_connection i L
      else
        let wb = map_option (\<lambda>wb. write_buffer_set_pending False (snd (write_buffer_consume (nat res) wb)))
                   (async_write_buf (conn L i));
            L1 = with_conn i (\<lambda>c. c\<lparr>bytes_sent := bytes_sent c + nat res, async_write_buf := wb\<rparr>) L
        in if (case wb of None \<Rightarrow> False | Some b \<Rightarrow> write_buffer_has_data b) then start_async_write i L1
           else if state (conn L1 i) = CONN_STATE_CLOSING
                then cleanup_connection i (count_completed i L1)
                else Some L1)"

definition send_next :: "nat \<Rightarrow> bool \<Rightarrow> loop \<Rightarrow> loop option" where
  \<comment> \<open>\<open>handle_write\<close> from "Get next message" on\<close>
  "send_next i mem L =
     (case stream_next_message (conn L i) of
        (None, c) \<Rightarrow>
          map_option snd (submit_write i SSE_DONE (count_completed i)
            (with_conn i (\<lambda>_. c\<lparr>state := CONN_STATE_CLOSING, write_len := length SSE_DONE, write_offset := 0\<rparr>) L))
      | (Some msg, c) \<Rightarrow>
          let L1 = with_conn i (\<lambda>_. c) L in
          if \<not> mem then fail_connection i L1
          else (case stream_format_sse 4096 msg of
              None \<Rightarrow> fail_connection i L1
            | Some text \<Rightarrow>
                map_option snd (submit_write i text count_failed
                  (with_conn i (\<lambda>c. c\<lparr>write_buf := Some text, write_len := length text, write_offset := 0\<rparr>) L1))))"

definition handle_write :: "nat \<Rightarrow> int \<Rightarrow> bool \<Rightarrow> loop \<Rightarrow> loop option" where
  "handle_write i res mem L =
     (if res < 0 then fail_connection i L
      else
        let L1 = with_conn i (\<lambda>c. c\<lparr>bytes_sent := bytes_sent c + nat res,
                                    write_offset := write_offset c + nat res\<rparr>) L;
            c1 = conn L1 i
        in if write_len c1 > 0 \<and> write_offset c1 < write_len c1 then
             (case write_buf c1 of
                None \<Rightarrow> fail_connection i L1
              | Some b \<Rightarrow> map_option snd (submit_write i
                  (take (write_len c1 - write_offset c1) (drop (write_offset c1) b)) count_failed L1))
           else
             let L2 = with_conn i (\<lambda>c. c\<lparr>write_len := 0, write_offset := 0, write_buf := None\<rparr>) L1
             in if state (conn L2 i) = CONN_STATE_CLOSING
                then cleanup_connection i (count_completed i L2)
                else send_next i mem L2)"

section \<open>Connections from Apache\<close>

fun accept_retries :: "nat \<Rightarrow> int \<Rightarrow> ring \<Rightarrow> int \<times> ring" where
  "accept_retries 0 rc r = (rc, r)"
| "accept_retries (Suc n) rc r =
     (if rc = - EAGAIN then case ring_submit_accept r of (rc', r') \<Rightarrow> accept_retries n rc' r' else (rc, r))"

definition rearm_accept :: "ring \<Rightarrow> ring" where
  "rearm_accept r =
     (case ring_submit_accept r of (rc, r1) \<Rightarrow> if rc = - EAGAIN then snd (accept_retries 3 rc r1) else r1)"

definition handle_accept :: "(nat \<Rightarrow> char) option \<Rightarrow> int \<Rightarrow> bool \<Rightarrow> loop \<Rightarrow> loop option" where
  "handle_accept mem fd multi L =
     (let L1 = (if \<not> multi \<and> \<not> shutdown_requested (dctx L)
                then L\<lparr>lring := rearm_accept (lring L)\<rparr> else L)
      in if fd < 0 then Some L1
         else (case conn_alloc mem (dctx L1) of
             (None, c) \<Rightarrow> Some (L1\<lparr>dctx := close_fd fd c\<rparr>)
           | (Some i, c) \<Rightarrow>
               let c1 = upd_conn i (\<lambda>c. c\<lparr>unix_fd := fd, state := CONN_STATE_RECEIVING_FD\<rparr>) c;
                   c2 = (if benchmark_mode c1 then c1\<lparr>total_started := total_started c1 + 1\<rparr> else c1)
               in (case ring_submit_recvmsg (conn_at c2 i) (lring L1) of (rc, r1) \<Rightarrow>
                     let L2 = L1\<lparr>dctx := c2, lring := r1\<rparr>
                     in if rc < 0 then cleanup_connection i L2 else Some L2)))"

definition parse_handoff :: "connection \<Rightarrow> connection" where
  "parse_handoff c =
     (case handoff_buf c of
        None \<Rightarrow> c
      | Some b \<Rightarrow> (case handoff_parse_data b (handoff_len c) of (d, b') \<Rightarrow>
            c\<lparr>hdata := d, handoff_buf := Some b'\<rparr>))"

definition dispatch :: "nat \<Rightarrow> nat option \<Rightarrow> loop \<Rightarrow> loop option" where
  \<comment> \<open>\<open>handle_recv_fd\<close> after the data is parsed\<close>
  "dispatch i work L =
     (if use_thread_pool (dctx L) then
        let L1 = with_conn i (state_update (\<lambda>_. CONN_STATE_LLM_QUEUED)) L in
        (case pool_submit work i (wpool L1) of (rc, p) \<Rightarrow>
           if rc < 0 then fail_connection i L1 else Some (L1\<lparr>wpool := p\<rparr>))
      else start_streaming i (with_conn i (\<lambda>c. stream_start (c\<lparr>state := CONN_STATE_STREAMING\<rparr>)) L))"

definition handle_recv_fd :: "nat \<Rightarrow> int \<Rightarrow> answers \<Rightarrow> loop \<Rightarrow> loop option" where
  "handle_recv_fd i res a L =
     (if res < 0 then fail_connection i L
      else
        let L1 = with_conn i (handoff_len_update (\<lambda>_. nat res)) L;
            fd = handoff_extract_fd (a_msg a)
        in if fd < 0 then fail_connection i L1
           else
             let L2 = with_conn i (client_fd_update (\<lambda>_. fd)) L1;
                 L3 = with_conn i (unix_fd_update (\<lambda>_. -1))
                        (L2\<lparr>dctx := close_fd (unix_fd (conn L2 i)) (dctx L2)\<rparr>)
             in if handoff_validate_socket (a_sotype a) < 0 then fail_connection i L3
                else dispatch i (a_work a)
                       (with_conn i (\<lambda>c. parse_handoff (c\<lparr>state := CONN_STATE_PARSING\<rparr>)) L3))"

section \<open>Completions of the thread pool\<close>

definition handle_completion :: "nat \<Rightarrow> loop \<Rightarrow> loop option" where
  \<comment> \<open>one connection that a worker has finished\<close>
  "handle_completion i L =
     (if state (conn L i) = CONN_STATE_STREAMING then start_streaming i L
      else if state (conn L i) = CONN_STATE_STREAMED then cleanup_connection i (count_completed i L)
      else if state (conn L i) = CONN_STATE_CLOSING then fail_connection i L
      else Some L)"

partial_function (option) drain_completions :: "loop \<Rightarrow> loop option" where
  "drain_completions L =
     (case pool_get_completion (wpool L) of (c, p) \<Rightarrow>
        if c = None then Some (L\<lparr>wpool := p\<rparr>)
        else do { L1 \<leftarrow> handle_completion (the c) (L\<lparr>wpool := p\<rparr>); drain_completions L1 })"

declare drain_completions.simps [code]

definition handle_eventfd :: "loop \<Rightarrow> loop option" where
  "handle_eventfd L = drain_completions (L\<lparr>wpool := (wpool L)\<lparr>event_count := 0\<rparr>\<rparr>)"

section \<open>Completions\<close>

definition pool_eventfd :: int where
  \<comment> \<open>the descriptor itself does not matter to the loop\<close>
  "pool_eventfd = 0"

definition process_cqe :: "answers \<Rightarrow> cqe \<Rightarrow> loop \<Rightarrow> loop option" where
  "process_cqe a e L =
     (case ring_unpack_data (cqe_data e) of (p, cid) \<Rightarrow>
        (case p of
           Some OP_ACCEPT \<Rightarrow> handle_accept (a_handoff_mem a) (cqe_res e) (cqe_more e) L
         | Some OP_RECV_FD \<Rightarrow>
             (case conn_get (unat cid) (dctx L) of
                None \<Rightarrow> Some L
              | Some i \<Rightarrow> if state (conn L i) = CONN_STATE_RECEIVING_FD
                          then handle_recv_fd i (cqe_res e) a L else Some L)
         | Some OP_WRITE \<Rightarrow>
             (case conn_get (unat cid) (dctx L) of
                None \<Rightarrow> Some L
              | Some i \<Rightarrow>
                  let st = state (conn L i) in
                  if async_write_buf (conn L i) \<noteq> None then
                    (if st = CONN_STATE_STREAMING \<or> st = CONN_STATE_CURL_ACTIVE \<or> st = CONN_STATE_CLOSING
                     then handle_async_write i (cqe_res e) L else Some L)
                  else if st = CONN_STATE_STREAMING \<or> st = CONN_STATE_CLOSING
                  then handle_write i (cqe_res e) (a_write_mem a) L
                  else Some L)
         | Some OP_EVENTFD \<Rightarrow>
             do { L1 \<leftarrow> handle_eventfd L;
                  Some (if use_thread_pool (dctx L1) \<and> \<not> shutdown_requested (dctx L1)
                        then L1\<lparr>lring := snd (ring_submit_eventfd_read pool_eventfd (lring L1))\<rparr> else L1) }
         | _ \<Rightarrow> Some L))"

end
