(* ===== verification/Loop_Owners.thy ===== *)
theory Loop_Owners
  imports Event_Loop "HOL-Library.Multiset"
begin

text \<open>
  Who is responsible for a connection of the event loop: exactly one operation of the ring or one
  place of the thread pool, and what is true of the connection then. The handlers of \<open>Event_Loop\<close>
  hand the connection on or free it.
\<close>

section \<open>The demo stream as a text\<close>

definition greeting_text :: "connection \<Rightarrow> string" where
  "greeting_text c = take 255 (''Hello from C io_uring daemon! Prompt: '' @ truncate_prompt (prompt_string c) 50)"

definition user_text :: "connection \<Rightarrow> string" where
  "user_text c = take 127 (''User ID: '' @ dec_int (user_id (hdata c)))"

definition demo_texts :: "connection \<Rightarrow> string list" where
  "demo_texts c = greeting_text c # user_text c # demo_messages"

definition event :: "string \<Rightarrow> string" where
  "event m = sse_open @ escape m @ sse_close"

definition rest_text :: "nat \<Rightarrow> connection \<Rightarrow> string" where
  \<comment> \<open>what is still to come after \<open>k\<close> messages\<close>
  "rest_text k c = concat (map event (drop k (demo_texts c))) @ SSE_DONE"

definition whole_stream :: "connection \<Rightarrow> string" where
  "whole_stream c = SSE_HEADERS @ rest_text 0 c"

lemma demo_texts_length [simp]: "length (demo_texts c) = 18"
  by (simp add: demo_texts_def demo_messages_length)

lemma stream_next_demo:
  assumes "\<not> use_llm_response c" "stream_index c = int k"
  shows "stream_next_message c =
     (if k < 18 then (Some (demo_texts c ! k), c\<lparr>stream_index := int (Suc k)\<rparr>) else (None, c))"
proof -
  consider "k = 0" | "k = 1" | "2 \<le> k" by linarith
  then show ?thesis
  proof cases
    case 1
    have t: "demo_texts c ! 0 = greeting_text c" by (simp only: demo_texts_def nth_Cons_0)
    have i: "stream_index c = 0" using assms(2) 1 by simp
    have "stream_next_message c = (Some (greeting_text c), c\<lparr>stream_index := 1\<rparr>)"
      by (simp only: stream_next_message_def greeting_text_def Let_def assms(1) i simp_thms if_False if_True add_0
          cong: if_weak_cong)
    then show ?thesis using 1 t by (simp only:) simp
  next
    case 2
    have t: "demo_texts c ! 1 = user_text c" by (simp only: demo_texts_def nth_Cons_0 nth_Cons_Suc One_nat_def)
    have i: "stream_index c = 1" using assms(2) 2 by simp
    have "stream_next_message c = (Some (user_text c), c\<lparr>stream_index := 2\<rparr>)"
      by (simp only: stream_next_message_def user_text_def Let_def assms(1) i simp_thms if_False if_True
          one_neq_zero one_add_one cong: if_weak_cong)
    then show ?thesis using 2 t by (simp only:) simp
  next
    case 3
    have "demo_texts c ! k = demo_messages ! (k - 2)" using 3 by (simp add: demo_texts_def nth_Cons' numeral_2_eq_2)
    with demo_step [OF assms 3] show ?thesis by simp
  qed
qed

lemma demo_texts_short: "k < 18 \<Longrightarrow> length (demo_texts c ! k) \<le> 255"
proof -
  assume k: "k < 18"
  have "list_all (\<lambda>m. length m \<le> 255) demo_messages" by (simp add: demo_messages_def)
  then have "list_all (\<lambda>m. length m \<le> 255) (demo_texts c)"
    by (simp add: demo_texts_def greeting_text_def user_text_def)
  then show ?thesis using k by (simp add: list_all_length)
qed

lemma format_event: "length m \<le> 255 \<Longrightarrow> stream_format_sse 4096 m = Some (event m)"
proof -
  assume m: "length m \<le> 255"
  have "length (escape m) \<le> 6 * 255" using escape_length [of m] m by linarith
  then show ?thesis
    by (simp add: stream_format_sse_def event_def escape_loop_exact sse_frame_length Let_def)
qed

lemma rest_text_step: "k < 18 \<Longrightarrow> rest_text k c = event (demo_texts c ! k) @ rest_text (Suc k) c"
  by (simp add: rest_text_def flip: Cons_nth_drop_Suc)

lemma rest_text_end: "18 \<le> k \<Longrightarrow> rest_text k c = SSE_DONE"
  by (simp add: rest_text_def)

lemma event_ne [simp]: "event m \<noteq> []" by (simp add: event_def sse_open_def)
lemma headers_ne [simp]: "SSE_HEADERS \<noteq> []" by (simp add: SSE_HEADERS_def)
lemma done_ne [simp]: "SSE_DONE \<noteq> []" by (simp add: SSE_DONE_def)

definition stream_view :: "connection \<Rightarrow> string option \<times> handoff_data" where
  "stream_view c = (handoff_buf c, hdata c)"

lemma stream_view_texts:
  "stream_view c = stream_view c' \<Longrightarrow> rest_text k c = rest_text k c' \<and> whole_stream c = whole_stream c'"
  by (simp add: stream_view_def rest_text_def whole_stream_def demo_texts_def greeting_text_def user_text_def
      prompt_string_def)

section \<open>Owners\<close>

datatype owner =
    Receiving \<comment> \<open>a \<open>recvmsg\<close> in the ring\<close>
  | Queued \<comment> \<open>the work queue, or a worker that processes it\<close>
  | Done \<comment> \<open>a worker that has finished with it, or the ring of completions\<close>
  | Sending string \<comment> \<open>a \<open>write\<close> of these bytes in the ring\<close>

definition sqe_id :: "sqe \<Rightarrow> nat" where
  "sqe_id s = unat (snd (ring_unpack_data (sqe_data s)))"

definition sqe_owner :: "sqe \<Rightarrow> (nat \<times> owner) option" where
  "sqe_owner s = (case prep s of
     Prep_recvmsg _ \<Rightarrow> Some (sqe_id s, Receiving)
   | Prep_write _ b \<Rightarrow> Some (sqe_id s, Sending b)
   | _ \<Rightarrow> None)"

fun owners_of :: "sqe list \<Rightarrow> (nat \<times> owner) multiset" where
  "owners_of [] = {#}"
| "owners_of (s # ss) = (case sqe_owner s of None \<Rightarrow> owners_of ss | Some x \<Rightarrow> add_mset x (owners_of ss))"

definition ring_owners :: "ring \<Rightarrow> (nat \<times> owner) multiset" where
  "ring_owners r = owners_of (ring_sqes r)"

lemma owners_of_append [simp]: "owners_of (xs @ ys) = owners_of xs + owners_of ys"
  by (induction xs) (auto split: option.split)

lemma owners_of_remove:
  "s \<in> set ss \<Longrightarrow> owners_of ss = (case sqe_owner s of None \<Rightarrow> {#} | Some x \<Rightarrow> {#x#}) + owners_of (remove1 s ss)"
  by (induction ss) (auto split: option.splits)

text \<open>The user data of an entry carries the operation type that the entry was submitted for.\<close>

fun prep_op :: "prep \<Rightarrow> op_type set" where
  "prep_op Prep_multishot_accept = {OP_ACCEPT}"
| "prep_op (Prep_recvmsg _) = {OP_RECV_FD}"
| "prep_op (Prep_write _ _) = {OP_WRITE}"
| "prep_op (Prep_link_timeout _) = {OP_TIMEOUT}"
| "prep_op (Prep_cancel_fd _) = {OP_CANCEL, OP_POLL_CANCEL}"
| "prep_op (Prep_read _) = {OP_EVENTFD}"
| "prep_op (Prep_poll_add _ _) = {OP_CURL_POLL}"
| "prep_op (Prep_timeout _) = {OP_CURL_TIMEOUT}"
| "prep_op (Prep_timeout_remove _) = {OP_CANCEL}"

definition sqe_ok :: "sqe \<Rightarrow> bool" where
  "sqe_ok s \<longleftrightarrow> (\<exists>p \<in> prep_op (prep s). fst (ring_unpack_data (sqe_data s)) = Some p)"

definition ring_ok :: "ring \<Rightarrow> bool" where
  "ring_ok r \<longleftrightarrow> (\<forall>s \<in> set (ring_sqes r). sqe_ok s)"

lemma ring_ok_submit:
  assumes "ring_ok r" "with_flush p l x i r = (rc, r')" "x \<in> prep_op p"
  shows "ring_ok r'"
  using with_flush_cases [OF assms(2)] assms(1,3)
  by (auto simp: ring_ok_def sqe_ok_def unpack_pack)

lemma ring_ok_link: "ring_ok r \<Longrightarrow> ring_submit_linked_timeout c ms r = (rc, r') \<Longrightarrow> ring_ok r'"
  using linked_timeout_cases [of c ms r rc r'] by (auto simp: ring_ok_def sqe_ok_def unpack_pack)

lemma ring_ok_accept: "ring_ok r \<Longrightarrow> ring_submit_accept r = (rc, r') \<Longrightarrow> ring_ok r'"
  using submit_accept_cases [of r rc r'] by (auto simp: ring_ok_def sqe_ok_def unpack_pack)

definition idle_conn :: "connection \<Rightarrow> bool" where
  \<comment> \<open>no message of the stream is being written\<close>
  "idle_conn c \<longleftrightarrow> async_write_buf c = None \<and> \<not> use_llm_response c \<and> write_buf c = None
     \<and> write_len c = 0 \<and> stream_index c = 0"

definition has_client :: "connection \<Rightarrow> bool" where
  "has_client c \<longleftrightarrow> unix_fd c = -1 \<and> 0 \<le> client_fd c"

definition sending :: "string \<Rightarrow> connection \<Rightarrow> string \<Rightarrow> bool" where
  \<comment> \<open>after the bytes \<open>tk\<close> the write of \<open>b\<close> is on its way\<close>
  "sending tk c b \<longleftrightarrow> b \<noteq> [] \<and> async_write_buf c = None \<and> \<not> use_llm_response c
     \<and> write_len c = write_offset c + length b
     \<and> (if state c = CONN_STATE_CLOSING then tk @ b = whole_stream c
        else state c = CONN_STATE_STREAMING
          \<and> (\<exists>k \<le> 18. stream_index c = int k \<and> tk @ b @ rest_text k c = whole_stream c))
     \<and> (case write_buf c of None \<Rightarrow> write_offset c = 0
        | Some t \<Rightarrow> state c = CONN_STATE_STREAMING \<and> length t = write_len c \<and> drop (write_offset c) t = b)"

fun owner_ok :: "string \<Rightarrow> connection \<Rightarrow> owner \<Rightarrow> bool" where
  "owner_ok tk c Receiving \<longleftrightarrow> idle_conn c \<and> state c = CONN_STATE_RECEIVING_FD
     \<and> 0 \<le> unix_fd c \<and> client_fd c = -1"
| "owner_ok tk c Queued \<longleftrightarrow> idle_conn c \<and> state c = CONN_STATE_LLM_QUEUED \<and> has_client c \<and> tk = []"
| "owner_ok tk c Done \<longleftrightarrow> idle_conn c \<and> has_client c \<and> tk = []
     \<and> state c \<in> {CONN_STATE_STREAMING, CONN_STATE_STREAMED, CONN_STATE_CLOSING}"
| "owner_ok tk c (Sending b) \<longleftrightarrow> has_client c \<and> sending tk c b"

definition conn_fds :: "connection \<Rightarrow> int set" where
  "conn_fds c = {fd \<in> {unix_fd c, client_fd c}. 0 \<le> fd}"

definition fds_ok :: "int set \<Rightarrow> daemon_ctx \<Rightarrow> bool" where
  \<comment> \<open>the open descriptors are those of the daemon itself and those of the connections, each of
      exactly one connection\<close>
  "fds_ok base ctx \<longleftrightarrow>
     set (d_fds ctx) = base \<union> (\<Union>i<length (connections ctx). conn_fds (conn_at ctx i))
     \<and> (\<forall>i<length (connections ctx). base \<inter> conn_fds (conn_at ctx i) = {}
          \<and> (\<forall>j<length (connections ctx). i \<noteq> j \<longrightarrow> conn_fds (conn_at ctx i) \<inter> conn_fds (conn_at ctx j) = {}))"

text \<open>
  The invariant, with the owners \<open>own\<close> and the connections \<open>hole\<close> that a handler is working on and
  that have no owner meanwhile. \<open>fs\<close> is the free list. The dirty list stays empty in this build.
\<close>

definition conns_core ::
    "(nat \<Rightarrow> string) \<Rightarrow> daemon_ctx \<Rightarrow> nat list \<Rightarrow> (nat \<times> owner) multiset \<Rightarrow> nat multiset \<Rightarrow> bool" where
  "conns_core tk ctx fs own hole \<longleftrightarrow>
     pool_ok ctx fs \<and> dirty_ok ctx [] \<and> length (connections ctx) \<le> 2 ^ 32
     \<and> image_mset fst own + hole = mset_set ({..<length (connections ctx)} - set fs)
     \<and> (\<forall>(i, w) \<in># own. owner_ok (tk i) (conn_at ctx i) w)
     \<and> (\<forall>i \<in> set fs. idle_conn (conn_at ctx i))"

definition conns_inv ::
    "int set \<Rightarrow> (nat \<Rightarrow> string) \<Rightarrow> daemon_ctx \<Rightarrow> nat list \<Rightarrow> (nat \<times> owner) multiset \<Rightarrow> nat multiset \<Rightarrow> bool" where
  "conns_inv base tk ctx fs own hole \<longleftrightarrow> conns_core tk ctx fs own hole \<and> fds_ok base ctx"

lemmas conns_defs = conns_inv_def conns_core_def

section \<open>Changes to one connection\<close>

lemma conns_inv_stats:
  assumes "connections ctx' = connections ctx" "free_list ctx' = free_list ctx"
    "max_connections ctx' = max_connections ctx" "active_connections ctx' = active_connections ctx"
    "dirty_head ctx' = dirty_head ctx" "dirty_tail ctx' = dirty_tail ctx" "d_fds ctx' = d_fds ctx"
  shows "conns_inv base tk ctx' fs own hole = conns_inv base tk ctx fs own hole"
proof -
  have "conn_at ctx' = conn_at ctx" by (simp add: fun_eq_iff conn_at_def assms)
  then show ?thesis by (simp add: conns_defs pool_ok_def dirty_ok_def fds_ok_def assms)
qed

lemma hole_active:
  assumes "conns_core tk ctx fs own (add_mset i hole)"
  shows "i < length (connections ctx)" "i \<notin> set fs" "i \<notin># image_mset fst own" "i \<notin># hole"
proof -
  have m: "image_mset fst own + add_mset i hole = mset_set ({..<length (connections ctx)} - set fs)"
    using assms by (simp add: conns_defs)
  have "i \<in># mset_set ({..<length (connections ctx)} - set fs)" unfolding m [symmetric] by simp
  then show "i < length (connections ctx)" "i \<notin> set fs" by auto
  have "count (image_mset fst own + add_mset i hole) i \<le> 1"
    unfolding m by (simp add: count_mset_set')
  then have "count (image_mset fst own) i = 0" "count hole i = 0" by simp_all
  then show "i \<notin># image_mset fst own" "i \<notin># hole" by (simp_all only: not_in_iff)
qed

lemma owner_active:
  assumes "conns_core tk ctx fs own hole" "(i, w) \<in># own"
  shows "i < length (connections ctx)" "i \<notin> set fs"
proof -
  have "i \<in># image_mset fst own + hole" using assms(2) by (auto intro: image_eqI [of _ _ "(i, w)"])
  also have "image_mset fst own + hole = mset_set ({..<length (connections ctx)} - set fs)"
    using assms(1) by (simp add: conns_defs)
  finally show "i < length (connections ctx)" "i \<notin> set fs" by auto
qed

text \<open>A handler takes the place of the owner.\<close>

lemma take_over:
  "conns_inv base tk ctx fs (add_mset (i, w) own) hole \<longleftrightarrow>
     conns_inv base tk ctx fs own (add_mset i hole) \<and> owner_ok (tk i) (conn_at ctx i) w"
  by (auto simp: conns_defs)

lemma pool_ok_upd:
  assumes "pool_ok ctx fs" "i \<notin> set fs" "\<And>c. conn_id (f c) = conn_id c" "\<And>c. next_free (f c) = next_free c"
    and "buf_ok (conn_at ctx i) \<Longrightarrow> buf_ok (f (conn_at ctx i))"
  shows "pool_ok (upd_conn i f ctx) fs"
proof (cases "i < length (connections ctx)")
  case True
  have "free_link (upd_conn i f ctx) = free_link ctx"
    using True assms(4) by (auto simp: fun_eq_iff conn_at_def upd_conn_def nth_list_update)
  then show ?thesis using assms True by (auto simp: pool_ok_def conn_at_upd)
next
  case False
  then show ?thesis using assms(1) by (simp add: upd_conn_def list_update_beyond)
qed

lemma upd_other_own:
  assumes "conns_core tk ctx fs own (add_mset i hole)" "(j, w) \<in># own \<or> j \<in> set fs"
  shows "i \<noteq> j"
proof
  assume "i = j"
  with hole_active [OF assms(1)] assms(2) show False by (auto intro: image_eqI [of _ _ "(j, w)"])
qed

lemma conns_core_upd:
  assumes inv: "conns_core tk ctx fs own (add_mset i hole)"
    and f: "\<And>c. conn_id (f c) = conn_id c" "\<And>c. next_free (f c) = next_free c"
      "\<And>c. dirty_next (f c) = dirty_next c" "\<And>c. on_dirty_list (f c) = on_dirty_list c"
    and b: "buf_ok (conn_at ctx i) \<Longrightarrow> buf_ok (f (conn_at ctx i))"
  shows "conns_core tk (upd_conn i f ctx) fs own (add_mset i hole)"
proof -
  note act = hole_active [OF inv]
  have at: "conn_at (upd_conn i f ctx) j = (if j = i then f (conn_at ctx i) else conn_at ctx j)" for j
    using act(1) by (cases "j = i") auto
  have "dirty_link (upd_conn i f ctx) = dirty_link ctx" by (simp add: fun_eq_iff at f)
  then have "dirty_ok (upd_conn i f ctx) []" using inv by (simp add: conns_defs dirty_ok_def at f)
  moreover have "pool_ok (upd_conn i f ctx) fs"
    using inv act f b by (intro pool_ok_upd) (auto simp: conns_defs)
  moreover have "owner_ok (tk j) (conn_at (upd_conn i f ctx) j) w" if "(j, w) \<in># own" for j w
    using inv that upd_other_own [OF inv, of j w] by (auto simp: conns_defs at)
  moreover have "idle_conn (conn_at (upd_conn i f ctx) j)" if "j \<in> set fs" for j
    using inv that act by (auto simp: conns_defs at)
  ultimately show ?thesis using inv by (auto simp: conns_defs)
qed

lemma fds_ok_same:
  assumes "fds_ok base ctx" "conn_fds (f (conn_at ctx i)) = conn_fds (conn_at ctx i)"
  shows "fds_ok base (upd_conn i f ctx)"
proof -
  have "conn_fds (conn_at (upd_conn i f ctx) j) = conn_fds (conn_at ctx j)" if "j < length (connections ctx)" for j
    using assms(2) that by (cases "j = i") auto
  then show ?thesis using assms(1) by (simp add: fds_ok_def)
qed

text \<open>A change that leaves the descriptors and the links alone.\<close>

definition stable :: "(connection \<Rightarrow> connection) \<Rightarrow> bool" where
  "stable f \<longleftrightarrow> (\<forall>c. conn_id (f c) = conn_id c \<and> next_free (f c) = next_free c
     \<and> dirty_next (f c) = dirty_next c \<and> on_dirty_list (f c) = on_dirty_list c
     \<and> unix_fd (f c) = unix_fd c \<and> client_fd (f c) = client_fd c \<and> (buf_ok c \<longrightarrow> buf_ok (f c)))"

lemma conns_core_stable:
  assumes "conns_core tk ctx fs own (add_mset i hole)" "stable f"
  shows "conns_core tk (upd_conn i f ctx) fs own (add_mset i hole)"
  using assms by (intro conns_core_upd) (auto simp: stable_def)

lemma conns_inv_stable:
  assumes "conns_inv base tk ctx fs own (add_mset i hole)" "stable f"
  shows "conns_inv base tk (upd_conn i f ctx) fs own (add_mset i hole)"
  using assms conns_core_stable fds_ok_same [of base ctx f i]
  by (auto simp: conns_inv_def stable_def conn_fds_def)

lemmas inv_hole_active = hole_active [OF conns_inv_def [THEN iffD1, THEN conjunct1]]
lemmas inv_upd_other_own = upd_other_own [OF conns_inv_def [THEN iffD1, THEN conjunct1]]

section \<open>Freeing a connection\<close>

lemma unmark_clean:
  assumes "dirty_ok ctx []" "i < length (connections ctx)"
  shows "daemon_unmark_connection_dirty i ctx = Some ctx"
  using assms by (simp add: dirty_ok_def daemon_unmark_connection_dirty_def)

lemma idle_reset: "idle_conn (conn_reset c)"
  by (simp add: idle_conn_def conn_reset_def)

lemma fds_ok_free:
  assumes ok: "fds_ok base ctx" and i: "i < length (connections ctx)"
  shows "fds_ok base (conn_free i ctx)"
proof -
  let ?n = "length (connections ctx)"
  have at: "conn_fds (conn_at (conn_free i ctx) j) = (if j = i then {} else conn_fds (conn_at ctx j))" for j
    using conn_free_at [OF i] by (auto simp: conn_fds_def)
  have fds: "set (d_fds (conn_free i ctx)) = set (d_fds ctx) - conn_fds (conn_at ctx i)"
    using conn_close_fds_fds [OF i] by (auto simp: conn_fds_def)
  have sep: "base \<inter> conn_fds (conn_at ctx i) = {}"
    "j < ?n \<Longrightarrow> j \<noteq> i \<Longrightarrow> conn_fds (conn_at ctx j) \<inter> conn_fds (conn_at ctx i) = {}" for j
    using ok i by (auto simp: fds_ok_def)
  have "set (d_fds (conn_free i ctx)) = base \<union> (\<Union>j<?n. conn_fds (conn_at (conn_free i ctx) j))"
  proof
    show "set (d_fds (conn_free i ctx)) \<subseteq> base \<union> (\<Union>j<?n. conn_fds (conn_at (conn_free i ctx) j))"
      using ok unfolding fds fds_ok_def by (auto simp: at)
    show "base \<union> (\<Union>j<?n. conn_fds (conn_at (conn_free i ctx) j)) \<subseteq> set (d_fds (conn_free i ctx))"
      using ok sep unfolding fds fds_ok_def by (auto simp: at split: if_splits)
  qed
  then show ?thesis using ok unfolding fds_ok_def by (simp add: at)
qed

lemma cleanup_ok:
  assumes inv: "conns_inv base tk (dctx L) fs own (add_mset i hole)"
  shows "cleanup_connection i L = Some (L\<lparr>dctx := conn_free i (dctx L)\<rparr>)"
    and "conns_inv base tk (conn_free i (dctx L)) (i # fs) own hole"
proof -
  let ?c = "dctx L"
  note act = inv_hole_active [OF inv]
  show "cleanup_connection i L = Some (L\<lparr>dctx := conn_free i ?c\<rparr>)"
    using inv act by (simp add: cleanup_connection_def conns_defs unmark_clean)
  have at: "j \<noteq> i \<Longrightarrow> conn_at (conn_free i ?c) j = conn_at ?c j" for j using conn_free_at [OF act(1)] by simp
  have idle: "idle_conn (conn_at (conn_free i ?c) i)"
    using idle_reset conn_free_at(1) [OF act(1)] by (simp add: idle_conn_def)
  have "pool_ok (conn_free i ?c) (i # fs)" using inv act by (intro conn_free_ok) (auto simp: conns_defs)
  moreover have "dirty_ok (conn_free i ?c) []"
  proof -
    have "on_dirty_list (conn_at (conn_free i ?c) i) = False" using conn_free_at(1) [OF act(1)] by simp
    then have "on_dirty_list (conn_at (conn_free i ?c) j) = on_dirty_list (conn_at ?c j)"
      if "j < length (connections ?c)" for j
      using inv that at [of j] by (cases "j = i") (auto simp: conns_defs dirty_ok_def)
    then show ?thesis using inv by (simp add: conns_defs dirty_ok_def)
  qed
  moreover have "fds_ok base (conn_free i ?c)" using inv act by (intro fds_ok_free) (auto simp: conns_defs)
  moreover have "image_mset fst own + hole = mset_set ({..<length (connections ?c)} - set (i # fs))"
  proof -
    have "image_mset fst own + hole = mset_set ({..<length (connections ?c)} - set fs) - {#i#}"
      using inv unfolding conns_defs by (metis add_mset_remove_trivial union_mset_add_mset_right)
    also have "\<dots> = mset_set ({..<length (connections ?c)} - set fs - {i})"
      using act by (simp add: mset_set_Diff)
    also have "{..<length (connections ?c)} - set fs - {i} = {..<length (connections ?c)} - set (i # fs)" by auto
    finally show ?thesis .
  qed
  moreover have "owner_ok (tk j) (conn_at (conn_free i ?c) j) w" if "(j, w) \<in># own" for j w
    using inv that inv_upd_other_own [OF inv, of j w] at [of j] by (auto simp: conns_defs)
  moreover have "idle_conn (conn_at (conn_free i ?c) j)" if "j \<in> set (i # fs)" for j
    using inv that idle at [of j] by (cases "j = i") (auto simp: conns_defs)
  ultimately show "conns_inv base tk (conn_free i ?c) (i # fs) own hole"
    using inv by (auto simp: conns_defs)
qed

section \<open>What a handler does\<close>

definition same_mode :: "loop \<Rightarrow> loop \<Rightarrow> bool" where
  "same_mode L L' \<longleftrightarrow> use_thread_pool (dctx L') = use_thread_pool (dctx L)
     \<and> refused_links (lring L) \<le> refused_links (lring L')
     \<and> (ring_ok (lring L) \<longrightarrow> ring_ok (lring L'))"

definition handled ::
    "int set \<Rightarrow> (nat \<Rightarrow> string) \<Rightarrow> (nat \<times> owner) multiset \<Rightarrow> nat multiset \<Rightarrow> loop \<Rightarrow> loop option \<Rightarrow> bool" where
  \<comment> \<open>the handler returns, the pool of threads is as before, and unless a linked timeout was refused the
      invariant holds with the connections \<open>hole\<close> left to handle\<close>
  "handled base tk P hole L r \<longleftrightarrow> (\<exists>L'. r = Some L' \<and> same_mode L L' \<and> wpool L' = wpool L
     \<and> (refused_links (lring L') = refused_links (lring L) \<longrightarrow>
          (\<exists>fs. conns_inv base tk (dctx L') fs (ring_owners (lring L') + P) hole)))"

lemma count_failed_fields [simp]:
  "lring (count_failed L) = lring L" "wpool (count_failed L) = wpool L"
  "conn (count_failed L) i = conn L i" "use_thread_pool (dctx (count_failed L)) = use_thread_pool (dctx L)"
  by (simp_all add: count_failed_def conn_at_def)

lemma count_completed_fields [simp]:
  "lring (count_completed i L) = lring L" "wpool (count_completed i L) = wpool L"
  "use_thread_pool (dctx (count_completed i L)) = use_thread_pool (dctx L)"
  by (simp_all add: count_completed_def)

lemma count_inv [simp]:
  "conns_inv base tk (dctx (count_failed L)) fs own hole = conns_inv base tk (dctx L) fs own hole"
  "conns_inv base tk (dctx (count_completed i L)) fs own hole = conns_inv base tk (dctx L) fs own hole"
  by (rule conns_inv_stats; simp add: count_failed_def count_completed_def)+

lemma free_mode [simp]: "use_thread_pool (conn_free i ctx) = use_thread_pool ctx"
  by (simp add: conn_free_def conn_close_fds_def close_fd_def upd_conn_def Let_def)

lemma handled_cleanup:
  assumes "conns_inv base tk (dctx L) fs (ring_owners (lring L) + P) (add_mset i hole)"
  shows "handled base tk P hole L (cleanup_connection i L)"
  using cleanup_ok [OF assms] by (auto simp: handled_def same_mode_def)

lemma handled_trans:
  assumes "handled base tk P hole L1 r" "same_mode L L1" "wpool L1 = wpool L"
  shows "handled base tk P hole L r"
  using assms unfolding handled_def same_mode_def by (metis le_antisym order_trans)

lemma handled_fail:
  assumes "conns_inv base tk (dctx L) fs (ring_owners (lring L) + P) (add_mset i hole)"
  shows "handled base tk P hole L (fail_connection i L)"
proof -
  have "handled base tk P hole (count_failed L) (fail_connection i L)"
    unfolding fail_connection_def by (rule handled_cleanup) (use assms in simp)
  then show ?thesis by (rule handled_trans) (simp_all add: same_mode_def)
qed

lemma with_conn_fields [simp]:
  "lring (with_conn i f L) = lring L" "wpool (with_conn i f L) = wpool L"
  "use_thread_pool (dctx (with_conn i f L)) = use_thread_pool (dctx L)"
  "i < length (connections (dctx L)) \<Longrightarrow> conn (with_conn i f L) i = f (conn L i)"
  by (simp_all add: with_conn_def) (simp add: upd_conn_def)

lemma with_conn_inv:
  "conns_inv base tk (dctx L) fs own (add_mset i hole) \<Longrightarrow> stable f \<Longrightarrow>
     conns_inv base tk (dctx (with_conn i f L)) fs own (add_mset i hole)"
  by (simp add: with_conn_def conns_inv_stable)

lemma sqe_id_pack: "i < 2 ^ 32 \<Longrightarrow> sqe_id \<lparr>prep = p, io_link = l, sqe_data = ring_pack_data x (of_nat i)\<rparr> = i"
  by (simp add: sqe_id_def unpack_pack unat_of_nat)

lemma conn_id_inv:
  "conns_inv base tk ctx fs own hole \<Longrightarrow> i < length (connections ctx) \<Longrightarrow> conn_id (conn_at ctx i) = i \<and> i < 2 ^ 32"
  by (auto simp: conns_defs pool_ok_def)

lemma submit_write_ok:
  assumes inv: "conns_inv base tk (dctx L) fs (ring_owners (lring L) + P) (add_mset i hole)"
    and ok: "owner_ok (tk i) (conn L i) (Sending b)" and f: "refused = count_failed \<or> refused = count_completed i"
  shows "handled base tk P hole L (map_option snd (submit_write i b refused L))"
proof -
  note act = inv_hole_active [OF inv] and id = conn_id_inv [OF inv inv_hole_active(1) [OF inv]]
  obtain rc r1 where w: "ring_submit_write (conn L i) b (lring L) = (rc, r1)" by fastforce
  note w_cases = with_flush_cases [OF w [unfolded ring_submit_write_def]]
    and w_ring = ring_ok_submit [OF _ w [unfolded ring_submit_write_def]]
  let ?L1 = "L\<lparr>lring := r1\<rparr>"
  show ?thesis
  proof (cases "rc < 0")
    case True
    then have sq: "ring_sqes r1 = ring_sqes (lring L)" "refused_links r1 = refused_links (lring L)"
      using w_cases by auto
    have "conns_inv base tk (dctx (refused ?L1)) fs (ring_owners (lring (refused ?L1)) + P) (add_mset i hole)"
      using inv f sq by (auto simp: ring_owners_def)
    from handled_cleanup [OF this] have "handled base tk P hole (refused ?L1) (cleanup_connection i (refused ?L1))" .
    then have "handled base tk P hole L (cleanup_connection i (refused ?L1))"
      by (rule handled_trans) (use f sq w_ring in \<open>auto simp: same_mode_def\<close>)
    then show ?thesis using True w by (simp add: submit_write_def option.map_comp comp_def option.map_ident)
  next
    case False
    let ?s = "\<lparr>prep = Prep_write (client_fd (conn L i)) b, io_link = True,
      sqe_data = ring_pack_data OP_WRITE (of_nat (conn_id (conn L i)))\<rparr>"
    from False w_cases have sq: "ring_sqes r1 = ring_sqes (lring L) @ [?s]"
      "refused_links r1 = refused_links (lring L)" by auto
    have own: "sqe_owner ?s = Some (i, Sending b)" using id by (simp add: sqe_owner_def sqe_id_pack)
    obtain rc2 r2 where t: "ring_submit_linked_timeout (conn ?L1 i) (write_timeout_ms (dctx ?L1)) r1 = (rc2, r2)"
      by fastforce
    note t_cases = linked_timeout_cases [OF t]
    show ?thesis
    proof (cases "rc2 < 0")
      case True
      then have r: "refused_links r2 = Suc (refused_links (lring L))" "ring_sqes r2 = ring_sqes r1"
        using t_cases sq by auto
      let ?L2 = "?L1\<lparr>lring := r2\<rparr>"
      have "conns_inv base tk (dctx (count_failed ?L2)) fs (ring_owners (lring L) + P) (add_mset i hole)"
        using inv by simp
      from cleanup_ok(1) [OF this] obtain L3 where c: "fail_connection i ?L2 = Some L3"
        "lring L3 = r2" "wpool L3 = wpool L" "use_thread_pool (dctx L3) = use_thread_pool (dctx L)"
        by (simp add: fail_connection_def)
      then have "map_option snd (submit_write i b refused L) = Some L3"
        using False w t True by (simp add: submit_write_def Let_def)
      with c r w_ring ring_ok_link [OF _ t] show ?thesis by (auto simp: handled_def same_mode_def)
    next
      case linked: False
      let ?t = "\<lparr>prep = Prep_link_timeout (write_timeout_ms (dctx ?L1)), io_link = False,
        sqe_data = ring_pack_data OP_TIMEOUT (of_nat (conn_id (conn ?L1 i)))\<rparr>"
      from linked t_cases sq have r: "refused_links r2 = refused_links (lring L)"
        "ring_sqes r2 = ring_sqes (lring L) @ [?s] @ [?t]" by auto
      have "sqe_owner ?t = None" by (simp add: sqe_owner_def)
      then have "ring_owners r2 + P = add_mset (i, Sending b) (ring_owners (lring L) + P)"
        using r(2) own by (simp add: ring_owners_def)
      moreover have "conns_inv base tk (dctx L) fs (add_mset (i, Sending b) (ring_owners (lring L) + P)) hole"
        using inv ok by (simp only: take_over simp_thms)
      ultimately have "conns_inv base tk (dctx (?L1\<lparr>lring := r2\<rparr>)) fs (ring_owners r2 + P) hole" by simp
      then show ?thesis using False w t linked r(1) w_ring ring_ok_link [OF _ t]
        by (auto simp: submit_write_def handled_def same_mode_def)
    qed
  qed
qed

end
