(* ===== verification/Loop_Handlers.thy ===== *)
theory Loop_Handlers
  imports Loop_Owners
begin

text \<open>
  Every handler of the event loop keeps the invariant of \<open>Loop_Owners\<close>: given the connection of a
  completion, it hands it on to one new owner or frees it, and it returns.
\<close>

section \<open>Writing\<close>

lemma with_conn_here: "with_conn i (\<lambda>_. g (conn L i)) L = with_conn i g L"
  by (simp add: with_conn_def upd_conn_def conn_at_def)

lemma with_conn_twice: "with_conn i g (with_conn i f L) = with_conn i (\<lambda>c. g (f c)) L"
  by (cases "i < length (connections (dctx L))") (simp_all add: with_conn_def upd_conn_def list_update_beyond)

text \<open>
  Updates of the fields of a stream leave the rest of the connection alone.
\<close>

lemma stable_buf [intro]: "(\<And>c. handoff_buf (f c) = handoff_buf c \<and> handoff_cap (f c) = handoff_cap c
    \<and> conn_id (f c) = conn_id c \<and> next_free (f c) = next_free c \<and> dirty_next (f c) = dirty_next c
    \<and> on_dirty_list (f c) = on_dirty_list c \<and> unix_fd (f c) = unix_fd c \<and> client_fd (f c) = client_fd c)
  \<Longrightarrow> stable f"
  by (simp add: stable_def buf_ok_def cong: option.case_cong)

lemma start_streaming_ok:
  assumes inv: "conns_inv base tk (dctx L) fs (ring_owners (lring L) + P) (add_mset i hole)"
    and c: "idle_conn (conn L i)" "has_client (conn L i)" "state (conn L i) = CONN_STATE_STREAMING" "tk i = []"
  shows "handled base tk P hole L (start_streaming i L)"
proof -
  let ?f = "\<lambda>c. c\<lparr>write_len := length SSE_HEADERS, write_offset := 0\<rparr>"
  let ?L = "with_conn i ?f L"
  have act: "i < length (connections (dctx L))" using inv_hole_active [OF inv] by simp
  have "conns_inv base tk (dctx ?L) fs (ring_owners (lring ?L) + P) (add_mset i hole)"
    using with_conn_inv [OF inv, of ?f] by (simp add: stable_buf)
  moreover have "whole_stream (?f (conn L i)) = SSE_HEADERS @ rest_text 0 (?f (conn L i))"
    by (simp add: whole_stream_def)
  then have "owner_ok (tk i) (conn ?L i) (Sending SSE_HEADERS)"
    using c act by (auto simp: idle_conn_def has_client_def sending_def)
  ultimately have "handled base tk P hole ?L (start_streaming i L)"
    unfolding start_streaming_def by (rule submit_write_ok) simp
  then show ?thesis by (rule handled_trans) (simp_all add: same_mode_def)
qed

text \<open>After \<open>k\<close> messages have gone out completely.\<close>

definition streaming :: "string \<Rightarrow> connection \<Rightarrow> nat \<Rightarrow> bool" where
  "streaming tk c k \<longleftrightarrow> has_client c \<and> async_write_buf c = None \<and> \<not> use_llm_response c
     \<and> write_buf c = None \<and> state c = CONN_STATE_STREAMING \<and> stream_index c = int k \<and> k \<le> 18
     \<and> tk @ rest_text k c = whole_stream c"

lemma send_next_ok:
  assumes inv: "conns_inv base tk (dctx L) fs (ring_owners (lring L) + P) (add_mset i hole)"
    and c: "streaming (tk i) (conn L i) k"
  shows "handled base tk P hole L (send_next i mem L)"
proof -
  have act: "i < length (connections (dctx L))" using inv_hole_active [OF inv] by simp
  have nxt: "stream_next_message (conn L i) =
     (if k < 18 then (Some (demo_texts (conn L i) ! k), (conn L i)\<lparr>stream_index := int (Suc k)\<rparr>) else (None, conn L i))"
    using c by (intro stream_next_demo) (auto simp: streaming_def)
  show ?thesis
  proof (cases "k < 18")
    case False
    let ?f = "\<lambda>c. c\<lparr>state := CONN_STATE_CLOSING, write_len := length SSE_DONE, write_offset := 0\<rparr>"
    let ?L = "with_conn i ?f L"
    have "conns_inv base tk (dctx ?L) fs (ring_owners (lring ?L) + P) (add_mset i hole)"
      using with_conn_inv [OF inv, of ?f] by (simp add: stable_buf)
    moreover have "whole_stream (?f (conn L i)) = whole_stream (conn L i)"
      by (rule conjunct2 [OF stream_view_texts]) (simp add: stream_view_def)
    then have "owner_ok (tk i) (conn ?L i) (Sending SSE_DONE)"
      using c act False by (auto simp: streaming_def has_client_def sending_def rest_text_end)
    ultimately have "handled base tk P hole ?L (map_option snd (submit_write i SSE_DONE (count_completed i) ?L))"
      by (rule submit_write_ok) simp
    then have "handled base tk P hole L (map_option snd (submit_write i SSE_DONE (count_completed i) ?L))"
      by (rule handled_trans) (simp_all add: same_mode_def)
    then show ?thesis
      using nxt False by (simp add: send_next_def with_conn_here [of i ?f L])
  next
    case True
    let ?g = "\<lambda>c. c\<lparr>stream_index := int (Suc k)\<rparr>" and ?m = "demo_texts (conn L i) ! k"
    let ?L1 = "with_conn i ?g L"
    have inv1: "conns_inv base tk (dctx ?L1) fs (ring_owners (lring ?L1) + P) (add_mset i hole)"
      using with_conn_inv [OF inv, of ?g] by (simp add: stable_buf)
    let ?f = "\<lambda>c. c\<lparr>write_buf := Some (event ?m), write_len := length (event ?m), write_offset := 0\<rparr>"
    let ?L2 = "with_conn i ?f ?L1"
    have inv2: "conns_inv base tk (dctx ?L2) fs (ring_owners (lring ?L2) + P) (add_mset i hole)"
      using with_conn_inv [OF inv1, of ?f] by (simp add: stable_buf)
    have at: "conn ?L2 i = ?f (?g (conn L i))" using act by (simp add: with_conn_twice)
    have "stream_view (?f (?g (conn L i))) = stream_view (conn L i)" by (simp add: stream_view_def)
    then have "owner_ok (tk i) (conn ?L2 i) (Sending (event ?m))"
      using c True rest_text_step [OF True, of "conn L i"] stream_view_texts [of "conn ?L2 i" "conn L i"]
      unfolding at by (auto simp: streaming_def has_client_def sending_def intro!: exI [of _ "Suc k"])
    with inv2 have "handled base tk P hole ?L2 (map_option snd (submit_write i (event ?m) count_failed ?L2))"
      by (rule submit_write_ok) simp
    then have good: "handled base tk P hole L (map_option snd (submit_write i (event ?m) count_failed ?L2))"
      by (rule handled_trans) (simp_all add: same_mode_def)
    have "handled base tk P hole L (fail_connection i ?L1)"
      by (rule handled_trans [OF handled_fail [OF inv1]]) (simp_all add: same_mode_def)
    then show ?thesis
      using nxt True good format_event [OF demo_texts_short [OF True]]
      by (simp add: send_next_def with_conn_here [of i ?g L] Let_def del: of_nat_Suc)
  qed
qed

lemma handle_write_ok:
  assumes inv: "conns_inv base tk (dctx L) fs (ring_owners (lring L) + P) (add_mset i hole)"
    and c: "has_client (conn L i)" "sending tk0 (conn L i) b"
    and tk: "tk i = tk0 @ take (nat res) b" and res: "nat res \<le> length b"
  shows "handled base tk P hole L (handle_write i res mem L)"
proof (cases "res < 0")
  case True
  then show ?thesis using handled_fail [OF inv] by (simp add: handle_write_def)
next
  case ge: False
  let ?f = "\<lambda>c. c\<lparr>bytes_sent := bytes_sent c + nat res, write_offset := write_offset c + nat res\<rparr>"
  let ?L1 = "with_conn i ?f L" and ?c = "conn L i"
  have act: "i < length (connections (dctx L))" using inv_hole_active [OF inv] by simp
  have inv1: "conns_inv base tk (dctx ?L1) fs (ring_owners (lring ?L1) + P) (add_mset i hole)"
    using with_conn_inv [OF inv, of ?f] by (simp add: stable_buf)
  have at1: "conn ?L1 i = ?f ?c" using act by simp
  have view1: "stream_view (?f ?c) = stream_view ?c" by (simp add: stream_view_def)
  have mode1: "same_mode L ?L1" "wpool ?L1 = wpool L" by (simp_all add: same_mode_def)
  have len: "write_len ?c = write_offset ?c + length b" "b \<noteq> []" using c by (auto simp: sending_def)
  show ?thesis
  proof (cases "nat res < length b")
    case short: True
    let ?b = "drop (nat res) b"
    have go: "handle_write i res mem L = (case write_buf ?c of None \<Rightarrow> fail_connection i ?L1
        | Some t \<Rightarrow> map_option snd (submit_write i
            (take (write_len ?c - (write_offset ?c + nat res)) (drop (write_offset ?c + nat res) t)) count_failed ?L1))"
      using ge short len unfolding handle_write_def Let_def at1 by (simp cong: option.case_cong)
    show ?thesis
    proof (cases "write_buf ?c")
      case None
      then show ?thesis using go handled_trans [OF handled_fail [OF inv1] mode1] by simp
    next
      case (Some t)
      then have t: "state ?c = CONN_STATE_STREAMING" "length t = write_len ?c" "drop (write_offset ?c) t = b"
        using c by (auto simp: sending_def)
      have d: "drop (write_offset ?c + nat res) t = ?b" by (simp add: t(3) [symmetric] add.commute)
      obtain k where k: "k \<le> 18" "stream_index ?c = int k" "tk0 @ b @ rest_text k ?c = whole_stream ?c"
        using c(2) t(1) by (auto simp: sending_def)
      have "tk i @ ?b = tk0 @ b" by (simp add: tk)
      with k(3) have whole: "tk i @ ?b @ rest_text k ?c = whole_stream ?c" by (metis append_assoc)
      have "sending (tk i) (?f ?c) ?b"
        using c(2) t(1,2) d short len Some k(1,2) whole stream_view_texts [OF view1]
        by (simp add: sending_def)
      then have "owner_ok (tk i) (conn ?L1 i) (Sending ?b)" using c(1) unfolding at1 by (simp add: has_client_def)
      from handled_trans [OF submit_write_ok [OF inv1 this] mode1] go Some d len show ?thesis by simp
    qed
  next
    case False
    then have all: "nat res = length b" "tk i = tk0 @ b" using res tk by auto
    let ?g = "\<lambda>c. c\<lparr>write_len := 0, write_offset := 0, write_buf := None\<rparr>"
    let ?L2 = "with_conn i ?g ?L1"
    have inv2: "conns_inv base tk (dctx ?L2) fs (ring_owners (lring ?L2) + P) (add_mset i hole)"
      using with_conn_inv [OF inv1, of ?g] by (simp add: stable_buf)
    have at2: "conn ?L2 i = ?g (?f ?c)" using act by (simp add: with_conn_twice)
    have mode2: "same_mode L ?L2" "wpool ?L2 = wpool L" by (simp_all add: same_mode_def)
    have go: "handle_write i res mem L = (if state ?c = CONN_STATE_CLOSING
        then cleanup_connection i (count_completed i ?L2) else send_next i mem ?L2)"
      using ge all len unfolding handle_write_def Let_def at1 at2 by simp
    show ?thesis
    proof (cases "state ?c = CONN_STATE_CLOSING")
      case True
      have "conns_inv base tk (dctx (count_completed i ?L2)) fs (ring_owners (lring (count_completed i ?L2)) + P) (add_mset i hole)"
        using inv2 by simp
      from handled_trans [OF handled_cleanup [OF this]] mode2 go True show ?thesis by (simp add: same_mode_def)
    next
      case False
      have view2: "stream_view (?g (?f ?c)) = stream_view ?c" by (simp add: stream_view_def)
      obtain k where "k \<le> 18" "stream_index ?c = int k" "tk0 @ b @ rest_text k ?c = whole_stream ?c"
        "state ?c = CONN_STATE_STREAMING"
        using c False by (auto simp: sending_def)
      then have "streaming (tk i) (conn ?L2 i) k"
        using c all(2) stream_view_texts [OF view2] unfolding at2
        by (auto simp: streaming_def sending_def has_client_def)
      from handled_trans [OF send_next_ok [OF inv2 this] mode2] go False show ?thesis by simp
    qed
  qed
qed

section \<open>Descriptors\<close>

lemma conns_core_fds [simp]: "conns_core tk (ctx\<lparr>d_fds := ds\<rparr>) = conns_core tk ctx"
proof -
  have "pool_ok (ctx\<lparr>d_fds := ds\<rparr>) fs = pool_ok ctx fs" "dirty_ok (ctx\<lparr>d_fds := ds\<rparr>) [] = dirty_ok ctx []" for fs
    by (simp_all add: pool_ok_def dirty_ok_def)
  then show ?thesis by (simp add: fun_eq_iff conns_core_def)
qed

lemma conns_core_close [simp]: "conns_core tk (close_fd fd ctx) = conns_core tk ctx"
  by (simp add: close_fd_def)

lemma conns_inv_rebase:
  "conns_inv base tk ctx fs own hole \<Longrightarrow> fds_ok base' (ctx\<lparr>d_fds := ds\<rparr>) \<Longrightarrow>
     conns_inv base' tk (ctx\<lparr>d_fds := ds\<rparr>) fs own hole"
  by (simp add: conns_inv_def)

text \<open>The kernel has opened a descriptor that no connection has yet: it is counted with the daemon's.\<close>

lemma fds_opened: "fds_ok base ctx \<Longrightarrow> fd \<notin> set (d_fds ctx) \<Longrightarrow>
  fds_ok (insert fd base) (ctx\<lparr>d_fds := fd # d_fds ctx\<rparr>)"
  by (auto simp: fds_ok_def)

lemma fds_close_extra: "fds_ok (insert fd base) ctx \<Longrightarrow> fd \<notin> base \<Longrightarrow> fds_ok base (close_fd fd ctx)"
proof -
  assume ok: "fds_ok (insert fd base) ctx" and "fd \<notin> base"
  have at: "conn_at (close_fd fd ctx) = conn_at ctx" "connections (close_fd fd ctx) = connections ctx"
    by (simp_all add: close_fd_def)
  have "fd \<notin> conn_fds (conn_at ctx i)" if "i < length (connections ctx)" for i
    using ok that by (auto simp: fds_ok_def)
  then have "set (d_fds (close_fd fd ctx)) = base \<union> (\<Union>i<length (connections ctx). conn_fds (conn_at ctx i))"
    using ok \<open>fd \<notin> base\<close> by (auto simp: fds_ok_def close_fd_def)
  then show ?thesis using ok by (auto simp: fds_ok_def at)
qed

lemma fds_adopt:
  assumes ok: "fds_ok (insert fd base) ctx" and i: "i < length (connections ctx)" and fd: "fd \<notin> base"
    and f: "conn_fds (f (conn_at ctx i)) = insert fd (conn_fds (conn_at ctx i))"
  shows "fds_ok base (upd_conn i f ctx)"
proof -
  have at: "conn_fds (conn_at (upd_conn i f ctx) j)
      = (if j = i then insert fd (conn_fds (conn_at ctx i)) else conn_fds (conn_at ctx j))" for j
    using i f by (cases "j = i") auto
  have new: "fd \<notin> conn_fds (conn_at ctx j)" if "j < length (connections ctx)" for j
    using ok that by (auto simp: fds_ok_def)
  have "set (d_fds ctx) = base \<union> (\<Union>j<length (connections ctx). conn_fds (conn_at (upd_conn i f ctx) j))"
    using ok i unfolding fds_ok_def by (auto simp: at split: if_splits)
  then show ?thesis using ok new fd unfolding fds_ok_def by (auto simp: at)
qed

lemma fds_release:
  assumes ok: "fds_ok base ctx" and i: "i < length (connections ctx)" and fd: "fd \<in> conn_fds (conn_at ctx i)"
    and f: "conn_fds (f (conn_at ctx i)) = conn_fds (conn_at ctx i) - {fd}"
  shows "fds_ok base (upd_conn i f (close_fd fd ctx))"
proof -
  have at0: "conn_at (close_fd fd ctx) = conn_at ctx" "connections (close_fd fd ctx) = connections ctx"
    by (simp_all add: close_fd_def)
  have at: "conn_fds (conn_at (upd_conn i f (close_fd fd ctx)) j)
      = (if j = i then conn_fds (conn_at ctx i) - {fd} else conn_fds (conn_at ctx j))" for j
    using i f by (cases "j = i") (auto simp: at0)
  have old: "fd \<notin> conn_fds (conn_at ctx j)" if "j < length (connections ctx)" "j \<noteq> i" for j
    using ok that i fd unfolding fds_ok_def by blast
  have nb: "fd \<notin> base" using ok i fd by (auto simp: fds_ok_def)
  have cl: "set (d_fds (close_fd fd ctx)) = set (d_fds ctx) - {fd}" by (simp add: close_fd_def)
  have "set (d_fds (close_fd fd ctx))
      = base \<union> (\<Union>j<length (connections ctx). conn_fds (conn_at (upd_conn i f (close_fd fd ctx)) j))"
    (is "_ = base \<union> ?U")
  proof
    show "set (d_fds (close_fd fd ctx)) \<subseteq> base \<union> ?U"
      using ok unfolding fds_ok_def cl by (auto simp: at split: if_splits)
    show "base \<union> ?U \<subseteq> set (d_fds (close_fd fd ctx))"
      using ok nb old unfolding fds_ok_def cl by (auto simp: at split: if_splits)
  qed
  moreover have sub: "conn_fds (conn_at (upd_conn i f (close_fd fd ctx)) j) \<subseteq> conn_fds (conn_at ctx j)" for j
    by (auto simp: at)
  have "base \<inter> conn_fds (conn_at (upd_conn i f (close_fd fd ctx)) j) = {}" if "j < length (connections ctx)" for j
  proof -
    have "base \<inter> conn_fds (conn_at ctx j) = {}" using ok that by (simp add: fds_ok_def)
    with sub [of j] show ?thesis by blast
  qed
  moreover have "conn_fds (conn_at (upd_conn i f (close_fd fd ctx)) j)
      \<inter> conn_fds (conn_at (upd_conn i f (close_fd fd ctx)) k) = {}"
    if "j < length (connections ctx)" "k < length (connections ctx)" "j \<noteq> k" for j k
  proof -
    have "conn_fds (conn_at ctx j) \<inter> conn_fds (conn_at ctx k) = {}" using ok that by (simp add: fds_ok_def)
    with sub [of j] sub [of k] show ?thesis by blast
  qed
  ultimately show ?thesis unfolding fds_ok_def by (simp add: at0)
qed

lemma buf_ok_fds [simp]:
  "buf_ok (client_fd_update f c) = buf_ok c" "buf_ok (unix_fd_update f c) = buf_ok c"
  "buf_ok (state_update g c) = buf_ok c" "buf_ok (handoff_len_update h c) = buf_ok c"
  by (simp_all add: buf_ok_def cong: option.case_cong)

section \<open>From Apache\<close>

definition pool_owners :: "pool_ctx \<Rightarrow> nat list \<Rightarrow> nat list \<Rightarrow> (nat \<times> owner) multiset \<Rightarrow> bool" where
  \<comment> \<open>the connections in the work queue and with workers, and those finished\<close>
  "pool_owners p ws ds P \<longleftrightarrow> (\<exists>qs cs. queue_conns p qs \<and> ring_conns p cs
     \<and> P = image_mset (\<lambda>c. (c, Queued)) (mset qs + mset ws) + image_mset (\<lambda>c. (c, Done)) (mset ds + mset cs))"

definition serves ::
    "int set \<Rightarrow> (nat \<Rightarrow> string) \<Rightarrow> nat list \<Rightarrow> nat list \<Rightarrow> loop \<Rightarrow> loop option \<Rightarrow> bool" where
  \<comment> \<open>a handler that also may change the pool of threads\<close>
  "serves base tk ws ds L r \<longleftrightarrow> (\<exists>L'. r = Some L' \<and> same_mode L L'
     \<and> (refused_links (lring L') = refused_links (lring L) \<longrightarrow>
          (\<exists>fs P. pool_owners (wpool L') ws ds P \<and> conns_inv base tk (dctx L') fs (ring_owners (lring L') + P) {#})))"

lemma handled_serves:
  "handled base tk P {#} L r \<Longrightarrow> pool_owners (wpool L) ws ds P \<Longrightarrow> serves base tk ws ds L r"
  unfolding handled_def serves_def by metis

lemma serves_trans:
  assumes "serves base tk ws ds L1 r" "same_mode L L1"
  shows "serves base tk ws ds L r"
  using assms unfolding serves_def same_mode_def by (metis le_antisym order_trans)

definition fresh_item_for :: "nat option \<Rightarrow> loop \<Rightarrow> bool" where
  "fresh_item_for m L \<longleftrightarrow> fresh_item m (wpool L)"

lemma submit_queue:
  assumes "queue_conns p qs" "ring_conns p cs" "fresh_item m p" "pool_submit m c p = (rc, p')" "0 \<le> rc"
  shows "queue_conns p' (qs @ [c]) \<and> ring_conns p' cs"
proof -
  obtain a where a: "m = Some a" using assms(4,5) by (cases m) (auto simp: pool_submit_def)
  have r: "rc = 0" using assms(4) a by (auto simp: pool_submit_def Let_def)
  have "queue_conns p' (if rc = 0 then qs @ [c] else qs)"
    by (rule workq.enq_represents [OF assms(1,3)]) (use assms(4) in \<open>simp add: work_enq_def\<close>)
  moreover have "completions p' = completions p" "completion_head p' = completion_head p"
    "completion_tail p' = completion_tail p" "completion_size p' = completion_size p"
    using assms(4) a by (auto simp: pool_submit_def Let_def set_work_next_def split: option.splits)
  ultimately show ?thesis using assms(2) r by (simp add: ring_conns_def)
qed

lemma dispatch_ok:
  assumes inv: "conns_inv base tk (dctx L) fs (ring_owners (lring L) + P) {#i#}"
    and c: "idle_conn (conn L i)" "has_client (conn L i)" "tk i = []"
    and p: "pool_owners (wpool L) ws ds P" and m: "fresh_item m (wpool L)"
  shows "serves base tk ws ds L (dispatch i m L)"
proof -
  have act: "i < length (connections (dctx L))" using inv_hole_active [OF inv] by simp
  show ?thesis
  proof (cases "use_thread_pool (dctx L)")
    case True
    let ?f = "state_update (\<lambda>_. CONN_STATE_LLM_QUEUED)"
    let ?L = "with_conn i ?f L"
    have inv1: "conns_inv base tk (dctx ?L) fs (ring_owners (lring ?L) + P) {#i#}"
      using with_conn_inv [OF inv, of ?f] by (simp add: stable_buf)
    obtain rc q where s: "pool_submit m i (wpool L) = (rc, q)" by fastforce
    show ?thesis
    proof (cases "rc < 0")
      case f: True
      then have "dispatch i m L = fail_connection i ?L" using True s by (simp add: dispatch_def Let_def)
      moreover have "handled base tk P {#} L (fail_connection i ?L)"
        by (rule handled_trans [OF handled_fail [OF inv1]]) (simp_all add: same_mode_def)
      ultimately show ?thesis using handled_serves [OF _ p] by simp
    next
      case f: False
      obtain qs cs where q: "queue_conns (wpool L) qs" "ring_conns (wpool L) cs"
        "P = image_mset (\<lambda>c. (c, Queued)) (mset qs + mset ws) + image_mset (\<lambda>c. (c, Done)) (mset ds + mset cs)"
        using p by (auto simp: pool_owners_def)
      have "queue_conns q (qs @ [i]) \<and> ring_conns q cs" by (rule submit_queue [OF q(1,2) m s]) (use f in simp)
      then have "pool_owners q ws ds (add_mset (i, Queued) P)"
        unfolding pool_owners_def q(3) by (intro exI [of _ "qs @ [i]"] exI [of _ cs]) simp
      moreover have "owner_ok (tk i) (conn ?L i) Queued"
        using c act by (simp add: idle_conn_def has_client_def)
      then have "conns_inv base tk (dctx ?L) fs (add_mset (i, Queued) (ring_owners (lring ?L) + P)) {#}"
        using inv1 by (simp only: take_over simp_thms)
      moreover have "dispatch i m L = Some (?L\<lparr>wpool := q\<rparr>)" using True f s by (simp add: dispatch_def Let_def)
      ultimately show ?thesis by (fastforce simp: serves_def same_mode_def)
    qed
  next
    case False
    let ?f = "\<lambda>c. stream_start (c\<lparr>state := CONN_STATE_STREAMING\<rparr>)"
    let ?L = "with_conn i ?f L"
    have inv1: "conns_inv base tk (dctx ?L) fs (ring_owners (lring ?L) + P) {#i#}"
      using with_conn_inv [OF inv, of ?f] by (simp add: stable_buf stream_start_def)
    have "handled base tk P {#} ?L (start_streaming i ?L)"
      by (rule start_streaming_ok [OF inv1])
        (use c act in \<open>auto simp: idle_conn_def has_client_def stream_start_def\<close>)
    then have "handled base tk P {#} L (dispatch i m L)"
      using False by (simp add: dispatch_def handled_trans same_mode_def)
    then show ?thesis using handled_serves [OF _ p] by simp
  qed
qed

lemma stable_parse: "stable (\<lambda>c. parse_handoff (c\<lparr>state := s\<rparr>))"
proof -
  have "buf_ok (parse_handoff (c\<lparr>state := s\<rparr>))" if "buf_ok c" for c
    using that
    by (auto simp: parse_handoff_def buf_ok_def dest: handoff_parse_length split: option.splits prod.splits)
  then show ?thesis by (simp add: stable_def parse_handoff_def split: option.split prod.split)
qed

lemma parse_fields [simp]:
  "idle_conn (parse_handoff c) = idle_conn c" "has_client (parse_handoff c) = has_client c"
  "state (parse_handoff c) = state c"
  by (simp_all add: parse_handoff_def idle_conn_def has_client_def split: option.split prod.split)

lemma recv_ok:
  fixes a :: answers
  defines "e \<equiv> handoff_extract_fd (a_msg a)"
  assumes inv: "conns_inv (if res < 0 \<or> e < 0 then base else insert e base) tk (dctx L) fs
      (ring_owners (lring L) + P) {#i#}" and fresh: "e \<notin> base"
    and c: "owner_ok [] (conn L i) Receiving" "tk i = []"
    and p: "pool_owners (wpool L) ws ds P" and m: "fresh_item (a_work a) (wpool L)"
  shows "serves base tk ws ds L (handle_recv_fd i res a L)"
proof (cases "res < 0")
  case True
  then show ?thesis
    using handled_serves [OF handled_fail p] inv by (simp add: handle_recv_fd_def)
next
  case ge: False
  let ?L1 = "with_conn i (handoff_len_update (\<lambda>_. nat res)) L"
  have act: "i < length (connections (dctx L))" using inv_hole_active [OF inv] by simp
  have inv1: "conns_inv (if e < 0 then base else insert e base) tk (dctx ?L1) fs (ring_owners (lring ?L1) + P) {#i#}"
    using with_conn_inv [OF inv, of "handoff_len_update (\<lambda>_. nat res)"] ge by (simp add: stable_buf)
  show ?thesis
  proof (cases "e < 0")
    case True
    have "handled base tk P {#} L (fail_connection i ?L1)"
      by (rule handled_trans [OF handled_fail]) (use inv1 True in \<open>auto simp: same_mode_def\<close>)
    then show ?thesis using handled_serves [OF _ p] ge True by (simp add: handle_recv_fd_def e_def Let_def)
  next
    case e: False
    let ?f = "client_fd_update (\<lambda>_. e)" and ?g = "unix_fd_update (\<lambda>_. -1)"
    let ?L2 = "with_conn i ?f ?L1"
    let ?L3 = "with_conn i ?g (?L2\<lparr>dctx := close_fd (unix_fd (conn ?L2 i)) (dctx ?L2)\<rparr>)"
    let ?c2 = "?f (handoff_len_update (\<lambda>_. nat res) (conn L i))"
    have at2: "conn ?L2 i = ?c2" using act by (simp add: with_conn_twice)
    have core2: "conns_core tk (dctx ?L2) fs (ring_owners (lring ?L2) + P) {#i#}"
      using inv1 unfolding with_conn_def by (auto simp: conns_inv_def intro!: conns_core_upd)
    have fds2: "fds_ok base (dctx ?L2)"
    proof -
      have "conn_fds (?f (conn ?L1 i)) = insert e (conn_fds (conn ?L1 i))"
        using c act e by (auto simp: conn_fds_def)
      moreover have "fds_ok (insert e base) (dctx ?L1)" using inv1 e by (simp add: conns_inv_def)
      ultimately have "fds_ok base (upd_conn i ?f (dctx ?L1))"
        using fresh act by (intro fds_adopt) (auto simp: with_conn_def)
      then show ?thesis by (simp add: with_conn_def)
    qed
    let ?u = "unix_fd (conn L i)"
    have u: "unix_fd (conn ?L2 i) = ?u" "0 \<le> ?u" "client_fd (conn L i) = -1" using at2 c by auto
    have "e \<noteq> ?u"
    proof
      assume "e = ?u"
      then have "e \<in> conn_fds (conn L i)" using u by (simp add: conn_fds_def)
      then show False using inv act ge e by (auto simp: conns_inv_def fds_ok_def)
    qed
    then have "conn_fds (?g (conn ?L2 i)) = conn_fds (conn ?L2 i) - {?u}" "?u \<in> conn_fds (conn ?L2 i)"
      using e u(2) unfolding at2 by (auto simp: conn_fds_def)
    then have fds3: "fds_ok base (dctx ?L3)"
      using fds_release [OF fds2, of i ?u ?g] act u(1) by (simp add: with_conn_def)
    have inv3: "conns_inv base tk (dctx ?L3) fs (ring_owners (lring ?L3) + P) {#i#}"
    proof -
      have "conns_core tk (upd_conn i ?g (close_fd (unix_fd (conn ?L2 i)) (dctx ?L2))) fs (ring_owners (lring ?L2) + P) {#i#}"
        by (rule conns_core_upd) (use core2 in auto)
      then show ?thesis using fds3 by (simp add: conns_inv_def with_conn_def)
    qed
    have mode3: "same_mode L ?L3" "wpool ?L3 = wpool L" by (simp_all add: same_mode_def close_fd_def)
    have go: "handle_recv_fd i res a L = (if handoff_validate_socket (a_sotype a) < 0 then fail_connection i ?L3
        else dispatch i (a_work a) (with_conn i (\<lambda>c. parse_handoff (c\<lparr>state := CONN_STATE_PARSING\<rparr>)) ?L3))"
      using ge e unfolding handle_recv_fd_def e_def Let_def by simp
    show ?thesis
    proof (cases "handoff_validate_socket (a_sotype a) < 0")
      case True
      then show ?thesis using go handled_serves [OF handled_trans [OF handled_fail [OF inv3] mode3] p] by simp
    next
      case False
      let ?h = "\<lambda>c. parse_handoff (c\<lparr>state := CONN_STATE_PARSING\<rparr>)"
      let ?L4 = "with_conn i ?h ?L3"
      have inv4: "conns_inv base tk (dctx ?L4) fs (ring_owners (lring ?L4) + P) {#i#}"
        using with_conn_inv [OF inv3 stable_parse] by simp
      have at3: "conn ?L3 i = ?g ?c2" using act at2 by (simp add: with_conn_def close_fd_def)
      have "conn ?L4 i = ?h (?g ?c2)" using act at3 by (simp add: with_conn_def close_fd_def)
      moreover have "idle_conn ((?g ?c2)\<lparr>state := CONN_STATE_PARSING\<rparr>)" "has_client ((?g ?c2)\<lparr>state := CONN_STATE_PARSING\<rparr>)"
        using c e by (simp_all add: idle_conn_def has_client_def)
      ultimately have "idle_conn (conn ?L4 i)" "has_client (conn ?L4 i)" by (simp_all only: parse_fields)
      from dispatch_ok [OF inv4 this c(2), of ws ds "a_work a"] p m mode3
      have "serves base tk ws ds ?L4 (dispatch i (a_work a) ?L4)" by simp
      then have "serves base tk ws ds L (dispatch i (a_work a) ?L4)"
        by (rule serves_trans) (use mode3 in \<open>simp add: same_mode_def\<close>)
      then show ?thesis using go False by simp
    qed
  qed
qed

end
