(* ===== verification/Loop_Returns.thy ===== *)
theory Loop_Returns
  imports Loop_Handlers
begin

text \<open>
  Every handler returns, whatever completions arrive and in whatever order: the only search without a
  bound of its own is that of the dirty list, and this build puts nothing on it. The condition is
  weaker than the invariant of \<open>Loop_Owners\<close> and survives the failures that break it.
\<close>

definition link_in_range :: "nat \<Rightarrow> nat option \<Rightarrow> bool" where
  "link_in_range n v \<longleftrightarrow> (case v of None \<Rightarrow> True | Some i \<Rightarrow> i < n)"

definition calm :: "nat \<Rightarrow> daemon_ctx \<Rightarrow> bool" where
  "calm n ctx \<longleftrightarrow> length (connections ctx) = n \<and> max_connections ctx = int n \<and> link_in_range n (free_list ctx)
     \<and> (\<forall>c \<in> set (connections ctx). \<not> on_dirty_list c \<and> link_in_range n (next_free c))"

definition ring_in :: "nat \<Rightarrow> nat list \<Rightarrow> pool_ctx \<Rightarrow> bool" where
  "ring_in n cs p \<longleftrightarrow> ring_conns p cs \<and> set cs \<subseteq> {..<n}"

definition calm_loop :: "nat \<Rightarrow> nat list \<Rightarrow> loop \<Rightarrow> bool" where
  "calm_loop n cs L \<longleftrightarrow> calm n (dctx L) \<and> ring_in n cs (wpool L)"

definition returns :: "nat \<Rightarrow> nat list \<Rightarrow> loop \<Rightarrow> loop option \<Rightarrow> bool" where
  "returns n cs L r \<longleftrightarrow> (\<exists>L'. r = Some L' \<and> same_mode L L' \<and> calm_loop n cs L')"

lemma same_mode_refl [simp]: "same_mode L L"
  by (simp add: same_mode_def)

lemma same_mode_trans: "same_mode L L1 \<Longrightarrow> same_mode L1 L2 \<Longrightarrow> same_mode L L2"
  by (auto simp: same_mode_def)

lemma returns_trans: "returns n cs L1 r \<Longrightarrow> same_mode L L1 \<Longrightarrow> returns n cs L r"
  unfolding returns_def by (metis same_mode_trans)

lemma returns_Some [simp]: "same_mode L L' \<Longrightarrow> calm_loop n cs L' \<Longrightarrow> returns n cs L (Some L')"
  by (simp add: returns_def)

section \<open>Changes that keep the condition\<close>

definition keeps_calm :: "nat \<Rightarrow> (connection \<Rightarrow> connection) \<Rightarrow> bool" where
  "keeps_calm n f \<longleftrightarrow> (\<forall>c. \<not> on_dirty_list c \<and> link_in_range n (next_free c)
     \<longrightarrow> \<not> on_dirty_list (f c) \<and> link_in_range n (next_free (f c)))"

lemma calm_upd:
  assumes "calm n ctx" "keeps_calm n f"
  shows "calm n (upd_conn i f ctx)"
proof (cases "i < length (connections ctx)")
  case True
  then have "f (connections ctx ! i) \<in> f ` set (connections ctx)" by simp
  then have "set (connections (upd_conn i f ctx)) \<subseteq> f ` set (connections ctx) \<union> set (connections ctx)"
    using set_update_subset_insert [of "connections ctx" i] by (auto simp: upd_conn_def)
  then show ?thesis using assms unfolding calm_def keeps_calm_def by fastforce
next
  case False
  then show ?thesis using assms(1) by (simp add: upd_conn_def list_update_beyond)
qed

lemma keeps_calm_frame [intro]:
  "(\<And>c. on_dirty_list (f c) = on_dirty_list c \<and> next_free (f c) = next_free c) \<Longrightarrow> keeps_calm n f"
  by (simp add: keeps_calm_def)

lemma calm_close_fd [simp]: "calm n (close_fd fd ctx) = calm n ctx"
  by (simp add: close_fd_def calm_def)

lemma calm_free:
  assumes "calm n ctx" "i < n"
  shows "calm n (conn_free i ctx)"
proof -
  have close: "calm n (conn_close_fds i ctx)"
    using assms(1) by (auto simp: conn_close_fds_def Let_def keeps_calm_frame intro!: calm_upd)
  then have "calm n (upd_conn i conn_reset (conn_close_fds i ctx))"
    by (rule calm_upd) (simp add: keeps_calm_def conn_reset_def)
  then have "calm n (upd_conn i (next_free_update (\<lambda>_. free_list (upd_conn i conn_reset (conn_close_fds i ctx))))
      (upd_conn i conn_reset (conn_close_fds i ctx)))"
    by (rule calm_upd) (use close in \<open>simp add: keeps_calm_def calm_def\<close>)
  then show ?thesis using assms(2) by (simp add: conn_free_def Let_def calm_def link_in_range_def)
qed

lemma calm_on_dirty: "calm n ctx \<Longrightarrow> i < n \<Longrightarrow> \<not> on_dirty_list (conn_at ctx i)"
  by (auto simp: calm_def conn_at_def)

lemma cleanup_returns:
  assumes "calm_loop n cs L" "i < n"
  shows "returns n cs L (cleanup_connection i L)"
proof -
  have "\<not> on_dirty_list (conn L i)" using assms unfolding calm_loop_def by (blast dest: calm_on_dirty)
  then have "cleanup_connection i L = Some (L\<lparr>dctx := conn_free i (dctx L)\<rparr>)"
    by (simp add: cleanup_connection_def daemon_unmark_connection_dirty_def)
  then show ?thesis using assms by (simp add: calm_loop_def calm_free same_mode_def)
qed

lemma count_calm [simp]:
  "calm_loop n cs (count_failed L) = calm_loop n cs L"
  "calm_loop n cs (count_completed i L) = calm_loop n cs L"
  by (simp_all add: count_failed_def count_completed_def calm_loop_def calm_def)

lemma count_mode [simp]: "same_mode L (count_failed L)" "same_mode L (count_completed i L)"
  by (simp_all add: same_mode_def)

lemma fail_returns: "calm_loop n cs L \<Longrightarrow> i < n \<Longrightarrow> returns n cs L (fail_connection i L)"
  unfolding fail_connection_def by (rule returns_trans [OF cleanup_returns]) simp_all

lemma with_conn_keeps: "calm_loop n cs L \<Longrightarrow> keeps_calm n f \<Longrightarrow> calm_loop n cs (with_conn i f L)"
  by (simp add: calm_loop_def calm_upd with_conn_def)

lemma with_conn_calm [intro!]:
  "(\<And>c. on_dirty_list (f c) = on_dirty_list c \<and> next_free (f c) = next_free c) \<Longrightarrow>
     calm_loop n cs L \<Longrightarrow> calm_loop n cs (with_conn i f L)"
  by (rule with_conn_keeps) (auto intro: keeps_calm_frame)

lemma with_conn_mode [simp]: "same_mode L (with_conn i f L)"
  by (simp add: same_mode_def)

lemma lring_calm [simp]: "calm_loop n cs (L\<lparr>lring := r\<rparr>) = calm_loop n cs L"
  by (simp add: calm_loop_def)

section \<open>Writes\<close>

lemma submit_write_returns:
  assumes calm: "calm_loop n cs L" "i < n" and f: "refused = count_failed \<or> refused = count_completed i"
  shows "\<exists>b L'. submit_write i buf refused L = Some (b, L') \<and> same_mode L L' \<and> calm_loop n cs L'"
proof -
  obtain rc r1 where w: "ring_submit_write (conn L i) buf (lring L) = (rc, r1)" by fastforce
  let ?L1 = "L\<lparr>lring := r1\<rparr>"
  obtain rc2 r2 where t: "ring_submit_linked_timeout (conn ?L1 i) (write_timeout_ms (dctx ?L1)) r1 = (rc2, r2)"
    by fastforce
  let ?L2 = "?L1\<lparr>lring := r2\<rparr>"
  have m1: "same_mode L ?L1"
    using with_flush_cases [OF w [unfolded ring_submit_write_def]]
      ring_ok_submit [OF _ w [unfolded ring_submit_write_def]] by (auto simp: same_mode_def)
  have m2: "same_mode L ?L2"
    using m1 linked_timeout_cases [OF t] ring_ok_link [OF _ t] by (auto simp: same_mode_def)
  have "returns n cs L (cleanup_connection i (refused ?L1))"
    by (rule returns_trans [OF cleanup_returns]) (use calm f m1 in \<open>auto intro: same_mode_trans\<close>)
  moreover have "returns n cs L (fail_connection i ?L2)"
    by (rule returns_trans [OF fail_returns]) (use calm m2 in auto)
  ultimately show ?thesis using w t m2 calm by (auto simp: submit_write_def returns_def Let_def)
qed

lemma write_returns:
  assumes "calm_loop n cs L" "i < n" "refused = count_failed \<or> refused = count_completed i"
  shows "returns n cs L (map_option snd (submit_write i buf refused L))"
  using submit_write_returns [OF assms, of buf] by (auto simp: returns_def)

lemma start_streaming_returns:
  assumes "calm_loop n cs L" "i < n"
  shows "returns n cs L (start_streaming i L)"
  unfolding start_streaming_def
  by (rule returns_trans [OF write_returns]) (use assms in auto)

lemma stream_next_links:
  "on_dirty_list (snd (stream_next_message c)) = on_dirty_list c"
  "next_free (snd (stream_next_message c)) = next_free c"
  by (simp_all add: stream_next_message_def Let_def split: option.split)

lemma send_next_returns:
  assumes calm: "calm_loop n cs L" "i < n"
  shows "returns n cs L (send_next i mem L)"
proof -
  have keep: "keeps_calm n (\<lambda>_. f (snd (stream_next_message (conn L i))))" if "keeps_calm n f" for f
  proof -
    have "\<not> on_dirty_list (conn L i) \<and> link_in_range n (next_free (conn L i))"
      using calm by (auto simp: calm_loop_def calm_def conn_at_def)
    then show ?thesis using that by (simp add: keeps_calm_def stream_next_links)
  qed
  obtain m c where nxt: "stream_next_message (conn L i) = (m, c)" by fastforce
  show ?thesis
  proof (cases m)
    case None
    then show ?thesis using nxt calm keep [of "\<lambda>c. c\<lparr>state := CONN_STATE_CLOSING, write_len := length SSE_DONE, write_offset := 0\<rparr>"]
      by (auto simp: send_next_def keeps_calm_frame intro!: returns_trans [OF write_returns] with_conn_keeps)
  next
    case (Some msg)
    let ?L1 = "with_conn i (\<lambda>_. c) L"
    have L1: "calm_loop n cs ?L1" "same_mode L ?L1"
      using nxt with_conn_keeps [OF calm(1) keep [of "\<lambda>c. c"], of i] by (simp_all add: keeps_calm_frame)
    have bad: "returns n cs L (fail_connection i ?L1)"
      by (rule returns_trans [OF fail_returns]) (use L1 calm in auto)
    have good: "returns n cs L (map_option snd (submit_write i t count_failed
        (with_conn i (\<lambda>c. c\<lparr>write_buf := Some t, write_len := length t, write_offset := 0\<rparr>) ?L1)))" for t
      by (rule returns_trans [OF write_returns]) (use L1 calm in \<open>auto simp: same_mode_def\<close>)
    show ?thesis using nxt Some bad good by (simp add: send_next_def Let_def split: option.split)
  qed
qed

lemma handle_write_returns:
  assumes calm: "calm_loop n cs L" "i < n"
  shows "returns n cs L (handle_write i res mem L)"
proof -
  let ?L1 = "with_conn i (\<lambda>c. c\<lparr>bytes_sent := bytes_sent c + nat res, write_offset := write_offset c + nat res\<rparr>) L"
  let ?L2 = "with_conn i (\<lambda>c. c\<lparr>write_len := 0, write_offset := 0, write_buf := None\<rparr>) ?L1"
  have c: "calm_loop n cs ?L1" "calm_loop n cs ?L2" using calm by auto
  have m: "same_mode L ?L1" "same_mode L ?L2" by (simp_all add: same_mode_def)
  have "returns n cs L (fail_connection i L)" using calm by (rule fail_returns)
  moreover have "returns n cs L (fail_connection i ?L1)"
    by (rule returns_trans [OF fail_returns [OF c(1) calm(2)] m(1)])
  moreover have "returns n cs L (map_option snd (submit_write i b count_failed ?L1))" for b
    by (rule returns_trans [OF write_returns m(1)]) (use c calm in auto)
  moreover have "returns n cs L (cleanup_connection i (count_completed i ?L2))"
    by (rule returns_trans [OF cleanup_returns same_mode_trans [OF m(2)]]) (use c calm in auto)
  moreover have "returns n cs L (send_next i mem ?L2)"
    by (rule returns_trans [OF send_next_returns [OF c(2) calm(2)] m(2)])
  ultimately show ?thesis
    unfolding handle_write_def Let_def by (simp split: option.split)
qed

lemma start_async_write_returns:
  assumes calm: "calm_loop n cs L" "i < n"
  shows "returns n cs L (start_async_write i L)"
proof -
  have go: "returns n cs L (case submit_write i d count_failed L of
      None \<Rightarrow> None
    | Some (submitted, L1) \<Rightarrow>
        if \<not> submitted then Some L1
        else let L2 = with_conn i (\<lambda>c. c\<lparr>async_write_buf := w\<rparr>) L1 in Some (L2\<lparr>lring := ring_submit (lring L2)\<rparr>))"
    for d w
  proof -
    obtain b L1 where s: "submit_write i d count_failed L = Some (b, L1)" "same_mode L L1" "calm_loop n cs L1"
      using submit_write_returns [OF calm, of count_failed d] by auto
    let ?L2 = "with_conn i (\<lambda>c. c\<lparr>async_write_buf := w\<rparr>) L1"
    have "same_mode L1 (?L2\<lparr>lring := ring_submit (lring ?L2)\<rparr>)"
      by (simp add: same_mode_def ring_submit_def ring_ok_def)
    moreover have "calm_loop n cs ?L2" using s(3) by auto
    ultimately show ?thesis using s same_mode_trans by (auto simp: Let_def)
  qed
  show ?thesis
    unfolding start_async_write_def using calm go by (auto split: option.split)
qed

lemma handle_async_write_returns:
  assumes calm: "calm_loop n cs L" "i < n"
  shows "returns n cs L (handle_async_write i res L)"
proof -
  have "returns n cs L (fail_connection i L)" using calm by (rule fail_returns)
  moreover have "returns n cs L (start_async_write i (with_conn i (\<lambda>c. c\<lparr>bytes_sent := bytes_sent c + nat res, async_write_buf := w\<rparr>) L))" for w
    by (rule returns_trans [OF start_async_write_returns]) (use calm in auto)
  moreover have "returns n cs L (cleanup_connection i (count_completed i
      (with_conn i (\<lambda>c. c\<lparr>bytes_sent := bytes_sent c + nat res, async_write_buf := w\<rparr>) L)))" for w
    by (rule returns_trans [OF cleanup_returns same_mode_trans [OF with_conn_mode count_mode(2)]])
      (use calm in auto)
  moreover have "returns n cs L (Some (with_conn i (\<lambda>c. c\<lparr>bytes_sent := bytes_sent c + nat res, async_write_buf := w\<rparr>) L))" for w
    by (rule returns_Some [OF with_conn_mode with_conn_calm]) (use calm in auto)
  ultimately show ?thesis unfolding handle_async_write_def Let_def by (simp only: if_split simp_thms)
qed

section \<open>Connections from Apache and from the thread pool\<close>

lemma calm_alloc:
  assumes "calm n ctx" "conn_alloc m ctx = (r, c)"
  shows "calm n c \<and> (\<forall>i. r = Some i \<longrightarrow> i < n) \<and> use_thread_pool c = use_thread_pool ctx"
proof (cases "free_list ctx")
  case None
  then show ?thesis using assms by (auto simp: conn_alloc_def)
next
  case (Some i)
  let ?c1 = "upd_conn i (next_free_update (\<lambda>_. None)) (ctx\<lparr>free_list := next_free (conn_at ctx i)\<rparr>)"
  have i: "i < n" using assms(1) Some by (simp add: calm_def link_in_range_def)
  have "link_in_range n (next_free (conn_at ctx i))" using assms(1) i by (auto simp: calm_def conn_at_def)
  then have "calm n (ctx\<lparr>free_list := next_free (conn_at ctx i)\<rparr>)" using assms(1) by (simp add: calm_def)
  then have c1: "calm n ?c1" by (rule calm_upd) (simp add: keeps_calm_def link_in_range_def)
  have at1: "conn_at ?c1 i = (conn_at ctx i)\<lparr>next_free := None\<rparr>" using i assms(1) by (simp add: calm_def)
  show ?thesis
  proof (cases "attach_handoff_buf m (conn_at ?c1 i)")
    case None
    have "calm n (upd_conn i (next_free_update (\<lambda>_. free_list ?c1)) ?c1)"
      by (rule calm_upd [OF c1]) (use c1 in \<open>simp add: keeps_calm_def calm_def\<close>)
    then show ?thesis using assms(2) Some None i
      by (auto simp: conn_alloc_def Let_def calm_def link_in_range_def upd_conn_def)
  next
    case (Some d)
    then have "on_dirty_list d = on_dirty_list (conn_at ctx i)" "next_free d = None"
      unfolding at1 by (auto simp: attach_handoff_buf_def split: option.splits)
    then have "calm n (upd_conn i (\<lambda>_. d) ?c1)"
      using calm_on_dirty [OF assms(1) i] by (intro calm_upd [OF c1]) (simp add: keeps_calm_def link_in_range_def)
    then show ?thesis using assms(2) Some \<open>free_list ctx = Some i\<close> i
      by (auto simp: conn_alloc_def Let_def calm_def upd_conn_def)
  qed
qed

lemma submit_ring_in:
  "ring_in n cs p \<Longrightarrow> pool_submit m c p = (rc, p') \<Longrightarrow> ring_in n cs p'"
  using ring_frame(2) by (simp add: ring_in_def)

lemma dispatch_returns:
  assumes calm: "calm_loop n cs L" "i < n"
  shows "returns n cs L (dispatch i m L)"
proof -
  let ?L1 = "with_conn i (state_update (\<lambda>_. CONN_STATE_LLM_QUEUED)) L"
  obtain rc p where s: "pool_submit m i (wpool ?L1) = (rc, p)" by fastforce
  have c: "calm_loop n cs ?L1" using calm by auto
  have "returns n cs L (fail_connection i ?L1)"
    by (rule returns_trans [OF fail_returns [OF c calm(2)]]) simp
  moreover have "calm_loop n cs (?L1\<lparr>wpool := p\<rparr>)"
    using c submit_ring_in [OF _ s] by (simp add: calm_loop_def)
  then have "returns n cs L (Some (?L1\<lparr>wpool := p\<rparr>))" by (rule returns_Some [rotated]) (simp add: same_mode_def)
  moreover have "returns n cs L (start_streaming i (with_conn i (\<lambda>c. stream_start (c\<lparr>state := CONN_STATE_STREAMING\<rparr>)) L))"
    by (rule returns_trans [OF start_streaming_returns]) (use calm in \<open>auto simp: stream_start_def\<close>)
  ultimately show ?thesis using s by (simp add: dispatch_def Let_def)
qed

lemma handle_recv_returns:
  assumes calm: "calm_loop n cs L" "i < n"
  shows "returns n cs L (handle_recv_fd i res a L)"
proof -
  let ?L1 = "with_conn i (handoff_len_update (\<lambda>_. nat res)) L"
  let ?fd = "handoff_extract_fd (a_msg a)"
  let ?L2 = "with_conn i (client_fd_update (\<lambda>_. ?fd)) ?L1"
  let ?L3 = "with_conn i (unix_fd_update (\<lambda>_. -1)) (?L2\<lparr>dctx := close_fd (unix_fd (conn ?L2 i)) (dctx ?L2)\<rparr>)"
  let ?L4 = "with_conn i (\<lambda>c. parse_handoff (c\<lparr>state := CONN_STATE_PARSING\<rparr>)) ?L3"
  have c1: "calm_loop n cs ?L1" and c2: "calm_loop n cs ?L2" using calm by auto
  have "calm_loop n cs (?L2\<lparr>dctx := close_fd (unix_fd (conn ?L2 i)) (dctx ?L2)\<rparr>)" using c2 by (simp add: calm_loop_def)
  then have c3: "calm_loop n cs ?L3" by auto
  have "keeps_calm n (\<lambda>c. parse_handoff (c\<lparr>state := CONN_STATE_PARSING\<rparr>))"
    by (rule keeps_calm_frame) (simp add: parse_handoff_def split: option.split prod.split)
  with c3 have c4: "calm_loop n cs ?L4" by (rule with_conn_keeps)
  have "returns n cs L (fail_connection i L)" using calm by (rule fail_returns)
  moreover have "returns n cs L (fail_connection i ?L1)"
    by (rule returns_trans [OF fail_returns [OF c1 calm(2)]]) simp
  moreover have m3: "same_mode L ?L3" by (simp add: same_mode_def close_fd_def)
  then have "returns n cs L (fail_connection i ?L3)"
    by (rule returns_trans [OF fail_returns [OF c3 calm(2)]])
  moreover have "returns n cs L (dispatch i (a_work a) ?L4)"
    by (rule returns_trans [OF dispatch_returns [OF c4 calm(2)] same_mode_trans [OF m3]]) simp
  ultimately show ?thesis unfolding handle_recv_fd_def Let_def by simp
qed

lemma rearm_accept_sqes:
  "ring_owners (rearm_accept r) = ring_owners r \<and> refused_links (rearm_accept r) = refused_links r
     \<and> (ring_ok r \<longrightarrow> ring_ok (rearm_accept r))"
proof -
  have one: "ring_owners r' = ring_owners r \<and> refused_links r' = refused_links r \<and> (ring_ok r \<longrightarrow> ring_ok r')"
    if "ring_submit_accept r = (rc, r')" for rc r r'
    using submit_accept_cases [OF that] ring_ok_accept [OF _ that] by (auto simp: ring_owners_def sqe_owner_def)
  have many: "ring_owners (snd (accept_retries n rc r)) = ring_owners r
      \<and> refused_links (snd (accept_retries n rc r)) = refused_links r
      \<and> (ring_ok r \<longrightarrow> ring_ok (snd (accept_retries n rc r)))" for n rc r
  proof (induction n rc r rule: accept_retries.induct)
    case (2 n rc r)
    obtain rc' r' where s: "ring_submit_accept r = (rc', r')" by fastforce
    show ?case using "2.IH" [OF _ s [symmetric]] one [OF s] s by auto
  qed simp
  obtain rc' r' where s: "ring_submit_accept r = (rc', r')" by fastforce
  show ?thesis using one [OF s] many [of 3 rc' r'] s by (auto simp: rearm_accept_def)
qed

lemma handle_accept_returns:
  assumes calm: "calm_loop n cs L"
  shows "returns n cs L (handle_accept m fd multi L)"
proof -
  define L1 where "L1 = (if \<not> multi \<and> \<not> shutdown_requested (dctx L) then L\<lparr>lring := rearm_accept (lring L)\<rparr> else L)"
  have L1: "calm_loop n cs L1" "same_mode L L1"
    using calm rearm_accept_sqes by (auto simp: L1_def same_mode_def)
  show ?thesis
  proof (cases "fd < 0")
    case True
    then show ?thesis using L1 unfolding handle_accept_def L1_def [symmetric] Let_def by simp
  next
    case False
    obtain r c where a: "conn_alloc m (dctx L1) = (r, c)" by fastforce
    have c: "calm n c" "\<And>i. r = Some i \<Longrightarrow> i < n" "use_thread_pool c = use_thread_pool (dctx L1)"
      using calm_alloc [OF _ a] L1 by (auto simp: calm_loop_def)
    show ?thesis
    proof (cases r)
      case None
      have "calm_loop n cs (L1\<lparr>dctx := close_fd fd c\<rparr>)" using c L1 by (simp add: calm_loop_def)
      moreover have "same_mode L (L1\<lparr>dctx := close_fd fd c\<rparr>)" using c L1 by (simp add: same_mode_def close_fd_def)
      ultimately show ?thesis using False a None unfolding handle_accept_def L1_def [symmetric] Let_def by simp
    next
      case (Some i)
      define c1 where "c1 = upd_conn i (\<lambda>c. c\<lparr>unix_fd := fd, state := CONN_STATE_RECEIVING_FD\<rparr>) c"
      define c2 where "c2 = (if benchmark_mode c1 then c1\<lparr>total_started := total_started c1 + 1\<rparr> else c1)"
      have "calm n c1" unfolding c1_def by (rule calm_upd [OF c(1)]) auto
      then have c2: "calm n c2" "use_thread_pool c2 = use_thread_pool c"
        by (simp_all add: c2_def calm_def) (simp add: c1_def upd_conn_def)
      obtain rc r1 where s: "ring_submit_recvmsg (conn_at c2 i) (lring L1) = (rc, r1)" by fastforce
      let ?L2 = "L1\<lparr>dctx := c2, lring := r1\<rparr>"
      have c2': "calm_loop n cs ?L2" using L1 c2 by (simp add: calm_loop_def)
      have m2: "same_mode L ?L2"
        using L1 c c2 with_flush_cases [OF s [unfolded ring_submit_recvmsg_def]]
          ring_ok_submit [OF _ s [unfolded ring_submit_recvmsg_def]] by (auto simp: same_mode_def)
      have "returns n cs L (cleanup_connection i ?L2)"
        by (rule returns_trans [OF cleanup_returns [OF c2' c(2) [OF Some]] m2])
      moreover have "handle_accept m fd multi L = (if rc < 0 then cleanup_connection i ?L2 else Some ?L2)"
        using False a Some s unfolding handle_accept_def L1_def [symmetric] Let_def c2_def c1_def by simp
      ultimately show ?thesis using c2' m2 by simp
    qed
  qed
qed

lemma handle_completion_returns:
  assumes calm: "calm_loop n cs L" "i < n"
  shows "returns n cs L (handle_completion i L)"
proof -
  have "returns n cs L (start_streaming i L)" using calm by (rule start_streaming_returns)
  moreover have "returns n cs L (cleanup_connection i (count_completed i L))"
    by (rule returns_trans [OF cleanup_returns]) (use calm in simp_all)
  moreover have "returns n cs L (fail_connection i L)" using calm by (rule fail_returns)
  moreover have "returns n cs L (Some L)" using calm by simp
  ultimately show ?thesis unfolding handle_completion_def by simp
qed

lemma drain_returns: "calm_loop n cs L \<Longrightarrow> returns n [] L (drain_completions L)"
proof (induction cs arbitrary: L)
  case Nil
  then have "pool_get_completion (wpool L) = (None, wpool L)"
    using get_completion_ring(1) by (simp add: calm_loop_def ring_in_def)
  then show ?case using Nil by (subst drain_completions.simps) simp
next
  case (Cons c cs)
  have r: "ring_conns (wpool L) (c # cs)" "c < n" "set cs \<subseteq> {..<n}"
    using Cons.prems by (auto simp: calm_loop_def ring_in_def)
  obtain p where p: "pool_get_completion (wpool L) = (Some c, p)" "ring_conns p cs"
    using get_completion_ring(2) [OF r(1) refl] by auto
  have "calm_loop n cs (L\<lparr>wpool := p\<rparr>)" using Cons.prems p r by (simp add: calm_loop_def ring_in_def)
  from handle_completion_returns [OF this r(2)] obtain L1 where L1:
    "handle_completion c (L\<lparr>wpool := p\<rparr>) = Some L1" "same_mode (L\<lparr>wpool := p\<rparr>) L1" "calm_loop n cs L1"
    by (auto simp: returns_def)
  have "same_mode L L1" using L1(2) by (simp add: same_mode_def)
  with Cons.IH [OF L1(3)] have "returns n [] L (drain_completions L1)" by (rule returns_trans)
  then show ?case using p L1(1) by (subst drain_completions.simps) simp
qed

lemma eventfd_returns: "calm_loop n cs L \<Longrightarrow> returns n [] L (handle_eventfd L)"
  unfolding handle_eventfd_def
  by (rule returns_trans [OF drain_returns])
    (auto simp: calm_loop_def ring_in_def ring_conns_def same_mode_def)

lemma conn_get_range: "calm n ctx \<Longrightarrow> conn_get k ctx = Some i \<Longrightarrow> i < n"
  by (auto simp: conn_get_def calm_def split: if_splits)

lemma process_cqe_returns:
  assumes calm: "calm_loop n cs L"
  shows "\<exists>ds. returns n ds L (process_cqe a e L)"
proof -
  obtain p cid where u: "ring_unpack_data (cqe_data e) = (p, cid)" by fastforce
  have id: "i < n" if "conn_get (unat cid) (dctx L) = Some i" for i
    using calm that conn_get_range unfolding calm_loop_def by blast
  have keep: "\<exists>ds. returns n ds L (Some L)" using calm by (intro exI [of _ cs]) simp
  obtain L1 where L1: "handle_eventfd L = Some L1" "same_mode L L1" "calm_loop n [] L1"
    using eventfd_returns [OF calm] by (auto simp: returns_def)
  let ?L2 = "if use_thread_pool (dctx L1) \<and> \<not> shutdown_requested (dctx L1)
    then L1\<lparr>lring := snd (ring_submit_eventfd_read pool_eventfd (lring L1))\<rparr> else L1"
  have "same_mode L1 ?L2"
  proof -
    obtain rc r where s: "ring_submit_eventfd_read pool_eventfd (lring L1) = (rc, r)" by fastforce
    from with_flush_cases [OF s [unfolded ring_submit_eventfd_read_def]]
      ring_ok_submit [OF _ s [unfolded ring_submit_eventfd_read_def]] s
    show ?thesis by (simp add: same_mode_def)
  qed
  then have ev: "\<exists>ds. returns n ds L (Some ?L2)"
    using L1 by (intro exI [of _ "[]"] returns_Some) (auto intro: same_mode_trans)
  have "\<exists>ds. returns n ds L (handle_accept m fd multi L)" for m fd multi
    using handle_accept_returns [OF calm] by blast
  moreover have "\<exists>ds. returns n ds L (handle_recv_fd i res a L)" if "i < n" for i res
    using handle_recv_returns [OF calm that] by blast
  moreover have "\<exists>ds. returns n ds L (handle_async_write i res L)" if "i < n" for i res
    using handle_async_write_returns [OF calm that] by blast
  moreover have "\<exists>ds. returns n ds L (handle_write i res mem L)" if "i < n" for i res mem
    using handle_write_returns [OF calm that] by blast
  ultimately show ?thesis
    using keep ev L1(1) id unfolding process_cqe_def u prod.case Let_def
    by (auto split: option.split op_type.split)
qed

end
