(* ===== verification/Loop_Steps.thy ===== *)
theory Loop_Steps
  imports Loop_Returns
begin

text \<open>
  The event loop, the kernel and the workers as one transition system, and its invariant.
\<close>

section \<open>Accepting\<close>

lemma alloc_ok:
  assumes inv: "conns_inv base tk ctx fs own {#}" and a: "conn_alloc m ctx = (r, c)"
  shows "case r of
      None \<Rightarrow> c = ctx
    | Some i \<Rightarrow> \<exists>gs. fs = i # gs \<and> conns_inv base tk c gs own {#i#} \<and> idle_conn (conn_at c i)
        \<and> unix_fd (conn_at c i) = -1 \<and> client_fd (conn_at c i) = -1
        \<and> use_thread_pool c = use_thread_pool ctx"
proof -
  have pool: "pool_ok ctx fs" using inv by (simp add: conns_defs)
  show ?thesis
  proof (cases fs)
    case Nil
    then show ?thesis using conn_alloc_empty [of ctx m] pool a by simp
  next
    case (Cons x gs)
    show ?thesis
    proof (cases "handoff_buf (conn_at ctx x) = None \<and> m = None")
      case True
      then show ?thesis using conn_alloc_no_memory [of ctx x gs] pool Cons a by simp
    next
      case False
      obtain c' where c': "conn_alloc m ctx = (Some x, c')" "pool_ok c' gs"
        "\<forall>i. i \<noteq> x \<longrightarrow> conn_at c' i = conn_at ctx i" "dirty_head c' = dirty_head ctx" "d_fds c' = d_fds ctx"
        using conn_alloc_ok [OF pool [unfolded Cons], of m] False by auto
      have r: "r = Some x" "c = c'" using a c'(1) by auto
      have x: "x < length (connections ctx)" "x \<notin> set gs" using pool Cons by (auto simp: pool_ok_def)
      let ?n1 = "upd_conn x (next_free_update (\<lambda>_. None)) (ctx\<lparr>free_list := next_free (conn_at ctx x)\<rparr>)"
      obtain y where y: "attach_handoff_buf m (conn_at ?n1 x) = Some y" "conn_at c x = y"
        "length (connections c) = length (connections ctx)" "dirty_tail c = dirty_tail ctx"
        "use_thread_pool c = use_thread_pool ctx"
        using a r x Cons pool
        by (auto simp: conn_alloc_def pool_ok_def Let_def upd_conn_def conn_at_def split: option.splits)
      have at: "conn_at ?n1 x = (conn_at ctx x)\<lparr>next_free := None\<rparr>" using x by simp
      have same: "idle_conn y = idle_conn (conn_at ctx x)" "unix_fd y = unix_fd (conn_at ctx x)"
        "client_fd y = client_fd (conn_at ctx x)" "on_dirty_list y = on_dirty_list (conn_at ctx x)"
        using y(1) unfolding at by (auto simp: attach_handoff_buf_def idle_conn_def split: option.splits)
      have free: "idle_conn (conn_at ctx x)" "unix_fd (conn_at ctx x) = -1" "client_fd (conn_at ctx x) = -1"
        using inv Cons by (auto simp: conns_defs pool_ok_def)
      have view: "conn_fds (conn_at c j) = conn_fds (conn_at ctx j)"
        "on_dirty_list (conn_at c j) = on_dirty_list (conn_at ctx j)"
        for j using c'(3) r y(2) same by (cases "j = x"; simp add: conn_fds_def)+
      have h: "d_fds c = d_fds ctx" "dirty_head c = dirty_head ctx" using c' r by auto
      have "fds_ok base c" using inv y(3) by (simp add: conns_defs fds_ok_def view h)
      moreover have "dirty_ok c []" using inv y(3,4) by (simp add: conns_defs dirty_ok_def view h)
      moreover have "image_mset fst own + {#x#} = mset_set ({..<length (connections c)} - set gs)"
      proof -
        have "{..<length (connections c)} - set gs = insert x ({..<length (connections c)} - set fs)"
          using x Cons y(3) by auto
        moreover have "x \<notin> {..<length (connections c)} - set fs" using Cons by simp
        moreover have "image_mset fst own = mset_set ({..<length (connections ctx)} - set fs)"
          using inv unfolding conns_inv_def conns_core_def by simp
        ultimately show ?thesis by (simp add: y(3))
      qed
      moreover have "owner_ok (tk j) (conn_at c j) w" if "(j, w) \<in># own" for j w
      proof -
        have "j \<notin> set fs" by (rule owner_active(2) [OF conns_inv_def [THEN iffD1, THEN conjunct1, OF inv] that])
        then have "conn_at c j = conn_at ctx j" using c'(3) r(2) Cons by auto
        moreover have "owner_ok (tk j) (conn_at ctx j) w"
          using inv that unfolding conns_inv_def conns_core_def by blast
        ultimately show ?thesis by (simp only:)
      qed
      moreover have "idle_conn (conn_at c j)" if "j \<in> set gs" for j
      proof -
        have "j \<noteq> x" "j \<in> set fs" using that x Cons by auto
        then have "conn_at c j = conn_at ctx j" "idle_conn (conn_at ctx j)"
          using c'(3) r(2) inv unfolding conns_inv_def conns_core_def by blast+
        then show ?thesis by (simp only:)
      qed
      moreover have "pool_ok c gs" "length (connections c) \<le> 2 ^ 32"
        using c'(2) r(2) y(3) inv by (simp_all add: conns_defs)
      ultimately have "conns_inv base tk c gs own {#x#}"
        unfolding conns_inv_def conns_core_def by blast
      then show ?thesis using r Cons y same free by simp
    qed
  qed
qed

lemma accept_ok:
  assumes inv: "conns_inv (if fd < 0 then base else insert fd base) tk (dctx L) fs (ring_owners (lring L) + P) {#}"
    and fd: "fd \<notin> base"
  shows "handled base tk P {#} L (handle_accept m fd multi L)"
proof -
  define L1 where "L1 = (if \<not> multi \<and> \<not> shutdown_requested (dctx L) then L\<lparr>lring := rearm_accept (lring L)\<rparr> else L)"
  have L1: "dctx L1 = dctx L" "wpool L1 = wpool L" "ring_owners (lring L1) = ring_owners (lring L)"
    "refused_links (lring L1) = refused_links (lring L)" "ring_ok (lring L) \<Longrightarrow> ring_ok (lring L1)"
    using rearm_accept_sqes by (auto simp: L1_def)
  have mode: "same_mode L L1" using L1 by (simp add: same_mode_def)
  show ?thesis
  proof (cases "fd < 0")
    case True
    then have "handle_accept m fd multi L = Some L1" by (simp add: handle_accept_def L1_def)
    then show ?thesis using inv True L1 mode by (auto simp: handled_def)
  next
    case False
    obtain r c where a: "conn_alloc m (dctx L1) = (r, c)" by fastforce
    have inv0: "conns_inv (insert fd base) tk (dctx L1) fs (ring_owners (lring L1) + P) {#}"
      using inv False L1 by simp
    note al = alloc_ok [OF inv0 a]
    show ?thesis
    proof (cases r)
      case None
      have "conns_inv base tk (close_fd fd (dctx L)) fs (ring_owners (lring L) + P) {#}"
        using inv0 fds_close_extra [OF _ fd] L1 by (simp add: conns_inv_def)
      moreover have "handle_accept m fd multi L = Some (L1\<lparr>dctx := close_fd fd c\<rparr>)" "c = dctx L"
        using False a None al L1 by (simp_all add: handle_accept_def L1_def [symmetric] Let_def)
      ultimately show ?thesis using L1 by (auto simp: handled_def same_mode_def close_fd_def)
    next
      case (Some i)
      then obtain gs where g: "fs = i # gs" "conns_inv (insert fd base) tk c gs (ring_owners (lring L1) + P) {#i#}"
        "idle_conn (conn_at c i)" "unix_fd (conn_at c i) = -1" "client_fd (conn_at c i) = -1"
        "use_thread_pool c = use_thread_pool (dctx L1)" using al by auto
      have act: "i < length (connections c)" using inv_hole_active [OF g(2)] by simp
      let ?f = "\<lambda>c. c\<lparr>unix_fd := fd, state := CONN_STATE_RECEIVING_FD\<rparr>"
      define c1 where "c1 = upd_conn i ?f c"
      define c2 where "c2 = (if benchmark_mode c1 then c1\<lparr>total_started := total_started c1 + 1\<rparr> else c1)"
      have "conns_core tk c1 gs (ring_owners (lring L1) + P) {#i#}"
        unfolding c1_def
        by (rule conns_core_upd) (use g(2) in \<open>auto simp: conns_inv_def\<close>)
      moreover have "fds_ok base c1" unfolding c1_def
        by (rule fds_adopt [OF _ act fd]) (use g False in \<open>auto simp: conns_inv_def conn_fds_def\<close>)
      ultimately have "conns_inv base tk c1 gs (ring_owners (lring L1) + P) {#i#}" by (simp add: conns_inv_def)
      then have inv2: "conns_inv base tk c2 gs (ring_owners (lring L1) + P) {#i#}"
        by (subst conns_inv_stats [of _ c1]) (simp_all add: c2_def)
      have at2: "conn_at c2 i = ?f (conn_at c i)" using act by (simp add: c2_def c1_def conn_at_def upd_conn_def)
      have up: "use_thread_pool c2 = use_thread_pool (dctx L)" using g(6) L1 by (simp add: c2_def c1_def upd_conn_def)
      obtain rc r1 where s: "ring_submit_recvmsg (conn_at c2 i) (lring L1) = (rc, r1)" by fastforce
      note s_cases = with_flush_cases [OF s [unfolded ring_submit_recvmsg_def]]
      let ?L2 = "L1\<lparr>dctx := c2, lring := r1\<rparr>"
      have go: "handle_accept m fd multi L = (if rc < 0 then cleanup_connection i ?L2 else Some ?L2)"
        using False a Some s unfolding handle_accept_def L1_def [symmetric] Let_def c2_def c1_def by simp
      have mode2: "same_mode L ?L2" "wpool ?L2 = wpool L"
        using up s_cases L1 ring_ok_submit [OF _ s [unfolded ring_submit_recvmsg_def]] by (auto simp: same_mode_def)
      show ?thesis
      proof (cases "rc < 0")
        case True
        then have "ring_sqes r1 = ring_sqes (lring L1)" using s_cases by auto
        then have "conns_inv base tk (dctx ?L2) gs (ring_owners (lring ?L2) + P) {#i#}"
          using inv2 by (simp add: ring_owners_def)
        from handled_trans [OF handled_cleanup [OF this] mode2] go True show ?thesis by simp
      next
        case ok: False
        have id: "conn_id (conn_at c2 i) = i \<and> i < 2 ^ 32"
          using conn_id_inv [OF inv2] inv_hole_active [OF inv2] by simp
        have "ring_owners r1 = add_mset (i, Receiving) (ring_owners (lring L1))"
          using s_cases ok id by (auto simp: ring_owners_def sqe_owner_def sqe_id_pack)
        moreover have "owner_ok (tk i) (conn_at c2 i) Receiving"
          using g False unfolding at2 by (auto simp: idle_conn_def)
        then have "conns_inv base tk c2 gs (add_mset (i, Receiving) (ring_owners (lring L1) + P)) {#}"
          using inv2 by (simp only: take_over simp_thms)
        ultimately have "conns_inv base tk c2 gs (ring_owners r1 + P) {#}" by simp
        then show ?thesis using go ok mode2 by (auto simp: handled_def)
      qed
    qed
  qed
qed

section \<open>Completions of the thread pool\<close>

lemma handle_completion_ok:
  assumes inv: "conns_inv base tk (dctx L) fs (ring_owners (lring L) + P) {#i#}"
    and ok: "owner_ok (tk i) (conn L i) Done"
  shows "handled base tk P {#} L (handle_completion i L)"
proof -
  have inv': "conns_inv base tk (dctx (count_completed i L)) fs (ring_owners (lring (count_completed i L)) + P) {#i#}"
    using inv by simp
  have "handled base tk P {#} L (cleanup_connection i (count_completed i L))"
    by (rule handled_trans [OF handled_cleanup [OF inv']]) simp_all
  moreover have "handled base tk P {#} L (fail_connection i L)" by (rule handled_fail [OF inv])
  moreover have "handled base tk P {#} L (start_streaming i L)" if "state (conn L i) = CONN_STATE_STREAMING"
    by (rule start_streaming_ok [where tk = tk, OF inv]) (use ok that in auto)
  ultimately show ?thesis using ok by (auto simp: handle_completion_def)
qed

lemma drain_ok:
  assumes "ring_conns (wpool L) cs" "queue_conns (wpool L) qs" "calm_loop n cs L"
    and "conns_inv base tk (dctx L) fs (ring_owners (lring L) + (Q + image_mset (\<lambda>c. (c, Done)) (mset cs))) {#}"
    and "drain_completions L = Some L'" "refused_links (lring L') = refused_links (lring L)"
  shows "ring_conns (wpool L') [] \<and> queue_conns (wpool L') qs
     \<and> (\<exists>fs. conns_inv base tk (dctx L') fs (ring_owners (lring L') + Q) {#})"
  using assms
proof (induction cs arbitrary: L fs)
  case Nil
  then have "pool_get_completion (wpool L) = (None, wpool L)" using get_completion_ring(1) by blast
  then have "L' = L" using Nil(5) by (simp add: drain_completions.simps)
  then show ?case using Nil by auto
next
  case (Cons c cs)
  obtain p where p: "pool_get_completion (wpool L) = (Some c, p)" "ring_conns p cs"
    using get_completion_ring(2) [OF Cons.prems(1) refl] by auto
  let ?L = "L\<lparr>wpool := p\<rparr>" and ?Q = "Q + image_mset (\<lambda>c. (c, Done)) (mset cs)"
  have q: "queue_conns p qs" using queue_frame(2) [OF p(1)] Cons.prems(2) by simp
  have c: "c < n" "calm_loop n cs ?L" using Cons.prems(3) p by (auto simp: calm_loop_def ring_in_def)
  obtain L1 where L1: "handle_completion c ?L = Some L1" "same_mode ?L L1" "calm_loop n cs L1"
    using handle_completion_returns [OF c(2,1)] by (auto simp: returns_def)
  have rest: "drain_completions L1 = Some L'" using Cons.prems(5) p L1 by (simp add: drain_completions.simps)
  then have "same_mode L1 L'" using drain_returns [OF L1(3)] by (auto simp: returns_def)
  then have r: "refused_links (lring L1) = refused_links (lring L)" "refused_links (lring L') = refused_links (lring L1)"
    using L1(2) Cons.prems(6) by (auto simp: same_mode_def)
  have "ring_owners (lring L) + (Q + image_mset (\<lambda>c. (c, Done)) (mset (c # cs)))
      = add_mset (c, Done) (ring_owners (lring ?L) + ?Q)" by simp
  then have "conns_inv base tk (dctx ?L) fs (add_mset (c, Done) (ring_owners (lring ?L) + ?Q)) {#}"
    using Cons.prems(4) by simp
  then have "conns_inv base tk (dctx ?L) fs (ring_owners (lring ?L) + ?Q) {#c#}" "owner_ok (tk c) (conn ?L c) Done"
    by (simp_all only: take_over simp_thms)
  from handle_completion_ok [OF this] obtain gs where
    "wpool L1 = p" "conns_inv base tk (dctx L1) gs (ring_owners (lring L1) + ?Q) {#}"
    using L1(1) r(1) by (auto simp: handled_def)
  then show ?case using Cons.IH [of L1 gs] p(2) q L1(3) rest r(2) by simp
qed

lemma done_in_range:
  assumes inv: "conns_inv base tk ctx fs (own + (Q + image_mset (\<lambda>c. (c, Done)) (mset ds + mset cs))) {#}"
    and calm: "calm n ctx" and r: "ring_conns p cs"
  shows "ring_in n cs p"
proof -
  have "c < n" if "c \<in> set cs" for c
  proof -
    have "(c, Done) \<in># own + (Q + image_mset (\<lambda>c. (c, Done)) (mset ds + mset cs))" using that by auto
    then show ?thesis using inv calm owner_active(1) unfolding conns_inv_def calm_def by blast
  qed
  with r show ?thesis by (auto simp: ring_in_def)
qed

lemma eventfd_ok:
  assumes inv: "conns_inv base tk (dctx L) fs (ring_owners (lring L) + P) {#}"
    and p: "pool_owners (wpool L) ws ds P" and calm: "calm n (dctx L)"
  shows "serves base tk ws ds L (handle_eventfd L)"
proof -
  obtain qs cs where q: "queue_conns (wpool L) qs" "ring_conns (wpool L) cs"
    "P = image_mset (\<lambda>c. (c, Queued)) (mset qs + mset ws) + image_mset (\<lambda>c. (c, Done)) (mset ds + mset cs)"
    using p by (auto simp: pool_owners_def)
  let ?Q = "image_mset (\<lambda>c. (c, Queued)) (mset qs + mset ws) + image_mset (\<lambda>c. (c, Done)) (mset ds)"
  let ?L = "L\<lparr>wpool := (wpool L)\<lparr>event_count := 0\<rparr>\<rparr>"
  have "ring_in n cs (wpool L)" by (rule done_in_range [OF _ calm q(2)]) (use inv q(3) in simp)
  moreover have frame: "ring_conns (wpool ?L) cs" "queue_conns (wpool ?L) qs"
    using q(1,2) by (simp_all add: ring_conns_def queue_conns_def queue_items_def work_link_def [abs_def] item_conn_def [abs_def])
  ultimately have c: "calm_loop n cs ?L" using calm by (simp add: calm_loop_def ring_in_def)
  obtain L' where L': "drain_completions ?L = Some L'" "same_mode ?L L'"
    using drain_returns [OF c] by (auto simp: returns_def)
  have "pool_owners (wpool L') ws ds ?Q"
    if "ring_conns (wpool L') [] \<and> queue_conns (wpool L') qs"
    using that unfolding pool_owners_def by (intro exI [of _ qs] exI [of _ "[]"]) simp
  moreover have "conns_inv base tk (dctx ?L) fs (ring_owners (lring ?L) + (?Q + image_mset (\<lambda>c. (c, Done)) (mset cs))) {#}"
    using inv q(3) by (simp add: ac_simps)
  ultimately have "refused_links (lring L') = refused_links (lring L) \<Longrightarrow>
      \<exists>fs P. pool_owners (wpool L') ws ds P \<and> conns_inv base tk (dctx L') fs (ring_owners (lring L') + P) {#}"
    using drain_ok [OF frame c _ L'(1)] by fastforce
  moreover have "same_mode L L'" using L'(2) by (simp add: same_mode_def)
  ultimately show ?thesis using L'(1) by (auto simp: serves_def handle_eventfd_def)
qed

end
