(* ===== verification/Loop_System.thy ===== *)
theory Loop_System
  imports Loop_Steps Pool_Threads
begin

text \<open>
  The event loop, the kernel and the workers as one transition system (\<open>daemon_run\<close> in daemon.c,
  \<open>worker_thread\<close> in pool.c, backend_mock.c), with its invariant. What the kernel may report is the
  relation \<open>completes\<close>: it follows what is documented of io_uring, and lets operations complete in any
  order. \<open>taken\<close> records the bytes that the client of a connection has received.
\<close>

section \<open>The system\<close>

record sys =
  lp :: loop
  processing :: "nat list" \<comment> \<open>connections in the backend call of a worker\<close>
  adding :: "nat list" \<comment> \<open>connections about to be put into the ring of completions\<close>
  taken :: "nat \<Rightarrow> string"

definition retire :: "sqe \<Rightarrow> loop \<Rightarrow> loop" where
  "retire s L = L\<lparr>lring := (lring L)\<lparr>inflight := remove1 s (inflight (lring L))\<rparr>\<rparr>"

definition opened :: "int \<Rightarrow> loop \<Rightarrow> loop" where
  "opened fd L = (if fd < 0 then L else L\<lparr>dctx := (dctx L)\<lparr>d_fds := fd # d_fds (dctx L)\<rparr>\<rparr>)"

definition received :: "nat \<Rightarrow> string \<Rightarrow> loop \<Rightarrow> loop" where
  \<comment> \<open>the kernel has put a message into the handoff buffer\<close>
  "received i msg = with_conn i (\<lambda>c. c\<lparr>handoff_buf :=
     map_option (\<lambda>b. take (length b) msg @ drop (length msg) b) (handoff_buf c)\<rparr>)"

text \<open>
  \<open>completes base S a e S'\<close>: the kernel reports the completion \<open>e\<close>, with the answers \<open>a\<close> to the
  system calls of its handler. A descriptor that is passed or accepted is not open yet.
\<close>

inductive completes :: "sys \<Rightarrow> answers \<Rightarrow> cqe \<Rightarrow> sys \<Rightarrow> bool" where
  accept: "s \<in> set (inflight (lring (lp S))) \<Longrightarrow> prep s = Prep_multishot_accept \<Longrightarrow> cqe_data e = sqe_data s
    \<Longrightarrow> cqe_res e \<notin> set (d_fds (dctx (lp S)))
    \<Longrightarrow> completes S a e (S\<lparr>lp := opened (cqe_res e) (if cqe_more e then lp S else retire s (lp S))\<rparr>)"
| recv: "s \<in> set (inflight (lring (lp S))) \<Longrightarrow> prep s = Prep_recvmsg fd \<Longrightarrow> cqe_data e = sqe_data s
    \<Longrightarrow> length msg = nat (cqe_res e)
    \<Longrightarrow> handoff_extract_fd (a_msg a) \<notin> set (d_fds (dctx (lp S))) \<Longrightarrow> fresh_item (a_work a) (wpool (lp S))
    \<Longrightarrow> completes S a e (S\<lparr>lp := opened (if cqe_res e < 0 then -1 else handoff_extract_fd (a_msg a))
          (received (sqe_id s) msg (retire s (lp S))), taken := (taken S)(sqe_id s := [])\<rparr>)"
| written: "s \<in> set (inflight (lring (lp S))) \<Longrightarrow> prep s = Prep_write fd b \<Longrightarrow> cqe_data e = sqe_data s
    \<Longrightarrow> nat (cqe_res e) \<le> length b
    \<Longrightarrow> completes S a e (S\<lparr>lp := retire s (lp S),
          taken := (taken S)(sqe_id s := taken S (sqe_id s) @ take (nat (cqe_res e)) b)\<rparr>)"
| other: "s \<in> set (inflight (lring (lp S))) \<Longrightarrow> prep s \<noteq> Prep_multishot_accept \<Longrightarrow> sqe_owner s = None
    \<Longrightarrow> cqe_data e = sqe_data s \<Longrightarrow> completes S a e (S\<lparr>lp := retire s (lp S)\<rparr>)"

definition backend_process :: "connection \<Rightarrow> int \<times> connection" where
  \<comment> \<open>of the mock backend\<close>
  "backend_process c = (0, stream_start c)"

definition worker_finish :: "connection \<Rightarrow> connection" where
  "worker_finish c = (case backend_process c of (r, c') \<Rightarrow> c'\<lparr>state := result_state r\<rparr>)"

inductive loop_step :: "sys \<Rightarrow> sys \<Rightarrow> bool" where
  cqe: "completes S a e S1 \<Longrightarrow> process_cqe a e (lp S1) = Some L \<Longrightarrow> loop_step S (S1\<lparr>lp := L\<rparr>)"
| submit: "loop_step S (S\<lparr>lp := (lp S)\<lparr>lring := ring_submit (lring (lp S))\<rparr>\<rparr>)"
| take: "take_work (wpool (lp S)) = (Some c, p)
    \<Longrightarrow> loop_step S (S\<lparr>lp := (lp S)\<lparr>wpool := p\<rparr>, processing := c # processing S\<rparr>)"
| finish: "c \<in> set (processing S)
    \<Longrightarrow> loop_step S (S\<lparr>lp := with_conn c worker_finish (lp S), processing := remove1 c (processing S),
                         adding := c # adding S\<rparr>)"
| add: "c \<in> set (adding S) \<Longrightarrow> pool_add_completion c (wpool (lp S)) = (True, p)
    \<Longrightarrow> loop_step S (S\<lparr>lp := (lp S)\<lparr>wpool := p\<rparr>, adding := remove1 c (adding S)\<rparr>)"
| stop: "loop_step S (S\<lparr>lp := (lp S)\<lparr>dctx := (dctx (lp S))\<lparr>shutdown_requested := True\<rparr>\<rparr>\<rparr>)"

inductive_cases loop_stepE: "loop_step S S'"
inductive_cases completesE: "completes S a e S'"

definition enter_loop :: "loop \<Rightarrow> loop option" where
  \<comment> \<open>\<open>daemon_run\<close> up to the loop\<close>
  "enter_loop L =
     (case ring_submit_accept (lring L) of (rc, r1) \<Rightarrow>
        if rc < 0 then None
        else if use_thread_pool (dctx L) then
          (case ring_submit_eventfd_read pool_eventfd r1 of (rc2, r2) \<Rightarrow>
             if rc2 < 0 then None else Some (L\<lparr>lring := ring_submit r2\<rparr>))
        else Some (L\<lparr>lring := ring_submit r1\<rparr>))"

section \<open>The invariant\<close>

definition sys_inv :: "int set \<Rightarrow> sys \<Rightarrow> bool" where
  "sys_inv base S \<longleftrightarrow> ring_ok (lring (lp S))
     \<and> (\<exists>n. calm n (dctx (lp S)))
     \<and> (\<exists>fs P. pool_owners (wpool (lp S)) (processing S) (adding S) P
          \<and> conns_inv base (taken S) (dctx (lp S)) fs (ring_owners (lring (lp S)) + P) {#})"

definition links_refused :: "sys \<Rightarrow> nat" where
  "links_refused S = refused_links (lring (lp S))"

lemma ring_owners_retire:
  assumes "s \<in> set (inflight (lring L))"
  shows "ring_owners (lring L) = (case sqe_owner s of None \<Rightarrow> {#} | Some x \<Rightarrow> {#x#}) + ring_owners (lring (retire s L))"
  using owners_of_remove [OF assms] by (simp add: ring_owners_def ring_sqes_def retire_def)

lemma ring_ok_retire: "ring_ok (lring L) \<Longrightarrow> ring_ok (lring (retire s L))"
  using set_remove1_subset [of s] by (fastforce simp: ring_ok_def ring_sqes_def retire_def)

lemma retire_fields [simp]:
  "dctx (retire s L) = dctx L" "wpool (retire s L) = wpool L"
  "refused_links (lring (retire s L)) = refused_links (lring L)"
  by (simp_all add: retire_def)

lemma opened_fields [simp]:
  "lring (opened fd L) = lring L" "wpool (opened fd L) = wpool L" "conn (opened fd L) i = conn L i"
  "connections (dctx (opened fd L)) = connections (dctx L)"
  "max_connections (dctx (opened fd L)) = max_connections (dctx L)"
  "calm n (dctx (opened fd L)) = calm n (dctx L)"
  by (simp_all add: opened_def conn_at_def calm_def)

lemma opened_inv:
  assumes "conns_inv base tk (dctx L) fs own hole" "0 \<le> fd \<Longrightarrow> fd \<notin> set (d_fds (dctx L))"
  shows "conns_inv (if fd < 0 then base else insert fd base) tk (dctx (opened fd L)) fs own hole"
  using assms fds_opened by (auto simp: opened_def conns_inv_def)

lemma base_open: "conns_inv base tk ctx fs own hole \<Longrightarrow> fd \<notin> set (d_fds ctx) \<Longrightarrow> fd \<notin> base"
  by (auto simp: conns_inv_def fds_ok_def)

lemma sqe_id_word [simp]: "unat (word_of_nat (sqe_id s) :: 32 word) = sqe_id s"
  by (simp add: sqe_id_def)

lemma completed_op:
  assumes "ring_ok (lring L)" "s \<in> set (inflight (lring L))"
  shows "\<exists>p \<in> prep_op (prep s). ring_unpack_data (sqe_data s) = (Some p, of_nat (sqe_id s))"
  using assms by (auto simp: ring_ok_def sqe_ok_def ring_sqes_def sqe_id_def prod_eq_iff)

text \<open>Nothing is said of the bytes of a connection that is being handled.\<close>

lemma conns_inv_taken:
  assumes "conns_inv base tk ctx fs own (add_mset i hole)"
  shows "conns_inv base (tk(i := x)) ctx fs own (add_mset i hole)"
proof -
  have "owner_ok ((tk(i := x)) j) (conn_at ctx j) w" if "(j, w) \<in># own" for j w
    using inv_upd_other_own [OF assms, of j w] assms that by (auto simp: conns_defs)
  then show ?thesis using assms by (auto simp: conns_defs)
qed

section \<open>What the kernel reports\<close>

lemma inv_calm:
  assumes inv: "sys_inv base S" and calm: "calm n (dctx (lp S))"
  shows "\<exists>cs. calm_loop n cs (lp S)"
proof -
  obtain fs P qs cs where "ring_conns (wpool (lp S)) cs"
    "P = image_mset (\<lambda>c. (c, Queued)) (mset qs + mset (processing S))
       + image_mset (\<lambda>c. (c, Done)) (mset (adding S) + mset cs)"
    "conns_inv base (taken S) (dctx (lp S)) fs (ring_owners (lring (lp S)) + P) {#}"
    using inv by (auto simp: sys_inv_def pool_owners_def)
  then have "ring_in n cs (wpool (lp S))" using calm by (intro done_in_range) auto
  then show ?thesis using calm by (auto simp: calm_loop_def)
qed

lemma received_fields [simp]:
  "lring (received i msg L) = lring L" "wpool (received i msg L) = wpool L"
  by (simp_all add: received_def)

lemma received_calm: "calm n (dctx L) \<Longrightarrow> calm n (dctx (received i msg L))"
  by (simp add: received_def with_conn_def calm_upd keeps_calm_frame)

lemma completes_fields:
  assumes "completes S a e S1"
  shows "wpool (lp S1) = wpool (lp S)" "processing S1 = processing S" "adding S1 = adding S"
    "links_refused S1 = links_refused S"
  using assms by (induction rule: completes.induct) (simp_all add: links_refused_def)

lemma completes_ok:
  assumes "completes S a e S1"
  shows "ring_ok (lring (lp S)) \<Longrightarrow> ring_ok (lring (lp S1))" "calm n (dctx (lp S)) \<Longrightarrow> calm n (dctx (lp S1))"
  using assms by (induction rule: completes.induct) (simp_all add: ring_ok_retire received_calm)

text \<open>The four kinds of completion.\<close>

lemma accept_serves:
  assumes inv: "conns_inv base tk (dctx L) fs (ring_owners (lring L) + P) {#}" and p: "pool_owners (wpool L) ws ds P"
    and ok: "ring_ok (lring L)" and s: "s \<in> set (inflight (lring L))" "prep s = Prep_multishot_accept"
    and e: "cqe_data e = sqe_data s" and fresh: "cqe_res e \<notin> set (d_fds (dctx L))"
    and L1: "L1 = opened (cqe_res e) (if cqe_more e then L else retire s L)"
  shows "serves base tk ws ds L1 (process_cqe a e L1)"
proof -
  have u: "ring_unpack_data (cqe_data e) = (Some OP_ACCEPT, of_nat (sqe_id s))"
    using completed_op [OF ok s(1)] s e by simp
  have "sqe_owner s = None" using s by (simp add: sqe_owner_def)
  then have o: "ring_owners (lring (if cqe_more e then L else retire s L)) = ring_owners (lring L)"
    using ring_owners_retire [OF s(1)] by simp
  have f: "dctx (if cqe_more e then L else retire s L) = dctx L" "wpool (if cqe_more e then L else retire s L) = wpool L"
    by simp_all
  have "conns_inv (if cqe_res e < 0 then base else insert (cqe_res e) base) tk (dctx L1) fs (ring_owners (lring L1) + P) {#}"
    using opened_inv [of base tk "if cqe_more e then L else retire s L" fs "ring_owners (lring L) + P" "{#}"] inv fresh
    unfolding f L1 opened_fields o by blast
  from this base_open [OF inv fresh] have "handled base tk P {#} L1 (handle_accept (a_handoff_mem a) (cqe_res e) (cqe_more e) L1)" by (rule accept_ok)
  moreover have "process_cqe a e L1 = handle_accept (a_handoff_mem a) (cqe_res e) (cqe_more e) L1"
    using u by (simp add: process_cqe_def)
  moreover have "wpool L1 = wpool L" using f L1 by simp
  ultimately show ?thesis using handled_serves p by metis
qed

lemma other_serves:
  assumes inv: "conns_inv base tk (dctx L) fs (ring_owners (lring L) + P) {#}" and p: "pool_owners (wpool L) ws ds P"
    and ok: "ring_ok (lring L)" and calm: "calm n (dctx L)"
    and s: "s \<in> set (inflight (lring L))" "prep s \<noteq> Prep_multishot_accept" "sqe_owner s = None"
    and e: "cqe_data e = sqe_data s"
  shows "serves base tk ws ds (retire s L) (process_cqe a e (retire s L))"
proof -
  let ?L = "retire s L"
  have inv1: "conns_inv base tk (dctx ?L) fs (ring_owners (lring ?L) + P) {#}"
    using inv ring_owners_retire [OF s(1)] s(3) by simp
  have keep: "serves base tk ws ds ?L (Some ?L)" using inv1 p by (auto simp: serves_def)
  obtain q where q: "ring_unpack_data (cqe_data e) = (Some q, of_nat (sqe_id s))" "q \<in> prep_op (prep s)"
    using completed_op [OF ok s(1)] e by auto
  have q_cases: "q \<noteq> OP_ACCEPT" "q \<noteq> OP_RECV_FD" "q \<noteq> OP_WRITE"
    using q(2) s(2,3) by (cases "prep s"; auto simp: sqe_owner_def)+
  have ev: "serves base tk ws ds ?L (handle_eventfd ?L)"
    by (rule eventfd_ok [OF inv1]) (use p calm in auto)
  show ?thesis
  proof (cases "q = OP_EVENTFD")
    case False
    then have "process_cqe a e ?L = Some ?L"
      using q q_cases by (cases q) (simp_all add: process_cqe_def)
    with keep show ?thesis by simp
  next
    case True
    obtain L1 where L1: "handle_eventfd ?L = Some L1" using ev by (auto simp: serves_def)
    obtain rc r where w: "ring_submit_eventfd_read pool_eventfd (lring L1) = (rc, r)" by fastforce
    note w_cases = with_flush_cases [OF w [unfolded ring_submit_eventfd_read_def]]
      ring_ok_submit [OF _ w [unfolded ring_submit_eventfd_read_def]]
    have "ring_owners r = ring_owners (lring L1)" using w_cases(1) by (auto simp: ring_owners_def sqe_owner_def)
    then have "serves base tk ws ds ?L (Some (L1\<lparr>lring := r\<rparr>))"
      using ev L1 w_cases by (auto simp: serves_def same_mode_def)
    then show ?thesis using ev L1 w q True by (simp add: process_cqe_def)
  qed
qed

text \<open>A completion takes the connection from its owner.\<close>

lemma owned_completion:
  assumes inv: "conns_inv base tk (dctx L) fs (ring_owners (lring L) + P) {#}"
    and s: "s \<in> set (inflight (lring L))" "sqe_owner s = Some (i, w)"
  shows "conns_inv base tk (dctx L) fs (ring_owners (lring (retire s L)) + P) {#i#}" "owner_ok (tk i) (conn L i) w"
    "i < length (connections (dctx L))" "i = sqe_id s" "conn_get i (dctx L) = Some i"
proof -
  have "ring_owners (lring L) + P = add_mset (i, w) (ring_owners (lring (retire s L)) + P)"
    using ring_owners_retire [OF s(1)] s(2) by simp
  with inv show h: "conns_inv base tk (dctx L) fs (ring_owners (lring (retire s L)) + P) {#i#}"
    and "owner_ok (tk i) (conn L i) w" by (simp_all only: take_over simp_thms)
  show i: "i < length (connections (dctx L))" using inv_hole_active [OF h] by simp
  show "i = sqe_id s" using s(2) by (auto simp: sqe_owner_def split: prep.splits)
  show "conn_get i (dctx L) = Some i" using inv i by (simp add: conn_get_def conns_defs pool_ok_def)
qed

lemma recv_serves:
  assumes inv: "conns_inv base tk (dctx L) fs (ring_owners (lring L) + P) {#}" and p: "pool_owners (wpool L) ws ds P"
    and ok: "ring_ok (lring L)" and s: "s \<in> set (inflight (lring L))" "prep s = Prep_recvmsg fd"
    and e: "cqe_data e = sqe_data s" and m: "fresh_item (a_work a) (wpool L)"
    and fresh: "handoff_extract_fd (a_msg a) \<notin> set (d_fds (dctx L))"
    and L1: "L1 = opened (if cqe_res e < 0 then -1 else handoff_extract_fd (a_msg a)) (received (sqe_id s) msg (retire s L))"
  shows "serves base (tk(sqe_id s := [])) ws ds L1 (process_cqe a e L1)"
proof -
  let ?i = "sqe_id s" and ?e = "handoff_extract_fd (a_msg a)"
  let ?f = "\<lambda>c. c\<lparr>handoff_buf := map_option (\<lambda>b. take (length b) msg @ drop (length msg) b) (handoff_buf c)\<rparr>"
  let ?L = "received ?i msg (retire s L)" and ?fd = "if cqe_res e < 0 then -1 else handoff_extract_fd (a_msg a)"
  let ?tk = "tk(?i := [])"
  have u: "ring_unpack_data (cqe_data e) = (Some OP_RECV_FD, of_nat ?i)"
    using completed_op [OF ok s(1)] s e by simp
  have own: "sqe_owner s = Some (?i, Receiving)" using s(2) by (simp add: sqe_owner_def)
  note o = owned_completion [OF inv s(1) own]
  have st: "stable ?f" by (auto simp: stable_def buf_ok_def split: option.splits)
  have "conns_inv base tk (dctx (retire s L)) fs (ring_owners (lring (retire s L)) + P) {#?i#}" using o(1) by simp
  from conns_inv_taken [OF with_conn_inv [OF this st]]
  have inv1: "conns_inv base ?tk (dctx ?L) fs (ring_owners (lring L1) + P) {#?i#}"
    unfolding L1 by (simp add: received_def)
  have "set (d_fds (dctx ?L)) = set (d_fds (dctx L))" by (simp add: received_def with_conn_def)
  then have "conns_inv (if ?fd < 0 then base else insert ?fd base) ?tk (dctx L1) fs (ring_owners (lring L1) + P) {#?i#}"
    unfolding L1 using fresh inv1 [unfolded L1] by (intro opened_inv) auto
  then have inv2: "conns_inv (if cqe_res e < 0 \<or> ?e < 0 then base else insert ?e base) ?tk (dctx L1) fs
      (ring_owners (lring L1) + P) {#?i#}" by (cases "cqe_res e < 0") auto
  have at: "conn L1 ?i = ?f (conn L ?i)" unfolding L1 using o(3) by (simp add: received_def)
  have rc: "owner_ok [] (conn L1 ?i) Receiving" unfolding at using o(2) by (simp add: idle_conn_def)
  have "serves base ?tk ws ds L1 (handle_recv_fd ?i (cqe_res e) a L1)"
    by (rule recv_ok [OF inv2 base_open [OF inv fresh] rc]) (use p m L1 in auto)
  moreover have "conn_get ?i (dctx L1) = Some ?i"
    unfolding L1 conn_get_def using o(5) by (simp add: received_def with_conn_def conn_get_def)
  ultimately show ?thesis using u rc by (simp add: process_cqe_def)
qed

lemma written_serves:
  assumes inv: "conns_inv base tk (dctx L) fs (ring_owners (lring L) + P) {#}" and p: "pool_owners (wpool L) ws ds P"
    and ok: "ring_ok (lring L)" and s: "s \<in> set (inflight (lring L))" "prep s = Prep_write fd b"
    and e: "cqe_data e = sqe_data s" and res: "nat (cqe_res e) \<le> length b"
  shows "serves base (tk(sqe_id s := tk (sqe_id s) @ take (nat (cqe_res e)) b)) ws ds (retire s L)
     (process_cqe a e (retire s L))"
proof -
  let ?i = "sqe_id s" and ?L = "retire s L"
  let ?tk = "tk(?i := tk ?i @ take (nat (cqe_res e)) b)"
  have u: "ring_unpack_data (cqe_data e) = (Some OP_WRITE, of_nat ?i)"
    using completed_op [OF ok s(1)] s e by simp
  have own: "sqe_owner s = Some (?i, Sending b)" using s(2) by (simp add: sqe_owner_def)
  note o = owned_completion [OF inv s(1) own]
  have inv1: "conns_inv base ?tk (dctx ?L) fs (ring_owners (lring ?L) + P) {#?i#}"
    using conns_inv_taken [OF o(1)] by simp
  have c: "has_client (conn ?L ?i)" "sending (tk ?i) (conn ?L ?i) b" using o(2) by simp_all
  then have st: "async_write_buf (conn ?L ?i) = None"
    "state (conn ?L ?i) = CONN_STATE_STREAMING \<or> state (conn ?L ?i) = CONN_STATE_CLOSING"
    unfolding sending_def by (auto split: if_splits)
  have "handled base ?tk P {#} ?L (handle_write ?i (cqe_res e) (a_write_mem a) ?L)"
    by (rule handle_write_ok [where tk = ?tk, OF inv1 c]) (use res in auto)
  then have "serves base ?tk ws ds ?L (handle_write ?i (cqe_res e) (a_write_mem a) ?L)"
    by (rule handled_serves) (use p in simp)
  then show ?thesis using u st o(5) by (auto simp: process_cqe_def)
qed

section \<open>Every step keeps the invariant\<close>

lemma completes_serves:
  assumes inv: "sys_inv base S" and c: "completes S a e S1"
  shows "serves base (taken S1) (processing S1) (adding S1) (lp S1) (process_cqe a e (lp S1))"
proof -
  obtain n fs P where i: "ring_ok (lring (lp S))" "calm n (dctx (lp S))"
    "pool_owners (wpool (lp S)) (processing S) (adding S) P"
    "conns_inv base (taken S) (dctx (lp S)) fs (ring_owners (lring (lp S)) + P) {#}"
    using inv by (auto simp: sys_inv_def)
  from c show ?thesis
  proof cases
    case (accept s)
    then show ?thesis using accept_serves [OF i(4,3,1)] by simp
  next
    case (recv s fd msg)
    then show ?thesis using recv_serves [OF i(4,3,1)] by simp
  next
    case (written s fd b)
    then show ?thesis using written_serves [OF i(4,3,1)] by simp
  next
    case (other s)
    then show ?thesis using other_serves [OF i(4,3,1,2)] by simp
  qed
qed

lemma completes_calm:
  assumes inv: "sys_inv base S" and c: "completes S a e S1"
  shows "\<exists>n cs. calm_loop n cs (lp S1)"
proof -
  obtain n where n: "calm n (dctx (lp S))" using inv by (auto simp: sys_inv_def)
  obtain cs where "calm_loop n cs (lp S)" using inv_calm [OF inv n] by auto
  then have "calm_loop n cs (lp S1)"
    using completes_fields(1) [OF c] completes_ok(2) [OF c n] by (simp add: calm_loop_def)
  then show ?thesis by blast
qed

lemma cqe_inv:
  assumes inv: "sys_inv base S" and c: "completes S a e S1" and l: "process_cqe a e (lp S1) = Some L"
    and r: "links_refused (S1\<lparr>lp := L\<rparr>) = links_refused S"
  shows "sys_inv base (S1\<lparr>lp := L\<rparr>)"
proof -
  have "refused_links (lring L) = refused_links (lring (lp S1))"
    using r completes_fields(4) [OF c] by (simp add: links_refused_def)
  then have "\<exists>fs P. pool_owners (wpool L) (processing S1) (adding S1) P
      \<and> conns_inv base (taken S1) (dctx L) fs (ring_owners (lring L) + P) {#}" "same_mode (lp S1) L"
    using completes_serves [OF inv c] l by (auto simp: serves_def)
  moreover have "ring_ok (lring (lp S1))" using inv completes_ok(1) [OF c] by (auto simp: sys_inv_def)
  moreover obtain n cs where cl: "calm_loop n cs (lp S1)" using completes_calm [OF inv c] by auto
  obtain ds where "returns n ds (lp S1) (process_cqe a e (lp S1))" using process_cqe_returns [OF cl] by auto
  then have "calm n (dctx L)" using l by (auto simp: returns_def calm_loop_def)
  ultimately show ?thesis by (auto simp: sys_inv_def same_mode_def)
qed

text \<open>The steps of the workers.\<close>

lemma take_inv:
  assumes inv: "sys_inv base S" and t: "take_work (wpool (lp S)) = (Some c, p)"
  shows "sys_inv base (S\<lparr>lp := (lp S)\<lparr>wpool := p\<rparr>, processing := c # processing S\<rparr>)"
proof -
  obtain n fs P qs cs where i: "ring_ok (lring (lp S))" "calm n (dctx (lp S))"
    "conns_inv base (taken S) (dctx (lp S)) fs (ring_owners (lring (lp S)) + P) {#}"
    "queue_conns (wpool (lp S)) qs" "ring_conns (wpool (lp S)) cs"
    "P = image_mset (\<lambda>c. (c, Queued)) (mset qs + mset (processing S))
       + image_mset (\<lambda>c. (c, Done)) (mset (adding S) + mset cs)"
    using inv by (auto simp: sys_inv_def pool_owners_def)
  obtain rest where q: "qs = c # rest" "queue_conns p rest"
    using workq.deq_empty [of "wpool (lp S)"] workq.deq_first [of "wpool (lp S)"] i(4) t by (cases qs) fastforce+
  have "ring_conns p cs" using ring_frame(3) [OF t] i(5) by simp
  then have "pool_owners p (c # processing S) (adding S) P"
    unfolding pool_owners_def using q i(6) by (intro exI [of _ rest] exI [of _ cs]) simp
  then show ?thesis using i by (auto simp: sys_inv_def)
qed

lemma finish_inv:
  assumes inv: "sys_inv base S" and c: "c \<in> set (processing S)"
  shows "sys_inv base (S\<lparr>lp := with_conn c worker_finish (lp S), processing := remove1 c (processing S),
    adding := c # adding S\<rparr>)"
proof -
  obtain n fs P qs cs where i: "ring_ok (lring (lp S))" "calm n (dctx (lp S))"
    "conns_inv base (taken S) (dctx (lp S)) fs (ring_owners (lring (lp S)) + P) {#}"
    "queue_conns (wpool (lp S)) qs" "ring_conns (wpool (lp S)) cs"
    "P = image_mset (\<lambda>c. (c, Queued)) (mset qs + mset (processing S))
       + image_mset (\<lambda>c. (c, Done)) (mset (adding S) + mset cs)"
    using inv by (auto simp: sys_inv_def pool_owners_def)
  let ?R = "image_mset (\<lambda>c. (c, Queued)) (mset qs + mset (remove1 c (processing S)))
       + image_mset (\<lambda>c. (c, Done)) (mset (adding S) + mset cs)"
  let ?L = "with_conn c worker_finish (lp S)"
  have st: "stable worker_finish" by (auto simp: worker_finish_def backend_process_def stream_start_def)
  have m: "mset (processing S) = add_mset c (mset (remove1 c (processing S)))" using c by simp
  have "P = add_mset (c, Queued) ?R" unfolding i(6) m by (simp del: mset_remove1)
  then have "ring_owners (lring (lp S)) + P = add_mset (c, Queued) (ring_owners (lring (lp S)) + ?R)" by simp
  with i(3) have h: "conns_inv base (taken S) (dctx (lp S)) fs (ring_owners (lring (lp S)) + ?R) {#c#}"
    and ok: "owner_ok (taken S c) (conn (lp S) c) Queued" by (simp_all only: take_over simp_thms)
  have act: "c < length (connections (dctx (lp S)))" using inv_hole_active [OF h] by simp
  have "owner_ok (taken S c) (conn ?L c) Done"
    using ok act by (simp add: worker_finish_def backend_process_def stream_start_def result_state_def
        idle_conn_def has_client_def)
  with with_conn_inv [OF h st]
  have "conns_inv base (taken S) (dctx ?L) fs (add_mset (c, Done) (ring_owners (lring ?L) + ?R)) {#}"
    by (simp only: take_over simp_thms with_conn_fields)
  moreover have "pool_owners (wpool ?L) (remove1 c (processing S)) (c # adding S) (add_mset (c, Done) ?R)"
    unfolding pool_owners_def using i(4,5) by (intro exI [of _ qs] exI [of _ cs]) simp
  moreover have "calm n (dctx ?L)"
    using i(2) by (auto simp: with_conn_def worker_finish_def backend_process_def stream_start_def intro!: calm_upd)
  ultimately show ?thesis using i(1) by (fastforce simp: sys_inv_def)
qed

lemma add_inv:
  assumes inv: "sys_inv base S" and c: "c \<in> set (adding S)" and a: "pool_add_completion c (wpool (lp S)) = (True, p)"
  shows "sys_inv base (S\<lparr>lp := (lp S)\<lparr>wpool := p\<rparr>, adding := remove1 c (adding S)\<rparr>)"
proof -
  obtain n fs P qs cs where i: "ring_ok (lring (lp S))" "calm n (dctx (lp S))"
    "conns_inv base (taken S) (dctx (lp S)) fs (ring_owners (lring (lp S)) + P) {#}"
    "queue_conns (wpool (lp S)) qs" "ring_conns (wpool (lp S)) cs"
    "P = image_mset (\<lambda>c. (c, Queued)) (mset qs + mset (processing S))
       + image_mset (\<lambda>c. (c, Done)) (mset (adding S) + mset cs)"
    using inv by (auto simp: sys_inv_def pool_owners_def)
  have "ring_conns p (cs @ [c])" using add_completion_ring(1) [OF i(5) a] by simp
  moreover have "queue_conns p qs" using queue_frame(1) [OF a] i(4) by simp
  moreover have m: "mset (adding S) = add_mset c (mset (remove1 c (adding S)))" using c by simp
  have "P = image_mset (\<lambda>c. (c, Queued)) (mset qs + mset (processing S))
       + image_mset (\<lambda>c. (c, Done)) (mset (remove1 c (adding S)) + mset (cs @ [c]))"
    unfolding i(6) m by (simp del: mset_remove1)
  ultimately have "pool_owners p (processing S) (remove1 c (adding S)) P"
    unfolding pool_owners_def by blast
  then show ?thesis using i by (auto simp: sys_inv_def)
qed

lemma step_inv:
  assumes "loop_step S S'" "sys_inv base S" "links_refused S' = links_refused S"
  shows "sys_inv base S'"
  using assms(1)
proof cases
  case (cqe a e S1 L)
  then show ?thesis using cqe_inv [OF assms(2)] assms(3) by simp
next
  case submit
  have "ring_owners (ring_submit r) = ring_owners r" "ring_ok (ring_submit r) = ring_ok r" for r
    by (simp_all add: ring_submit_def ring_owners_def ring_ok_def)
  then show ?thesis using assms(2) submit by (simp add: sys_inv_def)
next
  case (take c p)
  then show ?thesis using take_inv [OF assms(2)] by simp
next
  case (finish c)
  then show ?thesis using finish_inv [OF assms(2)] by simp
next
  case (add c p)
  then show ?thesis using add_inv [OF assms(2)] by simp
next
  case stop
  have "conns_inv base tk (ctx\<lparr>shutdown_requested := True\<rparr>) fs own hole = conns_inv base tk ctx fs own hole"
    for tk ctx fs own hole by (rule conns_inv_stats) simp_all
  moreover have "calm n (ctx\<lparr>shutdown_requested := True\<rparr>) = calm n ctx" for n ctx by (simp add: calm_def)
  ultimately show ?thesis using assms(2) stop by (simp add: sys_inv_def)
qed

section \<open>The start\<close>

definition ring_new :: "nat \<Rightarrow> (nat \<Rightarrow> bool) \<Rightarrow> ring" where
  \<comment> \<open>what \<open>ring_init\<close> gets from liburing: a queue of so many entries\<close>
  "ring_new entries ok = \<lparr>sq_entries = entries, sq = [], inflight = [], submit_ok = ok, submits = 0, refused_links = 0\<rparr>"

definition daemon_start :: "daemon_ctx \<Rightarrow> ring \<Rightarrow> pool_ctx \<Rightarrow> sys option" where
  "daemon_start ctx r p =
     map_option (\<lambda>L. \<lparr>lp = L, processing = [], adding = [], taken = \<lambda>_. []\<rparr>)
       (enter_loop \<lparr>dctx = ctx, lring = r, wpool = p\<rparr>)"

lemma init_loop_keeps:
  assumes "\<And>i f c. Q c \<Longrightarrow> Q (init_connection i f c)" "\<forall>c \<in> set (connections ctx). Q c" "n \<le> length (connections ctx)"
  shows "\<forall>c \<in> set (connections (init_loop n ctx)). Q c"
  using assms(2,3)
proof (induction n arbitrary: ctx)
  case (Suc n)
  let ?c = "(upd_conn n (init_connection n (free_list ctx)) ctx)\<lparr>free_list := Some n\<rparr>"
  have "Q (init_connection n (free_list ctx) (connections ctx ! n))" using assms(1) Suc.prems by simp
  then have "\<forall>c \<in> set (connections ?c). Q c"
    using Suc.prems(1) set_update_subset_insert [of "connections ctx" n] by (auto simp: upd_conn_def)
  then show ?case using Suc.IH [of ?c] Suc.prems(2) by simp
qed simp

lemma init_loop_calm: "calm m ctx \<Longrightarrow> n \<le> m \<Longrightarrow> calm m (init_loop n ctx)"
proof (induction n arbitrary: ctx)
  case (Suc n)
  have "calm m (upd_conn n (init_connection n (free_list ctx)) ctx)"
    by (rule calm_upd [OF Suc.prems(1)]) (use Suc.prems in \<open>simp add: keeps_calm_def calm_def init_connection_def\<close>)
  then have "calm m ((upd_conn n (init_connection n (free_list ctx)) ctx)\<lparr>free_list := Some n\<rparr>)"
    using Suc.prems(2) by (simp add: calm_def link_in_range_def)
  then show ?case using Suc.IH Suc.prems(2) by simp
qed simp

lemma init_loop_frame:
  "dirty_head (init_loop n ctx) = dirty_head ctx \<and> dirty_tail (init_loop n ctx) = dirty_tail ctx
     \<and> d_fds (init_loop n ctx) = d_fds ctx \<and> use_thread_pool (init_loop n ctx) = use_thread_pool ctx
     \<and> length (connections (init_loop n ctx)) = length (connections ctx)"
  by (induction n arbitrary: ctx) (simp_all add: upd_conn_def)

lemma pool_init_conns:
  assumes c: "conn_pool_init True ctx = Some c" and m: "0 \<le> max_connections ctx" "max_connections ctx \<le> 2 ^ 32"
    and d: "dirty_head ctx = None" "dirty_tail ctx = None"
  shows "calm (nat (max_connections ctx)) c \<and>
    conns_inv (set (d_fds ctx)) tk c [0..<nat (max_connections ctx)] {#} {#}"
proof -
  let ?n = "nat (max_connections ctx)"
  let ?c0 = "ctx\<lparr>connections := replicate ?n zero_connection, free_list := None\<rparr>"
  have c: "c = (init_loop ?n ?c0)\<lparr>active_connections := 0\<rparr>" and pool: "pool_ok c [0..<?n]"
    using c conn_pool_init_ok [OF c m(1)] by (auto simp: conn_pool_init_def Let_def)
  have "calm ?n ?c0" using m(1) by (simp add: calm_def link_in_range_def zero_connection_def)
  then have calm: "calm ?n c" using init_loop_calm [of ?n ?c0 ?n] by (simp add: c calm_def)
  have len: "length (connections c) = ?n" using calm by (simp add: calm_def)
  have "\<forall>x \<in> set (connections (init_loop ?n ?c0)). idle_conn x"
    by (rule init_loop_keeps) (auto simp: idle_conn_def init_connection_def zero_connection_def)
  then have idle: "idle_conn (conn_at c i)" if "i < ?n" for i using that len by (simp add: c conn_at_def)
  have "conn_fds (conn_at c i) = {}" if "i < ?n" for i
    using pool that by (auto simp: pool_ok_def conn_fds_def)
  then have "fds_ok (set (d_fds ctx)) c" using len init_loop_frame [of ?n ?c0] by (simp add: fds_ok_def c)
  moreover have "dirty_ok c []" using d init_loop_frame [of ?n ?c0] calm_on_dirty [OF calm] len
    by (simp add: dirty_ok_def) (simp add: c)
  moreover have "mset_set ({..<?n} - set [0..<?n]) = {#}" by (simp add: atLeast0LessThan)
  ultimately have "conns_inv (set (d_fds ctx)) tk c [0..<?n] {#} {#}"
    using pool idle len m(2) by (simp add: conns_defs)
  with calm show ?thesis by simp
qed

lemma start_inv:
  assumes c: "conn_pool_init True ctx = Some c" and m: "1 \<le> max_connections ctx" "max_connections ctx \<le> 2 ^ 32"
    and d: "dirty_head ctx = None" "dirty_tail ctx = None"
    and p: "pool_init True True True ctx = Some p" and s: "daemon_start c (ring_new k ok) p = Some S"
  shows "sys_inv (set (d_fds ctx)) S \<and> links_refused S = 0"
proof -
  obtain rc r1 where a: "ring_submit_accept (ring_new k ok) = (rc, r1)" by fastforce
  obtain rc2 r2 where e: "ring_submit_eventfd_read pool_eventfd r1 = (rc2, r2)" by fastforce
  note e' = e [unfolded ring_submit_eventfd_read_def]
  have new: "ring_sqes (ring_new k ok) = []" "refused_links (ring_new k ok) = 0"
    by (simp_all add: ring_new_def ring_sqes_def)
  have r1: "ring_owners r1 = {#}" "ring_ok r1" "refused_links r1 = 0"
    using submit_accept_cases [OF a] ring_ok_accept [OF _ a] new
    by (auto simp: ring_owners_def sqe_owner_def ring_ok_def)
  then have r2: "ring_owners r2 = {#}" "ring_ok r2" "refused_links r2 = 0"
    using with_flush_cases [OF e'] ring_ok_submit [OF _ e'] by (auto simp: ring_owners_def sqe_owner_def)
  obtain r where r: "lp S = \<lparr>dctx = c, lring = ring_submit r, wpool = p\<rparr>" "processing S = []" "adding S = []"
    "taken S = (\<lambda>_. [])" "ring_owners r = {#}" "ring_ok r" "refused_links r = 0"
    using s a e r1 r2 by (auto simp: daemon_start_def enter_loop_def split: if_splits)
  have "queue_conns p [] \<and> ring_conns p []"
    using p m(1) by (auto simp: pool_init_def queue_conns_def queue_items_def ring_conns_def)
  then have "pool_owners p [] [] {#}" unfolding pool_owners_def by (intro exI [of _ "[]"]) simp
  moreover have "ring_owners (ring_submit r) = ring_owners r" "ring_ok (ring_submit r) = ring_ok r"
    "refused_links (ring_submit r) = refused_links r"
    by (simp_all add: ring_submit_def ring_owners_def ring_ok_def)
  ultimately show ?thesis
    using r pool_init_conns [OF c _ m(2) d, of "\<lambda>_. []"] m(1)
    unfolding sys_inv_def links_refused_def by fastforce
qed

section \<open>Executions\<close>

text \<open>The states that are reached while no linked timeout is refused.\<close>

inductive reachable :: "sys \<Rightarrow> sys \<Rightarrow> bool" for S0 where
  here: "reachable S0 S0"
| onward: "reachable S0 S \<Longrightarrow> loop_step S S' \<Longrightarrow> links_refused S' = 0 \<Longrightarrow> reachable S0 S'"

lemma reach_inv:
  assumes "reachable S0 S" "sys_inv base S0" "links_refused S0 = 0"
  shows "sys_inv base S \<and> links_refused S = 0"
  using assms
proof (induction rule: reachable.induct)
  case (onward S S')
  then show ?case using step_inv [OF onward.hyps(2), of base] by auto
qed simp

end
