(* ===== verification/Loop_Correctness.thy ===== *)
theory Loop_Correctness
  imports Loop_System "HOL-Library.Disjoint_Sets"
begin

text \<open>
  What the event loop of the default build guarantees in every execution that starts with
  \<open>daemon_init\<close> and \<open>conn_pool_init\<close> and in which no linked timeout is refused, and what goes wrong
  when one is.
\<close>

section \<open>Executions of the daemon\<close>

definition started :: "daemon_ctx \<Rightarrow> sys \<Rightarrow> bool" where
  \<comment> \<open>\<open>main\<close>: the array of connections, the ring, the pool, and \<open>daemon_run\<close> up to its loop\<close>
  "started ctx S \<longleftrightarrow> 1 \<le> max_connections ctx \<and> max_connections ctx \<le> 2 ^ 32
     \<and> dirty_head ctx = None \<and> dirty_tail ctx = None
     \<and> (\<exists>c p k ok. conn_pool_init True ctx = Some c \<and> pool_init True True True ctx = Some p
          \<and> daemon_start c (ring_new k ok) p = Some S)"

definition runs :: "daemon_ctx \<Rightarrow> sys \<Rightarrow> bool" where
  "runs ctx S \<longleftrightarrow> (\<exists>S0. started ctx S0 \<and> reachable S0 S)"

definition conn_ops :: "sys \<Rightarrow> nat list" where
  \<comment> \<open>the connections of the \<open>recvmsg\<close> and \<open>write\<close> operations in the ring\<close>
  "conn_ops S = map fst (List.map_filter sqe_owner (ring_sqes (lring (lp S))))"

definition in_use :: "sys \<Rightarrow> nat set" where
  "in_use S = {i. i < length (connections (dctx (lp S))) \<and> state (conn (lp S) i) \<noteq> CONN_STATE_UNUSED}"

lemma runs_inv: "runs ctx S \<Longrightarrow> sys_inv (set (d_fds ctx)) S"
  using start_inv reach_inv unfolding runs_def started_def by blast

lemma runs_obtain:
  assumes "runs ctx S"
  obtains n fs P qs cs where "ring_ok (lring (lp S))" "calm n (dctx (lp S))"
    "queue_conns (wpool (lp S)) qs" "ring_conns (wpool (lp S)) cs"
    "P = image_mset (\<lambda>c. (c, Queued)) (mset qs + mset (processing S))
       + image_mset (\<lambda>c. (c, Done)) (mset (adding S) + mset cs)"
    "conns_inv (set (d_fds ctx)) (taken S) (dctx (lp S)) fs (ring_owners (lring (lp S)) + P) {#}"
  using runs_inv [OF assms] by (auto simp: sys_inv_def pool_owners_def)

lemma conn_ops_mset: "mset (conn_ops S) = image_mset fst (ring_owners (lring (lp S)))"
proof -
  have "mset (map fst (List.map_filter sqe_owner ss)) = image_mset fst (owners_of ss)" for ss
    by (induction ss) (auto simp: List.map_filter_simps split: option.split)
  then show ?thesis by (simp add: conn_ops_def ring_owners_def)
qed

lemma used_not_free:
  assumes "conns_inv base tk ctx fs own {#}" "i < length (connections ctx)"
  shows "state (conn_at ctx i) = CONN_STATE_UNUSED \<longleftrightarrow> i \<in> set fs"
proof
  assume u: "state (conn_at ctx i) = CONN_STATE_UNUSED"
  show "i \<in> set fs"
  proof (rule ccontr)
    assume "i \<notin> set fs"
    then have "i \<in># mset_set ({..<length (connections ctx)} - set fs)" using assms(2) by simp
    also have "mset_set ({..<length (connections ctx)} - set fs) = image_mset fst own"
      using assms(1) unfolding conns_inv_def conns_core_def by simp
    finally obtain w where "(i, w) \<in># own" by auto
    then have "owner_ok (tk i) (conn_at ctx i) w" using assms(1) unfolding conns_inv_def conns_core_def by blast
    with u show False by (cases w) (auto simp: sending_def split: if_splits)
  qed
next
  assume "i \<in> set fs"
  then show "state (conn_at ctx i) = CONN_STATE_UNUSED"
    using assms(1) by (auto simp: conns_defs pool_ok_def)
qed

section \<open>Every connection is in one place\<close>

text \<open>
  C2. In every state of every run in which no linked timeout is refused, the connections in use are
  exactly, and each once, the connections of a \<open>recvmsg\<close> or \<open>write\<close> in the ring, those in the work queue,
  with a worker, or in the ring of completions. So no connection is forgotten, none is served by two
  operations at once, and \<open>active_connections\<close> is their number.
\<close>

theorem connection_in_one_place:
  assumes "runs ctx S"
  shows "\<exists>waiting completed. queue_conns (wpool (lp S)) waiting \<and> ring_conns (wpool (lp S)) completed
     \<and> mset (conn_ops S @ waiting @ processing S @ adding S @ completed) = mset_set (in_use S)
     \<and> active_connections (dctx (lp S)) = int (card (in_use S))"
proof -
  from assms obtain n fs P qs cs where h: "queue_conns (wpool (lp S)) qs" "ring_conns (wpool (lp S)) cs"
    "P = image_mset (\<lambda>c. (c, Queued)) (mset qs + mset (processing S))
       + image_mset (\<lambda>c. (c, Done)) (mset (adding S) + mset cs)"
    "conns_inv (set (d_fds ctx)) (taken S) (dctx (lp S)) fs (ring_owners (lring (lp S)) + P) {#}"
    by (rule runs_obtain)
  have use: "in_use S = {..<length (connections (dctx (lp S)))} - set fs"
    using used_not_free [OF h(4)] by (auto simp: in_use_def)
  have "mset (conn_ops S @ qs @ processing S @ adding S @ cs) = image_mset fst (ring_owners (lring (lp S)) + P)"
    by (simp add: h(3) conn_ops_mset image_mset.compositionality comp_def)
  moreover have "card (in_use S) = length (connections (dctx (lp S))) - length fs"
    unfolding use using h(4) by (auto simp: conns_defs pool_ok_def card_Diff_subset distinct_card)
  moreover have "length fs \<le> length (connections (dctx (lp S)))"
    using h(4) card_mono [of "{..<length (connections (dctx (lp S)))}" "set fs"]
    by (auto simp: conns_defs pool_ok_def distinct_card)
  ultimately show ?thesis using h(1,2,4) unfolding use
    by (intro exI [of _ qs] exI [of _ cs]) (auto simp: conns_defs pool_ok_def)
qed

section \<open>Descriptors\<close>


section \<open>What a client receives\<close>

lemma runs_owner:
  assumes r: "runs ctx S" and s: "s \<in> set (ring_sqes (lring (lp S)))" "sqe_owner s = Some (i, w)"
  shows "owner_ok (taken S i) (conn (lp S) i) w \<and> i = sqe_id s"
proof -
  from r obtain n fs P where h:
    "conns_inv (set (d_fds ctx)) (taken S) (dctx (lp S)) fs (ring_owners (lring (lp S)) + P) {#}"
    by (rule runs_obtain)
  have "(i, w) \<in># ring_owners (lring (lp S)) + P"
    using owners_of_remove [OF s(1)] s(2) by (simp add: ring_owners_def)
  then have "owner_ok (taken S i) (conn (lp S) i) w" using h unfolding conns_inv_def conns_core_def by blast
  moreover have "i = sqe_id s" using s(2) by (auto simp: sqe_owner_def split: prep.splits)
  ultimately show ?thesis by simp
qed

text \<open>
  C5. Whatever order completions arrive in and however short the writes are, what a client has received,
  followed by the write that is on its way, is a prefix of its stream: the HTTP headers, the eighteen
  events in their order, \<open>[DONE]\<close>. Nothing is lost, repeated or mixed with another connection, and the
  connection is in \<open>CONN_STATE_CLOSING\<close> exactly when the write is the last part.
\<close>

theorem stream_prefix:
  assumes "runs ctx S" "s \<in> set (ring_sqes (lring (lp S)))" "prep s = Prep_write fd b"
  shows "\<exists>rest. taken S (sqe_id s) @ b @ rest = whole_stream (conn (lp S) (sqe_id s))
     \<and> (state (conn (lp S) (sqe_id s)) = CONN_STATE_CLOSING \<longleftrightarrow> rest = [])"
proof -
  have "sqe_owner s = Some (sqe_id s, Sending b)" using assms(3) by (simp add: sqe_owner_def)
  from runs_owner [OF assms(1,2) this]
  have "sending (taken S (sqe_id s)) (conn (lp S) (sqe_id s)) b" by simp
  moreover have "rest_text k c \<noteq> []" for k c by (simp add: rest_text_def)
  ultimately show ?thesis
    unfolding sending_def by (cases "state (conn (lp S) (sqe_id s)) = CONN_STATE_CLOSING") fastforce+
qed

text \<open>The write of the last byte.\<close>

lemma last_write:
  assumes inv: "conns_inv base tk (dctx L) fs own {#i#}" and c: "sending t (conn L i) b"
    and st: "state (conn L i) = CONN_STATE_CLOSING"
  shows "\<exists>L'. handle_write i (int (length b)) mem L = Some L' \<and> state (conn L' i) = CONN_STATE_UNUSED
    \<and> set (d_fds (dctx L')) = set (d_fds (dctx L)) - conn_fds (conn L i)"
proof -
  let ?f = "\<lambda>c. c\<lparr>bytes_sent := bytes_sent c + length b, write_offset := write_offset c + length b\<rparr>"
  let ?g = "\<lambda>c. c\<lparr>write_len := 0, write_offset := 0, write_buf := None\<rparr>"
  let ?L1 = "with_conn i ?f L"
  let ?L2 = "with_conn i ?g ?L1"
  have act: "i < length (connections (dctx L))" using inv_hole_active [OF inv] by simp
  have at1: "conn ?L1 i = ?f (conn L i)" and at2: "conn ?L2 i = ?g (?f (conn L i))"
    using act by (simp_all add: with_conn_twice)
  have inv1: "conns_inv base tk (dctx ?L1) fs own {#i#}"
    using with_conn_inv [OF inv, of ?f] by (simp add: stable_buf)
  have inv2: "conns_inv base tk (dctx (count_completed i ?L2)) fs own {#i#}"
    using with_conn_inv [OF inv1, of ?g] by (simp add: stable_buf)
  let ?c = "dctx (count_completed i ?L2)"
  have act2: "i < length (connections ?c)" using inv_hole_active [OF inv2] by simp
  have same: "set (d_fds ?c) = set (d_fds (dctx L))" "conn_at ?c i = conn ?L2 i"
    by (simp_all add: count_completed_def with_conn_def conn_at_def)
  have "handle_write i (int (length b)) mem L = cleanup_connection i (count_completed i ?L2)"
    using c st unfolding handle_write_def Let_def nat_int at1 at2 by (simp add: sending_def)
  then have "handle_write i (int (length b)) mem L = Some ((count_completed i ?L2)\<lparr>dctx := conn_free i ?c\<rparr>)"
    using cleanup_ok(1) [OF inv2] by simp
  moreover have "state (conn_at (conn_free i ?c) i) = CONN_STATE_UNUSED" using conn_free_at(1) [OF act2] by simp
  moreover have "set (d_fds (conn_free i ?c)) = set (d_fds (dctx L)) - conn_fds (conn L i)"
    using conn_close_fds_fds [OF act2] by (auto simp: same conn_fds_def at2)
  ultimately show ?thesis by auto
qed

text \<open>
  C15. When that last write completes, the client has received its whole stream, the connection is freed
  and its descriptors, and no others, are closed.
\<close>

theorem client_served:
  assumes r: "runs ctx S" and s: "s \<in> set (inflight (lring (lp S)))" "prep s = Prep_write fd b"
    and e: "cqe_data e = sqe_data s" "cqe_res e = int (length b)"
    and st: "state (conn (lp S) (sqe_id s)) = CONN_STATE_CLOSING"
  shows "taken S (sqe_id s) @ b = whole_stream (conn (lp S) (sqe_id s))
    \<and> (\<exists>L. process_cqe a e (retire s (lp S)) = Some L \<and> state (conn L (sqe_id s)) = CONN_STATE_UNUSED
         \<and> set (d_fds (dctx L)) = set (d_fds (dctx (lp S))) - conn_fds (conn (lp S) (sqe_id s)))"
proof -
  let ?i = "sqe_id s" and ?L = "retire s (lp S)"
  from r obtain n fs P where h: "ring_ok (lring (lp S))"
    "conns_inv (set (d_fds ctx)) (taken S) (dctx (lp S)) fs (ring_owners (lring (lp S)) + P) {#}"
    by (rule runs_obtain)
  have own: "sqe_owner s = Some (?i, Sending b)" using s(2) by (simp add: sqe_owner_def)
  note o = owned_completion [OF h(2) s(1) own]
  have snd: "sending (taken S ?i) (conn ?L ?i) b" using o(2) by simp
  have u: "ring_unpack_data (cqe_data e) = (Some OP_WRITE, of_nat ?i)"
    using completed_op [OF h(1) s(1)] s e by simp
  have "process_cqe a e ?L = handle_write ?i (int (length b)) (a_write_mem a) ?L"
    using u o(5) st snd e(2) by (simp add: process_cqe_def sending_def)
  then show ?thesis
    using last_write [of "set (d_fds ctx)" "taken S" ?L fs "ring_owners (lring ?L) + P" ?i _ b "a_write_mem a"] o(1) snd st
    by (auto simp: sending_def)
qed

section \<open>Every completion is handled\<close>

text \<open>
  C32. Every completion is handled: as long as the dirty list is empty, which the handlers of this build
  maintain, \<open>process_cqe\<close> returns for every completion, also for one that belongs to nothing the daemon
  submitted, and after a linked timeout was refused.
\<close>

theorem handlers_return:
  assumes "calm_loop n cs L"
  shows "\<exists>L' ds. process_cqe a e L = Some L' \<and> calm_loop n ds L'"
  using process_cqe_returns [OF assms, of a e] by (auto simp: returns_def)

section \<open>Failures of the ring\<close>

text \<open>
  C40. When the submission queue has room for the write of the headers only, the linked timeout is refused
  and \<open>start_streaming\<close> frees the connection, but the write stays in the queue, linked to whatever is
  submitted next: it will go to a descriptor that is closed by then, and its completion will be taken
  for one of the next connection with that index.
\<close>

theorem refused_link_frees_sending_connection:
  assumes calm: "calm_loop n cs L" "i < n" and full: "Suc (length (sq (lring L))) = sq_entries (lring L)"
  shows "\<exists>L'. start_streaming i L = Some L' \<and> state (conn L' i) = CONN_STATE_UNUSED \<and> free_list (dctx L') = Some i
    \<and> sq (lring L') = sq (lring L) @ [\<lparr>prep = Prep_write (client_fd (conn L i)) SSE_HEADERS, io_link = True,
        sqe_data = ring_pack_data OP_WRITE (of_nat (conn_id (conn L i)))\<rparr>]"
proof -
  let ?L = "with_conn i (\<lambda>c. c\<lparr>write_len := length SSE_HEADERS, write_offset := 0\<rparr>) L"
  let ?s = "\<lparr>prep = Prep_write (client_fd (conn L i)) SSE_HEADERS, io_link = True,
      sqe_data = ring_pack_data OP_WRITE (of_nat (conn_id (conn L i)))\<rparr>"
  let ?r = "(lring L)\<lparr>sq := sq (lring L) @ [?s]\<rparr>"
  let ?L2 = "?L\<lparr>lring := ?r\<lparr>refused_links := refused_links (lring L) + 1\<rparr>\<rparr>"
  have act: "i < length (connections (dctx L))" using calm by (simp add: calm_loop_def calm_def)
  have at: "client_fd (conn ?L i) = client_fd (conn L i)" "conn_id (conn ?L i) = conn_id (conn L i)" using act by simp_all
  have w: "ring_submit_write (conn ?L i) SSE_HEADERS (lring ?L) = (0, ?r)"
    using full by (simp add: ring_submit_write_def with_flush_def ring_get_sqe_flush_def io_uring_get_sqe_def fill_sqe_def at)
  have t: "ring_submit_linked_timeout c ms ?r = (- EAGAIN, ?r\<lparr>refused_links := refused_links (lring L) + 1\<rparr>)" for c ms
    using full by (simp add: ring_submit_linked_timeout_def io_uring_get_sqe_def)
  have c2: "calm_loop n cs (count_failed ?L2)" using calm by auto
  then have "\<not> on_dirty_list (conn (count_failed ?L2) i)" using calm(2) unfolding calm_loop_def by (blast dest: calm_on_dirty)
  then have "fail_connection i ?L2 = Some ((count_failed ?L2)\<lparr>dctx := conn_free i (dctx (count_failed ?L2))\<rparr>)"
    by (simp only: fail_connection_def cleanup_connection_def daemon_unmark_connection_dirty_def) simp
  then have "start_streaming i L = Some ((count_failed ?L2)\<lparr>dctx := conn_free i (dctx (count_failed ?L2))\<rparr>)"
    unfolding start_streaming_def submit_write_def w using t by (simp add: Let_def)
  moreover have "i < length (connections (dctx (count_failed ?L2)))"
    using c2 calm(2) by (simp only: calm_loop_def calm_def)
  then have "state (conn_at (conn_free i (dctx (count_failed ?L2))) i) = CONN_STATE_UNUSED" using conn_free_at(1) by simp
  ultimately show ?thesis by simp
qed

text \<open>
  When the multishot accept ends while the submission queue is full, the retries of \<open>handle_accept\<close> do
  not flush the queue, so none of them succeeds: the loop goes on unchanged, without an accept.
\<close>

theorem accept_lost:
  assumes "sq_entries (lring L) \<le> length (sq (lring L))" "fd < 0"
  shows "handle_accept m fd False L = Some L"
proof -
  have "ring_submit_accept (lring L) = (- EAGAIN, lring L)"
    using assms(1) by (simp add: ring_submit_accept_def io_uring_get_sqe_def)
  then have "rearm_accept (lring L) = lring L" by (simp add: rearm_accept_def numeral_3_eq_3)
  then show ?thesis using assms(2) by (simp add: handle_accept_def)
qed

section \<open>Completions belong to what was submitted\<close>


section \<open>A run\<close>

text \<open>One connection is accepted, handed over and served, each write being taken completely.\<close>

definition demo_ctx :: daemon_ctx where
  "demo_ctx = (daemon_init False)\<lparr>max_connections := 1\<rparr>"

definition demo_start :: "sys option" where
  "demo_start = (case conn_pool_init True demo_ctx of None \<Rightarrow> None
     | Some c \<Rightarrow> (case pool_init True True True demo_ctx of None \<Rightarrow> None
     | Some p \<Rightarrow> daemon_start c (ring_new 8 (\<lambda>_. True)) p))"

definition demo_answers :: answers where
  "demo_answers = \<lparr>a_handoff_mem = Some (\<lambda>_. CHR 0x00), a_msg = Some \<lparr>cmsg_level = 1, cmsg_type = 1, cmsg_fd = 7\<rparr>,
     a_sotype = Some 1, a_work = Some 0, a_write_mem = True\<rparr>"

definition demo_flush :: "sys \<Rightarrow> sys" where
  "demo_flush S = S\<lparr>lp := (lp S)\<lparr>lring := ring_submit (lring (lp S))\<rparr>\<rparr>"

definition demo_cqe :: "sys \<Rightarrow> sqe \<Rightarrow> (sys \<times> cqe) option" where
  \<comment> \<open>what the kernel does with an operation in this run\<close>
  "demo_cqe S s = (case prep s of
     Prep_multishot_accept \<Rightarrow>
       if 5 \<in> set (d_fds (dctx (lp S))) then None
       else Some (S\<lparr>lp := opened 5 (lp S)\<rparr>, \<lparr>cqe_res = 5, cqe_more = True, cqe_data = sqe_data s\<rparr>)
   | Prep_recvmsg _ \<Rightarrow>
       if 7 \<in> set (d_fds (dctx (lp S))) \<or> items (wpool (lp S)) 0 \<noteq> None then None
       else Some (S\<lparr>lp := opened 7 (received (sqe_id s) [] (retire s (lp S))), taken := (taken S)(sqe_id s := [])\<rparr>,
         \<lparr>cqe_res = 0, cqe_more = False, cqe_data = sqe_data s\<rparr>)
   | Prep_write _ b \<Rightarrow> Some (S\<lparr>lp := retire s (lp S), taken := (taken S)(sqe_id s := taken S (sqe_id s) @ b)\<rparr>,
       \<lparr>cqe_res = int (length b), cqe_more = False, cqe_data = sqe_data s\<rparr>)
   | _ \<Rightarrow> None)"

definition demo_round :: "sys \<Rightarrow> sys option" where
  "demo_round S0 =
     (let S = demo_flush S0; ops = inflight (lring (lp S));
          s = (case List.find (\<lambda>s. sqe_owner s \<noteq> None) ops of Some s \<Rightarrow> Some s | None \<Rightarrow>
                 List.find (\<lambda>s. prep s = Prep_multishot_accept) ops)
      in case s of None \<Rightarrow> None
       | Some s \<Rightarrow> (case demo_cqe S s of None \<Rightarrow> None
       | Some (S1, e) \<Rightarrow> (case process_cqe demo_answers e (lp S1) of None \<Rightarrow> None
       | Some L \<Rightarrow> if refused_links (lring L) = 0 then Some (S1\<lparr>lp := L\<rparr>) else None)))"

lemma demo_cqe_completes:
  assumes "demo_cqe S s = Some (S1, e)" "s \<in> set (inflight (lring (lp S)))"
  shows "completes S demo_answers e S1"
proof (cases "prep s")
  case Prep_multishot_accept
  then show ?thesis using assms completes.accept [of s S e demo_answers] by (auto simp: demo_cqe_def split: if_splits)
next
  case (Prep_recvmsg fd)
  then show ?thesis using assms completes.recv [of s S fd e "[]" demo_answers]
    by (auto simp: demo_cqe_def demo_answers_def handoff_extract_fd_def fresh_item_def split: if_splits)
next
  case (Prep_write fd b)
  then show ?thesis using assms completes.written [of s S fd b e demo_answers] by (auto simp: demo_cqe_def)
qed (use assms in \<open>simp_all add: demo_cqe_def\<close>)

lemma demo_flush_reach: "reachable S0 S \<Longrightarrow> links_refused S = 0 \<Longrightarrow> reachable S0 (demo_flush S) \<and> links_refused (demo_flush S) = 0"
  using reachable.onward [OF _ loop_step.submit, of S0 S]
  by (simp add: demo_flush_def links_refused_def ring_submit_def)

lemma demo_round_reach:
  assumes "reachable S0 S" "links_refused S = 0" "demo_round S = Some S'"
  shows "reachable S0 S' \<and> links_refused S' = 0"
proof -
  let ?S = "demo_flush S"
  obtain s S1 e L where h: "demo_cqe ?S s = Some (S1, e)" "process_cqe demo_answers e (lp S1) = Some L"
    "S' = S1\<lparr>lp := L\<rparr>" "refused_links (lring L) = 0" "s \<in> set (inflight (lring (lp ?S)))"
    using assms(3) by (auto simp: demo_round_def Let_def find_Some_iff split: option.splits if_splits)
  from loop_step.cqe [OF demo_cqe_completes [OF h(1,5)] h(2)] demo_flush_reach [OF assms(1,2)] h(3,4)
  show ?thesis by (auto simp: links_refused_def intro: reachable.onward)
qed

definition demo_sqe :: "prep \<Rightarrow> bool \<Rightarrow> op_type \<Rightarrow> sqe" where
  "demo_sqe p l x = \<lparr>prep = p, io_link = l, sqe_data = ring_pack_data x 0\<rparr>"

definition demo_ring :: "sqe list \<Rightarrow> sqe list \<Rightarrow> nat \<Rightarrow> ring" where
  "demo_ring q fl k = \<lparr>sq_entries = 8, sq = q, inflight = fl, submit_ok = \<lambda>_. True, submits = k, refused_links = 0\<rparr>"

definition demo_pool :: pool_ctx where
  "demo_pool = \<lparr>items = Map.empty, queue_head = None, queue_tail = None, pool_shut = False,
     completions = [0], completion_head = 0, completion_tail = 0, completion_size = 1, event_count = 0\<rparr>"

definition demo_conn :: connection where
  "demo_conn = zero_connection\<lparr>unix_fd := -1, client_fd := -1\<rparr>"

definition demo_sys :: "daemon_ctx \<Rightarrow> ring \<Rightarrow> sys" where
  "demo_sys c r = \<lparr>lp = \<lparr>dctx = c, lring = r, wpool = demo_pool\<rparr>, processing = [], adding = [], taken = \<lambda>_. []\<rparr>"

definition demo0 :: sys where
  "demo0 = demo_sys (demo_ctx\<lparr>connections := [demo_conn], free_list := Some 0\<rparr>)
     (demo_ring [] [demo_sqe Prep_multishot_accept False OP_ACCEPT] 1)"

definition demo1 :: "string \<Rightarrow> sys" where
  "demo1 b = demo_sys (demo_ctx\<lparr>connections := [demo_conn\<lparr>unix_fd := 5, state := CONN_STATE_RECEIVING_FD,
       handoff_buf := Some b, handoff_cap := 4096\<rparr>], free_list := None, active_connections := 1,
       peak_connections := 1, d_fds := [5]\<rparr>)
     (demo_ring [demo_sqe (Prep_recvmsg 5) False OP_RECV_FD] [demo_sqe Prep_multishot_accept False OP_ACCEPT] 2)"

definition demo2 :: "string \<Rightarrow> sys" where
  "demo2 b = demo_sys (demo_ctx\<lparr>connections := [demo_conn\<lparr>client_fd := 7, state := CONN_STATE_STREAMING,
       handoff_buf := Some b, handoff_cap := 4096, write_len := length SSE_HEADERS\<rparr>], free_list := None, active_connections := 1,
       peak_connections := 1, d_fds := [7]\<rparr>)
     (demo_ring [demo_sqe (Prep_write 7 SSE_HEADERS) True OP_WRITE, demo_sqe (Prep_link_timeout 30000) False OP_TIMEOUT]
        [demo_sqe Prep_multishot_accept False OP_ACCEPT] 3)"

lemmas demo_defs = demo_sys_def demo_ring_def demo_pool_def demo_conn_def demo_sqe_def demo_ctx_def daemon_init_def

lemma demo_start_state: "demo_start = Some demo0"
  by (simp add: demo_start_def demo0_def demo_defs conn_pool_init_def pool_init_def daemon_start_def
    enter_loop_def ring_new_def ring_submit_accept_def io_uring_get_sqe_def fill_sqe_def ring_submit_def
    io_uring_submit_def upd_conn_def init_connection_def zero_connection_def DEFAULT_SOCKET_PATH_def)


lemmas demo_eval = demo_round_def demo_flush_def ring_submit_def io_uring_submit_def demo_cqe_def process_cqe_def unpack_pack
  opened_def conn_alloc_def attach_handoff_buf_def handle_accept_def upd_conn_def conn_at_def
  ring_submit_recvmsg_def with_flush_def ring_get_sqe_flush_def io_uring_get_sqe_def fill_sqe_def demo_answers_def

lemma demo_accept: "demo_round demo0 = Some (demo1 (map (\<lambda>_. CHR 0x00) [0..<HANDOFF_TIER1_SIZE]))"
  by (simp add: demo0_def demo1_def demo_defs demo_eval sqe_owner_def zero_connection_def) (simp add: HANDOFF_TIER1_SIZE_def)


lemmas demo_eval_write = submit_write_def ring_submit_write_def ring_submit_linked_timeout_def with_conn_def Let_def
  handle_write_def send_next_def

lemma parse_nothing: "handoff_parse_data b 0 = (empty_handoff_data, b)"
  by (simp add: handoff_parse_data_def handoff_text_def)

lemma no_bytes: "(\<lambda>_. []) = (\<lambda>_. [])(i := [])" by auto

lemma demo_recv: "demo_round (demo1 b) = Some (demo2 b)"
  by (simp add: demo1_def demo2_def demo_defs demo_eval demo_eval_write sqe_owner_def zero_connection_def received_def sqe_id_def retire_def
    conn_get_def handle_recv_fd_def handoff_extract_fd_def close_fd_def handoff_validate_socket_def dispatch_def
    parse_handoff_def parse_nothing start_streaming_def stream_start_def flip: no_bytes)

definition demo_serving :: "string \<Rightarrow> conn_state \<Rightarrow> nat \<Rightarrow> string \<Rightarrow> sys \<Rightarrow> bool" where
  "demo_serving b st m t S \<longleftrightarrow> (\<exists>bs wb fl k tk. (\<forall>s \<in> set fl. sqe_owner s = None) \<and>
     S = (demo_sys (demo_ctx\<lparr>connections := [demo_conn\<lparr>client_fd := 7, state := st,
       handoff_buf := Some b, handoff_cap := 4096, write_len := length t, bytes_sent := bs, stream_index := int m,
       write_buf := wb\<rparr>], free_list := None, active_connections := 1, peak_connections := 1, d_fds := [7]\<rparr>)
     (demo_ring [demo_sqe (Prep_write 7 t) True OP_WRITE, demo_sqe (Prep_link_timeout 30000) False OP_TIMEOUT] fl k))\<lparr>taken := tk\<rparr>)"

lemma demo2_serving: "demo_serving b CONN_STATE_STREAMING 0 SSE_HEADERS (demo2 b)"
  unfolding demo_serving_def
  by (rule exI [of _ 0], rule exI [of _ None], rule exI [of _ "[demo_sqe Prep_multishot_accept False OP_ACCEPT]"],
      rule exI [of _ 3], rule exI [of _ "\<lambda>_. []"])
    (simp add: demo2_def demo_defs sqe_owner_def zero_connection_def)

lemma find_own: "\<forall>s \<in> set fl. sqe_owner s = None \<Longrightarrow> sqe_owner w = Some x \<Longrightarrow>
   List.find (\<lambda>s. \<exists>a b. sqe_owner s = Some (a, b)) (fl @ w # ws) = Some w \<and> remove1 w (fl @ w # ws) = fl @ ws"
  by (induction fl) auto

lemma write_owner: "sqe_owner \<lparr>prep = Prep_write 7 t, io_link = l, sqe_data = ring_pack_data x 0\<rparr> = Some (0, Sending t)"
  by (simp add: sqe_owner_def sqe_id_def unpack_pack)

lemma demo_next:
  assumes "demo_serving b CONN_STATE_STREAMING m t S"
  shows "\<exists>t' st S'. demo_round S = Some S' \<and> demo_serving b (if m < 18 then CONN_STATE_STREAMING else CONN_STATE_CLOSING)
    (if m < 18 then Suc m else m) t' S'"
proof -
  obtain bs wb fl k tk where fl: "\<forall>s \<in> set fl. sqe_owner s = None" and
     S: "S = (demo_sys (demo_ctx\<lparr>connections := [demo_conn\<lparr>client_fd := 7, state := CONN_STATE_STREAMING,
       handoff_buf := Some b, handoff_cap := 4096, write_len := length t, bytes_sent := bs, stream_index := int m,
       write_buf := wb\<rparr>], free_list := None, active_connections := 1, peak_connections := 1, d_fds := [7]\<rparr>)
     (demo_ring [demo_sqe (Prep_write 7 t) True OP_WRITE, demo_sqe (Prep_link_timeout 30000) False OP_TIMEOUT] fl k))\<lparr>taken := tk\<rparr>"
    using assms unfolding demo_serving_def by blast
  note own = find_own [OF fl write_owner]
  show ?thesis
  proof (cases "m < 18")
    case True
    note nx = stream_next_demo [of _ m, unfolded if_P [OF True]] format_event [OF demo_texts_short [OF True]]
    show ?thesis unfolding S
      using True fl by (simp add: demo_defs demo_eval demo_eval_write own sqe_id_def retire_def conn_get_def
        zero_connection_def nx del: of_nat_Suc)
        (simp add: demo_serving_def demo_defs zero_connection_def sqe_owner_def del: of_nat_Suc)
  next
    case False
    note nx = stream_next_demo [of _ m, unfolded if_not_P [OF False]]
    show ?thesis unfolding S
      using False fl by (simp add: demo_defs demo_eval demo_eval_write own sqe_id_def retire_def conn_get_def
        zero_connection_def nx del: of_nat_Suc)
        (simp add: demo_serving_def demo_defs zero_connection_def sqe_owner_def del: of_nat_Suc)
  qed
qed

definition demo_reaches :: "conn_state \<Rightarrow> nat \<Rightarrow> string \<Rightarrow> sys \<Rightarrow> bool" where
  "demo_reaches st m t S \<longleftrightarrow> runs demo_ctx S \<and> links_refused S = 0 \<and> (\<exists>b. demo_serving b st m t S)"

lemma demo_started: "started demo_ctx demo0"
proof -
  obtain c p where "conn_pool_init True demo_ctx = Some c" "pool_init True True True demo_ctx = Some p"
    "daemon_start c (ring_new 8 (\<lambda>_. True)) p = Some demo0"
    using demo_start_state unfolding demo_start_def by (auto split: option.splits)
  moreover have "max_connections demo_ctx = 1" "dirty_head demo_ctx = None" "dirty_tail demo_ctx = None"
    by (simp_all add: demo_ctx_def daemon_init_def)
  ultimately show ?thesis unfolding started_def by fastforce
qed

lemma demo_round_runs:
  "runs demo_ctx S \<Longrightarrow> links_refused S = 0 \<Longrightarrow> demo_round S = Some S' \<Longrightarrow> runs demo_ctx S' \<and> links_refused S' = 0"
  using demo_round_reach by (auto simp: runs_def)

lemma demo_headers: "\<exists>S. demo_reaches CONN_STATE_STREAMING 0 SSE_HEADERS S"
proof -
  let ?b = "map (\<lambda>_. CHR 0x00) [0..<HANDOFF_TIER1_SIZE]"
  have "runs demo_ctx demo0" "links_refused demo0 = 0"
    using demo_started reachable.here by (auto simp: runs_def links_refused_def demo0_def demo_defs)
  then have "runs demo_ctx (demo2 ?b) \<and> links_refused (demo2 ?b) = 0"
    using demo_round_runs demo_accept demo_recv by blast
  then show ?thesis using demo2_serving by (auto simp: demo_reaches_def)
qed

lemma demo_events: "m \<le> 18 \<Longrightarrow> \<exists>t S. demo_reaches CONN_STATE_STREAMING m t S"
proof (induction m)
  case 0
  then show ?case using demo_headers by blast
next
  case (Suc m)
  then obtain t S b where S: "runs demo_ctx S" "links_refused S = 0" "demo_serving b CONN_STATE_STREAMING m t S"
    by (auto simp: demo_reaches_def)
  obtain t' S' where "demo_round S = Some S'" "demo_serving b CONN_STATE_STREAMING (Suc m) t' S'"
    using demo_next [OF S(3)] Suc.prems by auto
  then show ?case using demo_round_runs [OF S(1,2)] by (auto simp: demo_reaches_def)
qed

lemma demo_done: "\<exists>t S. demo_reaches CONN_STATE_CLOSING 18 t S"
proof -
  obtain t S b where S: "runs demo_ctx S" "links_refused S = 0" "demo_serving b CONN_STATE_STREAMING 18 t S"
    using demo_events [of 18] by (auto simp: demo_reaches_def)
  obtain t' S' where "demo_round S = Some S'" "demo_serving b CONN_STATE_CLOSING 18 t' S'"
    using demo_next [OF S(3)] by auto
  then show ?thesis using demo_round_runs [OF S(1,2)] by (auto simp: demo_reaches_def)
qed

text \<open>The same with the write handed to the kernel.\<close>

lemma demo_writing:
  assumes "demo_reaches st m t S"
  shows "\<exists>S' s. runs demo_ctx S' \<and> s \<in> set (inflight (lring (lp S'))) \<and> prep s = Prep_write 7 t \<and> sqe_id s = 0
    \<and> in_use S' \<subseteq> {0} \<and> state (conn (lp S') 0) = st \<and> client_fd (conn (lp S') 0) = 7"
proof -
  let ?s = "demo_sqe (Prep_write 7 t) True OP_WRITE"
  have "runs demo_ctx (demo_flush S)"
    using assms demo_flush_reach by (auto simp: demo_reaches_def runs_def)
  moreover have "?s \<in> set (inflight (lring (lp (demo_flush S)))) \<and> in_use (demo_flush S) \<subseteq> {0}
      \<and> state (conn (lp (demo_flush S)) 0) = st \<and> client_fd (conn (lp (demo_flush S)) 0) = 7"
    using assms by (auto simp: demo_reaches_def demo_serving_def demo_flush_def demo_defs ring_submit_def
      io_uring_submit_def in_use_def conn_at_def zero_connection_def)
  moreover have "prep ?s = Prep_write 7 t" "sqe_id ?s = 0" by (simp_all add: demo_sqe_def sqe_id_def unpack_pack)
  ultimately show ?thesis by blast
qed

section \<open>Witnesses\<close>

lemma connection_in_one_place_witness:
  "\<exists>S. runs demo_ctx S \<and> 0 \<in> set (conn_ops S) \<and> (\<exists>waiting completed. queue_conns (wpool (lp S)) waiting
     \<and> ring_conns (wpool (lp S)) completed
     \<and> mset (conn_ops S @ waiting @ processing S @ adding S @ completed) = mset_set (in_use S)
     \<and> active_connections (dctx (lp S)) = int (card (in_use S)))"
proof -
  obtain t S0 where "demo_reaches CONN_STATE_CLOSING 18 t S0" using demo_done by blast
  from demo_writing [OF this] obtain S s where S: "runs demo_ctx S" "s \<in> set (inflight (lring (lp S)))"
    "prep s = Prep_write 7 t" "sqe_id s = 0" by blast
  have "(0, Sending t) \<in># ring_owners (lring (lp S))"
    using owners_of_remove [of s "ring_sqes (lring (lp S))"] S(2-4)
    by (simp add: ring_owners_def ring_sqes_def sqe_owner_def)
  then have "0 \<in># mset (conn_ops S)" unfolding conn_ops_mset by force
  with connection_in_one_place [OF S(1)] S(1) show ?thesis by auto
qed


lemma stream_prefix_witness:
  "\<exists>S rest. runs demo_ctx S \<and> taken S 0 @ SSE_HEADERS @ rest = whole_stream (conn (lp S) 0) \<and> rest \<noteq> []"
proof -
  obtain S0 where "demo_reaches CONN_STATE_STREAMING 0 SSE_HEADERS S0" using demo_headers by blast
  from demo_writing [OF this] obtain S s where S: "runs demo_ctx S" "s \<in> set (inflight (lring (lp S)))"
    "prep s = Prep_write 7 SSE_HEADERS" "sqe_id s = 0" "state (conn (lp S) 0) = CONN_STATE_STREAMING" by blast
  have "s \<in> set (ring_sqes (lring (lp S)))" using S(2) by (simp add: ring_sqes_def)
  from stream_prefix [OF S(1) this S(3)] S(1,4,5) show ?thesis by auto
qed

lemma client_served_witness:
  "\<exists>S s t L. runs demo_ctx S \<and> taken S 0 @ t = whole_stream (conn (lp S) 0)
     \<and> process_cqe demo_answers \<lparr>cqe_res = int (length t), cqe_more = False, cqe_data = sqe_data s\<rparr>
         (retire s (lp S)) = Some L \<and> state (conn L 0) = CONN_STATE_UNUSED
     \<and> set (d_fds (dctx L)) = set (d_fds (dctx (lp S))) - conn_fds (conn (lp S) 0)"
proof -
  obtain t S0 where "demo_reaches CONN_STATE_CLOSING 18 t S0" using demo_done by blast
  from demo_writing [OF this] obtain S s where S: "runs demo_ctx S" "s \<in> set (inflight (lring (lp S)))"
    "prep s = Prep_write 7 t" "sqe_id s = 0" "state (conn (lp S) 0) = CONN_STATE_CLOSING" by blast
  let ?e = "\<lparr>cqe_res = int (length t), cqe_more = False, cqe_data = sqe_data s\<rparr>"
  from client_served [OF S(1-3), of ?e demo_answers] S(1,4,5) show ?thesis by auto
qed

definition demo_tight :: "nat \<Rightarrow> sqe list \<Rightarrow> loop" where
  \<comment> \<open>a ring of so many entries, with these queued\<close>
  "demo_tight n q = (lp demo0)\<lparr>lring := (demo_ring q [] 0)\<lparr>sq_entries := n\<rparr>\<rparr>"

lemma demo_tight_calm: "calm_loop 1 [] (demo_tight n q)"
  by (simp add: demo_tight_def demo0_def demo_defs calm_loop_def calm_def link_in_range_def ring_in_def ring_conns_def
    zero_connection_def)

lemma handlers_return_witness:
  "\<exists>L' ds. process_cqe demo_answers \<lparr>cqe_res = 5, cqe_more = False, cqe_data = 0\<rparr> (demo_tight 0 []) = Some L'
     \<and> calm_loop 1 ds L'"
  by (rule handlers_return [OF demo_tight_calm])

lemma refused_link_frees_sending_connection_witness:
  "\<exists>L'. start_streaming 0 (demo_tight 1 []) = Some L' \<and> state (conn L' 0) = CONN_STATE_UNUSED
     \<and> free_list (dctx L') = Some 0
     \<and> sq (lring L') = [\<lparr>prep = Prep_write (-1) SSE_HEADERS, io_link = True, sqe_data = ring_pack_data OP_WRITE 0\<rparr>]"
proof -
  have "Suc (length (sq (lring (demo_tight 1 [])))) = sq_entries (lring (demo_tight 1 []))"
    "client_fd (conn (demo_tight 1 []) 0) = -1" "conn_id (conn (demo_tight 1 []) 0) = 0" "sq (lring (demo_tight 1 [])) = []"
    by (simp_all add: demo_tight_def demo0_def demo_defs conn_at_def zero_connection_def)
  with refused_link_frees_sending_connection [OF demo_tight_calm, of 0 1 "[]"] show ?thesis by simp
qed

lemma accept_lost_witness:
  "handle_accept None (-105) False (demo_tight 1 [demo_sqe (Prep_recvmsg 5) False OP_RECV_FD])
     = Some (demo_tight 1 [demo_sqe (Prep_recvmsg 5) False OP_RECV_FD])"
  by (rule accept_lost) (simp_all add: demo_tight_def demo_ring_def)


end
