(* ===== verification/Curl_Request.thy ===== *)
theory Curl_Request
  imports Sse_Stream
begin

text \<open>
  What a request to the API consists of (curl_manager.c): the settings from the environment, the URL,
  the body and the header of \<open>curl_manager_start_request\<close>. Texts are written with \<open>snprintf\<close> into
  buffers of a fixed size, which cuts them.
\<close>

section \<open>Settings\<close>

record backend_config =
  api_key :: "string option"
  api_base :: string
  api_socket :: "string option"
  default_model :: string

record api_config = backend_config +
  insecure_ssl :: bool
  http2_enabled :: bool

definition to_lower :: "char \<Rightarrow> char" where
  "to_lower c = (let n = of_char c :: nat in if 65 \<le> n \<and> n \<le> 90 then char_of (n + 32) else c)"

definition strcaseeq :: "string \<Rightarrow> string \<Rightarrow> bool" where
  \<comment> \<open>\<open>strcasecmp(a, b) == 0\<close>\<close>
  "strcaseeq a b \<longleftrightarrow> map to_lower a = map to_lower b"

definition api_settings :: "(string \<Rightarrow> string option) \<Rightarrow> api_config" where
  \<comment> \<open>\<open>curl_manager_init\<close>, the argument being \<open>getenv\<close>\<close>
  "api_settings env =
     \<lparr>api_key = env ''OPENAI_API_KEY'',
      api_base = (case env ''OPENAI_API_BASE'' of None \<Rightarrow> ''https://api.openai.com/v1'' | Some b \<Rightarrow> b),
      api_socket = env ''OPENAI_API_SOCKET'',
      default_model = (case env ''OPENAI_MODEL'' of None \<Rightarrow> ''gpt-4o-mini'' | Some m \<Rightarrow> m),
      insecure_ssl = (case env ''OPENAI_INSECURE_SSL'' of None \<Rightarrow> False
        | Some v \<Rightarrow> strcaseeq v ''true'' \<or> v = ''1''),
      http2_enabled = (case env ''OPENAI_HTTP2_ENABLED'' of None \<Rightarrow> True
        | Some v \<Rightarrow> \<not> (strcaseeq v ''false'' \<or> v = ''0''))\<rparr>"

section \<open>The request\<close>

definition snprintf :: "nat \<Rightarrow> string \<Rightarrow> string" where
  \<comment> \<open>the string that a buffer of \<open>n\<close> bytes holds\<close>
  "snprintf n s = take (n - 1) s"

definition ends_with :: "string \<Rightarrow> string \<Rightarrow> bool" where
  "ends_with suffix s \<longleftrightarrow> length s \<ge> length suffix \<and> drop (length s - length suffix) s = suffix"

definition request_url :: "string \<Rightarrow> string" where
  "request_url b =
     snprintf 512
       (if ends_with ''/v1'' b then b @ ''/chat/completions''
        else if ends_with ''/v1/'' b then b @ ''chat/completions''
        else b @ ''/v1'' @ ''/chat/completions'')"

fun escape_prompt :: "string \<Rightarrow> string" where
  "escape_prompt [] = []"
| "escape_prompt (c # cs) =
     (if c = DQ then [BSL, DQ]
      else if c = BSL then [BSL, BSL]
      else if c = LF then [BSL, CHR ''n'']
      else if c = CR then [BSL, CHR ''r'']
      else if c = TAB then [BSL, CHR ''t'']
      else if (of_char c :: nat) < 32 then u_escape c
      else [c]) @ escape_prompt cs"

definition quoted :: "string \<Rightarrow> string" where
  "quoted s = DQ # s @ [DQ]"

definition body_text :: "string \<Rightarrow> string \<Rightarrow> int \<Rightarrow> string" where
  \<comment> \<open>what the format of \<open>build_request_body\<close> asks for\<close>
  "body_text m escaped tokens =
     ''{'' @ quoted ''model'' @ '':'' @ quoted m @ '','' @ quoted ''messages'' @ '':[{'' @ quoted ''role'' @ '':''
       @ quoted ''user'' @ '','' @ quoted ''content'' @ '':'' @ quoted escaped @ ''}],''
       @ quoted ''max_tokens'' @ '':'' @ dec_int tokens @ '','' @ quoted ''stream'' @ '':true}''"

definition build_request_body :: "string option \<Rightarrow> string \<Rightarrow> int \<Rightarrow> string" where
  "build_request_body p m tokens =
     (let escaped = escape_prompt (case p of None \<Rightarrow> ''Hello'' | Some s \<Rightarrow> s)
      in snprintf (length escaped + 256) (body_text m escaped tokens))"

definition auth_header :: "string \<Rightarrow> string" where
  "auth_header key = snprintf 256 (''Authorization: Bearer '' @ key)"

datatype http_version = Http_default | Http_1_1 | Http_2_TLS | Http_2_prior_knowledge

definition request_version :: "bool \<Rightarrow> string \<Rightarrow> http_version" where
  "request_version http2 url =
     (if http2 then (if has_prefix ''https://'' url then Http_2_TLS else Http_2_prior_knowledge) else Http_1_1)"

record api_request =
  url :: string
  headers :: "string list"
  post_data :: string
  unix_socket :: "string option"
  verify_tls :: bool
  version :: http_version

definition make_request :: "api_config \<Rightarrow> string \<Rightarrow> string option \<Rightarrow> string option \<Rightarrow> int \<Rightarrow> api_request" where
  \<comment> \<open>the options that \<open>curl_manager_start_request\<close> sets, from the key, prompt, model and token limit\<close>
  "make_request cfg key p m tokens =
     (let u = request_url (api_base cfg);
          mo = (case m of None \<Rightarrow> default_model cfg | Some s \<Rightarrow> s);
          mt = (if tokens > 0 then tokens else 1024)
      in \<lparr>url = u, headers = [''Content-Type: application/json'', auth_header key],
          post_data = build_request_body p mo mt, unix_socket = api_socket cfg,
          verify_tls = (\<not> insecure_ssl cfg), version = request_version (http2_enabled cfg) u\<rparr>)"

section \<open>Bounds\<close>

lemma escape_prompt_escape: "escape_prompt s = escape s"
  by (induction s) (simp_all add: escape_char_def)

lemma body_length: "length (body_text m e k) = length m + length e + length (dec_int k) + 82"
  by (simp add: body_text_def quoted_def)

lemma build_request_body_exact:
  fixes p :: "string option"
  defines "e \<equiv> escape_prompt (case p of None \<Rightarrow> ''Hello'' | Some s \<Rightarrow> s)"
  shows "build_request_body p m k = body_text m e k \<longleftrightarrow> length m + length (dec_int k) \<le> 173"
    and "length (build_request_body p m k) \<le> length e + 255"
  unfolding build_request_body_def Let_def e_def [symmetric] snprintf_def
  using body_length [of m e k] by auto

section \<open>The prompt as a JSON string\<close>

text \<open>
  The strings of JSON (RFC 8259), with \<open>\\u\<close> escapes of single bytes only: what the characters behind an opening quote denote, and the rest
  behind the closing quote. A reference to compare the escaping with.
\<close>

definition hex_value :: "char \<Rightarrow> nat option" where
  "hex_value c = (case digit_of c of Some d \<Rightarrow> if d < 16 then Some d else None | None \<Rightarrow> None)"

definition short_escape :: "char \<Rightarrow> char option" where
  "short_escape c =
     (if c = DQ \<or> c = BSL \<or> c = CHR ''/'' then Some c
      else if c = CHR ''n'' then Some LF else if c = CHR ''r'' then Some CR
      else if c = CHR ''t'' then Some TAB else if c = CHR ''b'' then Some (CHR 0x08)
      else if c = CHR ''f'' then Some (CHR 0x0C) else None)"

fun json_string :: "string \<Rightarrow> (string \<times> string) option" where
  "json_string [] = None"
| "json_string (c # cs) =
     (if c = DQ then Some ([], cs)
      else if c = BSL then
        (case cs of
           d # ds \<Rightarrow>
             if d = CHR ''u'' then
               (case ds of
                  w # x # y # z # r \<Rightarrow>
                    (case (hex_value w, hex_value x, hex_value y, hex_value z) of
                       (Some 0, Some 0, Some h, Some l) \<Rightarrow> map_option (apfst ((#) (char_of (16 * h + l)))) (json_string r)
                     | _ \<Rightarrow> None)
                | _ \<Rightarrow> None)
             else (case short_escape d of
                None \<Rightarrow> None
              | Some e \<Rightarrow> map_option (apfst ((#) e)) (json_string ds))
         | [] \<Rightarrow> None)
      else if (of_char c :: nat) < 32 then None
      else map_option (apfst ((#) c)) (json_string cs))"

lemma hex_digit_value: "n < 16 \<Longrightarrow> hex_value (hex_digit n) = Some n"
  by (auto simp: hex_value_def hex_digit_def digit_of_def Let_def)

lemma json_string_u:
  assumes "(of_char c :: nat) < 32"
  shows "json_string (u_escape c @ r) = map_option (apfst ((#) c)) (json_string r)"
proof -
  let ?n = "of_char c :: nat"
  have h: "hex_value (hex_digit (?n div 16)) = Some (?n div 16)" "hex_value (hex_digit (?n mod 16)) = Some (?n mod 16)"
    using assms by (auto intro!: hex_digit_value)
  have z: "hex_value (CHR ''0'') = Some 0" by (simp add: hex_value_def digit_of_def Let_def)
  have "char_of (16 * (?n div 16) + ?n mod 16) = c" by (simp add: mult.commute)
  then show ?thesis by (simp add: u_escape_def Let_def h z)
qed

lemma json_string_escape: "json_string (escape_prompt s @ DQ # rest) = Some (s, rest)"
proof (induction s)
  case (Cons c s)
  have "json_string ((if c = DQ then [BSL, DQ] else if c = BSL then [BSL, BSL] else if c = LF then [BSL, CHR ''n'']
      else if c = CR then [BSL, CHR ''r''] else if c = TAB then [BSL, CHR ''t'']
      else if (of_char c :: nat) < 32 then u_escape c else [c]) @ r) = map_option (apfst ((#) c)) (json_string r)" for r
    by (auto simp: short_escape_def json_string_u)
  then show ?case using Cons by (simp del: json_string.simps)
qed simp

lemma json_string_cont:
  assumes "\<And>v r. json_string s = Some (v, r) \<Longrightarrow> json_string (s @ u) = Some (v, r @ u)"
    and "map_option (apfst f) (json_string s) = Some (v, r)"
  shows "map_option (apfst f) (json_string (s @ u)) = Some (v, r @ u)"
  using assms(2) assms(1) by (cases "json_string s") (auto simp: apfst_def map_prod_def)

lemma json_string_append: "json_string s = Some (v, r) \<Longrightarrow> json_string (s @ u) = Some (v, r @ u)"
proof (induction s arbitrary: v r rule: length_induct)
  case (1 s)
  have IH: "map_option (apfst f) (json_string (t @ u)) = Some (v, r @ u)"
    if "length t < length s" "map_option (apfst f) (json_string t) = Some (v, r)" for t f v r
    by (rule json_string_cont [OF _ that(2)]) (use "1.IH" that(1) in blast)
  show ?case
  proof (cases s)
    case Nil
    then show ?thesis using 1(2) by simp
  next
    case (Cons c cs)
    consider "c = DQ" | "c = BSL" | "c \<noteq> DQ" "c \<noteq> BSL" by blast
    then show ?thesis
    proof cases
      assume "c = DQ"
      then show ?thesis using 1(2) Cons by simp
    next
      assume c: "c \<noteq> DQ" "c \<noteq> BSL"
      then have "\<not> (of_char c :: nat) < 32" "map_option (apfst ((#) c)) (json_string cs) = Some (v, r)"
        using 1(2) Cons by (auto split: if_splits)
      then show ?thesis using IH [of cs "(#) c"] c Cons by simp
    next
      assume c: "c = BSL"
      then obtain d ds where cs: "cs = d # ds" using 1(2) Cons by (cases cs) auto
      show ?thesis
      proof (cases "d = CHR ''u''")
        case False
        then obtain e where "short_escape d = Some e" "map_option (apfst ((#) e)) (json_string ds) = Some (v, r)"
          using 1(2) Cons c cs by (auto split: option.splits)
        then show ?thesis using IH [of ds "(#) e"] False c cs Cons by simp
      next
        case True
        then obtain w x y z t where ds: "ds = w # x # y # z # t"
          using 1(2) Cons c cs by (auto split: list.splits)
        then obtain h l where hl: "hex_value w = Some 0" "hex_value x = Some 0" "hex_value y = Some h" "hex_value z = Some l"
          and m: "map_option (apfst ((#) (char_of (16 * h + l)))) (json_string t) = Some (v, r)"
          using 1(2) Cons c cs True by (auto split: option.splits nat.splits)
        show ?thesis using IH [OF _ m] hl True c cs Cons ds by simp
      qed
    qed
  qed
qed

end
