(* ===== verification/Line_Buffer.thy ===== *)
theory Line_Buffer
  imports Sse_Stream "HOL-Library.Sublist"
begin

text \<open>
  The line buffer through which both API clients read an event stream that arrives in chunks
  (\<open>write_callback\<close> of curl_manager.c and of backend_openai.c). The model holds the bytes in use, not
  the spare capacity behind them; the code keeps a NUL behind the last byte in use, which is where a
  search that meets no other NUL stops. What is done with a line is an argument, partial because the
  blocking client may write for ever.

  \<open>chop_lines\<close> is the reference: the complete lines of a text and what is left. It is the same
  however the text is cut into chunks.
\<close>

section \<open>Lines\<close>

fun split_line :: "string \<Rightarrow> (string \<times> string) option" where
  \<comment> \<open>\<open>strchr(line_start, '\n')\<close>: before and behind the line feed\<close>
  "split_line [] = None"
| "split_line (c # cs) =
     (if c = LF then Some ([], cs)
      else if c = NUL then None
      else map_option (\<lambda>(l, rest). (c # l, rest)) (split_line cs))"

definition line_text :: "string \<Rightarrow> string" where
  "line_text l = (if l \<noteq> [] \<and> last l = CR then butlast l else l)"

definition cut_line :: "string \<Rightarrow> string" where
  \<comment> \<open>what the buffer holds once the line is terminated\<close>
  "cut_line l = line_text l @ replicate (length l + 1 - length (line_text l)) NUL"

lemma split_line_shorter [termination_simp]: "split_line s = Some (l, rest) \<Longrightarrow> length rest < length s"
  by (induction s arbitrary: l) (auto split: if_splits)

fun process_lines ::
    "(string \<Rightarrow> 's \<Rightarrow> (bool \<times> 's) option) \<Rightarrow> string \<Rightarrow> string \<Rightarrow> 's \<Rightarrow> (bool \<times> string \<times> 's) option" where
  \<comment> \<open>from the bytes before \<open>line_start\<close> and those from it on: whether every line was taken, the bytes in
      use afterwards\<close>
  "process_lines h before s st =
     (case split_line s of
        None \<Rightarrow> Some (True, s, st)
      | Some (l, rest) \<Rightarrow>
          (case h (line_text l) st of
             None \<Rightarrow> None
           | Some (ok, st1) \<Rightarrow>
               if ok then process_lines h (before @ cut_line l) rest st1
               else Some (False, before @ cut_line l @ rest, st1)))"

declare process_lines.simps [simp del]

section \<open>Reference\<close>

fun chop_lines :: "string \<Rightarrow> string list \<times> string" where
  "chop_lines s =
     (case split_line s of
        None \<Rightarrow> ([], s)
      | Some (l, rest) \<Rightarrow> (case chop_lines rest of (ls, r) \<Rightarrow> (line_text l # ls, r)))"

declare chop_lines.simps [simp del]

fun run_lines :: "(string \<Rightarrow> 's \<Rightarrow> (bool \<times> 's) option) \<Rightarrow> string list \<Rightarrow> 's \<Rightarrow> (bool \<times> 's) option" where
  "run_lines h [] st = Some (True, st)"
| "run_lines h (l # ls) st =
     (case h l st of None \<Rightarrow> None | Some (ok, st1) \<Rightarrow> if ok then run_lines h ls st1 else Some (False, st1))"

lemma split_line_append: "split_line s = Some (l, rest) \<Longrightarrow> split_line (s @ t) = Some (l, rest @ t)"
  by (induction s arbitrary: l) (auto split: if_splits)

lemma chop_lines_append:
  "chop_lines (s @ t) =
     (case chop_lines s of (ls, r) \<Rightarrow> case chop_lines (r @ t) of (ls', r') \<Rightarrow> (ls @ ls', r'))"
proof (induction s rule: chop_lines.induct)
  case (1 s)
  show ?case
  proof (cases "split_line s")
    case None
    then show ?thesis by (simp add: chop_lines.simps [of s])
  next
    case (Some p)
    then obtain l rest where p: "split_line s = Some (l, rest)" by (cases p) auto
    note IH = 1 [OF p refl]
    show ?thesis
      using IH by (simp add: chop_lines.simps [of s] chop_lines.simps [of "s @ t"] p split_line_append [OF p]
          split: prod.splits)
  qed
qed

lemma chop_lines_rest: "split_line (snd (chop_lines s)) = None"
proof (induction s rule: chop_lines.induct)
  case (1 s)
  then show ?case by (subst chop_lines.simps) (auto split: option.splits prod.splits)
qed

lemma chop_lines_of_rest: "split_line r = None \<Longrightarrow> chop_lines r = ([], r)"
  by (simp add: chop_lines.simps)

text \<open>The loop takes the lines of the reference in order, and keeps its rest.\<close>

lemma process_lines_run:
  "map_option (\<lambda>(ok, b, st'). (ok, st')) (process_lines h before s st) = run_lines h (fst (chop_lines s)) st"
proof (induction h before s st rule: process_lines.induct)
  case (1 h before s st)
  show ?case
  proof (cases "split_line s")
    case None
    then show ?thesis by (simp add: process_lines.simps chop_lines.simps)
  next
    case (Some p)
    then obtain l rest where p: "split_line s = Some (l, rest)" by (cases p) auto
    show ?thesis
    proof (cases "h (line_text l) st")
      case None
      then show ?thesis
        by (simp add: process_lines.simps [of h before s] chop_lines.simps [of s] p split: prod.split)
    next
      case h: (Some q)
      obtain ok st1 where q: "q = (ok, st1)" by fastforce
      show ?thesis
        using 1 [OF p refl h q [symmetric]] h q
        by (simp add: process_lines.simps [of h before s] chop_lines.simps [of s] p split: prod.splits)
    qed
  qed
qed

lemma process_lines_rest:
  "process_lines h before s st = Some (True, b, st') \<Longrightarrow> b = snd (chop_lines s)"
proof (induction h before s st rule: process_lines.induct)
  case (1 h before s st)
  show ?case
  proof (cases "split_line s")
    case None
    then show ?thesis using 1(2) by (simp add: process_lines.simps chop_lines.simps)
  next
    case (Some p)
    then obtain l rest where p: "split_line s = Some (l, rest)" by (cases p) auto
    then obtain st1 where h: "h (line_text l) st = Some (True, st1)"
        "process_lines h (before @ cut_line l) rest st1 = Some (True, b, st')"
      using 1(2) by (auto simp: process_lines.simps [of h before s] split: option.splits if_splits)
    then have "b = snd (chop_lines rest)" using 1(1) [OF p refl h(1) refl] by simp
    then show ?thesis by (simp add: chop_lines.simps [of s] p split: prod.split)
  qed
qed

lemma process_lines_cases:
  assumes "process_lines h before s st = Some (ok, b, st')"
  shows "run_lines h (fst (chop_lines s)) st = Some (ok, st')" "ok \<Longrightarrow> b = snd (chop_lines s)"
  using assms process_lines_run [of h before s st] process_lines_rest [of h before s st b st'] by auto

lemma run_lines_append:
  "run_lines h (ls @ ms) st =
     (case run_lines h ls st of None \<Rightarrow> None
      | Some (ok, st1) \<Rightarrow> if ok then run_lines h ms st1 else Some (False, st1))"
  by (induction ls arbitrary: st) (auto split: option.split prod.split)

section \<open>What a stream carries\<close>

definition contents :: "string \<Rightarrow> string list" where
  \<comment> \<open>the contents of the complete lines, in order\<close>
  "contents s = List.map_filter sse_line_content (fst (chop_lines s))"

definition event_of :: "string \<Rightarrow> string" where
  "event_of content = (case stream_format_sse 8192 content of None \<Rightarrow> [] | Some out \<Rightarrow> out)"

definition events :: "string list \<Rightarrow> string" where
  "events cs = concat (map event_of cs)"

lemma format_8192: "stream_format_sse 8192 content = Some (event_of content)"
proof -
  have "length (escape_loop 4095 content) \<le> 4095" by (rule escape_loop_length)
  then show ?thesis by (simp add: event_of_def stream_format_sse_def sse_frame_length)
qed

lemma events_simps [simp]: "events [] = []" "events (c # cs) = event_of c @ events cs"
  "events (cs @ ds) = events cs @ events ds"
  by (simp_all add: events_def)

lemma contents_append:
  "contents (s @ t) = contents s @ contents (snd (chop_lines s) @ t)"
  by (simp add: contents_def chop_lines_append [of s t] List.map_filter_def split: prod.split)

lemma contents_Nil [simp]: "contents [] = []"
  by (simp add: contents_def chop_lines.simps List.map_filter_def)

lemma contents_rest: "contents (snd (chop_lines s)) = []"
  using chop_lines_rest [of s] by (simp add: contents_def chop_lines_of_rest List.map_filter_def)

end
