(* ===== verification/Backend_OpenAI.thy ===== *)
theory Backend_OpenAI
  imports Curl_Request Line_Buffer
begin

text \<open>
  The blocking backend of the thread pool (backend_openai.c): one request to the API, whose answer is
  written to the client while it arrives. \<open>write\<close> on the client's socket and \<open>realloc\<close> take their
  answers from arbitrary sequences; what libcurl delivers and reports is an argument, with the
  documented reaction to a callback that does not take all its bytes: the transfer stops with an error.
  \<open>write_all\<close> repeats an interrupted or empty write, so it is partial.
\<close>

section \<open>Writing to the client\<close>

datatype write_answer = Wrote nat | Interrupted | Write_failed

record client_io =
  write_answers :: "nat \<Rightarrow> write_answer"
  writes :: nat
  received :: string \<comment> \<open>by the client\<close>

partial_function (option) write_all :: "string \<Rightarrow> client_io \<Rightarrow> (bool \<times> client_io) option" where
  \<comment> \<open>\<open>False\<close> is the result -1, \<open>True\<close> the length\<close>
  "write_all buf s =
     (if buf = [] then Some (True, s)
      else let s1 = s\<lparr>writes := Suc (writes s)\<rparr> in
        (case write_answers s (writes s) of
           Interrupted \<Rightarrow> write_all buf s1
         | Write_failed \<Rightarrow> Some (False, s1)
         | Wrote n \<Rightarrow> write_all (drop n buf) (s1\<lparr>received := received s1 @ take n buf\<rparr>)))"

declare write_all.simps [code]

section \<open>The response\<close>

record response_ctx =
  client :: client_io
  line_buf :: string \<comment> \<open>the \<open>line_len\<close> bytes in use\<close>
  line_capacity :: nat
  realloc_ok :: "nat \<Rightarrow> bool"
  reallocs :: nat
  chunk_count :: nat
  r_bytes_sent :: nat
  error :: bool
  headers_sent :: bool

definition send_bytes :: "string \<Rightarrow> response_ctx \<Rightarrow> (bool \<times> response_ctx) option" where
  \<comment> \<open>\<open>write_all\<close> with the accounting that \<open>send_headers\<close> and \<open>forward_chunk\<close> share\<close>
  "send_bytes buf r = do {
     (ok, s) \<leftarrow> write_all buf (client r);
     let r1 = r\<lparr>client := s\<rparr>;
     Some (if ok then (True, r1\<lparr>r_bytes_sent := r_bytes_sent r1 + length buf\<rparr>) else (False, r1\<lparr>error := True\<rparr>)) }"

definition send_headers :: "response_ctx \<Rightarrow> (bool \<times> response_ctx) option" where
  "send_headers r =
     (if headers_sent r then Some (True, r)
      else do {
        (ok, r1) \<leftarrow> send_bytes SSE_HEADERS r;
        Some (ok, if ok then r1\<lparr>headers_sent := True\<rparr> else r1) })"

definition forward_chunk :: "string \<Rightarrow> response_ctx \<Rightarrow> (bool \<times> response_ctx) option" where
  "forward_chunk content r =
     (case stream_format_sse 8192 content of
        None \<Rightarrow> Some (False, r)
      | Some out \<Rightarrow> do {
          (ok, r1) \<leftarrow> send_bytes out r;
          Some (ok, if ok then r1\<lparr>chunk_count := chunk_count r1 + 1\<rparr> else r1) })"

definition forward_line :: "string \<Rightarrow> response_ctx \<Rightarrow> (bool \<times> response_ctx) option" where
  \<comment> \<open>\<open>process_sse_line\<close>\<close>
  "forward_line line r = (case sse_line_content line of None \<Rightarrow> Some (True, r) | Some content \<Rightarrow> forward_chunk content r)"

definition grow_line :: "nat \<Rightarrow> response_ctx \<Rightarrow> bool \<times> response_ctx" where
  \<comment> \<open>"Expand line buffer if needed"\<close>
  "grow_line bytes r =
     (let need = length (line_buf r) + bytes + 1 in
      if need > line_capacity r then
        let c = line_capacity r * 2; new_cap = (if c < need then need else c);
            r1 = r\<lparr>reallocs := Suc (reallocs r)\<rparr>
        in if realloc_ok r (reallocs r) then (True, r1\<lparr>line_capacity := new_cap\<rparr>) else (False, r1\<lparr>error := True\<rparr>)
      else (True, r))"

definition write_callback :: "string \<Rightarrow> response_ctx \<Rightarrow> (nat \<times> response_ctx) option" where
  \<comment> \<open>the bytes taken\<close>
  "write_callback ptr r =
     (if error r then Some (0, r)
      else do {
        (ok, r1) \<leftarrow> (if \<not> headers_sent r then send_headers r else Some (True, r));
        if \<not> ok then Some (0, r1)
        else (case grow_line (length ptr) r1 of (ok2, r2) \<Rightarrow>
          if \<not> ok2 then Some (0, r2)
          else do {
            (ok3, b, r3) \<leftarrow> process_lines forward_line [] (line_buf r2 @ ptr) r2;
            Some (if ok3 then length ptr else 0, r3\<lparr>line_buf := b\<rparr>) }) })"

section \<open>A request\<close>

record transfer =
  t_chunks :: "string list"
  t_ok :: bool \<comment> \<open>\<open>CURLE_OK\<close>, when every chunk is taken\<close>
  t_code :: int \<comment> \<open>\<open>CURLINFO_RESPONSE_CODE\<close>\<close>

fun easy_perform :: "string list \<Rightarrow> bool \<Rightarrow> response_ctx \<Rightarrow> (bool \<times> response_ctx) option" where
  \<comment> \<open>the chunks of the answer to the callback\<close>
  "easy_perform [] ok r = Some (ok, r)"
| "easy_perform (c # cs) ok r = do {
     (n, r1) \<leftarrow> write_callback c r;
     if n = length c then easy_perform cs ok r1 else Some (False, r1) }"

definition backend_init_openai :: "(string \<Rightarrow> string option) \<Rightarrow> backend_config" where
  "backend_init_openai env =
     \<lparr>api_key = env ''OPENAI_API_KEY'',
      api_base = (case env ''OPENAI_API_BASE'' of None \<Rightarrow> ''https://api.openai.com/v1'' | Some b \<Rightarrow> b),
      api_socket = env ''OPENAI_API_SOCKET'',
      default_model = (case env ''OPENAI_MODEL'' of None \<Rightarrow> ''gpt-4o-mini'' | Some m \<Rightarrow> m)\<rparr>"

definition openai_body :: "string option \<Rightarrow> string \<Rightarrow> int \<Rightarrow> string option" where
  \<comment> \<open>\<open>None\<close>: it does not fit into \<open>body[16384]\<close>\<close>
  "openai_body p m mt =
     (let prompt_copy = snprintf 8192 (case p of None \<Rightarrow> ''Hello'' | Some s \<Rightarrow> s);
          model_copy = snprintf 128 m;
          text = body_text model_copy (escape_loop (8192 - 1) prompt_copy) mt
      in if length text \<ge> 16384 then None else Some text)"

definition openai_request :: "backend_config \<Rightarrow> string \<Rightarrow> string option \<Rightarrow> string option \<Rightarrow> int \<Rightarrow> api_request option" where
  "openai_request cfg key p m tok = do {
     body \<leftarrow> openai_body p (case m of None \<Rightarrow> default_model cfg | Some s \<Rightarrow> s) (if tok > 0 then tok else 1024);
     Some \<lparr>url = request_url (api_base cfg), headers = [''Content-Type: application/json'', auth_header key],
           post_data = body, unix_socket = api_socket cfg, verify_tls = True, version = Http_default\<rparr> }"

definition new_response :: "client_io \<Rightarrow> (nat \<Rightarrow> bool) \<Rightarrow> response_ctx" where
  "new_response s mem = \<lparr>client = s, line_buf = [], line_capacity = 4096, realloc_ok = mem, reallocs = 0,
     chunk_count = 0, r_bytes_sent = 0, error = False, headers_sent = False\<rparr>"

definition model_string :: "connection \<Rightarrow> string option" where
  "model_string c = (case (handoff_buf c, model (hdata c)) of
     (Some b, Some off) \<Rightarrow> Some (c_string_at b off) | _ \<Rightarrow> None)"

definition finish_response :: "bool \<Rightarrow> int \<Rightarrow> connection \<Rightarrow> response_ctx \<Rightarrow> (int \<times> connection \<times> client_io) option" where
  \<comment> \<open>from "Check for errors" on\<close>
  "finish_response ok code c r =
     (if (\<not> ok \<or> error r) \<and> \<not> headers_sent r then Some (-1, c, client r)
      else if code \<noteq> 200 \<and> \<not> headers_sent r then Some (-1, c, client r)
      else do {
        r1 \<leftarrow> (if headers_sent r
               then do { (ok2, s) \<leftarrow> write_all SSE_DONE (client r);
                         Some (r\<lparr>client := s, r_bytes_sent := r_bytes_sent r + length SSE_DONE\<rparr>) }
               else Some r);
        Some (if headers_sent r1 then 1 else -1,
              c\<lparr>bytes_sent := r_bytes_sent r1, use_llm_response := False\<rparr>, client r1) })"

definition backend_process_openai ::
    "backend_config \<Rightarrow> bool \<Rightarrow> bool \<Rightarrow> (nat \<Rightarrow> bool) \<Rightarrow> (api_request \<Rightarrow> transfer) \<Rightarrow> connection \<Rightarrow> client_io
       \<Rightarrow> (int \<times> connection \<times> client_io) option" where
  \<comment> \<open>the answers of \<open>curl_easy_init\<close>, of \<open>malloc\<close> for the line buffer, of \<open>realloc\<close>, and of the API\<close>
  "backend_process_openai cfg curl line_mem mem api c s =
     (case api_key cfg of
        None \<Rightarrow> Some (-1, c, s)
      | Some key \<Rightarrow>
          if \<not> curl then Some (-1, c, s)
          else (case openai_request cfg key (prompt_string c) (model_string c) (max_tokens (hdata c)) of
              None \<Rightarrow> Some (-1, c, s)
            | Some rq \<Rightarrow>
                if \<not> line_mem then Some (-1, c, s)
                else do {
                  (ok, r) \<leftarrow> easy_perform (t_chunks (api rq)) (t_ok (api rq)) (new_response s mem);
                  finish_response ok (t_code (api rq)) c r }))"

end
