(* ===== verification/Backend_Stream.thy ===== *)
theory Backend_Stream
  imports Backend_OpenAI
begin

text \<open>
  What the client of the blocking backend receives: the writes one by one, the callback as an
  invariant over the text received from the API so far, the whole transfer, and that everything
  returns when the kernel keeps moving.
\<close>

section \<open>One write\<close>

definition sent_prefix :: "string \<Rightarrow> client_io \<Rightarrow> bool \<times> client_io \<Rightarrow> bool" where
  "sent_prefix buf s r \<longleftrightarrow> (\<exists>p. received (snd r) = received s @ p \<and> prefix p buf \<and> (fst r \<longrightarrow> p = buf)
     \<and> write_answers (snd r) = write_answers s)"

lemma write_all_sent: "write_all buf s = Some r \<Longrightarrow> sent_prefix buf s r"
proof (erule write_all.raw_induct [rotated], goal_cases)
  case (1 W buf s r)
  show ?case
  proof (cases "buf = []")
    case True
    then show ?thesis using 1(2) by (auto simp: sent_prefix_def)
  next
    case False
    show ?thesis
    proof (cases "write_answers s (writes s)")
      case (Wrote n)
      then have "W (drop n buf) (s\<lparr>writes := Suc (writes s), received := received s @ take n buf\<rparr>) = Some r"
        using 1(2) False by simp
      from 1(1) [OF this] obtain p where
        "received (snd r) = (received s @ take n buf) @ p" "prefix p (drop n buf)" "fst r \<longrightarrow> p = drop n buf"
        "write_answers (snd r) = write_answers s" by (auto simp: sent_prefix_def)
      then show ?thesis unfolding sent_prefix_def
        by (intro exI [of _ "take n buf @ p"]) (metis append.assoc append_take_drop_id same_prefix_prefix)
    next
      case Interrupted
      then have "W buf (s\<lparr>writes := Suc (writes s)\<rparr>) = Some r" using 1(2) False by simp
      from 1(1) [OF this] show ?thesis by (auto simp: sent_prefix_def)
    next
      case Write_failed
      then show ?thesis using 1(2) False by (auto simp: sent_prefix_def)
    qed
  qed
qed

lemma write_all_received:
  assumes "write_all buf s = Some (ok, s')"
  obtains p where "received s' = received s @ p" "prefix p buf" "ok \<longrightarrow> p = buf" "write_answers s' = write_answers s"
  using write_all_sent [OF assms] by (auto simp: sent_prefix_def)

definition moves :: "write_answer \<Rightarrow> bool" where
  "moves a \<longleftrightarrow> (case a of Wrote n \<Rightarrow> n > 0 | Interrupted \<Rightarrow> False | Write_failed \<Rightarrow> True)"

definition keeps_moving :: "client_io \<Rightarrow> bool" where
  "keeps_moving s \<longleftrightarrow> (\<forall>n. \<exists>m \<ge> n. moves (write_answers s m))"

definition never_fails :: "client_io \<Rightarrow> bool" where
  "never_fails s \<longleftrightarrow> (\<forall>n. write_answers s n \<noteq> Write_failed)"

lemma moving_cong:
  "write_answers s' = write_answers s \<Longrightarrow> keeps_moving s' = keeps_moving s \<and> never_fails s' = never_fails s"
  by (simp add: keeps_moving_def never_fails_def)

text \<open>A write ends: after finitely many interruptions the kernel takes bytes or fails.\<close>

lemma write_all_until:
  assumes "moves (write_answers s (writes s + k))"
    and IH: "\<And>b t. length b < length buf \<Longrightarrow> write_answers t = write_answers s
      \<Longrightarrow> \<exists>ok t'. write_all b t = Some (ok, t') \<and> (never_fails s \<longrightarrow> ok)"
  shows "\<exists>ok s'. write_all buf s = Some (ok, s') \<and> (never_fails s \<longrightarrow> ok)"
  using assms
proof (induction k arbitrary: s)
  case (Suc k)
  let ?s = "s\<lparr>writes := Suc (writes s)\<rparr>"
  show ?case
  proof (cases "write_answers s (writes s)")
    case (Wrote n)
    show ?thesis
    proof (cases "n = 0 \<or> buf = []")
      case True
      have "\<exists>ok s'. write_all buf ?s = Some (ok, s') \<and> (never_fails ?s \<longrightarrow> ok)"
        using Suc.prems by (intro Suc.IH) (auto simp: never_fails_def)
      moreover have "s\<lparr>writes := Suc (writes s), received := received s\<rparr> = ?s" by simp
      ultimately show ?thesis
        using True Wrote by (subst write_all.simps) (auto simp: never_fails_def)
    next
      case False
      then show ?thesis using Wrote Suc.prems(2) [of "drop n buf"] by (subst write_all.simps) auto
    qed
  next
    case Interrupted
    have "\<exists>ok s'. write_all buf ?s = Some (ok, s') \<and> (never_fails ?s \<longrightarrow> ok)"
      using Suc.prems by (intro Suc.IH) (auto simp: never_fails_def)
    then show ?thesis using Interrupted by (subst write_all.simps) (auto simp: never_fails_def)
  next
    case Write_failed
    then show ?thesis by (subst write_all.simps) (auto simp: never_fails_def)
  qed
next
  case 0
  show ?case
  proof (cases "write_answers s (writes s)")
    case (Wrote n)
    with 0 have "n > 0" by (simp add: moves_def)
    then show ?thesis
      using Wrote 0(2) [of "drop n buf"] by (cases "buf = []"; subst write_all.simps) auto
  next
    case Interrupted
    with 0 show ?thesis by (simp add: moves_def)
  next
    case Write_failed
    then show ?thesis by (subst write_all.simps) (auto simp: never_fails_def)
  qed
qed

lemma write_all_returns:
  "keeps_moving s \<Longrightarrow> \<exists>ok s'. write_all buf s = Some (ok, s') \<and> (never_fails s \<longrightarrow> ok)"
proof (induction buf arbitrary: s rule: length_induct)
  case (1 buf)
  from 1(2) obtain m where "m \<ge> writes s" "moves (write_answers s m)"
    unfolding keeps_moving_def by blast
  then have "moves (write_answers s (writes s + (m - writes s)))" by simp
  then show ?case
  proof (rule write_all_until)
    fix b :: string and t :: client_io
    assume b: "length b < length buf" and t: "write_answers t = write_answers s"
    from b 1 moving_cong [OF t] show "\<exists>ok t'. write_all b t = Some (ok, t') \<and> (never_fails s \<longrightarrow> ok)"
      by metis
  qed
qed

section \<open>Sending, with its accounting\<close>

abbreviation rx :: "response_ctx \<Rightarrow> string" where "rx r \<equiv> received (client r)"

definition same_ctx :: "response_ctx \<Rightarrow> response_ctx \<Rightarrow> bool" where
  "same_ctx r r' \<longleftrightarrow> write_answers (client r') = write_answers (client r) \<and> realloc_ok r' = realloc_ok r
     \<and> line_buf r' = line_buf r"

definition sends :: "string \<Rightarrow> bool \<Rightarrow> response_ctx \<Rightarrow> response_ctx \<Rightarrow> bool" where
  \<comment> \<open>the whole text, or a prefix of it and an error\<close>
  "sends buf ok r r' \<longleftrightarrow>
     (\<exists>p. rx r' = rx r @ p \<and> prefix p buf
        \<and> (if ok then p = buf \<and> error r' = error r \<and> r_bytes_sent r' = r_bytes_sent r + length buf else error r'))
     \<and> same_ctx r r' \<and> headers_sent r' = headers_sent r"

lemma sends_refl: "sends [] True r r"
  by (simp add: sends_def same_ctx_def)

lemma sends_trans: "sends a True r r1 \<Longrightarrow> sends b ok r1 r2 \<Longrightarrow> sends (a @ b) ok r r2"
  by (cases ok) (auto simp: sends_def same_ctx_def)

lemma sends_fail: "sends a False r r1 \<Longrightarrow> sends (a @ b) False r r1"
  by (auto simp: sends_def intro: prefix_order.trans)

lemma send_bytes_sends:
  assumes "send_bytes buf r = Some (ok, r')"
  shows "sends buf ok r r'"
proof -
  obtain s where w: "write_all buf (client r) = Some (ok, s)"
    and r': "r' = (if ok then r\<lparr>client := s, r_bytes_sent := r_bytes_sent r + length buf\<rparr>
      else r\<lparr>client := s, error := True\<rparr>)"
    using assms by (auto simp: send_bytes_def bind_eq_Some_conv Let_def split: if_splits)
  from w obtain p where "received s = received (client r) @ p" "prefix p buf" "ok \<longrightarrow> p = buf"
    "write_answers s = write_answers (client r)" by (rule write_all_received)
  then show ?thesis by (cases ok) (simp_all add: r' sends_def same_ctx_def)
qed

lemma send_bytes_returns:
  "keeps_moving (client r) \<Longrightarrow> \<exists>ok r'. send_bytes buf r = Some (ok, r') \<and> (never_fails (client r) \<longrightarrow> ok)"
  using write_all_returns [of "client r" buf] by (auto simp: send_bytes_def Let_def)

lemma forward_line_sends:
  assumes "forward_line line r = Some (ok, r')"
  shows "sends (events (List.map_filter sse_line_content [line])) ok r r'"
proof (cases "sse_line_content line")
  case None
  then show ?thesis using assms by (simp add: forward_line_def sends_refl List.map_filter_def)
next
  case (Some content)
  then obtain r1 where s: "send_bytes (event_of content) r = Some (ok, r1)"
    and r': "r' = (if ok then r1\<lparr>chunk_count := chunk_count r1 + 1\<rparr> else r1)"
    using assms by (auto simp: forward_line_def forward_chunk_def format_8192 bind_eq_Some_conv)
  then have "sends (event_of content) ok r r1" by (intro send_bytes_sends)
  then have "sends (event_of content) ok r r'" by (cases ok) (simp_all add: r' sends_def same_ctx_def)
  then show ?thesis using Some by (simp add: List.map_filter_def)
qed

lemma map_filter_Cons: "List.map_filter f (x # xs) = List.map_filter f [x] @ List.map_filter f xs"
  by (simp add: List.map_filter_def)

lemma forward_lines_send:
  "run_lines forward_line ls r = Some (ok, r') \<Longrightarrow> sends (events (List.map_filter sse_line_content ls)) ok r r'"
proof (induction ls arbitrary: r)
  case Nil
  then show ?case by (simp add: sends_refl List.map_filter_def)
next
  case (Cons l ls)
  then obtain ok1 r1 where f: "forward_line l r = Some (ok1, r1)"
    and rest: "if ok1 then run_lines forward_line ls r1 = Some (ok, r') else ok = False \<and> r' = r1"
    by (auto split: option.splits if_splits)
  note s = forward_line_sends [OF f]
  show ?case
  proof (cases ok1)
    case True
    then have "sends (events (List.map_filter sse_line_content [l])) True r r1" using s by simp
    then show ?thesis
      using sends_trans [OF _ Cons.IH [of r1]] rest True by (subst map_filter_Cons) simp
  next
    case False
    then show ?thesis using sends_fail [of _ r r1] s rest by (subst map_filter_Cons) simp
  qed
qed

lemma forward_line_returns:
  "keeps_moving (client r) \<Longrightarrow> \<exists>ok r'. forward_line l r = Some (ok, r') \<and> (never_fails (client r) \<longrightarrow> ok)"
  using send_bytes_returns [of r "event_of (the (sse_line_content l))"]
  by (auto simp: forward_line_def forward_chunk_def format_8192 split: option.split)

lemma sends_moving:
  "sends buf ok r r' \<Longrightarrow> keeps_moving (client r') = keeps_moving (client r) \<and> never_fails (client r') = never_fails (client r)"
  using moving_cong [of "client r'" "client r"] by (simp add: sends_def same_ctx_def)

lemma forward_lines_return:
  "keeps_moving (client r) \<Longrightarrow>
     \<exists>ok r'. run_lines forward_line ls r = Some (ok, r') \<and> (never_fails (client r) \<longrightarrow> ok)"
proof (induction ls arbitrary: r)
  case (Cons l ls)
  from forward_line_returns [OF Cons.prems, of l] obtain ok1 r1
    where f: "forward_line l r = Some (ok1, r1)" "never_fails (client r) \<longrightarrow> ok1" by blast
  moreover have "keeps_moving (client r1)" "never_fails (client r1) = never_fails (client r)"
    using sends_moving [OF forward_line_sends [OF f(1)]] Cons.prems by simp_all
  ultimately show ?case using Cons.IH [of r1] by auto
qed auto

section \<open>The callback\<close>

definition stream_of :: "string \<Rightarrow> string" where
  \<comment> \<open>what a client should see of the API's text: the header, and an event for each content\<close>
  "stream_of t = SSE_HEADERS @ events (contents t)"

lemma stream_of_append: "stream_of (t @ u) = stream_of t @ events (contents (snd (chop_lines t) @ u))"
  by (simp add: stream_of_def contents_append [of t u])

lemma stream_of_Nil: "stream_of [] = SSE_HEADERS" by (simp add: stream_of_def)

definition resp_ok :: "string \<Rightarrow> string \<Rightarrow> response_ctx \<Rightarrow> bool" where
  \<comment> \<open>after the text \<open>t\<close>, of a client that had received \<open>p\<close> before\<close>
  "resp_ok p t r \<longleftrightarrow> \<not> error r \<and> line_buf r = snd (chop_lines t)
     \<and> (if headers_sent r then rx r = p @ stream_of t \<and> r_bytes_sent r = length (stream_of t)
        else rx r = p \<and> t = [] \<and> r_bytes_sent r = 0)"

definition resp_failed :: "string \<Rightarrow> string \<Rightarrow> response_ctx \<Rightarrow> bool" where
  "resp_failed p t r \<longleftrightarrow> error r \<and> (\<exists>q. rx r = p @ q \<and> prefix q (stream_of t) \<and> (headers_sent r \<longrightarrow> prefix SSE_HEADERS q))"

lemma resp_failed_more: "resp_failed p t r \<Longrightarrow> resp_failed p (t @ u) r"
  by (auto simp: resp_failed_def stream_of_append intro: prefix_order.trans)

lemma callback_headers:
  assumes ok: "resp_ok p t r"
    and h: "(if \<not> headers_sent r then send_headers r else Some (True, r)) = Some (b, r1)"
  shows "if b then resp_ok p t r1 \<and> headers_sent r1 else resp_failed p t r1"
    and "same_ctx r r1"
proof -
  have "(if b then resp_ok p t r1 \<and> headers_sent r1 else resp_failed p t r1) \<and> same_ctx r r1"
  proof (cases "headers_sent r")
    case True
    then show ?thesis using ok h by (auto simp: same_ctx_def)
  next
    case False
    then obtain r0 where s: "send_bytes SSE_HEADERS r = Some (b, r0)"
      and r1: "r1 = (if b then r0\<lparr>headers_sent := True\<rparr> else r0)"
      using h by (auto simp: send_headers_def bind_eq_Some_conv)
    have t: "t = []" "rx r = p" "r_bytes_sent r = 0" "\<not> error r" "line_buf r = snd (chop_lines [])"
      using ok False by (simp_all add: resp_ok_def)
    with send_bytes_sends [OF s] False show ?thesis
      by (auto simp: r1 sends_def resp_ok_def resp_failed_def stream_of_Nil same_ctx_def)
  qed
  then show "if b then resp_ok p t r1 \<and> headers_sent r1 else resp_failed p t r1" "same_ctx r r1" by auto
qed

lemma write_callback_stream:
  assumes ok: "resp_ok p t r" and w: "write_callback c r = Some (n, r')"
  shows "(n = length c \<and> resp_ok p (t @ c) r' \<and> headers_sent r' \<or> n = 0 \<and> resp_failed p (t @ c) r')
    \<and> write_answers (client r') = write_answers (client r) \<and> realloc_ok r' = realloc_ok r"
proof -
  from w ok obtain b r1 where h: "(if \<not> headers_sent r then send_headers r else Some (True, r)) = Some (b, r1)"
    by (auto simp: write_callback_def resp_ok_def bind_eq_Some_conv split: if_splits)
  note hs = callback_headers [OF ok h]
  show ?thesis
  proof (cases b)
    case False
    then have "n = 0" "r' = r1" using w ok h by (auto simp: write_callback_def resp_ok_def)
    then show ?thesis using hs False by (auto simp: same_ctx_def intro: resp_failed_more)
  next
    case True
    obtain b2 r2 where g: "grow_line (length c) r1 = (b2, r2)" by fastforce
    have r2: "rx r2 = rx r1" "line_buf r2 = line_buf r1" "headers_sent r2 = headers_sent r1" "error r2 = (\<not> b2 \<or> error r1)"
      "r_bytes_sent r2 = r_bytes_sent r1" "write_answers (client r2) = write_answers (client r1)" "realloc_ok r2 = realloc_ok r1"
      using g by (auto simp: grow_line_def Let_def split: if_splits)
    have r1: "resp_ok p t r1" "headers_sent r1" using hs(1) True by auto
    show ?thesis
    proof (cases b2)
      case False
      then have "n = 0" "r' = r2" using w ok h g True by (auto simp: write_callback_def resp_ok_def)
      moreover have "resp_failed p t r2" using r1 r2 False by (auto simp: resp_ok_def resp_failed_def stream_of_def)
      ultimately show ?thesis using hs(2) r2 by (auto simp: same_ctx_def intro: resp_failed_more)
    next
      case b2: True
      let ?s = "line_buf r2 @ c"
      obtain b3 buf r3 where pl: "process_lines forward_line [] ?s r2 = Some (b3, buf, r3)"
        and n: "n = (if b3 then length c else 0)" and r': "r' = r3\<lparr>line_buf := buf\<rparr>"
        using w ok h g True b2 by (auto simp: write_callback_def resp_ok_def bind_eq_Some_conv)
      have lb: "line_buf r2 = snd (chop_lines t)" using r1 r2 by (simp add: resp_ok_def)
      have s: "sends (events (contents ?s)) b3 r2 r3"
        using process_lines_cases(1) [OF pl] by (simp add: contents_def forward_lines_send)
      have ch: "snd (chop_lines (t @ c)) = snd (chop_lines ?s)"
        by (simp add: lb chop_lines_append [of t c] split: prod.split)
      have "if b3 then resp_ok p (t @ c) r' else resp_failed p (t @ c) r'"
        using s r1 r2 b2 lb ch process_lines_cases(2) [OF pl]
        by (auto simp: resp_ok_def resp_failed_def sends_def r' stream_of_append)
          (simp add: stream_of_def)
      moreover have "headers_sent r'" using s r1 r2 by (simp add: sends_def r')
      ultimately show ?thesis
        using n s hs(2) r2 by (auto simp: r' sends_def same_ctx_def split: if_splits)
    qed
  qed
qed

lemma write_callback_returns:
  assumes ok: "resp_ok p t r" and m: "keeps_moving (client r)"
  shows "\<exists>n r'. write_callback c r = Some (n, r')
    \<and> (never_fails (client r) \<and> (\<forall>k. realloc_ok r k) \<longrightarrow> \<not> error r')"
proof -
  have "\<exists>b r1. (if \<not> headers_sent r then send_headers r else Some (True, r)) = Some (b, r1)
      \<and> (never_fails (client r) \<longrightarrow> b)"
    using send_bytes_returns [OF m, of SSE_HEADERS] by (auto simp: send_headers_def)
  then obtain b r1 where h: "(if \<not> headers_sent r then send_headers r else Some (True, r)) = Some (b, r1)"
    and b: "never_fails (client r) \<longrightarrow> b" by blast
  note hs = callback_headers [OF ok h]
  obtain b2 r2 where g: "grow_line (length c) r1 = (b2, r2)" by fastforce
  have r2: "write_answers (client r2) = write_answers (client r1)" "error r2 = (\<not> b2 \<or> error r1)"
    "(\<forall>k. realloc_ok r1 k) \<longrightarrow> b2"
    using g by (auto simp: grow_line_def Let_def split: if_splits)
  have m2: "keeps_moving (client r2)" "never_fails (client r2) = never_fails (client r)"
    using m hs(2) r2 moving_cong [of "client r2" "client r"] by (auto simp: same_ctx_def)
  from forward_lines_return [OF m2(1)] obtain b3 r3 where
    f: "run_lines forward_line (fst (chop_lines (line_buf r2 @ c))) r2 = Some (b3, r3)" "never_fails (client r) \<longrightarrow> b3"
    using m2(2) by blast
  with process_lines_run [of forward_line "[]" "line_buf r2 @ c" r2] obtain buf where
    pl: "process_lines forward_line [] (line_buf r2 @ c) r2 = Some (b3, buf, r3)" by auto
  have e3: "b3 \<Longrightarrow> error r3 = error r2"
    using forward_lines_send [OF f(1)] by (auto simp: sends_def)
  let ?g = "never_fails (client r) \<and> (\<forall>k. realloc_ok r k)"
  have e0: "\<not> error r" using ok by (simp add: resp_ok_def)
  show ?thesis
  proof (cases "b \<and> b2")
    case True
    have "\<not> error r1" using hs(1) True by (simp add: resp_ok_def)
    moreover have "write_callback c r = Some (if b3 then length c else 0, r3\<lparr>line_buf := buf\<rparr>)"
      using e0 h g pl True by (simp add: write_callback_def)
    ultimately show ?thesis using r2(2) e3 f(2) True by auto
  next
    case False
    have "write_callback c r = Some (0, if b then r2 else r1)"
      using e0 h g False by (simp add: write_callback_def)
    moreover have "\<not> ?g" using b hs(2) r2(3) False by (auto simp: same_ctx_def)
    ultimately show ?thesis by blast
  qed
qed

section \<open>A transfer\<close>

lemma easy_perform_failed:
  "error r \<Longrightarrow> \<exists>res. easy_perform cs ok r = Some (res, r)"
  by (induction cs) (auto simp: write_callback_def)

lemma easy_perform_stream:
  assumes "resp_ok p t r" "easy_perform cs ok r = Some (res, r')"
  shows "res = ok \<and> resp_ok p (t @ concat cs) r' \<and> (headers_sent r' \<longleftrightarrow> headers_sent r \<or> cs \<noteq> [])
    \<or> resp_failed p (t @ concat cs) r'"
  using assms
proof (induction cs arbitrary: t r)
  case Nil
  then show ?case by simp
next
  case (Cons c cs)
  then obtain n r1 where w: "write_callback c r = Some (n, r1)"
    and rest: "if n = length c then easy_perform cs ok r1 = Some (res, r') else r' = r1"
    by (auto simp: bind_eq_Some_conv split: if_splits)
  from write_callback_stream [OF Cons.prems(1) w] show ?case
  proof (elim conjE disjE)
    assume "n = length c" "resp_ok p (t @ c) r1" "headers_sent r1"
    then show ?thesis using Cons.IH [of "t @ c" r1] rest by auto
  next
    assume f: "n = 0" "resp_failed p (t @ c) r1"
    then have "r' = r1" using rest easy_perform_failed [of r1 cs ok] by (auto simp: resp_failed_def split: if_splits)
    then show ?thesis using resp_failed_more [OF f(2), of "concat cs"] by simp
  qed
qed

lemma easy_perform_returns:
  assumes "resp_ok p t r" "keeps_moving (client r)"
  shows "\<exists>res r'. easy_perform cs ok r = Some (res, r') \<and> write_answers (client r') = write_answers (client r)
    \<and> (never_fails (client r) \<and> (\<forall>k. realloc_ok r k) \<longrightarrow> \<not> error r')"
  using assms
proof (induction cs arbitrary: t r)
  case Nil
  then show ?case by (auto simp: resp_ok_def)
next
  case (Cons c cs)
  from write_callback_returns [OF Cons.prems] obtain n r1 where w: "write_callback c r = Some (n, r1)"
    and e: "never_fails (client r) \<and> (\<forall>k. realloc_ok r k) \<longrightarrow> \<not> error r1" by blast
  note s = write_callback_stream [OF Cons.prems(1) w]
  then have m: "keeps_moving (client r1)" "never_fails (client r1) = never_fails (client r)" "realloc_ok r1 = realloc_ok r"
    using Cons.prems(2) moving_cong [of "client r1" "client r"] by auto
  show ?case
  proof (cases "error r1")
    case True
    then show ?thesis using w e s easy_perform_failed [of r1 cs ok] by auto
  next
    case False
    then have "n = length c" "resp_ok p (t @ c) r1" using s by (auto simp: resp_failed_def)
    then show ?thesis using Cons.IH [of "t @ c" r1] w m s by auto
  qed
qed

section \<open>The whole request\<close>

lemma resp_ok_new: "resp_ok (received s) [] (new_response s mem)"
  by (simp add: resp_ok_def new_response_def chop_lines.simps)

lemma finish_received:
  assumes "finish_response ok code c r = Some (rc, c', s')"
  shows "\<exists>q. received s' = rx r @ q \<and> prefix q SSE_DONE
    \<and> (if headers_sent r then rc = 1 \<and> bytes_sent c' = r_bytes_sent r + length SSE_DONE else rc = -1 \<and> q = [])"
proof (cases "headers_sent r")
  case True
  then obtain ok2 where w: "write_all SSE_DONE (client r) = Some (ok2, s')" and "rc = 1"
    "bytes_sent c' = r_bytes_sent r + length SSE_DONE"
    using assms by (auto simp: finish_response_def bind_eq_Some_conv)
  from w show ?thesis by (rule write_all_received) (use True \<open>rc = 1\<close> \<open>bytes_sent c' = _\<close> in auto)
next
  case False
  then show ?thesis using assms by (auto simp: finish_response_def split: if_splits)
qed

lemma finish_returns:
  assumes "keeps_moving (client r)"
  shows "\<exists>rc c' s'. finish_response ok code c r = Some (rc, c', s')
    \<and> (never_fails (client r) \<and> headers_sent r \<longrightarrow> received s' = rx r @ SSE_DONE
         \<and> c' = c\<lparr>bytes_sent := r_bytes_sent r + length SSE_DONE, use_llm_response := False\<rparr> \<and> rc = 1)"
proof -
  from write_all_returns [OF assms] obtain ok2 s' where w: "write_all SSE_DONE (client r) = Some (ok2, s')"
    and n: "never_fails (client r) \<longrightarrow> ok2" by blast
  from w obtain q where "received s' = rx r @ q" "ok2 \<longrightarrow> q = SSE_DONE" by (rule write_all_received)
  with w n show ?thesis by (auto simp: finish_response_def)
qed

definition c_int_range :: "int \<Rightarrow> bool" where
  "c_int_range k \<longleftrightarrow> - (2 ^ 31) \<le> k \<and> k < 2 ^ 31"

lemma dec_int_length:
  assumes "c_int_range k"
  shows "length (dec_int k) \<le> 11"
proof -
  have "nat k < 10 ^ 10" "nat (- k) < 10 ^ 10"
    using assms by (cases "k \<ge> 0"; simp add: c_int_range_def nat_less_iff)+
  then have "length (decimal (nat k)) \<le> 10" "length (decimal (nat (- k))) \<le> 10"
    by (auto intro: decimal_length)
  then show ?thesis by (simp add: dec_int_def)
qed

lemma openai_body_complete:
  assumes "c_int_range k"
  shows "openai_body p m k = Some (body_text (take 127 m)
    (escape_loop 8191 (take 8191 (case p of None \<Rightarrow> ''Hello'' | Some s \<Rightarrow> s))) k)"
proof -
  let ?e = "escape_loop 8191 (take 8191 (case p of None \<Rightarrow> ''Hello'' | Some s \<Rightarrow> s))"
  have "length (body_text (take 127 m) ?e k) < 16384"
    using dec_int_length [OF assms] escape_loop_length [of 8191 "take 8191 (case p of None \<Rightarrow> ''Hello'' | Some s \<Rightarrow> s)"]
    by (simp add: body_length)
  then show ?thesis by (simp add: openai_body_def snprintf_def Let_def)
qed

lemma openai_request_some:
  assumes "c_int_range tok"
  shows "\<exists>rq. openai_request cfg key p m tok = Some rq"
proof -
  have "c_int_range (if tok > 0 then tok else 1024)" using assms by (simp add: c_int_range_def)
  from openai_body_complete [OF this] show ?thesis by (simp add: openai_request_def)
qed

text \<open>A request that is not refused before the transfer.\<close>

lemma backend_process_run:
  assumes "api_key cfg = Some key" "c_int_range (max_tokens (hdata c))"
  shows "backend_process_openai cfg True True mem (\<lambda>_. tr) c s =
    do { (ok, r) \<leftarrow> easy_perform (t_chunks tr) (t_ok tr) (new_response s mem); finish_response ok (t_code tr) c r }"
proof -
  obtain rq where "openai_request cfg key (prompt_string c) (model_string c) (max_tokens (hdata c)) = Some rq"
    using openai_request_some [OF assms(2)] by blast
  then show ?thesis using assms(1) by (simp add: backend_process_openai_def)
qed

lemma backend_process_refused:
  assumes "\<not> (api_key cfg \<noteq> None \<and> curl \<and> line_mem)" "c_int_range (max_tokens (hdata c))"
  shows "backend_process_openai cfg curl line_mem mem api c s = Some (-1, c, s)"
  using assms openai_request_some [OF assms(2)]
  by (auto simp: backend_process_openai_def split: option.split)

end
