(* ===== verification/Api_Correctness.thy ===== *)
theory Api_Correctness
  imports Backend_Stream
begin

text \<open>
  The properties of the clients of the API (backend_openai.c, curl_manager.c), with their witnesses.
\<close>

section \<open>The blocking backend\<close>


text \<open>
  C21. Whatever the kernel, the allocator and the API do, the blocking backend returns as long as the
  kernel keeps moving, and its client has received a prefix of that stream and after it a prefix of
  the end marker: nothing is invented, repeated or reordered, but the end marker can follow a stream
  that was cut. A result of -1 means that no complete header was sent.
\<close>

theorem blocking_stream_prefix:
  fixes c :: connection
  assumes tok: "c_int_range (max_tokens (hdata c))" and kernel: "keeps_moving s"
  shows "\<exists>rc c' s' p q. backend_process_openai cfg curl line_mem mem (\<lambda>_. tr) c s = Some (rc, c', s')
    \<and> received s' = received s @ p @ q \<and> prefix p (stream_of (concat (t_chunks tr))) \<and> prefix q SSE_DONE
    \<and> (if rc = 1 then prefix SSE_HEADERS p else rc = -1 \<and> q = [])"
proof (cases "api_key cfg \<noteq> None \<and> curl \<and> line_mem")
  case False
  from backend_process_refused [OF this tok] show ?thesis by auto
next
  case True
  then obtain key where key: "api_key cfg = Some key" by auto
  let ?r = "new_response s mem" and ?t = "concat (t_chunks tr)"
  have "client ?r = s" by (simp add: new_response_def)
  then obtain res r' where e: "easy_perform (t_chunks tr) (t_ok tr) ?r = Some (res, r')"
      "write_answers (client r') = write_answers s"
    using easy_perform_returns [OF resp_ok_new, of s mem "t_chunks tr" "t_ok tr"] kernel by auto
  have "keeps_moving (client r')" using moving_cong [OF e(2)] kernel by simp
  from finish_returns [OF this] obtain rc c' s' where
    f: "finish_response res (t_code tr) c r' = Some (rc, c', s')" by blast
  obtain q where q: "received s' = rx r' @ q" "prefix q SSE_DONE"
      "if headers_sent r' then rc = 1 else rc = -1 \<and> q = []"
    using finish_received [OF f] by (auto split: if_splits)
  have "\<exists>p. rx r' = received s @ p \<and> prefix p (stream_of ?t) \<and> (headers_sent r' \<longrightarrow> prefix SSE_HEADERS p)"
    using easy_perform_stream [OF resp_ok_new e(1)]
    by (auto simp: resp_failed_def resp_ok_def stream_of_def split: if_splits)
  then obtain p where "rx r' = received s @ p" "prefix p (stream_of ?t)" "headers_sent r' \<longrightarrow> prefix SSE_HEADERS p"
    by blast
  with q have *: "received s' = received s @ p @ q \<and> prefix p (stream_of ?t) \<and> prefix q SSE_DONE
    \<and> (if rc = 1 then prefix SSE_HEADERS p else rc = -1 \<and> q = [])"
    by (cases "headers_sent r'") simp_all
  have "backend_process_openai cfg curl line_mem mem (\<lambda>_. tr) c s = Some (rc, c', s')"
    using e(1) f True by (simp add: backend_process_run [OF key tok])
  with * show ?thesis by blast
qed

text \<open>Witnesses: an answer in three chunks, cut inside a line, and a kernel that takes 30 bytes at a time.\<close>

definition wit_chunks :: "string list" where
  "wit_chunks = [''data: {'' @ [DQ] @ ''content'' @ [DQ] @ '':'' @ [DQ] @ ''Hel'', ''lo'' @ [DQ] @ ''}'' @ [CR, LF, LF] @ ''dat'',
     ''a: [DONE]'' @ [LF]]"


definition wit_conn :: connection where
  "wit_conn = zero_connection\<lparr>client_fd := 7, state := CONN_STATE_LLM_PENDING\<rparr>"

definition wit_config :: backend_config where
  "wit_config = \<lparr>api_key = Some ''key'', api_base = ''http://127.0.0.1/v1'', api_socket = None, default_model = ''gpt-4o-mini''\<rparr>"


lemma wit_range: "c_int_range (max_tokens (hdata wit_conn))"
  by (simp add: c_int_range_def wit_conn_def zero_connection_def empty_handoff_data_def)


text \<open>The client goes away after 100 bytes and the socket takes the rest later.\<close>

definition wit_cut_client :: client_io where
  "wit_cut_client = \<lparr>write_answers = (\<lambda>n. if n = 1 then Write_failed else Wrote 100), writes = 0, received = []\<rparr>"

theorem blocking_stream_prefix_witness:
  "\<exists>rc c' s' p q. backend_process_openai wit_config True True (\<lambda>_. False)
      (\<lambda>_. \<lparr>t_chunks = wit_chunks, t_ok = True, t_code = 200\<rparr>) wit_conn wit_cut_client = Some (rc, c', s')
    \<and> received s' = p @ q \<and> prefix p (SSE_HEADERS @ sse_open @ ''Hello'' @ sse_close) \<and> prefix q SSE_DONE
    \<and> (if rc = 1 then prefix SSE_HEADERS p else rc = -1 \<and> q = [])"
proof -
  have s: "stream_of (concat wit_chunks) = SSE_HEADERS @ sse_open @ ''Hello'' @ sse_close" by code_simp
  have r: "received wit_cut_client = []" by (simp add: wit_cut_client_def)
  have m: "moves (write_answers wit_cut_client (n + 2))" for n
    by (simp add: wit_cut_client_def moves_def)
  then have "\<exists>m\<ge>n. moves (write_answers wit_cut_client m)" for n
    by (meson le_add1)
  then have k: "keeps_moving wit_cut_client" by (simp add: keeps_moving_def)
  show ?thesis
    using blocking_stream_prefix [OF wit_range k, of wit_config True True "\<lambda>_. False"
        "\<lparr>t_chunks = wit_chunks, t_ok = True, t_code = 200\<rparr>"] s
    by (simp add: r)
qed

section \<open>The body of a request\<close>

definition body_opening :: "string \<Rightarrow> string" where
  "body_opening m = ''{'' @ quoted ''model'' @ '':'' @ quoted m @ '','' @ quoted ''messages'' @ '':[{'' @ quoted ''role''
      @ '':'' @ quoted ''user'' @ '','' @ quoted ''content'' @ '':'' @ [DQ]"

definition body_closing :: "int \<Rightarrow> string" where
  "body_closing k = ''}],'' @ quoted ''max_tokens'' @ '':'' @ dec_int k @ '','' @ quoted ''stream'' @ '':true}''"

text \<open>
  C22. The body of a request of the curl manager is complete exactly when the model's name and the
  digits of the token limit have at most 173 characters together. Then a JSON reader that stands
  behind the opening quote of the content reads back the prompt and stops at the end of the message:
  no prompt, whatever quotes, backslashes or control characters it has, changes the rest of the request.
\<close>

theorem request_body_read_back:
  "(\<exists>rest. build_request_body (Some p) m k = body_opening m @ rest \<and> json_string rest = Some (p, body_closing k))
    \<longleftrightarrow> length m + length (dec_int k) \<le> 173"
proof -
  have full: "body_text m (escape_prompt p) k = body_opening m @ escape_prompt p @ DQ # body_closing k"
    by (simp add: body_text_def body_opening_def body_closing_def quoted_def)
  show ?thesis
  proof
    assume "length m + length (dec_int k) \<le> 173"
    then have "build_request_body (Some p) m k = body_opening m @ escape_prompt p @ DQ # body_closing k"
      using build_request_body_exact(1) [of "Some p" m k] full by simp
    then show "\<exists>rest. build_request_body (Some p) m k = body_opening m @ rest \<and> json_string rest = Some (p, body_closing k)"
      using json_string_escape by auto
  next
    assume "\<exists>rest. build_request_body (Some p) m k = body_opening m @ rest \<and> json_string rest = Some (p, body_closing k)"
    then obtain rest where rest: "build_request_body (Some p) m k = body_opening m @ rest" "json_string rest = Some (p, body_closing k)" by blast
    let ?n = "length (escape_prompt p) + 256 - 1"
    have "body_opening m @ rest = take ?n (body_opening m @ escape_prompt p @ DQ # body_closing k)"
      using rest(1) unfolding build_request_body_def snprintf_def Let_def option.case full by (rule sym)
    then have "(body_opening m @ escape_prompt p @ DQ # body_closing k) = (body_opening m @ rest)
        @ drop ?n (body_opening m @ escape_prompt p @ DQ # body_closing k)"
      by (simp only: append_take_drop_id)
    then have "escape_prompt p @ DQ # body_closing k = rest @ drop ?n (body_opening m @ escape_prompt p @ DQ # body_closing k)"
      by (simp only: append.assoc same_append_eq)
    then obtain u where u: "escape_prompt p @ DQ # body_closing k = rest @ u" by blast
    have "Some (p, body_closing k) = Some (p, body_closing k @ u)"
      unfolding json_string_escape [of p "body_closing k", symmetric] u by (rule json_string_append [OF rest(2)])
    then have "build_request_body (Some p) m k = body_text m (escape_prompt p) k"
      using rest(1) u full by simp
    then show "length m + length (dec_int k) \<le> 173"
      using build_request_body_exact(1) [of "Some p" m k] by simp
  qed
qed

end
