(* ===== verification/Curl_Manager.thy ===== *)
theory Curl_Manager
  imports Event_Loop Line_Buffer Curl_Request
begin

text \<open>
  The requests of the OpenAI build (curl_manager.c) and the parts of daemon.c that only this build has.
  libcurl is not part of the sources: which callbacks it makes when it is called is an argument, a list
  of \<open>curl_event\<close>; what it reports as finished is another. A request is known by its easy handle, whose
  private pointer is \<open>requests\<close>; handles are numbered as they are created. What the allocations give is
  an arbitrary sequence of answers. Write callbacks name a live handle whose transfer was not stopped,
  as libcurl documents; others are skipped.
\<close>

section \<open>State\<close>

record curl_socket_info =
  sockfd :: int
  poll_mask :: int
  poll_active :: bool

record curl_manager =
  timer_id :: "32 word"
  timer_active :: bool
  sockets :: "curl_socket_info list"
  active_requests :: int

record curl_request =
  rq_conn :: nat
  rq_api :: api_request
  rq_headers_sent :: bool
  rq_chunk_count :: nat
  rq_stopped :: bool \<comment> \<open>a callback did not take its bytes, so libcurl delivers no more\<close>

record heap =
  h_small :: bool \<comment> \<open>\<open>malloc\<close> of a small object\<close>
  h_buf :: "nat \<Rightarrow> memory option" \<comment> \<open>of the bytes of a write buffer\<close>
  h_realloc :: "nat \<Rightarrow> nat \<Rightarrow> memory option"

record curl_loop =
  cl :: loop
  mgr :: curl_manager
  requests :: "nat \<Rightarrow> curl_request option"
  next_easy :: nat
  heaps :: "nat \<Rightarrow> heap"
  allocs :: nat

definition next_heap :: "curl_loop \<Rightarrow> heap \<times> curl_loop" where
  "next_heap W = (heaps W (allocs W), W\<lparr>allocs := allocs W + 1\<rparr>)"

definition cl_conn :: "nat \<Rightarrow> (connection \<Rightarrow> connection) \<Rightarrow> curl_loop \<Rightarrow> curl_loop" where
  "cl_conn i f W = W\<lparr>cl := with_conn i f (cl W)\<rparr>"

definition cl_ring :: "(ring \<Rightarrow> int \<times> ring) \<Rightarrow> curl_loop \<Rightarrow> int \<times> curl_loop" where
  "cl_ring f W = (case f (lring (cl W)) of (rc, r) \<Rightarrow> (rc, W\<lparr>cl := (cl W)\<lparr>lring := r\<rparr>\<rparr>))"

definition cl_dirty :: "nat \<Rightarrow> curl_loop \<Rightarrow> curl_loop" where
  "cl_dirty i W = W\<lparr>cl := (cl W)\<lparr>dctx := daemon_mark_connection_dirty i (dctx (cl W))\<rparr>\<rparr>"

definition cl_submit :: "curl_loop \<Rightarrow> curl_loop" where
  "cl_submit W = snd (cl_ring (\<lambda>r. (0, ring_submit r)) W)"

section \<open>Sockets and the timer\<close>

datatype curl_poll = CURL_POLL_NONE | CURL_POLL_IN | CURL_POLL_OUT | CURL_POLL_INOUT | CURL_POLL_REMOVE

abbreviation (input) POLLIN :: int where "POLLIN \<equiv> 1"
abbreviation (input) POLLOUT :: int where "POLLOUT \<equiv> 4"
abbreviation (input) POLLERR :: int where "POLLERR \<equiv> 8"
abbreviation (input) POLLHUP :: int where "POLLHUP \<equiv> 16"

definition no_socket :: curl_socket_info where
  "no_socket = \<lparr>sockfd = 0, poll_mask = 0, poll_active = False\<rparr>"

definition ensure_socket_capacity :: "int \<Rightarrow> curl_loop \<Rightarrow> int \<times> curl_loop" where
  "ensure_socket_capacity fd W =
     (let cap = length (sockets (mgr W)) in
      if fd < int cap then (0, W)
      else case next_heap W of (h, O1) \<Rightarrow>
        if \<not> h_small h then (-1, O1)
        else (0, O1\<lparr>mgr := (mgr O1)\<lparr>sockets := sockets (mgr O1) @ replicate (nat (fd + 256) - cap) no_socket\<rparr>\<rparr>))"

definition set_socket :: "int \<Rightarrow> (curl_socket_info \<Rightarrow> curl_socket_info) \<Rightarrow> curl_loop \<Rightarrow> curl_loop" where
  "set_socket fd f W = W\<lparr>mgr := (mgr W)\<lparr>sockets := (sockets (mgr W))[nat fd := f (sockets (mgr W) ! nat fd)]\<rparr>\<rparr>"

definition poll_mask_of :: "curl_poll \<Rightarrow> int" where
  "poll_mask_of w =
     (if w = CURL_POLL_IN \<or> w = CURL_POLL_INOUT then POLLIN else 0)
       OR (if w = CURL_POLL_OUT \<or> w = CURL_POLL_INOUT then POLLOUT else 0)"

definition socket_callback :: "int \<Rightarrow> curl_poll \<Rightarrow> curl_loop \<Rightarrow> curl_loop" where
  "socket_callback fd what W =
     (case ensure_socket_capacity fd W of (rc, O1) \<Rightarrow>
        if rc < 0 then O1
        else
          let info = sockets (mgr O1) ! nat fd; new_mask = poll_mask_of what;
              O2 = (if poll_active info \<and> (new_mask \<noteq> poll_mask info \<or> what = CURL_POLL_REMOVE)
                    then set_socket fd (poll_active_update (\<lambda>_. False)) (snd (cl_ring (ring_submit_poll_cancel fd) O1))
                    else O1);
              O3 = (if new_mask \<noteq> 0 \<and> what \<noteq> CURL_POLL_REMOVE
                    then (case cl_ring (ring_submit_poll_add fd new_mask) O2 of (rc2, W') \<Rightarrow>
                       cl_submit (if rc2 = 0
                         then set_socket fd (\<lambda>_. \<lparr>sockfd = fd, poll_mask = new_mask, poll_active = True\<rparr>) W' else W'))
                    else O2)
          in if what = CURL_POLL_REMOVE then set_socket fd (\<lambda>_. no_socket) O3 else O3)"

definition timer_callback :: "int \<Rightarrow> curl_loop \<Rightarrow> curl_loop" where
  "timer_callback timeout_ms W =
     (let O1 = (if timer_active (mgr W)
                then (snd (cl_ring (ring_cancel_curl_timeout (timer_id (mgr W))) W))\<lparr>mgr := (mgr W)\<lparr>timer_active := False\<rparr>\<rparr>
                else W)
      in if timeout_ms = -1 then O1
         else
           let ms = (if timeout_ms = 0 then 1 else timeout_ms);
               next_id = timer_id (mgr O1) + 1;
               new_id = (if next_id = 0 then 1 else next_id);
               O2 = O1\<lparr>mgr := (mgr O1)\<lparr>timer_id := new_id\<rparr>\<rparr>
           in case cl_ring (ring_submit_curl_timeout (c_int ms) new_id) O2 of (rc, O3) \<Rightarrow>
                cl_submit (if rc = 0 then O3\<lparr>mgr := (mgr O3)\<lparr>timer_active := True\<rparr>\<rparr> else O3))"

section \<open>Data for the client\<close>

definition ensure_write_buf :: "nat \<Rightarrow> curl_loop \<Rightarrow> bool \<times> curl_loop" where
  "ensure_write_buf i W =
     (if async_write_buf (conn (cl W) i) \<noteq> None then (True, W)
      else case next_heap W of (h, O1) \<Rightarrow>
        if \<not> h_small h then (False, O1)
        else (case write_buffer_init (h_buf h) of
            None \<Rightarrow> (False, O1)
          | Some wb \<Rightarrow> (True, cl_conn i (\<lambda>c. c\<lparr>async_write_buf := Some wb\<rparr>) O1)))"

definition append_write_buf :: "nat \<Rightarrow> string \<Rightarrow> curl_loop \<Rightarrow> bool \<times> curl_loop" where
  \<comment> \<open>\<open>write_buffer_append\<close> on the connection's buffer, \<open>False\<close> when it is refused\<close>
  "append_write_buf i data W =
     (case async_write_buf (conn (cl W) i) of
        None \<Rightarrow> (False, W)
      | Some wb \<Rightarrow> (case next_heap W of (h, O1) \<Rightarrow>
          (case write_buffer_append (h_realloc h) data wb of (rc, wb1) \<Rightarrow>
             (\<not> rc < 0, cl_conn i (\<lambda>c. c\<lparr>async_write_buf := Some wb1\<rparr>) O1))))"

definition try_immediate_write :: "nat \<Rightarrow> curl_loop \<Rightarrow> curl_loop" where
  "try_immediate_write i W =
     (case async_write_buf (conn (cl W) i) of
        None \<Rightarrow> W
      | Some wb \<Rightarrow>
          if \<not> write_buffer_has_data wb \<or> write_buffer_is_busy wb then W
          else (case write_buffer_get_next wb of
              None \<Rightarrow> W
            | Some data \<Rightarrow>
                if data = [] then W
                else (case cl_ring (ring_submit_write (conn (cl W) i) data) W of (rc, O1) \<Rightarrow>
                  if rc < 0 then O1
                  else
                    let O2 = snd (cl_ring (ring_submit_linked_timeout (conn (cl O1) i) (write_timeout_ms (dctx (cl O1)))) O1)
                    in cl_submit (cl_conn i (\<lambda>c. c\<lparr>async_write_buf := Some (write_buffer_set_pending True wb)\<rparr>) O2))))"

definition process_sse_line :: "nat \<Rightarrow> nat \<Rightarrow> string \<Rightarrow> curl_loop \<Rightarrow> bool \<times> curl_loop" where
  \<comment> \<open>for the request \<open>rq\<close> of the connection \<open>i\<close>; \<open>False\<close> is -1\<close>
  "process_sse_line rq i line W =
     (case sse_line_content line of
        None \<Rightarrow> (True, W)
      | Some content \<Rightarrow> (case stream_format_sse 8192 content of
          None \<Rightarrow> (False, W)
        | Some out \<Rightarrow> (case ensure_write_buf i W of (ok, O1) \<Rightarrow>
            if \<not> ok then (False, O1)
            else (case append_write_buf i out O1 of (ok2, O2) \<Rightarrow>
              if \<not> ok2 then (False, O2)
              else
                let O3 = try_immediate_write i (cl_dirty i O2)
                in (True, O3\<lparr>requests := (requests O3)(rq := map_option (rq_chunk_count_update Suc) (requests O3 rq))\<rparr>)))))"

definition ensure_line_buf :: "nat \<Rightarrow> curl_loop \<Rightarrow> bool \<times> curl_loop" where
  "ensure_line_buf i W =
     (if sse_line_buf (conn (cl W) i) \<noteq> None then (True, W)
      else case next_heap W of (h, W1) \<Rightarrow>
        if h_small h then (True, cl_conn i (\<lambda>c. c\<lparr>sse_line_cap := 4096, sse_line_buf := Some [], sse_line_len := 0\<rparr>) W1)
        else (False, cl_conn i (\<lambda>c. c\<lparr>sse_line_cap := 4096\<rparr>) W1))"

definition grow_line_buf :: "nat \<Rightarrow> nat \<Rightarrow> curl_loop \<Rightarrow> bool \<times> curl_loop" where
  "grow_line_buf i bytes W =
     (let c = conn (cl W) i; need = sse_line_len c + bytes + 1 in
      if need > sse_line_cap c then
        (case next_heap W of (h, W1) \<Rightarrow>
           let new_cap = (if sse_line_cap c * 2 < need then need else sse_line_cap c * 2) in
           if h_small h then (True, cl_conn i (\<lambda>c. c\<lparr>sse_line_cap := new_cap\<rparr>) W1) else (False, W1))
      else (True, W))"

definition queue_headers :: "nat \<Rightarrow> nat \<Rightarrow> curl_loop \<Rightarrow> bool \<times> curl_loop" where
  \<comment> \<open>"Send HTTP headers on first data"\<close>
  "queue_headers rq i W =
     (case ensure_write_buf i W of (ok, W1) \<Rightarrow>
        if \<not> ok then (False, W1)
        else (case append_write_buf i SSE_HEADERS W1 of (ok2, W2) \<Rightarrow>
          if \<not> ok2 then (False, W2)
          else
            let W3 = W2\<lparr>requests := (requests W2)(rq := map_option (rq_headers_sent_update (\<lambda>_. True)) (requests W2 rq))\<rparr>
            in (True, try_immediate_write i
                        (cl_conn i (state_update (\<lambda>_. CONN_STATE_CURL_ACTIVE)) (cl_dirty i W3)))))"

definition set_line :: "nat \<Rightarrow> string \<Rightarrow> curl_loop \<Rightarrow> curl_loop" where
  "set_line i b = cl_conn i (\<lambda>c. c\<lparr>sse_line_buf := Some b, sse_line_len := length b\<rparr>)"

definition curl_write_callback :: "nat \<Rightarrow> curl_request \<Rightarrow> string \<Rightarrow> curl_loop \<Rightarrow> (nat \<times> curl_loop) option" where
  "curl_write_callback h rq ptr W =
     (let i = rq_conn rq in
      case (if \<not> rq_headers_sent rq then queue_headers h i W else (True, W)) of (ok, W1) \<Rightarrow>
        if \<not> ok then Some (0, W1)
        else (case ensure_line_buf i W1 of (ok2, W2) \<Rightarrow>
          if \<not> ok2 then Some (0, W2)
          else (case grow_line_buf i (length ptr) W2 of (ok3, W3) \<Rightarrow>
            if \<not> ok3 then Some (0, W3)
            else do {
              let W4 = set_line i (the (sse_line_buf (conn (cl W3) i)) @ ptr) W3;
              (ok4, b, W5) \<leftarrow> process_lines (\<lambda>line W. Some (process_sse_line h i line W)) []
                                (the (sse_line_buf (conn (cl W4) i))) W4;
              let W6 = set_line i b W5;
              Some (if ok4 then (length ptr, try_immediate_write i W6) else (0, W6)) })))"

section \<open>What libcurl does when it is called\<close>

datatype curl_event = Socket_cb int curl_poll | Timer_cb int | Write_cb nat string

fun run_event :: "curl_event \<Rightarrow> curl_loop \<Rightarrow> curl_loop option" where
  "run_event (Socket_cb fd what) W = Some (socket_callback fd what W)"
| "run_event (Timer_cb ms) W = Some (timer_callback ms W)"
| "run_event (Write_cb h ptr) W =
     (case requests W h of
        None \<Rightarrow> Some W
      | Some rq \<Rightarrow>
          if rq_stopped rq then Some W
          else do {
            (n, W1) \<leftarrow> curl_write_callback h rq ptr W;
            Some (if n = length ptr then W1
                  else W1\<lparr>requests := (requests W1)(h := map_option (rq_stopped_update (\<lambda>_. True)) (requests W1 h))\<rparr>) })"

fun run_events :: "curl_event list \<Rightarrow> curl_loop \<Rightarrow> curl_loop option" where
  \<comment> \<open>one call of \<open>curl_multi_socket_action\<close>\<close>
  "run_events [] W = Some W"
| "run_events (e # es) W = do { W1 \<leftarrow> run_event e W; run_events es W1 }"

section \<open>Requests\<close>

record start_answers =
  s_req :: bool \<comment> \<open>\<open>malloc\<close> of the request\<close>
  s_easy :: bool
  s_body :: bool \<comment> \<open>the two allocations of \<open>build_request_body\<close>\<close>
  s_add :: bool \<comment> \<open>\<open>curl_multi_add_handle\<close>\<close>
  s_kick :: "curl_event list"

definition model_name :: "connection \<Rightarrow> string option" where
  "model_name c = (case (handoff_buf c, model (hdata c)) of
     (Some b, Some off) \<Rightarrow> Some (c_string_at b off) | _ \<Rightarrow> None)"

definition curl_manager_start_request ::
    "api_config \<Rightarrow> start_answers \<Rightarrow> nat \<Rightarrow> curl_loop \<Rightarrow> (int \<times> curl_loop) option" where
  "curl_manager_start_request cfg a i W =
     (case api_key cfg of
        None \<Rightarrow> Some (-1, W)
      | Some key \<Rightarrow>
          if \<not> s_req a \<or> \<not> s_easy a \<or> \<not> s_body a then Some (-1, W)
          else
            let h = next_easy W; c = conn (cl W) i;
                W1 = cl_conn i (\<lambda>c. c\<lparr>curl_easy := Some h, state := CONN_STATE_CURL_PENDING\<rparr>) (W\<lparr>next_easy := h + 1\<rparr>)
            in if \<not> s_add a then Some (-1, cl_conn i (curl_easy_update (\<lambda>_. None)) W1)
               else
                 let rq = \<lparr>rq_conn = i, rq_api = make_request cfg key (prompt_string c) (model_name c) (max_tokens (hdata c)),
                           rq_headers_sent = False, rq_chunk_count = 0, rq_stopped = False\<rparr>;
                     W2 = W1\<lparr>requests := (requests W1)(h \<mapsto> rq),
                            mgr := (mgr W1)\<lparr>active_requests := active_requests (mgr W1) + 1\<rparr>\<rparr>
                 in map_option (Pair 0) (run_events (s_kick a) W2))"

definition curl_select_bits :: "int \<Rightarrow> int" where
  \<comment> \<open>\<open>CURL_CSELECT_IN\<close>, \<open>_OUT\<close> and \<open>_ERR\<close>\<close>
  "curl_select_bits ev =
     (if ev AND POLLIN \<noteq> 0 then 1 else 0) OR (if ev AND POLLOUT \<noteq> 0 then 2 else 0)
       OR (if ev AND (POLLERR OR POLLHUP) \<noteq> 0 then 4 else 0)"

definition curl_manager_socket_action ::
    "(int \<Rightarrow> int \<Rightarrow> curl_event list) \<Rightarrow> curl_event list \<Rightarrow> int \<Rightarrow> int \<Rightarrow> curl_loop \<Rightarrow> curl_loop option" where
  \<comment> \<open>the events of a socket by its descriptor and bits, and those of the kick that follows\<close>
  "curl_manager_socket_action on_socket on_timeout fd ev W = do {
     W1 \<leftarrow> run_events (on_socket fd (curl_select_bits ev)) W;
     run_events on_timeout W1 }"

definition curl_manager_timeout_action :: "curl_event list \<Rightarrow> curl_loop \<Rightarrow> curl_loop option" where
  "curl_manager_timeout_action on_timeout W =
     run_events on_timeout (W\<lparr>mgr := (mgr W)\<lparr>timer_active := False\<rparr>\<rparr>)"

definition drop_request :: "nat \<Rightarrow> nat \<Rightarrow> curl_loop \<Rightarrow> curl_loop" where
  \<comment> \<open>the handle leaves the multi handle, the request is freed, the connection forgets it\<close>
  "drop_request h i W =
     cl_conn i (curl_easy_update (\<lambda>_. None))
       (W\<lparr>requests := (requests W)(h := None), mgr := (mgr W)\<lparr>active_requests := active_requests (mgr W) - 1\<rparr>\<rparr>)"

record curl_msg =
  m_easy :: nat
  m_ok :: bool \<comment> \<open>\<open>CURLE_OK\<close>\<close>
  m_code :: int

definition complete_request :: "curl_msg \<Rightarrow> curl_loop \<Rightarrow> curl_loop" where
  \<comment> \<open>one turn of the loop of \<open>curl_manager_check_completions\<close>\<close>
  "complete_request msg W =
     (case requests W (m_easy msg) of
        None \<Rightarrow> W
      | Some rq \<Rightarrow>
          let i = rq_conn rq;
              success = (m_ok msg \<and> (m_code msg = 200 \<or> rq_headers_sent rq));
              W1 = (if success \<and> rq_headers_sent rq \<and> async_write_buf (conn (cl W) i) \<noteq> None
                    then (case append_write_buf i SSE_DONE W of (ok, W') \<Rightarrow> if ok then cl_dirty i W' else W')
                    else W)
          in drop_request (m_easy msg) i (cl_conn i (state_update (\<lambda>_. CONN_STATE_CLOSING)) W1))"

definition curl_manager_check_completions :: "curl_msg list \<Rightarrow> curl_loop \<Rightarrow> curl_loop" where
  "curl_manager_check_completions msgs W = fold complete_request msgs W"

definition curl_manager_cancel_request :: "nat \<Rightarrow> curl_loop \<Rightarrow> curl_loop" where
  "curl_manager_cancel_request i W =
     (case curl_easy (conn (cl W) i) of None \<Rightarrow> W | Some h \<Rightarrow> drop_request h i W)"

definition new_manager :: curl_manager where
  "new_manager = \<lparr>timer_id = 0, timer_active = False, sockets = replicate 256 no_socket, active_requests = 0\<rparr>"

definition curl_manager_init ::
    "(string \<Rightarrow> string option) \<Rightarrow> bool \<Rightarrow> bool \<Rightarrow> bool \<Rightarrow> (nat \<Rightarrow> heap) \<Rightarrow> loop \<Rightarrow> (api_config \<times> curl_loop) option" where
  \<comment> \<open>the answers of \<open>getenv\<close>, \<open>curl_global_init\<close>, \<open>curl_multi_init\<close> and \<open>calloc\<close>\<close>
  "curl_manager_init env glob multi mem hs L =
     (if \<not> glob \<or> \<not> multi \<or> \<not> mem then None
      else Some (api_settings env, \<lparr>cl = L, mgr = new_manager, requests = (\<lambda>_. None), next_easy = 0, heaps = hs, allocs = 0\<rparr>))"

end
