(* ===== verification/Curl_Loop.thy ===== *)
theory Curl_Loop
  imports Curl_Manager
begin

text \<open>
  The completion handlers of daemon.c in the OpenAI build with \<open>use_curl_multi\<close>. They differ from those
  of \<open>Event_Loop\<close> in that freeing a connection cancels its request, in the dispatch of a received
  descriptor, and in the flush of the dirty list. Handlers that work on connections without a request
  (a new one, one that is received) are those of the default build.

  The flush reads a write buffer again after \<open>start_async_write\<close>, which may have freed it: that is the
  outcome \<open>Freed_read\<close>.
\<close>

definition on_loop :: "(loop \<Rightarrow> loop) \<Rightarrow> curl_loop \<Rightarrow> curl_loop" where
  "on_loop f W = W\<lparr>cl := f (cl W)\<rparr>"

definition lift_loop :: "(loop \<Rightarrow> loop option) \<Rightarrow> curl_loop \<Rightarrow> curl_loop option" where
  "lift_loop f W = map_option (\<lambda>L. W\<lparr>cl := L\<rparr>) (f (cl W))"

definition cancel_and_cleanup :: "nat \<Rightarrow> curl_loop \<Rightarrow> curl_loop option" where
  \<comment> \<open>\<open>cleanup_connection\<close> of this build\<close>
  "cancel_and_cleanup i W =
     lift_loop (cleanup_connection i)
       (if use_curl_multi (dctx (cl W)) \<and> curl_easy (conn (cl W) i) \<noteq> None then curl_manager_cancel_request i W else W)"

definition curl_fail :: "nat \<Rightarrow> curl_loop \<Rightarrow> curl_loop option" where
  "curl_fail i W = cancel_and_cleanup i (on_loop count_failed W)"

definition curl_start_async_write :: "nat \<Rightarrow> curl_loop \<Rightarrow> curl_loop option" where
  \<comment> \<open>\<open>start_async_write\<close>\<close>
  "curl_start_async_write i W =
     (case async_write_buf (conn (cl W) i) of
        None \<Rightarrow> Some W
      | Some wb \<Rightarrow>
          if \<not> write_buffer_has_data wb \<or> write_buffer_is_busy wb then Some W
          else (case write_buffer_get_next wb of
              None \<Rightarrow> Some W
            | Some data \<Rightarrow>
                if data = [] then Some W
                else (case cl_ring (ring_submit_write (conn (cl W) i) data) W of (rc, W1) \<Rightarrow>
                  if rc < 0 then curl_fail i W1
                  else (case cl_ring (ring_submit_linked_timeout (conn (cl W1) i) (write_timeout_ms (dctx (cl W1)))) W1 of
                      (rc2, W2) \<Rightarrow>
                        if rc2 < 0 then curl_fail i W2
                        else Some (cl_submit (cl_conn i
                               (\<lambda>c. c\<lparr>async_write_buf := Some (write_buffer_set_pending True wb)\<rparr>) W2))))))"

definition curl_handle_async_write :: "nat \<Rightarrow> int \<Rightarrow> curl_loop \<Rightarrow> curl_loop option" where
  \<comment> \<open>\<open>handle_async_write\<close>\<close>
  "curl_handle_async_write i res W =
     (if res < 0 then curl_fail i W
      else
        let wb = map_option (\<lambda>wb. write_buffer_set_pending False (snd (write_buffer_consume (nat res) wb)))
                   (async_write_buf (conn (cl W) i));
            W1 = cl_conn i (\<lambda>c. c\<lparr>bytes_sent := bytes_sent c + nat res, async_write_buf := wb\<rparr>) W
        in if (case wb of None \<Rightarrow> False | Some b \<Rightarrow> write_buffer_has_data b) then curl_start_async_write i W1
           else if state (conn (cl W1) i) = CONN_STATE_CLOSING
                then cancel_and_cleanup i (on_loop (count_completed i) W1)
                else Some W1)"

section \<open>Received descriptors\<close>

definition curl_dispatch :: "api_config \<Rightarrow> start_answers \<Rightarrow> nat \<Rightarrow> curl_loop \<Rightarrow> curl_loop option" where
  "curl_dispatch cfg s i W = do {
     (rc, W1) \<leftarrow> curl_manager_start_request cfg s i W;
     if rc < 0 then curl_fail i W1 else Some W1 }"

definition curl_handle_recv_fd ::
    "api_config \<Rightarrow> start_answers \<Rightarrow> nat \<Rightarrow> int \<Rightarrow> answers \<Rightarrow> curl_loop \<Rightarrow> curl_loop option" where
  \<comment> \<open>\<open>handle_recv_fd\<close>\<close>
  "curl_handle_recv_fd cfg s i res a W =
     (if res < 0 then curl_fail i W
      else
        let W1 = cl_conn i (handoff_len_update (\<lambda>_. nat res)) W;
            fd = handoff_extract_fd (a_msg a)
        in if fd < 0 then curl_fail i W1
           else
             let W2 = cl_conn i (client_fd_update (\<lambda>_. fd)) W1;
                 W3 = cl_conn i (unix_fd_update (\<lambda>_. -1))
                        (on_loop (\<lambda>L. L\<lparr>dctx := close_fd (unix_fd (conn L i)) (dctx L)\<rparr>) W2)
             in if handoff_validate_socket (a_sotype a) < 0 then curl_fail i W3
                else curl_dispatch cfg s i (cl_conn i (\<lambda>c. parse_handoff (c\<lparr>state := CONN_STATE_PARSING\<rparr>)) W3))"

section \<open>Flushing the dirty list\<close>

datatype outcome = Running curl_loop | Freed_read

definition flush_unlink :: "nat \<Rightarrow> nat option \<Rightarrow> nat option \<Rightarrow> daemon_ctx \<Rightarrow> daemon_ctx" where
  \<comment> \<open>take \<open>i\<close> out, between \<open>prev\<close> and \<open>nx\<close>\<close>
  "flush_unlink i prev nx ctx =
     (let ctx1 = (case prev of
             Some p \<Rightarrow> upd_conn p (dirty_next_update (\<lambda>_. nx)) ctx
           | None \<Rightarrow> ctx\<lparr>dirty_head := nx\<rparr>)
      in clear_dirty i (if dirty_tail ctx1 = Some i then ctx1\<lparr>dirty_tail := prev\<rparr> else ctx1))"

definition drop_dirty :: "nat \<Rightarrow> nat option \<Rightarrow> nat option \<Rightarrow> curl_loop \<Rightarrow> curl_loop" where
  "drop_dirty i prev nx = on_loop (\<lambda>L. L\<lparr>dctx := flush_unlink i prev nx (dctx L)\<rparr>)"

definition flushable :: "conn_state \<Rightarrow> bool" where
  "flushable s \<longleftrightarrow> s = CONN_STATE_STREAMING \<or> s = CONN_STATE_CURL_ACTIVE \<or> s = CONN_STATE_CLOSING"

definition idle_data :: "connection \<Rightarrow> bool" where
  "idle_data c \<longleftrightarrow> (case async_write_buf c of None \<Rightarrow> False
     | Some wb \<Rightarrow> write_buffer_has_data wb \<and> \<not> write_buffer_is_busy wb)"

definition drained :: "connection \<Rightarrow> bool" where
  "drained c \<longleftrightarrow> (case async_write_buf c of None \<Rightarrow> False
     | Some wb \<Rightarrow> \<not> write_buffer_has_data wb \<and> \<not> write_buffer_is_busy wb)"

partial_function (option) flush_from :: "nat option \<Rightarrow> nat option \<Rightarrow> curl_loop \<Rightarrow> outcome option" where
  "flush_from prev cur W =
     (case cur of
        None \<Rightarrow> Some (Running W)
      | Some i \<Rightarrow>
          let c = conn (cl W) i; nx = dirty_next c in
          if \<not> flushable (state c) then flush_from prev nx (drop_dirty i prev nx W)
          else do {
            W1 \<leftarrow> (if idle_data c then curl_start_async_write i W else Some W);
            if async_write_buf c \<noteq> None \<and> async_write_buf (conn (cl W1) i) = None then Some Freed_read
            else if drained (conn (cl W1) i) then flush_from prev nx (drop_dirty i prev nx W1)
            else flush_from (Some i) nx W1 })"

declare flush_from.simps [code]

definition flush_streaming_connections :: "curl_loop \<Rightarrow> outcome option" where
  "flush_streaming_connections W = flush_from None (dirty_head (dctx (cl W))) W"

section \<open>Completions\<close>

record curl_answers =
  k_config :: api_config
  k_start :: start_answers
  k_socket :: "int \<Rightarrow> int \<Rightarrow> curl_event list"
  k_timeout :: "curl_event list"
  k_msgs :: "curl_msg list" \<comment> \<open>\<open>curl_multi_info_read\<close>\<close>

definition poll_events :: "int \<Rightarrow> int" where
  "poll_events res =
     (if res > 0 then
        (if res AND POLLIN \<noteq> 0 then POLLIN else 0) OR (if res AND POLLOUT \<noteq> 0 then POLLOUT else 0)
          OR (if res AND (POLLERR OR POLLHUP) \<noteq> 0 then POLLERR else 0)
      else 0)"

definition handle_curl_poll :: "curl_answers \<Rightarrow> int \<Rightarrow> int \<Rightarrow> curl_loop \<Rightarrow> outcome option" where
  "handle_curl_poll k fd res W = do {
     W1 \<leftarrow> curl_manager_socket_action (k_socket k) (k_timeout k) fd (poll_events res) W;
     flush_streaming_connections (curl_manager_check_completions (k_msgs k) W1) }"

definition handle_curl_timeout :: "curl_answers \<Rightarrow> curl_loop \<Rightarrow> outcome option" where
  \<comment> \<open>neither the timer nor the result of the completion is looked at\<close>
  "handle_curl_timeout k W = do {
     W1 \<leftarrow> curl_manager_timeout_action (k_timeout k) W;
     flush_streaming_connections (curl_manager_check_completions (k_msgs k) W1) }"

definition process_cqe_curl :: "curl_answers \<Rightarrow> answers \<Rightarrow> cqe \<Rightarrow> curl_loop \<Rightarrow> outcome option" where
  \<comment> \<open>\<open>process_cqe\<close>\<close>
  "process_cqe_curl k a e W =
     (case ring_unpack_data (cqe_data e) of (p, cid) \<Rightarrow>
        (case p of
           Some OP_ACCEPT \<Rightarrow> map_option Running (lift_loop (handle_accept (a_handoff_mem a) (cqe_res e) (cqe_more e)) W)
         | Some OP_RECV_FD \<Rightarrow>
             (case conn_get (unat cid) (dctx (cl W)) of
                None \<Rightarrow> Some (Running W)
              | Some i \<Rightarrow> if state (conn (cl W) i) = CONN_STATE_RECEIVING_FD
                          then map_option Running (curl_handle_recv_fd (k_config k) (k_start k) i (cqe_res e) a W)
                          else Some (Running W))
         | Some OP_WRITE \<Rightarrow>
             (case conn_get (unat cid) (dctx (cl W)) of
                None \<Rightarrow> Some (Running W)
              | Some i \<Rightarrow>
                  let st = state (conn (cl W) i) in
                  if async_write_buf (conn (cl W) i) \<noteq> None then
                    (if st = CONN_STATE_STREAMING \<or> st = CONN_STATE_CURL_ACTIVE \<or> st = CONN_STATE_CLOSING
                     then map_option Running (curl_handle_async_write i (cqe_res e) W) else Some (Running W))
                  else if st = CONN_STATE_STREAMING \<or> st = CONN_STATE_CLOSING
                  then map_option Running (lift_loop (handle_write i (cqe_res e) (a_write_mem a)) W)
                  else Some (Running W))
         | Some OP_CURL_POLL \<Rightarrow> handle_curl_poll k (sint cid) (cqe_res e) W
         | Some OP_CURL_TIMEOUT \<Rightarrow> handle_curl_timeout k W
         | _ \<Rightarrow> Some (Running W)))"

end
