(* ===== verification/Curl_Inv.thy ===== *)
theory Curl_Inv
  imports Curl_Loop Loop_Owners
begin

text \<open>
  The invariant of the curl mode: requests and connections belong to each other one to one, a
  connection with a request is waiting for the API or receiving from it, and the pool and the dirty
  list are well formed. So no request refers to a connection that was freed.
\<close>

section \<open>The invariant\<close>

abbreviation ctxt :: "curl_loop \<Rightarrow> daemon_ctx" where "ctxt W \<equiv> dctx (cl W)"

definition conn_ok :: "(nat \<Rightarrow> nat option) \<Rightarrow> nat \<Rightarrow> connection \<Rightarrow> bool" where
  "conn_ok rqs i c \<longleftrightarrow>
     (\<forall>h. curl_easy c = Some h \<longrightarrow> rqs h = Some i \<and> state c \<in> {CONN_STATE_CURL_PENDING, CONN_STATE_CURL_ACTIVE})
     \<and> state c \<noteq> CONN_STATE_STREAMING \<and> write_buf c = None"

definition ctx_ok :: "daemon_ctx \<Rightarrow> (nat \<Rightarrow> nat option) \<Rightarrow> bool" where
  \<comment> \<open>the second argument gives the connection of each request\<close>
  "ctx_ok ctx rqs \<longleftrightarrow> use_curl_multi ctx \<and> (\<exists>fs. pool_ok ctx fs) \<and> (\<exists>ds. dirty_ok ctx ds)
     \<and> (\<forall>i<length (connections ctx). conn_ok rqs i (conn_at ctx i))
     \<and> (\<forall>h i. rqs h = Some i \<longrightarrow> i < length (connections ctx) \<and> curl_easy (conn_at ctx i) = Some h)"

definition reqs :: "curl_loop \<Rightarrow> nat \<Rightarrow> nat option" where
  "reqs W h = map_option rq_conn (requests W h)"

definition counted :: "(nat \<Rightarrow> nat option) \<Rightarrow> int \<Rightarrow> nat \<Rightarrow> bool" where
  "counted rqs active easy \<longleftrightarrow> finite (dom rqs) \<and> active = int (card (dom rqs)) \<and> (\<forall>h \<in> dom rqs. h < easy)"

definition curl_inv :: "curl_loop \<Rightarrow> bool" where
  "curl_inv W \<longleftrightarrow> ctx_ok (ctxt W) (reqs W) \<and> counted (reqs W) (active_requests (mgr W)) (next_easy W)"

section \<open>Changes to the context\<close>

definition plain :: "(connection \<Rightarrow> connection) \<Rightarrow> bool" where
  \<comment> \<open>a change the invariant does not see\<close>
  "plain f \<longleftrightarrow> (\<forall>c. conn_id (f c) = conn_id c \<and> next_free (f c) = next_free c
     \<and> dirty_next (f c) = dirty_next c \<and> on_dirty_list (f c) = on_dirty_list c \<and> state (f c) = state c
     \<and> curl_easy (f c) = curl_easy c \<and> write_buf (f c) = write_buf c \<and> unix_fd (f c) = unix_fd c
     \<and> client_fd (f c) = client_fd c \<and> handoff_buf (f c) = handoff_buf c \<and> handoff_cap (f c) = handoff_cap c)"

lemma pool_in_use:
  "pool_ok ctx fs \<Longrightarrow> state (conn_at ctx i) \<noteq> CONN_STATE_UNUSED \<Longrightarrow> i \<notin> set fs"
  by (auto simp: pool_ok_def)

lemma dirty_ok_upd:
  assumes "dirty_ok ctx ds" "\<And>c. dirty_next (f c) = dirty_next c" "\<And>c. on_dirty_list (f c) = on_dirty_list c"
  shows "dirty_ok (upd_conn i f ctx) ds"
proof (cases "i < length (connections ctx)")
  case True
  then have at: "conn_at (upd_conn i f ctx) j = (if j = i then f (conn_at ctx i) else conn_at ctx j)" for j
    by (cases "j = i") auto
  have "dirty_link (upd_conn i f ctx) = dirty_link ctx" by (simp add: fun_eq_iff at assms)
  then show ?thesis using assms(1) by (simp add: dirty_ok_def at assms)
next
  case False
  then show ?thesis using assms(1) by (simp add: upd_conn_def list_update_beyond)
qed

text \<open>A change to a connection in use.\<close>

lemma ctx_ok_upd:
  assumes ok: "ctx_ok ctx rqs" and use: "state (conn_at ctx i) \<noteq> CONN_STATE_UNUSED"
    and f: "\<And>c. conn_id (f c) = conn_id c" "\<And>c. next_free (f c) = next_free c"
      "\<And>c. dirty_next (f c) = dirty_next c" "\<And>c. on_dirty_list (f c) = on_dirty_list c"
    and b: "buf_ok (conn_at ctx i) \<Longrightarrow> buf_ok (f (conn_at ctx i))"
    and c: "conn_ok rqs i (conn_at ctx i) \<Longrightarrow> conn_ok rqs i (f (conn_at ctx i))"
      "curl_easy (f (conn_at ctx i)) = curl_easy (conn_at ctx i)"
  shows "ctx_ok (upd_conn i f ctx) rqs"
proof -
  obtain fs ds where p: "pool_ok ctx fs" and d: "dirty_ok ctx ds" using ok by (auto simp: ctx_ok_def)
  have "pool_ok (upd_conn i f ctx) fs" by (rule pool_ok_upd [OF p pool_in_use [OF p use] f(1,2) b])
  moreover have "dirty_ok (upd_conn i f ctx) ds" by (rule dirty_ok_upd [OF d f(3,4)])
  moreover have "conn_at (upd_conn i f ctx) j = (if j = i then f (conn_at ctx i) else conn_at ctx j)"
    if "j < length (connections ctx)" for j
    using that by (cases "j = i") auto
  ultimately show ?thesis using ok c by (auto simp: ctx_ok_def upd_conn_def)
qed

lemma ctx_ok_plain:
  assumes ok: "ctx_ok ctx rqs" and f: "plain f"
  shows "ctx_ok (upd_conn i f ctx) rqs"
proof (cases "i < length (connections ctx)")
  case True
  obtain fs ds where p: "pool_ok ctx fs" and d: "dirty_ok ctx ds" using ok by (auto simp: ctx_ok_def)
  have at: "conn_at (upd_conn i f ctx) j = (if j = i then f (conn_at ctx i) else conn_at ctx j)" for j
    using True by (cases "j = i") auto
  note fs = f [unfolded plain_def, rule_format]
  have v: "pool_view (conn_at (upd_conn i f ctx) j) = pool_view (conn_at ctx j)" for j
    using fs [of "conn_at ctx i"] by (simp add: at pool_view_def)
  have "pool_ok (upd_conn i f ctx) fs" by (rule pool_ok_view [OF p v]) simp_all
  moreover have "dirty_ok (upd_conn i f ctx) ds" using fs by (intro dirty_ok_upd [OF d]) simp_all
  moreover have "conn_ok rqs j (conn_at (upd_conn i f ctx) j) = conn_ok rqs j (conn_at ctx j)"
    "curl_easy (conn_at (upd_conn i f ctx) j) = curl_easy (conn_at ctx j)" for j
    using fs [of "conn_at ctx i"] by (simp_all add: at conn_ok_def)
  moreover have "use_curl_multi (upd_conn i f ctx) = use_curl_multi ctx" by (simp add: upd_conn_def)
  ultimately show ?thesis using ok by (auto simp: ctx_ok_def)
next
  case False
  then show ?thesis using ok by (simp add: upd_conn_def list_update_beyond)
qed

text \<open>Two contexts that differ in nothing the invariant reads of a connection but the dirty list.\<close>

definition same_conns :: "daemon_ctx \<Rightarrow> daemon_ctx \<Rightarrow> bool" where
  "same_conns ctx ctx' \<longleftrightarrow> length (connections ctx') = length (connections ctx) \<and> use_curl_multi ctx' = use_curl_multi ctx
     \<and> (\<forall>i. curl_easy (conn_at ctx' i) = curl_easy (conn_at ctx i) \<and> state (conn_at ctx' i) = state (conn_at ctx i)
          \<and> write_buf (conn_at ctx' i) = write_buf (conn_at ctx i)
          \<and> async_write_buf (conn_at ctx' i) = async_write_buf (conn_at ctx i))"

lemma same_conns_refl [simp]: "same_conns ctx ctx" by (simp add: same_conns_def)

lemma same_conns_trans: "same_conns a b \<Longrightarrow> same_conns b c \<Longrightarrow> same_conns a c"
  by (simp add: same_conns_def)

lemma same_conns_dirty:
  "same_conns ctx (upd_conn i (\<lambda>c. c\<lparr>on_dirty_list := b, dirty_next := v\<rparr>) ctx)"
  "same_conns ctx (upd_conn i (dirty_next_update (\<lambda>_. v)) ctx)"
  "same_conns ctx (ctx\<lparr>dirty_head := v\<rparr>)" "same_conns ctx (ctx\<lparr>dirty_tail := v\<rparr>)"
  "same_conns ctx (ctx\<lparr>dirty_head := v, dirty_tail := w\<rparr>)"
proof -
  have u: "same_conns ctx (upd_conn i f ctx)"
    if "\<And>c. curl_easy (f c) = curl_easy c \<and> state (f c) = state c \<and> write_buf (f c) = write_buf c
      \<and> async_write_buf (f c) = async_write_buf c" for f
  proof (cases "i < length (connections ctx)")
    case True
    then have "conn_at (upd_conn i f ctx) j = (if j = i then f (conn_at ctx i) else conn_at ctx j)" for j
      by (cases "j = i") auto
    then show ?thesis using that by (simp add: same_conns_def) (simp add: upd_conn_def)
  next
    case False
    then show ?thesis by (simp add: upd_conn_def list_update_beyond)
  qed
  show "same_conns ctx (upd_conn i (\<lambda>c. c\<lparr>on_dirty_list := b, dirty_next := v\<rparr>) ctx)"
    "same_conns ctx (upd_conn i (dirty_next_update (\<lambda>_. v)) ctx)" by (rule u; simp)+
  show "same_conns ctx (ctx\<lparr>dirty_head := v\<rparr>)" "same_conns ctx (ctx\<lparr>dirty_tail := v\<rparr>)"
    "same_conns ctx (ctx\<lparr>dirty_head := v, dirty_tail := w\<rparr>)" by (simp_all add: same_conns_def conn_at_def)
qed

lemma mark_same: "same_conns ctx (daemon_mark_connection_dirty i ctx)"
proof -
  have "same_conns ctx (c\<lparr>dirty_tail := v\<rparr>)" if "same_conns ctx c" for c v
    by (rule same_conns_trans [OF that same_conns_dirty(4)])
  moreover have "same_conns ctx (c\<lparr>dirty_head := v, dirty_tail := w\<rparr>)" if "same_conns ctx c" for c v w
    by (rule same_conns_trans [OF that same_conns_dirty(5)])
  ultimately show ?thesis
    unfolding daemon_mark_connection_dirty_def Let_def
    by (simp add: same_conns_dirty same_conns_trans [OF same_conns_dirty(1) same_conns_dirty(2)] split: option.split)
qed

lemma ctx_ok_same:
  assumes "ctx_ok ctx rqs" "same_conns ctx ctx'" "\<exists>fs. pool_ok ctx' fs" "\<exists>ds. dirty_ok ctx' ds"
  shows "ctx_ok ctx' rqs"
proof -
  have n: "length (connections ctx') = length (connections ctx)" "use_curl_multi ctx' = use_curl_multi ctx"
    and v: "\<And>i. curl_easy (conn_at ctx' i) = curl_easy (conn_at ctx i)" "\<And>i. state (conn_at ctx' i) = state (conn_at ctx i)"
      "\<And>i. write_buf (conn_at ctx' i) = write_buf (conn_at ctx i)"
    using assms(2) unfolding same_conns_def by blast+
  show ?thesis using assms(1,3,4) unfolding ctx_ok_def conn_ok_def n v by blast
qed

lemma ctx_ok_mark:
  assumes "ctx_ok ctx rqs" "i < length (connections ctx)"
  shows "ctx_ok (daemon_mark_connection_dirty i ctx) rqs"
proof -
  obtain fs ds where "pool_ok ctx fs" "dirty_ok ctx ds" using assms(1) by (auto simp: ctx_ok_def)
  from mark_pool_ok [OF this(1), of i] mark_dirty_ok [OF this(2) assms(2)] mark_same [of ctx i]
  show ?thesis by (intro ctx_ok_same [OF assms(1)]) blast+
qed

text \<open>Statistics and descriptors do not matter.\<close>

lemma ctx_ok_stats:
  assumes "connections ctx' = connections ctx" "free_list ctx' = free_list ctx" "max_connections ctx' = max_connections ctx"
    "active_connections ctx' = active_connections ctx" "dirty_head ctx' = dirty_head ctx"
    "dirty_tail ctx' = dirty_tail ctx" "use_curl_multi ctx' = use_curl_multi ctx"
  shows "ctx_ok ctx' rqs = ctx_ok ctx rqs"
proof -
  have "conn_at ctx' = conn_at ctx" by (simp add: fun_eq_iff conn_at_def assms)
  then show ?thesis by (simp add: ctx_ok_def pool_ok_def dirty_ok_def assms)
qed

lemma ctx_ok_counts [simp]:
  "ctx_ok (dctx (count_failed L)) rqs = ctx_ok (dctx L) rqs"
  "ctx_ok (dctx (count_completed i L)) rqs = ctx_ok (dctx L) rqs"
  "ctx_ok (close_fd fd ctx) rqs = ctx_ok ctx rqs"
  by (rule ctx_ok_stats; simp add: count_failed_def count_completed_def close_fd_def)+

section \<open>Steps of the curl manager that the invariant does not see\<close>

definition keeps :: "curl_loop \<Rightarrow> curl_loop \<Rightarrow> bool" where
  "keeps W W' \<longleftrightarrow> reqs W' = reqs W \<and> active_requests (mgr W') = active_requests (mgr W) \<and> next_easy W' = next_easy W
     \<and> (ctx_ok (ctxt W) (reqs W) \<longrightarrow> ctx_ok (ctxt W') (reqs W))"

lemma keeps_refl [simp]: "keeps W W" by (simp add: keeps_def)

lemma keeps_trans [trans]: "keeps W W1 \<Longrightarrow> keeps W1 W2 \<Longrightarrow> keeps W W2"
  by (simp add: keeps_def)

lemma keeps_inv: "keeps W W' \<Longrightarrow> curl_inv W \<Longrightarrow> curl_inv W'"
  by (simp add: keeps_def curl_inv_def)

lemma keeps_reqs: "keeps W W' \<Longrightarrow> reqs W' = reqs W" by (simp add: keeps_def)

lemma keeps_ctxt: "ctxt W' = ctxt W \<Longrightarrow> reqs W' = reqs W \<Longrightarrow> active_requests (mgr W') = active_requests (mgr W)
    \<Longrightarrow> next_easy W' = next_easy W \<Longrightarrow> keeps W W'"
  by (simp add: keeps_def)

lemma reqs_frame [simp]:
  "reqs (W\<lparr>cl := L\<rparr>) = reqs W" "reqs (W\<lparr>mgr := m\<rparr>) = reqs W" "reqs (W\<lparr>allocs := n\<rparr>) = reqs W"
  "reqs (W\<lparr>next_easy := n\<rparr>) = reqs W"
  by (simp_all add: reqs_def fun_eq_iff)

lemma keeps_requests:
  "(\<And>q. rq_conn (f q) = rq_conn q) \<Longrightarrow> keeps W (W\<lparr>requests := (requests W)(h := map_option f (requests W h))\<rparr>)"
  by (rule keeps_ctxt) (auto simp: reqs_def fun_eq_iff option.map_comp comp_def)

lemma keeps_plain [intro]: "plain f \<Longrightarrow> keeps W (cl_conn i f W)"
  by (simp add: keeps_def cl_conn_def with_conn_def ctx_ok_plain)

lemma keeps_ring: "cl_ring f W = (rc, W') \<Longrightarrow> keeps W W'"
  by (rule keeps_ctxt) (auto simp: cl_ring_def split: prod.splits)

lemma keeps_ring_snd [simp]: "keeps W (snd (cl_ring f W))"
  by (rule keeps_ring [of f _ "fst (cl_ring f W)"]) simp

lemma keeps_submit [simp]: "keeps W (cl_submit W)"
  by (simp add: cl_submit_def)

lemma keeps_heap: "next_heap W = (h, W') \<Longrightarrow> keeps W W'"
  by (rule keeps_ctxt) (auto simp: next_heap_def)

lemma keeps_mgr [simp]: "active_requests m = active_requests (mgr W) \<Longrightarrow> keeps W (W\<lparr>mgr := m\<rparr>)"
  by (rule keeps_ctxt) simp_all

lemma keeps_set_socket [simp]: "keeps W (set_socket fd f W)"
  by (simp add: set_socket_def)

lemma keeps_dirty: "reqs W h = Some i \<Longrightarrow> keeps W (cl_dirty i W)"
  using ctx_ok_mark [of "ctxt W" "reqs W" i] unfolding keeps_def cl_dirty_def by (auto simp: ctx_ok_def)

lemma request_live:
  assumes "ctx_ok (ctxt W) (reqs W)" "reqs W h = Some i"
  shows "i < length (connections (ctxt W))" "curl_easy (conn (cl W) i) = Some h"
    "state (conn (cl W) i) \<in> {CONN_STATE_CURL_PENDING, CONN_STATE_CURL_ACTIVE}"
proof -
  show n: "i < length (connections (ctxt W))" and e: "curl_easy (conn (cl W) i) = Some h"
    using assms unfolding ctx_ok_def by blast+
  have "conn_ok (reqs W) i (conn (cl W) i)" using assms(1) n unfolding ctx_ok_def by blast
  then show "state (conn (cl W) i) \<in> {CONN_STATE_CURL_PENDING, CONN_STATE_CURL_ACTIVE}"
    using e unfolding conn_ok_def by blast
qed

lemma keeps_active:
  assumes "reqs W h = Some i"
  shows "keeps W (cl_conn i (state_update (\<lambda>_. CONN_STATE_CURL_ACTIVE)) W)"
proof -
  have "ctx_ok (upd_conn i (state_update (\<lambda>_. CONN_STATE_CURL_ACTIVE)) (ctxt W)) (reqs W)"
    if ok: "ctx_ok (ctxt W) (reqs W)"
  proof (rule ctx_ok_upd [OF ok])
    show "state (conn (cl W) i) \<noteq> CONN_STATE_UNUSED" using request_live(3) [OF ok assms] by auto
  qed (simp_all add: conn_ok_def buf_ok_def cong: option.case_cong)
  then show ?thesis by (simp add: keeps_def cl_conn_def with_conn_def)
qed

lemma socket_capacity_keeps: "ensure_socket_capacity fd W = (rc, W') \<Longrightarrow> keeps W W'"
  by (auto simp: ensure_socket_capacity_def Let_def intro: keeps_heap keeps_trans [OF keeps_heap keeps_mgr]
      split: if_splits prod.splits)

lemma socket_callback_keeps: "keeps W (socket_callback fd what W)"
proof -
  obtain rc W1 where c: "ensure_socket_capacity fd W = (rc, W1)" by fastforce
  define info where "info = sockets (mgr W1) ! nat fd"
  define m where "m = poll_mask_of what"
  define W2 where "W2 = (if poll_active info \<and> (m \<noteq> poll_mask info \<or> what = CURL_POLL_REMOVE)
      then set_socket fd (poll_active_update (\<lambda>_. False)) (snd (cl_ring (ring_submit_poll_cancel fd) W1)) else W1)"
  obtain rc2 W' where a: "cl_ring (ring_submit_poll_add fd m) W2 = (rc2, W')" by fastforce
  define W3 where "W3 = (if m \<noteq> 0 \<and> what \<noteq> CURL_POLL_REMOVE
      then cl_submit (if rc2 = 0 then set_socket fd (\<lambda>_. \<lparr>sockfd = fd, poll_mask = m, poll_active = True\<rparr>) W' else W')
      else W2)"
  have s: "socket_callback fd what W =
      (if rc < 0 then W1 else if what = CURL_POLL_REMOVE then set_socket fd (\<lambda>_. no_socket) W3 else W3)"
    unfolding socket_callback_def c prod.case Let_def m_def [symmetric] info_def [symmetric] W2_def [symmetric] a
      W3_def [symmetric] ..
  have k1: "keeps W W1" by (rule socket_capacity_keeps [OF c])
  have k2: "keeps W1 W2"
    unfolding W2_def by (simp add: keeps_trans [OF keeps_ring_snd keeps_set_socket])
  have "keeps W2 W'" by (rule keeps_ring [OF a])
  then have "keeps W2 W3"
    unfolding W3_def using keeps_trans [OF keeps_set_socket keeps_submit] keeps_submit keeps_trans by (auto intro: keeps_trans)
  with k1 k2 have "keeps W W3" by (meson keeps_trans)
  then show ?thesis unfolding s using k1 by (auto intro: keeps_trans [OF _ keeps_set_socket])
qed

lemma timer_callback_keeps: "keeps W (timer_callback ms W)"
proof -
  define W1 where "W1 = (if timer_active (mgr W)
      then (snd (cl_ring (ring_cancel_curl_timeout (timer_id (mgr W))) W))\<lparr>mgr := (mgr W)\<lparr>timer_active := False\<rparr>\<rparr> else W)"
  have k1: "keeps W W1"
    unfolding W1_def by (auto simp: keeps_def cl_ring_def split: prod.split)
  have g: "keeps W (case cl_ring f (W1\<lparr>mgr := (mgr W1)\<lparr>timer_id := t\<rparr>\<rparr>) of (rc, W3) \<Rightarrow>
      cl_submit (if rc = 0 then W3\<lparr>mgr := (mgr W3)\<lparr>timer_active := True\<rparr>\<rparr> else W3))" for f t
  proof -
    obtain rc W3 where r: "cl_ring f (W1\<lparr>mgr := (mgr W1)\<lparr>timer_id := t\<rparr>\<rparr>) = (rc, W3)" by fastforce
    have "keeps W1 (W1\<lparr>mgr := (mgr W1)\<lparr>timer_id := t\<rparr>\<rparr>)" by simp
    with k1 keeps_ring [OF r] have "keeps W W3" by (meson keeps_trans)
    moreover have "keeps W3 (W3\<lparr>mgr := (mgr W3)\<lparr>timer_active := True\<rparr>\<rparr>)" by simp
    ultimately show ?thesis unfolding r by (simp, meson keeps_submit keeps_trans)
  qed
  show ?thesis unfolding timer_callback_def W1_def [symmetric] Let_def using k1 g by simp
qed

end
