(* ===== verification/Curl_Steps.thy ===== *)
theory Curl_Steps
  imports Curl_Inv
begin

text \<open>
  Every operation of the curl manager and every handler of the curl mode keeps the invariant of
  \<open>Curl_Inv\<close>: the callbacks, the start, the end and the cancelling of requests, the freeing of
  connections, and the flush.
\<close>

section \<open>Data for the client\<close>

lemma plain_fields [simp]:
  "plain (\<lambda>c. c\<lparr>async_write_buf := w\<rparr>)" "plain (\<lambda>c. c\<lparr>bytes_sent := bytes_sent c + k, async_write_buf := w\<rparr>)"
  "plain (\<lambda>c. c\<lparr>sse_line_cap := n\<rparr>)" "plain (\<lambda>c. c\<lparr>sse_line_cap := n, sse_line_buf := b, sse_line_len := l\<rparr>)"
  "plain (\<lambda>c. c\<lparr>sse_line_buf := b, sse_line_len := l\<rparr>)" "plain (handoff_len_update g)"
  by (simp_all add: plain_def)

lemma ensure_write_buf_keeps: "ensure_write_buf i W = (ok, W') \<Longrightarrow> keeps W W'"
  by (auto simp: ensure_write_buf_def split: if_splits prod.splits option.splits
      intro: keeps_heap keeps_trans [OF keeps_heap keeps_plain])

lemma append_write_buf_keeps: "append_write_buf i d W = (ok, W') \<Longrightarrow> keeps W W'"
  by (auto simp: append_write_buf_def split: option.splits prod.splits intro: keeps_trans [OF keeps_heap keeps_plain])

lemma try_immediate_write_keeps: "keeps W (try_immediate_write i W)"
proof (cases "async_write_buf (conn (cl W) i)")
  case None
  then show ?thesis by (simp add: try_immediate_write_def)
next
  case (Some wb)
  have "keeps W (case cl_ring f W of (rc, W1) \<Rightarrow> if rc < 0 then W1
      else let W2 = snd (cl_ring (g W1) W1) in cl_submit (cl_conn i (\<lambda>c. c\<lparr>async_write_buf := w\<rparr>) W2))" for f g w
  proof -
    obtain rc W1 where r: "cl_ring f W = (rc, W1)" by fastforce
    have "keeps W1 (snd (cl_ring (g W1) W1))" by simp
    also have "keeps \<dots> (cl_conn i (\<lambda>c. c\<lparr>async_write_buf := w\<rparr>) (snd (cl_ring (g W1) W1)))" by (rule keeps_plain) simp
    also have "keeps \<dots> (cl_submit \<dots>)" by simp
    finally show ?thesis using keeps_ring [OF r] unfolding r by (auto simp: Let_def intro: keeps_trans)
  qed
  then show ?thesis using Some by (simp add: try_immediate_write_def split: option.split)
qed

lemma sse_line_keeps:
  assumes "process_sse_line h i line W = (ok, W')" "reqs W h = Some i"
  shows "keeps W W'"
proof (cases "sse_line_content line")
  case None
  then show ?thesis using assms(1) by (simp add: process_sse_line_def)
next
  case (Some content)
  obtain ok1 W1 where e: "ensure_write_buf i W = (ok1, W1)" by fastforce
  obtain ok2 W2 where a: "append_write_buf i (event_of content) W1 = (ok2, W2)" by fastforce
  have k1: "keeps W W1" by (rule ensure_write_buf_keeps [OF e])
  have k2: "keeps W W2" by (rule keeps_trans [OF k1 append_write_buf_keeps [OF a]])
  then have "reqs W2 h = Some i" using assms(2) by (simp add: keeps_reqs)
  from keeps_trans [OF keeps_trans [OF k2 keeps_dirty [OF this]] try_immediate_write_keeps]
  have k3: "keeps W (try_immediate_write i (cl_dirty i W2))" .
  then have "keeps W ((try_immediate_write i (cl_dirty i W2))\<lparr>requests :=
      (requests (try_immediate_write i (cl_dirty i W2)))(h := map_option (rq_chunk_count_update Suc)
         (requests (try_immediate_write i (cl_dirty i W2)) h))\<rparr>)"
    by (rule keeps_trans) (rule keeps_requests, simp)
  then show ?thesis
    using assms(1) Some e a k1 k2 by (auto simp: process_sse_line_def format_8192 Let_def split: if_splits)
qed

lemma process_lines_invariant:
  assumes h: "\<And>line st ok st'. h line st = Some (ok, st') \<Longrightarrow> P st \<Longrightarrow> R st st' \<and> P st'"
    and R: "\<And>st. R st st" "\<And>a b c. R a b \<Longrightarrow> R b c \<Longrightarrow> R a c"
    and p: "process_lines h before s st = Some (ok, b, st')" "P st"
  shows "R st st' \<and> P st'"
proof -
  have "R st st' \<and> P st'" if "run_lines h ls st = Some (ok, st')" "P st" for ls st
    using that
  proof (induction ls arbitrary: st)
    case Nil
    then show ?case using R(1) by simp
  next
    case (Cons l ls)
    then obtain ok1 st1 where s: "h l st = Some (ok1, st1)"
      and rest: "if ok1 then run_lines h ls st1 = Some (ok, st') else st' = st1"
      by (auto split: option.splits if_splits)
    with h [OF s Cons.prems(2)] Cons.IH [of st1] R(2) show ?case by (cases ok1) auto
  qed
  with process_lines_cases(1) [OF p(1)] p(2) show ?thesis by blast
qed

lemma queue_headers_keeps:
  assumes "queue_headers h i W = (ok, W')" "reqs W h = Some i"
  shows "keeps W W'"
proof -
  obtain ok1 W1 where e: "ensure_write_buf i W = (ok1, W1)" by fastforce
  obtain ok2 W2 where a: "append_write_buf i SSE_HEADERS W1 = (ok2, W2)" by fastforce
  define W3 where "W3 = W2\<lparr>requests := (requests W2)(h := map_option (rq_headers_sent_update (\<lambda>_. True)) (requests W2 h))\<rparr>"
  have k1: "keeps W W1" by (rule ensure_write_buf_keeps [OF e])
  have k2: "keeps W W2" by (rule keeps_trans [OF k1 append_write_buf_keeps [OF a]])
  have k3: "keeps W W3" unfolding W3_def by (rule keeps_trans [OF k2]) (rule keeps_requests, simp)
  then have k4: "keeps W (cl_dirty i W3)" using assms(2) keeps_dirty [of W3 h i] by (auto simp: keeps_reqs intro: keeps_trans)
  then have "keeps W (cl_conn i (state_update (\<lambda>_. CONN_STATE_CURL_ACTIVE)) (cl_dirty i W3))"
    using assms(2) keeps_active [of "cl_dirty i W3" h i] by (auto simp: keeps_reqs intro: keeps_trans)
  then have "keeps W (try_immediate_write i (cl_conn i (state_update (\<lambda>_. CONN_STATE_CURL_ACTIVE)) (cl_dirty i W3)))"
    using try_immediate_write_keeps keeps_trans by blast
  then show ?thesis using assms(1) e a k1 k2
    by (auto simp: queue_headers_def W3_def [symmetric] split: if_splits)
qed

lemma line_buf_keeps:
  "ensure_line_buf i W = (ok, W') \<Longrightarrow> keeps W W'"
  "grow_line_buf i n W = (ok, W') \<Longrightarrow> keeps W W'"
  "keeps W (set_line i b W)"
  by (auto simp: ensure_line_buf_def grow_line_buf_def set_line_def Let_def split: if_splits prod.splits
      intro: keeps_heap keeps_trans [OF keeps_heap keeps_plain])

lemma write_callback_keeps:
  assumes w: "curl_write_callback h rq ptr W = Some (n, W')" and r: "reqs W h = Some (rq_conn rq)"
  shows "keeps W W'"
proof -
  let ?i = "rq_conn rq"
  obtain ok1 W1 where h: "(if \<not> rq_headers_sent rq then queue_headers h ?i W else (True, W)) = (ok1, W1)" by fastforce
  obtain ok2 W2 where l: "ensure_line_buf ?i W1 = (ok2, W2)" by fastforce
  obtain ok3 W3 where g: "grow_line_buf ?i (length ptr) W2 = (ok3, W3)" by fastforce
  have k1: "keeps W W1" using h queue_headers_keeps [OF _ r] by (auto split: if_splits)
  have k2: "keeps W W2" by (rule keeps_trans [OF k1 line_buf_keeps(1) [OF l]])
  have k3: "keeps W W3" by (rule keeps_trans [OF k2 line_buf_keeps(2) [OF g]])
  define W4 where "W4 = set_line ?i (the (sse_line_buf (conn (cl W3) ?i)) @ ptr) W3"
  have k4: "keeps W W4" unfolding W4_def by (rule keeps_trans [OF k3 line_buf_keeps(3)])
  then have r4: "reqs W4 h = Some ?i" using r by (simp add: keeps_reqs)
  show ?thesis
  proof (cases "ok1 \<and> ok2 \<and> ok3")
    case False
    then have "W' \<in> {W1, W2, W3}" using w h l g by (auto simp: curl_write_callback_def Let_def split: if_splits)
    then show ?thesis using k1 k2 k3 by auto
  next
    case True
    let ?h = "\<lambda>line W. Some (process_sse_line h ?i line W)"
    obtain ok4 b W5 where p: "process_lines ?h [] (the (sse_line_buf (conn (cl W4) ?i))) W4 = Some (ok4, b, W5)"
      and W': "W' = (if ok4 then try_immediate_write ?i (set_line ?i b W5) else set_line ?i b W5)"
      using w h l g True by (auto simp: curl_write_callback_def W4_def [symmetric] Let_def bind_eq_Some_conv split: if_splits)
    have "keeps W4 W5 \<and> reqs W5 h = Some ?i"
      by (rule process_lines_invariant [where P = "\<lambda>W. reqs W h = Some ?i", OF _ keeps_refl keeps_trans p r4])
        (auto dest: sse_line_keeps simp: keeps_reqs)
    then have "keeps W (set_line ?i b W5)" using k4 line_buf_keeps(3) keeps_trans by blast
    then show ?thesis unfolding W' using try_immediate_write_keeps keeps_trans by auto
  qed
qed

lemma run_event_keeps: "run_event e W = Some W' \<Longrightarrow> keeps W W'"
proof (induction e W rule: run_event.induct)
  case (3 h ptr W)
  show ?case
  proof (cases "requests W h")
    case None
    then show ?thesis using 3 by simp
  next
    case (Some rq)
    show ?thesis
    proof (cases "rq_stopped rq")
      case True
      then show ?thesis using 3 Some by simp
    next
      case False
      then obtain n W1 where w: "curl_write_callback h rq ptr W = Some (n, W1)"
        and W': "W' = W1 \<or> W' = W1\<lparr>requests := (requests W1)(h := map_option (rq_stopped_update (\<lambda>_. True)) (requests W1 h))\<rparr>"
        using 3 Some by (auto simp: bind_eq_Some_conv split: if_splits)
      have "keeps W W1" by (rule write_callback_keeps [OF w]) (simp add: reqs_def Some)
      moreover have "keeps W1 (W1\<lparr>requests := (requests W1)(h := map_option (rq_stopped_update (\<lambda>_. True)) (requests W1 h))\<rparr>)"
        by (rule keeps_requests) simp
      ultimately show ?thesis using W' keeps_trans by blast
    qed
  qed
qed (auto intro: socket_callback_keeps timer_callback_keeps)

lemma run_events_keeps: "run_events es W = Some W' \<Longrightarrow> keeps W W'"
proof (induction es arbitrary: W)
  case (Cons e es)
  then obtain W1 where "run_event e W = Some W1" "run_events es W1 = Some W'" by (auto simp: bind_eq_Some_conv)
  then show ?case using run_event_keeps Cons.IH keeps_trans by blast
qed simp

text \<open>The callbacks return.\<close>

lemma run_lines_total: "(\<And>l st. \<exists>r. h l st = Some r) \<Longrightarrow> \<exists>r. run_lines h ls st = Some r"
proof (induction ls arbitrary: st)
  case (Cons l ls)
  obtain ok st1 where "h l st = Some (ok, st1)" using Cons.prems [of l st] by auto
  then show ?case using Cons.IH [OF Cons.prems] by (cases ok) auto
qed auto

lemma process_lines_total: "(\<And>l st. \<exists>r. h l st = Some r) \<Longrightarrow> \<exists>r. process_lines h before s st = Some r"
  using process_lines_run [of h before s st] run_lines_total [of h "fst (chop_lines s)" st]
  by (cases "process_lines h before s st") auto

lemma write_callback_total: "\<exists>n W'. curl_write_callback h rq ptr W = Some (n, W')"
proof -
  let ?i = "rq_conn rq"
  obtain ok1 W1 where h: "(if \<not> rq_headers_sent rq then queue_headers h ?i W else (True, W)) = (ok1, W1)" by fastforce
  obtain ok2 W2 where l: "ensure_line_buf ?i W1 = (ok2, W2)" by fastforce
  obtain ok3 W3 where g: "grow_line_buf ?i (length ptr) W2 = (ok3, W3)" by fastforce
  let ?W4 = "set_line ?i (the (sse_line_buf (conn (cl W3) ?i)) @ ptr) W3"
  have "\<exists>r. process_lines (\<lambda>line W. Some (process_sse_line h ?i line W)) []
      (the (sse_line_buf (conn (cl ?W4) ?i))) ?W4 = Some r"
    by (rule process_lines_total) simp
  then obtain ok4 buf W5 where p: "process_lines (\<lambda>line W. Some (process_sse_line h ?i line W)) []
      (the (sse_line_buf (conn (cl ?W4) ?i))) ?W4 = Some (ok4, buf, W5)"
    by (metis prod_cases3)
  show ?thesis unfolding curl_write_callback_def Let_def h prod.case l g
    by (cases "ok1 \<and> ok2 \<and> ok3"; cases ok4) (auto simp: p)
qed

lemma run_event_total: "\<exists>W'. run_event e W = Some W'"
proof (cases e)
  case (Write_cb h ptr)
  then show ?thesis
  proof (cases "requests W h")
    case (Some rq)
    obtain n W1 where "curl_write_callback h rq ptr W = Some (n, W1)" using write_callback_total by blast
    then show ?thesis using Write_cb Some by simp
  qed simp
qed simp_all

lemma run_events_total: "\<exists>W'. run_events es W = Some W'"
proof (induction es arbitrary: W)
  case (Cons e es)
  obtain W1 where "run_event e W = Some W1" using run_event_total by blast
  then show ?case using Cons.IH by simp
qed simp

section \<open>Requests\<close>

lemma ctx_ok_change:
  assumes ok: "ctx_ok ctx rqs" and use: "state (conn_at ctx i) \<noteq> CONN_STATE_UNUSED" and i: "i < length (connections ctx)"
    and f: "\<And>c. conn_id (f c) = conn_id c" "\<And>c. next_free (f c) = next_free c"
      "\<And>c. dirty_next (f c) = dirty_next c" "\<And>c. on_dirty_list (f c) = on_dirty_list c"
    and b: "buf_ok (conn_at ctx i) \<Longrightarrow> buf_ok (f (conn_at ctx i))"
    and self: "conn_ok rqs' i (f (conn_at ctx i))"
    and other: "\<And>j. j < length (connections ctx) \<Longrightarrow> j \<noteq> i \<Longrightarrow> conn_ok rqs j (conn_at ctx j)
      \<Longrightarrow> conn_ok rqs' j (conn_at ctx j)"
    and reqs: "\<And>h. rqs' h = Some i \<Longrightarrow> curl_easy (f (conn_at ctx i)) = Some h"
      "\<And>h j. j \<noteq> i \<Longrightarrow> rqs' h = Some j \<Longrightarrow> rqs h = Some j"
  shows "ctx_ok (upd_conn i f ctx) rqs'"
proof -
  obtain fs ds where p: "pool_ok ctx fs" and d: "dirty_ok ctx ds" using ok by (auto simp: ctx_ok_def)
  have "pool_ok (upd_conn i f ctx) fs" by (rule pool_ok_upd [OF p pool_in_use [OF p use] f(1,2) b])
  moreover have "dirty_ok (upd_conn i f ctx) ds" by (rule dirty_ok_upd [OF d f(3,4)])
  moreover have at: "conn_at (upd_conn i f ctx) j = (if j = i then f (conn_at ctx i) else conn_at ctx j)" for j
    using i by (cases "j = i") auto
  moreover have "conn_ok rqs' j (conn_at (upd_conn i f ctx) j)" if "j < length (connections ctx)" for j
    using self other [OF that] ok that unfolding ctx_ok_def by (cases "j = i") (auto simp: at)
  moreover have "j < length (connections ctx) \<and> curl_easy (conn_at (upd_conn i f ctx) j) = Some h" if "rqs' h = Some j" for h j
    using reqs [of h] reqs(2) [of j h] that ok i unfolding ctx_ok_def at by (cases "j = i") auto
  moreover have "use_curl_multi (upd_conn i f ctx) = use_curl_multi ctx" by (simp add: upd_conn_def)
  ultimately show ?thesis using ok by (simp add: ctx_ok_def) blast
qed

text \<open>A request ends: the connection is left in the state \<open>st\<close> without one.\<close>

lemma ctx_ok_release:
  assumes ok: "ctx_ok ctx rqs" and h: "rqs h = Some i"
    and f: "\<And>c. conn_id (f c) = conn_id c" "\<And>c. next_free (f c) = next_free c"
      "\<And>c. dirty_next (f c) = dirty_next c" "\<And>c. on_dirty_list (f c) = on_dirty_list c"
      "\<And>c. handoff_buf (f c) = handoff_buf c" "\<And>c. handoff_cap (f c) = handoff_cap c"
      "\<And>c. curl_easy (f c) = None" "\<And>c. write_buf (f c) = write_buf c"
      "state (f (conn_at ctx i)) \<noteq> CONN_STATE_STREAMING"
  shows "ctx_ok (upd_conn i f ctx) (rqs(h := None))"
proof -
  have i: "i < length (connections ctx)" "curl_easy (conn_at ctx i) = Some h" using ok h unfolding ctx_ok_def by blast+
  then have c: "conn_ok rqs i (conn_at ctx i)" using ok unfolding ctx_ok_def by blast
  show ?thesis
  proof (rule ctx_ok_change [OF ok _ i(1)])
    show "state (conn_at ctx i) \<noteq> CONN_STATE_UNUSED" using c i by (auto simp: conn_ok_def)
    show "buf_ok (conn_at ctx i) \<Longrightarrow> buf_ok (f (conn_at ctx i))" by (simp add: buf_ok_def f cong: option.case_cong)
    show "conn_ok (rqs(h := None)) i (f (conn_at ctx i))" using c f by (simp add: conn_ok_def)
    show "conn_ok (rqs(h := None)) j (conn_at ctx j)" if "j \<noteq> i" "conn_ok rqs j (conn_at ctx j)" for j
      using that h by (auto simp: conn_ok_def)
    show "curl_easy (f (conn_at ctx i)) = Some k" if "(rqs(h := None)) k = Some i" for k
      using that ok i(2) unfolding ctx_ok_def by (auto split: if_splits)
  qed (auto simp: f split: if_splits)
qed

lemma counted_release: "counted rqs n e \<Longrightarrow> rqs h = Some i \<Longrightarrow> counted (rqs(h := None)) (n - 1) e"
proof -
  assume c: "counted rqs n e" and h: "rqs h = Some i"
  have "dom (rqs(h := None)) = dom rqs - {h}" by auto
  moreover have "h \<in> dom rqs" using h by blast
  then have "card (dom rqs) = Suc (card (dom rqs - {h}))"
    using c by (metis card.remove counted_def)
  ultimately show ?thesis using c by (simp add: counted_def)
qed

lemma reqs_drop: "reqs (drop_request h i W) = (reqs W)(h := None)"
  by (simp add: drop_request_def cl_conn_def) (auto simp: reqs_def)

lemma release_inv:
  assumes inv: "curl_inv W" and h: "reqs W h = Some i"
    and W': "ctxt W' = upd_conn i f (ctxt W)" "reqs W' = (reqs W)(h := None)"
      "active_requests (mgr W') = active_requests (mgr W) - 1" "next_easy W' = next_easy W"
    and f: "\<And>c. conn_id (f c) = conn_id c" "\<And>c. next_free (f c) = next_free c"
      "\<And>c. dirty_next (f c) = dirty_next c" "\<And>c. on_dirty_list (f c) = on_dirty_list c"
      "\<And>c. handoff_buf (f c) = handoff_buf c" "\<And>c. handoff_cap (f c) = handoff_cap c"
      "\<And>c. curl_easy (f c) = None" "\<And>c. write_buf (f c) = write_buf c"
      "state (f (conn (cl W) i)) \<noteq> CONN_STATE_STREAMING"
  shows "curl_inv W'"
  using inv ctx_ok_release [of "ctxt W" "reqs W" h i f, OF _ h f] counted_release [of "reqs W" _ _ h i, OF _ h]
  unfolding curl_inv_def W' by blast

lemma upd_conn_twice: "upd_conn i f (upd_conn i g ctx) = upd_conn i (\<lambda>c. f (g c)) ctx"
  by (cases "i < length (connections ctx)") (simp_all add: upd_conn_def list_update_beyond)

lemma complete_request_inv:
  assumes "curl_inv W"
  shows "curl_inv (complete_request msg W)"
proof (cases "requests W (m_easy msg)")
  case None
  then show ?thesis using assms by (simp add: complete_request_def)
next
  case (Some rq)
  let ?i = "rq_conn rq" and ?h = "m_easy msg"
  define W1 where "W1 = (if (m_ok msg \<and> (m_code msg = 200 \<or> rq_headers_sent rq)) \<and> rq_headers_sent rq
        \<and> async_write_buf (conn (cl W) ?i) \<noteq> None
      then (case append_write_buf ?i SSE_DONE W of (ok, W') \<Rightarrow> if ok then cl_dirty ?i W' else W') else W)"
  have r: "reqs W ?h = Some ?i" by (simp add: reqs_def Some)
  have "keeps W W1"
  proof -
    obtain ok W' where a: "append_write_buf ?i SSE_DONE W = (ok, W')" by fastforce
    have k: "keeps W W'" by (rule append_write_buf_keeps [OF a])
    then have "reqs W' ?h = Some ?i" using r by (simp add: keeps_reqs)
    from keeps_trans [OF k keeps_dirty [OF this]] k show ?thesis unfolding W1_def a by simp
  qed
  then have inv1: "curl_inv W1" and r1: "reqs W1 ?h = Some ?i" using assms r keeps_inv by (auto simp: keeps_reqs)
  have c: "complete_request msg W = drop_request ?h ?i (cl_conn ?i (state_update (\<lambda>_. CONN_STATE_CLOSING)) W1)"
    using Some by (simp add: complete_request_def W1_def Let_def)
  show ?thesis unfolding c
    by (rule release_inv [OF inv1 r1, where f = "\<lambda>c. c\<lparr>state := CONN_STATE_CLOSING, curl_easy := None\<rparr>"])
      (simp_all add: reqs_drop, simp_all add: drop_request_def cl_conn_def with_conn_def upd_conn_twice)
qed

lemma check_completions_inv: "curl_inv W \<Longrightarrow> curl_inv (curl_manager_check_completions msgs W)"
  unfolding curl_manager_check_completions_def
  by (induction msgs arbitrary: W) (simp_all add: complete_request_inv)

text \<open>A request starts.\<close>

lemma ctx_ok_take:
  assumes ok: "ctx_ok ctx rqs" and i: "i < length (connections ctx)" "state (conn_at ctx i) \<noteq> CONN_STATE_UNUSED"
    "curl_easy (conn_at ctx i) = None" and h: "rqs h = None"
  shows "ctx_ok (upd_conn i (\<lambda>c. c\<lparr>curl_easy := Some h, state := CONN_STATE_CURL_PENDING\<rparr>) ctx) (rqs(h \<mapsto> i))"
proof (rule ctx_ok_change [OF ok i(2,1)])
  have "conn_ok rqs i (conn_at ctx i)" using ok i(1) unfolding ctx_ok_def by blast
  then show "conn_ok (rqs(h \<mapsto> i)) i ((conn_at ctx i)\<lparr>curl_easy := Some h, state := CONN_STATE_CURL_PENDING\<rparr>)"
    by (simp add: conn_ok_def)
  show "conn_ok (rqs(h \<mapsto> i)) j (conn_at ctx j)" if "conn_ok rqs j (conn_at ctx j)" for j
    using that h by (auto simp: conn_ok_def)
  have "\<not> rqs k = Some i" for k using ok i(3) unfolding ctx_ok_def by (metis option.distinct(1))
  then show "curl_easy ((conn_at ctx i)\<lparr>curl_easy := Some h, state := CONN_STATE_CURL_PENDING\<rparr>) = Some k"
    if "(rqs(h \<mapsto> i)) k = Some i" for k using that by (auto split: if_splits)
  show "rqs k = Some j" if "j \<noteq> i" "(rqs(h \<mapsto> i)) k = Some j" for k j using that by (auto split: if_splits)
qed (simp_all add: buf_ok_def cong: option.case_cong)

lemma counted_fresh: "counted rqs n e \<Longrightarrow> rqs e = None"
  by (auto simp: counted_def dom_def)

lemma counted_take: "counted rqs n e \<Longrightarrow> counted (rqs(e \<mapsto> i)) (n + 1) (e + 1)"
proof -
  assume c: "counted rqs n e"
  then have "e \<notin> dom rqs" using counted_fresh [OF c] by (simp add: domIff)
  then show ?thesis using c by (auto simp: counted_def less_Suc_eq)
qed

lemma counted_later: "counted rqs n e \<Longrightarrow> counted rqs n (e + 1)"
  by (auto simp: counted_def less_Suc_eq)

definition free_to_start :: "nat \<Rightarrow> curl_loop \<Rightarrow> bool" where
  \<comment> \<open>in use and without a request\<close>
  "free_to_start i W \<longleftrightarrow> i < length (connections (ctxt W)) \<and> state (conn (cl W) i) \<noteq> CONN_STATE_UNUSED
     \<and> curl_easy (conn (cl W) i) = None"

definition pending :: "nat \<Rightarrow> curl_loop \<Rightarrow> curl_loop" where
  \<comment> \<open>the connection has its easy handle\<close>
  "pending i W = cl_conn i (\<lambda>c. c\<lparr>curl_easy := Some (next_easy W), state := CONN_STATE_CURL_PENDING\<rparr>)
     (W\<lparr>next_easy := next_easy W + 1\<rparr>)"

definition with_request :: "curl_request \<Rightarrow> nat \<Rightarrow> curl_loop \<Rightarrow> curl_loop" where
  \<comment> \<open>and the handle was added\<close>
  "with_request rq i W = (pending i W)\<lparr>requests := (requests W)(next_easy W \<mapsto> rq),
     mgr := (mgr W)\<lparr>active_requests := active_requests (mgr W) + 1\<rparr>\<rparr>"

definition fresh_request :: "nat \<Rightarrow> curl_request \<Rightarrow> bool" where
  "fresh_request i rq \<longleftrightarrow> rq_conn rq = i \<and> \<not> rq_headers_sent rq \<and> \<not> rq_stopped rq"

lemma start_request_cases:
  assumes "curl_manager_start_request cfg a i W = Some (rc, W')"
  obtains "rc = -1" "W' = W" | "rc = -1" "W' = cl_conn i (curl_easy_update (\<lambda>_. None)) (pending i W)"
  | rq where "rc = 0" "fresh_request i rq" "run_events (s_kick a) (with_request rq i W) = Some W'"
proof (cases "api_key cfg = None \<or> \<not> s_req a \<or> \<not> s_easy a \<or> \<not> s_body a")
  case True
  then show ?thesis using assms that(1) by (auto simp: curl_manager_start_request_def split: option.splits)
next
  case False
  then obtain key where key: "api_key cfg = Some key" by auto
  define rq where "rq = \<lparr>rq_conn = i, rq_api = make_request cfg key (prompt_string (conn (cl W) i))
       (model_name (conn (cl W) i)) (max_tokens (hdata (conn (cl W) i))),
     rq_headers_sent = False, rq_chunk_count = 0, rq_stopped = False\<rparr>"
  have "fresh_request i rq" by (simp add: fresh_request_def rq_def)
  moreover have "curl_manager_start_request cfg a i W =
      (if \<not> s_add a then Some (-1, cl_conn i (curl_easy_update (\<lambda>_. None)) (pending i W))
       else map_option (Pair 0) (run_events (s_kick a) (with_request rq i W)))"
    using False key by (simp add: curl_manager_start_request_def with_request_def pending_def rq_def cl_conn_def Let_def)
  then have "(if \<not> s_add a then Some (-1, cl_conn i (curl_easy_update (\<lambda>_. None)) (pending i W))
       else map_option (Pair 0) (run_events (s_kick a) (with_request rq i W))) = Some (rc, W')" using assms by simp
  ultimately show ?thesis using that(2,3) by (auto split: if_splits)
qed

lemma with_request_inv:
  assumes inv: "curl_inv W" and i: "free_to_start i W" and rq: "fresh_request i rq"
  shows "curl_inv (with_request rq i W)"
proof -
  let ?h = "next_easy W" and ?W = "with_request rq i W"
  have ok: "ctx_ok (ctxt W) (reqs W)" and n: "counted (reqs W) (active_requests (mgr W)) ?h"
    using inv by (simp_all add: curl_inv_def)
  have c: "ctxt ?W = upd_conn i (\<lambda>c. c\<lparr>curl_easy := Some ?h, state := CONN_STATE_CURL_PENDING\<rparr>) (ctxt W)"
    by (simp add: with_request_def pending_def cl_conn_def with_conn_def)
  have r: "reqs ?W = (reqs W)(?h \<mapsto> i)" "active_requests (mgr ?W) = active_requests (mgr W) + 1" "next_easy ?W = ?h + 1"
    using rq by (auto simp: with_request_def pending_def cl_conn_def reqs_def fun_eq_iff fresh_request_def)
  show ?thesis
    using i ctx_ok_take [OF ok _ _ _ counted_fresh [OF n]] counted_take [OF n]
    unfolding curl_inv_def c r free_to_start_def by blast
qed

lemma start_request_inv:
  assumes inv: "curl_inv W" and i: "free_to_start i W"
    and s: "curl_manager_start_request cfg a i W = Some (rc, W')"
  shows "curl_inv W' \<and> (rc < 0 \<longrightarrow> free_to_start i W')"
  using s
proof (cases rule: start_request_cases)
  case 1
  then show ?thesis using inv i by simp
next
  case 2
  have ok: "ctx_ok (ctxt W) (reqs W)" and n: "counted (reqs W) (active_requests (mgr W)) (next_easy W)"
    using inv by (simp_all add: curl_inv_def)
  note i' = i [unfolded free_to_start_def]
  have c: "ctxt W' = upd_conn i (\<lambda>c. c\<lparr>state := CONN_STATE_CURL_PENDING, curl_easy := None\<rparr>) (ctxt W)"
    by (simp add: 2 pending_def cl_conn_def with_conn_def upd_conn_twice)
  have ci: "conn_ok (reqs W) i (conn (cl W) i)" using ok i' unfolding ctx_ok_def by blast
  have "ctx_ok (ctxt W') (reqs W)"
    unfolding c by (rule ctx_ok_upd [OF ok]) (use i' ci in \<open>simp_all add: conn_ok_def buf_ok_def cong: option.case_cong\<close>)
  moreover have "reqs W' = reqs W" "active_requests (mgr W') = active_requests (mgr W)" "next_easy W' = next_easy W + 1"
    by (simp_all add: 2 pending_def cl_conn_def reqs_def [abs_def])
  ultimately show ?thesis using i' counted_later [OF n] by (simp add: curl_inv_def free_to_start_def c)
next
  case (3 rq)
  then show ?thesis using run_events_keeps [OF 3(3)] keeps_inv with_request_inv [OF inv i 3(2)] by simp
qed

section \<open>Freeing a connection\<close>

lemma unlink_same: "same_conns ctx (dirty_unlink i prev ctx)"
proof -
  have "same_conns ctx (c\<lparr>dirty_tail := v\<rparr>)" if "same_conns ctx c" for c v
    by (rule same_conns_trans [OF that same_conns_dirty(4)])
  then show ?thesis unfolding dirty_unlink_def Let_def by (simp add: same_conns_dirty split: option.split)
qed

lemma clear_same: "same_conns ctx (clear_dirty i ctx)"
  by (simp add: clear_dirty_def same_conns_dirty)

lemma unmark_same: "daemon_unmark_connection_dirty i ctx = Some ctx' \<Longrightarrow> same_conns ctx ctx'"
  by (auto simp: daemon_unmark_connection_dirty_def bind_eq_Some_conv clear_same
      intro: same_conns_trans [OF unlink_same clear_same] split: if_splits option.splits)

lemma free_dirty_ok:
  assumes d: "dirty_ok ctx ds" and i: "i < length (connections ctx)" "i \<notin> set ds"
  shows "dirty_ok (conn_free i ctx) ds"
proof -
  have link: "dirty_link (conn_free i ctx) = (dirty_link ctx)(i := None)"
    using conn_free_at [OF i(1)] by (auto simp: fun_eq_iff)
  have "on_dirty_list (conn_at (conn_free i ctx) j) = (j \<in> set ds)" if "j < length (connections ctx)" for j
    using conn_free_at [OF i(1)] d i that by (cases "j = i") (auto simp: dirty_ok_def)
  moreover have "chain (dirty_link (conn_free i ctx)) (dirty_head ctx) ds"
    using d i by (simp add: link chain_fun_upd dirty_ok_def)
  ultimately show ?thesis using d by (simp add: dirty_ok_def)
qed

lemma reset_blank: "curl_easy (conn_reset c) = None" "write_buf (conn_reset c) = None"
  by (simp_all add: conn_reset_def)

lemma ctx_ok_cleanup:
  assumes ok: "ctx_ok (dctx L) rqs" and i: "i < length (connections (dctx L))"
    "state (conn L i) \<noteq> CONN_STATE_UNUSED" "curl_easy (conn L i) = None"
  shows "\<exists>L'. cleanup_connection i L = Some L' \<and> ctx_ok (dctx L') rqs
    \<and> (\<forall>j. j \<noteq> i \<longrightarrow> state (conn L' j) = state (conn L j) \<and> async_write_buf (conn L' j) = async_write_buf (conn L j))
    \<and> async_write_buf (conn L' i) = None"
proof -
  obtain fs ds where p: "pool_ok (dctx L) fs" and d: "dirty_ok (dctx L) ds" using ok by (auto simp: ctx_ok_def)
  obtain ctx1 where u: "daemon_unmark_connection_dirty i (dctx L) = Some ctx1" and d1: "dirty_ok ctx1 (remove1 i ds)"
    using unmark_dirty_ok [OF d i(1)] by blast
  have p1: "pool_ok ctx1 fs" by (rule unmark_pool_ok [OF p u])
  note s = unmark_same [OF u, unfolded same_conns_def]
  have n1: "length (connections ctx1) = length (connections (dctx L))" "use_curl_multi ctx1 = use_curl_multi (dctx L)"
    using s by blast+
  have v: "curl_easy (conn_at ctx1 j) = curl_easy (conn L j)" "state (conn_at ctx1 j) = state (conn L j)"
    "write_buf (conn_at ctx1 j) = write_buf (conn L j)" "async_write_buf (conn_at ctx1 j) = async_write_buf (conn L j)" for j
    using s by blast+
  let ?c = "conn_free i ctx1"
  have i1: "i < length (connections ctx1)" "i \<notin> set fs" using i n1 pool_in_use [OF p i(2)] by auto
  have "distinct ds" using d by (simp add: dirty_ok_def)
  then have "i \<notin> set (remove1 i ds)" by simp
  then have "dirty_ok ?c (remove1 i ds)" using free_dirty_ok [OF d1 i1(1)] by blast
  moreover have "pool_ok ?c (i # fs)" by (rule conn_free_ok [OF p1 i1])
  moreover have at: "conn_at ?c j = (if j = i then (conn_reset (conn_at (conn_close_fds i ctx1) i))\<lparr>next_free := free_list ctx1\<rparr>
      else conn_at ctx1 j)" for j
    using conn_free_at [OF i1(1)] by (cases "j = i") auto
  moreover have "conn_ok rqs j (conn_at ?c j)" if "j < length (connections ctx1)" for j
  proof (cases "j = i")
    case False
    have "conn_ok rqs j (conn L j)" using ok that n1 unfolding ctx_ok_def by auto
    then show ?thesis using False by (simp add: at conn_ok_def v)
  qed (simp add: at conn_ok_def reset_blank)
  moreover have "j < length (connections ctx1) \<and> curl_easy (conn_at ?c j) = Some h" if "rqs h = Some j" for h j
  proof -
    have e: "j < length (connections (dctx L))" "curl_easy (conn L j) = Some h" using ok that unfolding ctx_ok_def by blast+
    then have "j \<noteq> i" using i(3) by auto
    then show ?thesis using e n1 by (simp add: at v)
  qed
  moreover have "use_curl_multi ?c = use_curl_multi (dctx L)"
    using n1(2) by (simp add: conn_free_def conn_close_fds_def close_fd_def upd_conn_def Let_def)
  ultimately have "ctx_ok ?c rqs" using ok unfolding ctx_ok_def by (simp, blast)
  then show ?thesis using u by (simp add: cleanup_connection_def at v)
qed

lemma cancel_and_cleanup_inv:
  assumes inv: "curl_inv W" and i: "i < length (connections (ctxt W))" "state (conn (cl W) i) \<noteq> CONN_STATE_UNUSED"
  shows "\<exists>W'. cancel_and_cleanup i W = Some W' \<and> curl_inv W' \<and> async_write_buf (conn (cl W') i) = None"
proof -
  define W1 where "W1 = (if use_curl_multi (ctxt W) \<and> curl_easy (conn (cl W) i) \<noteq> None
      then curl_manager_cancel_request i W else W)"
  have "curl_inv W1 \<and> free_to_start i W1"
  proof (cases "curl_easy (conn (cl W) i)")
    case None
    then show ?thesis using inv i by (simp add: W1_def free_to_start_def)
  next
    case (Some h)
    have "use_curl_multi (ctxt W)" "reqs W h = Some i"
      using inv i(1) Some unfolding curl_inv_def ctx_ok_def conn_ok_def by blast+
    moreover have "state (conn (cl W) i) \<noteq> CONN_STATE_STREAMING"
      using inv i(1) unfolding curl_inv_def ctx_ok_def conn_ok_def by blast
    moreover have W1: "W1 = drop_request h i W" using Some calculation by (simp add: W1_def curl_manager_cancel_request_def)
    ultimately have "curl_inv W1"
      unfolding W1 by (intro release_inv [OF inv, where f = "curl_easy_update (\<lambda>_. None)"])
        (simp_all add: reqs_drop, simp_all add: drop_request_def cl_conn_def with_conn_def)
    then show ?thesis using i by (simp add: W1 free_to_start_def drop_request_def cl_conn_def with_conn_def)
  qed
  then have inv1: "curl_inv W1" and f: "free_to_start i W1" by auto
  obtain L where L: "cleanup_connection i (cl W1) = Some L" "ctx_ok (dctx L) (reqs W1)" "async_write_buf (conn L i) = None"
    using ctx_ok_cleanup [of "cl W1" "reqs W1" i] inv1 f by (auto simp: curl_inv_def free_to_start_def)
  have c: "cancel_and_cleanup i W = Some (W1\<lparr>cl := L\<rparr>)"
    unfolding cancel_and_cleanup_def W1_def [symmetric] lift_loop_def using L(1) by simp
  have "curl_inv (W1\<lparr>cl := L\<rparr>)" using inv1 L(2) by (simp add: curl_inv_def)
  then show ?thesis using c L(3) by simp
qed

lemma curl_fail_inv:
  assumes inv: "curl_inv W" and i: "i < length (connections (ctxt W))" "state (conn (cl W) i) \<noteq> CONN_STATE_UNUSED"
  shows "\<exists>W'. curl_fail i W = Some W' \<and> curl_inv W' \<and> async_write_buf (conn (cl W') i) = None"
proof -
  have "curl_inv (on_loop count_failed W)" using inv by (simp add: on_loop_def curl_inv_def)
  moreover have "length (connections (dctx (count_failed (cl W)))) = length (connections (ctxt W))"
    by (simp add: count_failed_def)
  ultimately show ?thesis
    unfolding curl_fail_def using i by (intro cancel_and_cleanup_inv) (simp_all add: on_loop_def)
qed

end
