(* ===== verification/Curl_Flush.thy ===== *)
theory Curl_Flush
  imports Curl_Steps
begin

text \<open>
  The handlers of the curl mode keep the invariant, and the flush of the dirty list: it visits every
  connection once, and returns.
\<close>

section \<open>Starting a write\<close>

definition in_use_conn :: "nat \<Rightarrow> curl_loop \<Rightarrow> bool" where
  "in_use_conn i W \<longleftrightarrow> i < length (connections (ctxt W)) \<and> state (conn (cl W) i) \<noteq> CONN_STATE_UNUSED"

lemma fail_inv:
  "curl_inv W \<Longrightarrow> in_use_conn i W \<Longrightarrow> \<exists>W'. curl_fail i W = Some W' \<and> curl_inv W' \<and> async_write_buf (conn (cl W') i) = None"
  by (simp add: in_use_conn_def curl_fail_inv)

lemma cl_ring_ctxt: "cl_ring f W = (rc, W') \<Longrightarrow> ctxt W' = ctxt W"
  by (auto simp: cl_ring_def split: prod.splits)

lemma in_use_ctxt: "ctxt W' = ctxt W \<Longrightarrow> in_use_conn i W' = in_use_conn i W"
  by (simp add: in_use_conn_def)

text \<open>The connection is freed, or nothing is done, or the whole pending data is on its way.\<close>

lemma start_async_cases:
  assumes inv: "curl_inv W" and i: "in_use_conn i W"
  shows "\<exists>W'. curl_start_async_write i W = Some W' \<and> curl_inv W'
    \<and> (async_write_buf (conn (cl W') i) = None \<or> W' = W
       \<or> (\<exists>wb. async_write_buf (conn (cl W) i) = Some wb \<and> keeps W W' \<and> requests W' = requests W
            \<and> ctxt W' = upd_conn i (\<lambda>c. c\<lparr>async_write_buf := Some (write_buffer_set_pending True wb)\<rparr>) (ctxt W)))"
proof (cases "async_write_buf (conn (cl W) i)")
  case None
  then show ?thesis using inv by (simp add: curl_start_async_write_def)
next
  case (Some wb)
  show ?thesis
  proof (cases "write_buffer_has_data wb \<and> \<not> write_buffer_is_busy wb \<and> write_buffer_get_next wb \<noteq> None
      \<and> write_buffer_get_next wb \<noteq> Some []")
    case False
    then have "curl_start_async_write i W = Some W"
      using Some by (auto simp: curl_start_async_write_def split: option.split)
    then show ?thesis using inv by simp
  next
    case True
    then obtain data where d: "write_buffer_get_next wb = Some data" "data \<noteq> []" by auto
    obtain rc W1 where w: "cl_ring (ring_submit_write (conn (cl W) i) data) W = (rc, W1)" by fastforce
    obtain rc2 W2 where t: "cl_ring (ring_submit_linked_timeout (conn (cl W1) i) (write_timeout_ms (ctxt W1))) W1 = (rc2, W2)"
      by fastforce
    let ?W3 = "cl_submit (cl_conn i (\<lambda>c. c\<lparr>async_write_buf := Some (write_buffer_set_pending True wb)\<rparr>) W2)"
    have s: "curl_start_async_write i W = (if rc < 0 then curl_fail i W1 else if rc2 < 0 then curl_fail i W2 else Some ?W3)"
      using Some True d w t by (simp add: curl_start_async_write_def)
    have k1: "keeps W W1" by (rule keeps_ring [OF w])
    have k2: "keeps W W2" by (rule keeps_trans [OF k1 keeps_ring [OF t]])
    have c: "ctxt W1 = ctxt W" "ctxt W2 = ctxt W" using cl_ring_ctxt [OF w] cl_ring_ctxt [OF t] by simp_all
    have k3: "keeps W ?W3"
      by (rule keeps_trans [OF k2 keeps_trans [OF keeps_plain keeps_submit]]) simp
    have c3: "ctxt ?W3 = upd_conn i (\<lambda>c. c\<lparr>async_write_buf := Some (write_buffer_set_pending True wb)\<rparr>) (ctxt W)"
      by (simp add: cl_submit_def cl_ring_def cl_conn_def with_conn_def c)
    have r3: "requests ?W3 = requests W"
      using w t by (auto simp: cl_submit_def cl_ring_def cl_conn_def split: prod.splits)
    have i12: "curl_inv W1" "curl_inv W2" "in_use_conn i W1" "in_use_conn i W2"
      using keeps_inv [OF k1 inv] keeps_inv [OF k2 inv] in_use_ctxt [OF c(1)] in_use_ctxt [OF c(2)] i by simp_all
    show ?thesis
    proof (cases "rc < 0 \<or> rc2 < 0")
      case True
      then show ?thesis using fail_inv [OF i12(1,3)] fail_inv [OF i12(2,4)] unfolding s by (cases "rc < 0") auto
    next
      case False
      then have "curl_start_async_write i W = Some ?W3" unfolding s by simp
      then show ?thesis using keeps_inv [OF k3 inv] k3 c3 r3 Some by blast
    qed
  qed
qed

definition roomy :: "curl_loop \<Rightarrow> bool" where
  \<comment> \<open>two free entries, and submitting does not fail\<close>
  "roomy W \<longleftrightarrow> length (sq (lring (cl W))) + 2 \<le> sq_entries (lring (cl W)) \<and> (\<forall>k. submit_ok (lring (cl W)) k)"

lemma start_async_roomy:
  assumes r: "roomy W" and wb: "async_write_buf (conn (cl W) i) = Some wb" "wb_ok wb" "idle_data (conn (cl W) i)"
  shows "\<exists>W'. curl_start_async_write i W = Some W' \<and> roomy W' \<and> keeps W W'
    \<and> ctxt W' = upd_conn i (\<lambda>c. c\<lparr>async_write_buf := Some (write_buffer_set_pending True wb)\<rparr>) (ctxt W)"
proof -
  have h: "write_buffer_has_data wb" "\<not> write_buffer_is_busy wb" using wb by (simp_all add: idle_data_def)
  then obtain data where d: "write_buffer_get_next wb = Some data" "data \<noteq> []"
    using has_data_content [OF wb(2)] get_next_content [OF wb(2)] by auto
  let ?r = "lring (cl W)"
  have w: "cl_ring (ring_submit_write (conn (cl W) i) data) W = (0, W\<lparr>cl := (cl W)\<lparr>lring :=
      fill_sqe (Prep_write (client_fd (conn (cl W) i)) data) True OP_WRITE (of_nat (conn_id (conn (cl W) i))) ?r\<rparr>\<rparr>)"
    (is "_ = (0, ?W1)")
    using r by (simp add: cl_ring_def ring_submit_write_def with_flush_def ring_get_sqe_flush_def io_uring_get_sqe_def roomy_def)
  obtain rc2 W2 where t: "cl_ring (ring_submit_linked_timeout (conn (cl ?W1) i) (write_timeout_ms (ctxt ?W1))) ?W1 = (rc2, W2)"
    by fastforce
  then have t2: "rc2 = 0" "sq_entries (lring (cl W2)) = sq_entries ?r" "submit_ok (lring (cl W2)) = submit_ok ?r"
    using r by (auto simp: cl_ring_def ring_submit_linked_timeout_def io_uring_get_sqe_def fill_sqe_def roomy_def)
  let ?W3 = "cl_submit (cl_conn i (\<lambda>c. c\<lparr>async_write_buf := Some (write_buffer_set_pending True wb)\<rparr>) W2)"
  have "curl_start_async_write i W = Some ?W3"
    using wb(1) h d w t t2(1) by (simp add: curl_start_async_write_def)
  moreover have "roomy ?W3"
    using r t2 by (auto simp: cl_submit_def cl_ring_def cl_conn_def with_conn_def ring_submit_def io_uring_submit_def roomy_def)
  moreover have "keeps W ?W3"
    by (rule keeps_trans [OF keeps_trans [OF keeps_ring [OF w] keeps_ring [OF t]] keeps_trans [OF keeps_plain keeps_submit]]) simp
  moreover have "ctxt ?W3 = upd_conn i (\<lambda>c. c\<lparr>async_write_buf := Some (write_buffer_set_pending True wb)\<rparr>) (ctxt W)"
    using cl_ring_ctxt [OF t] by (simp add: cl_submit_def cl_ring_def cl_conn_def with_conn_def)
  ultimately show ?thesis by blast
qed

section \<open>One removal\<close>

lemma flush_unlink_eq:
  "nx = dirty_link ctx i \<Longrightarrow> flush_unlink i prev nx ctx = clear_dirty i (dirty_unlink i prev ctx)"
  by (simp add: flush_unlink_def dirty_unlink_def Let_def)

abbreviation before :: "nat list \<Rightarrow> nat option" where
  "before us \<equiv> (if us = [] then None else Some (last us))"

lemma drop_dirty_spec:
  assumes d: "dirty_ok (ctxt W) (us @ i # vs)" and nx: "nx = dirty_link (ctxt W) i"
  shows "dirty_ok (ctxt (drop_dirty i (before us) nx W)) (us @ vs)"
    and "same_conns (ctxt W) (ctxt (drop_dirty i (before us) nx W))"
    and "keeps W (drop_dirty i (before us) nx W)" "requests (drop_dirty i (before us) nx W) = requests W"
    and "lring (cl (drop_dirty i (before us) nx W)) = lring (cl W)"
proof -
  let ?c = "clear_dirty i (dirty_unlink i (before us) (ctxt W))"
  have e: "drop_dirty i (before us) nx W = W\<lparr>cl := (cl W)\<lparr>dctx := ?c\<rparr>\<rparr>"
    by (simp add: drop_dirty_def on_loop_def flush_unlink_eq [OF nx])
  have dd: "distinct (us @ i # vs)" "set (us @ i # vs) \<subseteq> {..<length (connections (ctxt W))}"
    using d by (simp_all add: dirty_ok_def)
  note sp = dirty_unlink_spec [OF d]
  have n: "length (connections (dirty_unlink i (before us) (ctxt W))) = length (connections (ctxt W))"
    using sp(3) by simp
  have ok: "dirty_ok ?c (us @ vs)"
  proof (rule clear_dirty_ok [OF sp(1) _ _ sp(2)])
    show "distinct (us @ vs)" "i \<notin> set (us @ vs)" using dd by auto
    show "set (us @ vs) \<subseteq> {..<length (connections (dirty_unlink i (before us) (ctxt W)))}" using dd n by auto
    show "i < length (connections (dirty_unlink i (before us) (ctxt W)))" using dd n by auto
    show "\<forall>j<length (connections (dirty_unlink i (before us) (ctxt W))). j \<noteq> i \<longrightarrow>
        on_dirty_list (conn_at (dirty_unlink i (before us) (ctxt W)) j) = (j \<in> set (us @ vs))"
      unfolding n sp(4) using d unfolding dirty_ok_def by auto
  qed
  then show "dirty_ok (ctxt (drop_dirty i (before us) nx W)) (us @ vs)" by (simp add: e)
  have s: "same_conns (ctxt W) ?c" by (rule same_conns_trans [OF unlink_same clear_same])
  then show "same_conns (ctxt W) (ctxt (drop_dirty i (before us) nx W))" by (simp add: e)
  have "ctx_ok ?c (reqs W)" if c: "ctx_ok (ctxt W) (reqs W)"
  proof -
    obtain fs where "pool_ok (ctxt W) fs" using c unfolding ctx_ok_def by blast
    then have "pool_ok ?c fs" by (intro clear_dirty_pool_ok dirty_unlink_pool_ok)
    with ok show ?thesis by (intro ctx_ok_same [OF c s]) blast+
  qed
  then show "keeps W (drop_dirty i (before us) nx W)" by (simp add: keeps_def e)
  show "requests (drop_dirty i (before us) nx W) = requests W" by (simp add: e)
  show "lring (cl (drop_dirty i (before us) nx W)) = lring (cl W)" by (simp add: e)
qed

section \<open>The walk\<close>

definition stays :: "connection \<Rightarrow> bool" where
  \<comment> \<open>what the flush leaves on the list\<close>
  "stays c \<longleftrightarrow> flushable (state c) \<and> \<not> drained c"

fun first :: "nat list \<Rightarrow> nat option" where
  "first [] = None"
| "first (i # _) = Some i"

definition buffer_of :: "connection \<Rightarrow> write_buffer option" where
  \<comment> \<open>the write buffer, but for the mark that a write is pending\<close>
  "buffer_of c = map_option (write_buffer_set_pending True) (async_write_buf c)"

definition same_state :: "nat set \<Rightarrow> curl_loop \<Rightarrow> curl_loop \<Rightarrow> bool" where
  \<comment> \<open>no connection was freed and no byte queued or dropped; outside of \<open>X\<close> no write was started\<close>
  "same_state X W W' \<longleftrightarrow> length (connections (ctxt W')) = length (connections (ctxt W)) \<and> requests W' = requests W
     \<and> (\<forall>j. state (conn (cl W') j) = state (conn (cl W) j) \<and> buffer_of (conn (cl W') j) = buffer_of (conn (cl W) j)
     \<and> (j \<notin> X \<longrightarrow> async_write_buf (conn (cl W') j) = async_write_buf (conn (cl W) j)))"

definition flush_post :: "nat list \<Rightarrow> nat list \<Rightarrow> curl_loop \<Rightarrow> curl_loop \<Rightarrow> bool" where
  \<comment> \<open>\<open>us\<close> was visited before, \<open>vs\<close> was still to be visited in \<open>W\<close>\<close>
  "flush_post us vs W W' \<longleftrightarrow> curl_inv W' \<and> same_state (set vs) W W'
     \<and> dirty_ok (ctxt W') (us @ filter (\<lambda>i. stays (conn (cl W') i)) vs)"

definition buffers_ok :: "nat list \<Rightarrow> curl_loop \<Rightarrow> bool" where
  "buffers_ok vs W \<longleftrightarrow> (\<forall>j \<in> set vs. \<forall>wb. async_write_buf (conn (cl W) j) = Some wb \<longrightarrow> wb_ok wb)"

definition flush_done :: "nat list \<Rightarrow> nat list \<Rightarrow> curl_loop \<Rightarrow> outcome option \<Rightarrow> bool" where
  "flush_done us vs W r \<longleftrightarrow> (\<exists>x. r = Some x \<and> (\<forall>W'. x = Running W' \<longrightarrow> flush_post us vs W W')
     \<and> (roomy W \<and> buffers_ok vs W \<longrightarrow>
          (\<exists>W'. x = Running W' \<and> roomy W' \<and> (\<forall>j \<in> set vs. flushable (state (conn (cl W') j)) \<longrightarrow> \<not> idle_data (conn (cl W') j)))))"

lemma stays_cong:
  "state c' = state c \<Longrightarrow> async_write_buf c' = async_write_buf c \<Longrightarrow> stays c' = stays c \<and> idle_data c' = idle_data c"
  by (simp add: stays_def drained_def idle_data_def)

text \<open>One connection \<open>i\<close> was visited, which gave \<open>W1\<close>; the rest is done from there.\<close>

lemma flush_done_step:
  assumes d: "flush_done us' vs W1 r" and s: "same_state {i} W W1" and i: "i \<notin> set vs"
    and us: "us' = (if stays (conn (cl W1) i) then us @ [i] else us)"
    and room: "roomy W \<and> buffers_ok (i # vs) W \<Longrightarrow> roomy W1 \<and> (flushable (state (conn (cl W1) i)) \<longrightarrow> \<not> idle_data (conn (cl W1) i))"
  shows "flush_done us (i # vs) W r"
proof -
  obtain x where x: "r = Some x" "\<And>W'. x = Running W' \<Longrightarrow> flush_post us' vs W1 W'"
    and y: "roomy W1 \<Longrightarrow> buffers_ok vs W1 \<Longrightarrow> \<exists>W'. x = Running W' \<and> roomy W'
      \<and> (\<forall>j \<in> set vs. flushable (state (conn (cl W') j)) \<longrightarrow> \<not> idle_data (conn (cl W') j))"
    using d unfolding flush_done_def by blast
  have self: "stays (conn (cl W') i) = stays (conn (cl W1) i) \<and> idle_data (conn (cl W') i) = idle_data (conn (cl W1) i)"
    if "flush_post us' vs W1 W'" for W'
    using that i by (intro stays_cong) (simp_all add: flush_post_def same_state_def)
  have "flush_post us (i # vs) W W'" if "x = Running W'" for W'
  proof -
    have p: "flush_post us' vs W1 W'" by (rule x(2) [OF that])
    have "us' @ filter (\<lambda>i. stays (conn (cl W') i)) vs = us @ filter (\<lambda>i. stays (conn (cl W') i)) (i # vs)"
      using self [OF p] us by simp
    then show ?thesis using p s by (simp add: flush_post_def same_state_def)
  qed
  moreover have "\<exists>W'. x = Running W' \<and> roomy W'
      \<and> (\<forall>j \<in> set (i # vs). flushable (state (conn (cl W') j)) \<longrightarrow> \<not> idle_data (conn (cl W') j))"
    if a: "roomy W \<and> buffers_ok (i # vs) W"
  proof -
    have "buffers_ok vs W1" using a s i by (auto simp: buffers_ok_def same_state_def)
    with y room [OF a] obtain W' where W': "x = Running W'" "roomy W'"
        "\<forall>j \<in> set vs. flushable (state (conn (cl W') j)) \<longrightarrow> \<not> idle_data (conn (cl W') j)" by blast
    have p: "flush_post us' vs W1 W'" by (rule x(2) [OF W'(1)])
    then have "state (conn (cl W') i) = state (conn (cl W1) i)" by (simp add: flush_post_def same_state_def)
    then show ?thesis using W' room [OF a] self [OF p] by auto
  qed
  ultimately show ?thesis unfolding flush_done_def using x(1) by blast
qed

lemma same_conns_state: "same_conns (ctxt W) (ctxt W') \<Longrightarrow> requests W' = requests W \<Longrightarrow> same_state X W W'"
  by (simp add: same_conns_def same_state_def buffer_of_def)

lemma roomy_lring: "lring (cl W') = lring (cl W) \<Longrightarrow> roomy W' = roomy W"
  by (simp add: roomy_def)

lemma chain_next: "chain nxt s (us @ i # vs) \<Longrightarrow> nxt i = first vs"
  using chain_start [OF chain_split_next] by (cases vs) fastforce+

lemma dirty_first:
  assumes "dirty_ok ctx (us @ i # vs)"
  shows "dirty_link ctx i = first vs" "i < length (connections ctx)" "i \<notin> set us" "i \<notin> set vs"
  using assms chain_next [of "dirty_link ctx" "dirty_head ctx" us i vs] by (auto simp: dirty_ok_def)

lemma before_snoc: "before (us @ [i]) = Some i" by simp

text \<open>A write was started, or nothing was done.\<close>

lemma pending_twice: "write_buffer_set_pending b (write_buffer_set_pending b' wb) = write_buffer_set_pending b wb"
  by (simp add: write_buffer_set_pending_def)

lemma started_dirty:
  assumes d: "dirty_ok (ctxt W) ds" and c: "ctxt W1 = upd_conn i (\<lambda>c. c\<lparr>async_write_buf := w\<rparr>) (ctxt W)"
    and i: "i < length (connections (ctxt W))" and w: "map_option (write_buffer_set_pending True) w = buffer_of (conn (cl W) i)" and r: "requests W1 = requests W"
  shows "dirty_ok (ctxt W1) ds" "same_state {i} W W1" "dirty_link (ctxt W1) i = dirty_link (ctxt W) i"
    "async_write_buf (conn (cl W1) i) = w" "length (connections (ctxt W1)) = length (connections (ctxt W))"
proof -
  show "dirty_ok (ctxt W1) ds" unfolding c by (rule dirty_ok_upd [OF d]) simp_all
  have at: "conn (cl W1) j = (if j = i then (conn (cl W) i)\<lparr>async_write_buf := w\<rparr> else conn (cl W) j)" for j
    using i by (cases "j = i") (auto simp: c)
  then show "same_state {i} W W1" "dirty_link (ctxt W1) i = dirty_link (ctxt W) i"
    "async_write_buf (conn (cl W1) i) = w" using w r by (simp_all add: same_state_def buffer_of_def c)
  show "length (connections (ctxt W1)) = length (connections (ctxt W))" by (simp add: c)
qed

lemma flush_from_done:
  "curl_inv W \<Longrightarrow> dirty_ok (ctxt W) (us @ vs) \<Longrightarrow> flush_done us vs W (flush_from (before us) (first vs) W)"
proof (induction vs arbitrary: us W)
  case Nil
  then show ?case by (simp add: flush_done_def flush_post_def same_state_def flush_from.simps)
next
  case (Cons i vs)
  let ?c = "conn (cl W) i"
  note inv = Cons.prems(1) and d = Cons.prems(2)
  note fi = dirty_first [OF d]
  show ?case
  proof (cases "flushable (state ?c)")
    case False
    let ?W1 = "drop_dirty i (before us) (first vs) W"
    note dd = drop_dirty_spec [OF d fi(1) [symmetric]]
    have e: "flush_from (before us) (first (i # vs)) W = flush_from (before us) (first vs) ?W1"
      by (subst flush_from.simps) (simp add: False fi(1) Let_def)
    have s: "same_state {i} W ?W1" by (rule same_conns_state [OF dd(2,4)])
    have ns: "\<not> flushable (state (conn (cl ?W1) i))" using s False by (simp add: same_state_def)
    show ?thesis unfolding e
    proof (rule flush_done_step [OF _ s fi(4)])
      show "flush_done us vs ?W1 (flush_from (before us) (first vs) ?W1)"
        by (rule Cons.IH [OF keeps_inv [OF dd(3) inv] dd(1)])
      show "us = (if stays (conn (cl ?W1) i) then us @ [i] else us)" using ns by (simp add: stays_def)
      show "roomy ?W1 \<and> (flushable (state (conn (cl ?W1) i)) \<longrightarrow> \<not> idle_data (conn (cl ?W1) i))"
        if "roomy W \<and> buffers_ok (i # vs) W"
        using that ns roomy_lring [OF dd(5)] by simp
    qed
  next
    case True
    have use: "in_use_conn i W" using fi(2) True by (auto simp: in_use_conn_def flushable_def)
    obtain W1 where st: "(if idle_data ?c then curl_start_async_write i W else Some W) = Some W1" and inv1: "curl_inv W1"
      and cs: "async_write_buf (conn (cl W1) i) = None \<and> async_write_buf ?c \<noteq> None \<or> W1 = W
        \<or> (\<exists>wb. async_write_buf ?c = Some wb \<and> requests W1 = requests W
             \<and> ctxt W1 = upd_conn i (\<lambda>c. c\<lparr>async_write_buf := Some (write_buffer_set_pending True wb)\<rparr>) (ctxt W))"
    proof (cases "idle_data ?c")
      case True
      from start_async_cases [OF inv use] show ?thesis
        using that True by (auto simp: idle_data_def split: option.splits)
    next
      case False
      then show ?thesis using that [of W] inv by simp
    qed
    let ?rest = "if drained (conn (cl W1) i) then flush_from (before us) (first vs) (drop_dirty i (before us) (first vs) W1)
      else flush_from (Some i) (first vs) W1"
    have e: "flush_from (before us) (first (i # vs)) W =
        (if async_write_buf ?c \<noteq> None \<and> async_write_buf (conn (cl W1) i) = None then Some Freed_read else ?rest)"
      by (subst flush_from.simps) (simp add: True fi(1) Let_def st)
    have room: "roomy W1 \<and> \<not> idle_data (conn (cl W1) i)
        \<and> (async_write_buf ?c \<noteq> None \<longrightarrow> async_write_buf (conn (cl W1) i) \<noteq> None)"
      if a: "roomy W \<and> buffers_ok (i # vs) W"
    proof (cases "idle_data ?c")
      case True
      then obtain wb where wb: "async_write_buf ?c = Some wb" by (auto simp: idle_data_def split: option.splits)
      then have "wb_ok wb" using a by (simp add: buffers_ok_def)
      from start_async_roomy [OF conjunct1 [OF a] wb this True] st True obtain "roomy W1"
        and c1: "ctxt W1 = upd_conn i (\<lambda>c. c\<lparr>async_write_buf := Some (write_buffer_set_pending True wb)\<rparr>) (ctxt W)" by auto
      moreover have "async_write_buf (conn (cl W1) i) = Some (write_buffer_set_pending True wb)"
        using fi(2) by (simp add: c1)
      ultimately show ?thesis unfolding idle_data_def by (simp only: option.case)
        (simp add: write_buffer_set_pending_def write_buffer_is_busy_def)
    qed (use a st in auto)
    show ?thesis
    proof (cases "async_write_buf ?c \<noteq> None \<and> async_write_buf (conn (cl W1) i) = None")
      case True
      then have "flush_from (before us) (first (i # vs)) W = Some Freed_read" unfolding e by simp
      then show ?thesis using room True by (auto simp: flush_done_def)
    next
      case False
      with cs have w: "W1 = W \<or> (\<exists>w. ctxt W1 = upd_conn i (\<lambda>c. c\<lparr>async_write_buf := w\<rparr>) (ctxt W)
          \<and> map_option (write_buffer_set_pending True) w = buffer_of ?c \<and> requests W1 = requests W)"
        by (auto simp: buffer_of_def pending_twice)
      have d1: "dirty_ok (ctxt W1) (us @ i # vs)" and s1: "same_state {i} W W1" and l1: "dirty_link (ctxt W1) i = first vs"
        using w started_dirty [OF d _ fi(2), of W1] d fi(1) by (auto simp: same_state_def)
      have fl: "flushable (state (conn (cl W1) i))" using s1 \<open>flushable (state ?c)\<close> by (simp add: same_state_def)
      show ?thesis
      proof (cases "drained (conn (cl W1) i)")
        case True
        let ?W2 = "drop_dirty i (before us) (first vs) W1"
        note dd = drop_dirty_spec [OF d1 l1 [symmetric]]
        have s2: "same_state {i} W ?W2"
          using s1 same_conns_state [OF dd(2,4), of "{i}"] by (simp add: same_state_def)
        have "state (conn (cl ?W2) i) = state (conn (cl W1) i)" "async_write_buf (conn (cl ?W2) i) = async_write_buf (conn (cl W1) i)"
          using dd(2) by (simp_all add: same_conns_def)
        then have v: "stays (conn (cl ?W2) i) = stays (conn (cl W1) i)" "idle_data (conn (cl ?W2) i) = idle_data (conn (cl W1) i)"
          using stays_cong by blast+
        have "flush_from (before us) (first (i # vs)) W = flush_from (before us) (first vs) ?W2"
          unfolding e using False True by (simp only: if_True if_False)
        then show ?thesis
          using flush_done_step [OF Cons.IH [OF keeps_inv [OF dd(3) inv1] dd(1)] s2 fi(4)] True v room roomy_lring [OF dd(5)]
          by (simp add: stays_def)
      next
        case nd: False
        have "flush_from (before us) (first (i # vs)) W = flush_from (before (us @ [i])) (first vs) W1"
          unfolding e before_snoc using False nd by (simp only: if_False)
        moreover have "flush_done (us @ [i]) vs W1 (flush_from (before (us @ [i])) (first vs) W1)"
          by (rule Cons.IH [OF inv1]) (use d1 in simp)
        ultimately show ?thesis
          using flush_done_step [of "us @ [i]" vs W1 _ i W us] s1 fi(4) nd fl room by (simp add: stays_def)
      qed
    qed
  qed
qed

lemma flush_done_all:
  assumes "curl_inv W" "dirty_ok (ctxt W) ds"
  shows "flush_done [] ds W (flush_streaming_connections W)"
proof -
  have "dirty_head (ctxt W) = first ds"
    using assms(2) chain_start [of "dirty_link (ctxt W)" "dirty_head (ctxt W)" ds] by (cases ds) (auto simp: dirty_ok_def)
  then show ?thesis
    using flush_from_done [OF assms(1), of "[]" ds] assms(2) by (simp add: flush_streaming_connections_def)
qed

end
