(* ===== verification/Curl_Handlers.thy ===== *)
theory Curl_Handlers
  imports Curl_Flush Loop_Handlers
begin

text \<open>
  The handlers of the curl mode for a new, a received and a sending connection keep the invariant and
  return, whatever the kernel, the allocator, the API and libcurl do.
\<close>

section \<open>The handlers keep the invariant\<close>

definition good :: "curl_loop option \<Rightarrow> bool" where
  "good r \<longleftrightarrow> (\<exists>W'. r = Some W' \<and> curl_inv W')"

lemma good_fail: "curl_inv W \<Longrightarrow> in_use_conn i W \<Longrightarrow> good (curl_fail i W)"
  using fail_inv unfolding good_def by blast

lemma good_cleanup: "curl_inv W \<Longrightarrow> in_use_conn i W \<Longrightarrow> good (cancel_and_cleanup i W)"
  using cancel_and_cleanup_inv unfolding good_def in_use_conn_def by blast

lemma good_start_write: "curl_inv W \<Longrightarrow> in_use_conn i W \<Longrightarrow> good (curl_start_async_write i W)"
  using start_async_cases unfolding good_def by blast

lemma in_use_cl_conn:
  "in_use_conn i W \<Longrightarrow> (\<And>c. state (f c) = state c) \<Longrightarrow> in_use_conn i (cl_conn i f W)"
  by (simp add: in_use_conn_def cl_conn_def with_conn_def)

lemma async_write_inv:
  assumes inv: "curl_inv W" and i: "in_use_conn i W"
  shows "good (curl_handle_async_write i res W)"
proof -
  let ?W1 = "\<lambda>w. cl_conn i (\<lambda>c. c\<lparr>bytes_sent := bytes_sent c + nat res, async_write_buf := w\<rparr>) W"
  have k: "curl_inv (?W1 w)" for w by (rule keeps_inv [OF keeps_plain inv]) simp
  have u: "in_use_conn i (?W1 w)" for w by (rule in_use_cl_conn [OF i]) simp
  have k2: "curl_inv (on_loop (count_completed i) (?W1 w))" for w
    using k [of w] by (simp add: on_loop_def curl_inv_def)
  have u2: "in_use_conn i (on_loop (count_completed i) (?W1 w))" for w
    using u [of w] by (simp add: on_loop_def in_use_conn_def count_completed_def conn_at_def)
  have "good (Some (?W1 w))" for w using k [of w] by (simp add: good_def)
  then show ?thesis
    unfolding curl_handle_async_write_def Let_def
    using good_fail [OF inv i] good_start_write [OF k u] good_cleanup [OF k2 u2] by simp
qed

section \<open>A connection that is received\<close>

lemma recv_change:
  assumes inv: "curl_inv W" and i: "free_to_start i W"
    and f: "\<And>c. conn_id (f c) = conn_id c" "\<And>c. next_free (f c) = next_free c"
      "\<And>c. dirty_next (f c) = dirty_next c" "\<And>c. on_dirty_list (f c) = on_dirty_list c"
      "\<And>c. curl_easy (f c) = curl_easy c" "\<And>c. write_buf (f c) = write_buf c"
      "\<And>c. buf_ok c \<Longrightarrow> buf_ok (f c)"
      "state (f (conn (cl W) i)) \<notin> {CONN_STATE_UNUSED, CONN_STATE_STREAMING}"
  shows "curl_inv (cl_conn i f W) \<and> free_to_start i (cl_conn i f W)"
proof -
  note i' = i [unfolded free_to_start_def]
  have "ctx_ok (upd_conn i f (ctxt W)) (reqs W)"
  proof (rule ctx_ok_upd [OF _ _ f(1-4)])
    show "ctx_ok (ctxt W) (reqs W)" using inv by (simp add: curl_inv_def)
    show "conn_ok (reqs W) i (f (conn (cl W) i))" if "conn_ok (reqs W) i (conn (cl W) i)"
      using that i' f(5,6,8) by (simp add: conn_ok_def)
  qed (use i' f in auto)
  then show ?thesis using inv i' f by (simp add: curl_inv_def cl_conn_def with_conn_def free_to_start_def)
qed

lemma free_in_use: "free_to_start i W \<Longrightarrow> in_use_conn i W"
  by (simp add: free_to_start_def in_use_conn_def)

lemma close_inv:
  assumes "curl_inv W \<and> free_to_start i W"
  defines "V \<equiv> on_loop (\<lambda>L. L\<lparr>dctx := close_fd (unix_fd (conn L i)) (dctx L)\<rparr>) W"
  shows "curl_inv V \<and> free_to_start i V" "conn (cl V) i = conn (cl W) i"
    "length (connections (ctxt V)) = length (connections (ctxt W))"
proof -
  have c: "conn_at (close_fd fd ctx) j = conn_at ctx j" "connections (close_fd fd ctx) = connections ctx" for fd ctx j
    by (simp_all add: close_fd_def conn_at_def)
  show "curl_inv V \<and> free_to_start i V" "conn (cl V) i = conn (cl W) i"
    "length (connections (ctxt V)) = length (connections (ctxt W))"
    using assms(1) by (simp_all add: V_def on_loop_def curl_inv_def free_to_start_def c)
qed

lemma start_request_total: "\<exists>rc W1. curl_manager_start_request cfg s i W = Some (rc, W1)"
proof -
  have m: "\<exists>rc W1. map_option (Pair (0::int)) (run_events es V) = Some (rc, W1)" for es V
  proof -
    obtain V' where "run_events es V = Some V'" using run_events_total by blast
    then show ?thesis by simp
  qed
  show ?thesis unfolding curl_manager_start_request_def Let_def
    by (cases "api_key cfg"; cases "\<not> s_req s \<or> \<not> s_easy s \<or> \<not> s_body s"; cases "s_add s")
      (simp_all only: option.case if_True if_False simp_thms m, simp_all)
qed

lemma dispatch_inv:
  assumes "curl_inv W" "free_to_start i W"
  shows "good (curl_dispatch cfg s i W)"
proof -
  obtain rc W1 where st: "curl_manager_start_request cfg s i W = Some (rc, W1)" using start_request_total by blast
  from start_request_inv [OF assms st] have "curl_inv W1" "rc < 0 \<longrightarrow> free_to_start i W1" by auto
  then show ?thesis
    using good_fail [of W1 i] free_in_use [of i W1] by (simp add: curl_dispatch_def st good_def)
qed

lemma recv_parsed_inv:
  fixes n :: nat and fd :: int
  assumes inv: "curl_inv W" and i: "free_to_start i W" and st: "state (conn (cl W) i) = CONN_STATE_RECEIVING_FD"
  defines "W1 \<equiv> cl_conn i (handoff_len_update (\<lambda>_. n)) W"
  defines "W2 \<equiv> cl_conn i (client_fd_update (\<lambda>_. fd)) W1"
  defines "W3 \<equiv> cl_conn i (unix_fd_update (\<lambda>_. -1)) (on_loop (\<lambda>L. L\<lparr>dctx := close_fd (unix_fd (conn L i)) (dctx L)\<rparr>) W2)"
  defines "W4 \<equiv> cl_conn i (\<lambda>c. parse_handoff (c\<lparr>state := CONN_STATE_PARSING\<rparr>)) W3"
  shows "curl_inv W1 \<and> free_to_start i W1" "curl_inv W3 \<and> free_to_start i W3" "curl_inv W4 \<and> free_to_start i W4"
proof -
  let ?W2' = "on_loop (\<lambda>L. L\<lparr>dctx := close_fd (unix_fd (conn L i)) (dctx L)\<rparr>) W2"
  have l: "i < length (connections (ctxt W))" using i by (simp add: free_to_start_def)
  have s1: "state (conn (cl W1) i) = CONN_STATE_RECEIVING_FD" and n1: "i < length (connections (ctxt W1))"
    using st l by (simp_all add: W1_def cl_conn_def with_conn_def)
  have s2: "state (conn (cl W2) i) = CONN_STATE_RECEIVING_FD" and n2: "i < length (connections (ctxt W2))"
    using s1 n1 by (simp_all add: W2_def cl_conn_def with_conn_def)
  have b: "buf_ok c \<Longrightarrow> buf_ok (c\<lparr>handoff_len := n\<rparr>)" "buf_ok c \<Longrightarrow> buf_ok (c\<lparr>client_fd := k\<rparr>)"
    "buf_ok c \<Longrightarrow> buf_ok (c\<lparr>unix_fd := k\<rparr>)" for c k
    by (simp_all add: buf_ok_def cong: option.case_cong)
  show g1: "curl_inv W1 \<and> free_to_start i W1" unfolding W1_def by (rule recv_change [OF inv i]) (use st b in simp_all)
  then have g2: "curl_inv W2 \<and> free_to_start i W2" unfolding W2_def by (intro recv_change) (use s1 b in simp_all)
  note cl = close_inv [OF g2]
  have s3: "state (conn (cl ?W2') i) = CONN_STATE_RECEIVING_FD" using s2 cl(2) by simp
  from cl(1) show g3: "curl_inv W3 \<and> free_to_start i W3" unfolding W3_def by (intro recv_change) (use s3 b in simp_all)
  have stab: "stable (\<lambda>c. parse_handoff (c\<lparr>state := CONN_STATE_PARSING\<rparr>))" by (rule stable_parse)
  have pf: "state (parse_handoff c) = state c" "curl_easy (parse_handoff c) = curl_easy c" "write_buf (parse_handoff c) = write_buf c" for c
    by (simp_all add: parse_handoff_def split: option.split prod.split)
  from g3 show "curl_inv W4 \<and> free_to_start i W4"
    unfolding W4_def by (intro recv_change) (use stab in \<open>simp_all add: stable_def pf\<close>)
qed

lemma recv_inv:
  assumes inv: "curl_inv W" and i: "free_to_start i W" and st: "state (conn (cl W) i) = CONN_STATE_RECEIVING_FD"
  shows "good (curl_handle_recv_fd cfg s i res a W)"
proof -
  note p = recv_parsed_inv [OF inv i st]
  show ?thesis
    unfolding curl_handle_recv_fd_def Let_def
    using good_fail [OF inv free_in_use [OF i]] p good_fail free_in_use dispatch_inv by simp
qed

section \<open>A new connection\<close>

lemma attach_blank:
  "attach_handoff_buf m c = Some d \<Longrightarrow> curl_easy d = curl_easy c \<and> write_buf d = write_buf c \<and> state d = state c
     \<and> dirty_next d = dirty_next c \<and> on_dirty_list d = on_dirty_list c"
  by (auto simp: attach_handoff_buf_def split: option.splits)

lemma alloc_shape:
  assumes "conn_alloc m ctx = (Some i, c)" "i < length (connections ctx)"
  shows "length (connections c) = length (connections ctx)" "use_curl_multi c = use_curl_multi ctx"
    "dirty_head c = dirty_head ctx" "dirty_tail c = dirty_tail ctx"
    "curl_easy (conn_at c i) = curl_easy (conn_at ctx i)" "write_buf (conn_at c i) = write_buf (conn_at ctx i)"
    "state (conn_at c i) = state (conn_at ctx i)"
    "dirty_next (conn_at c i) = dirty_next (conn_at ctx i)" "on_dirty_list (conn_at c i) = on_dirty_list (conn_at ctx i)"
    "\<And>j. j \<noteq> i \<Longrightarrow> conn_at c j = conn_at ctx j"
proof -
  let ?c1 = "upd_conn i (next_free_update (\<lambda>_. None)) (ctx\<lparr>free_list := next_free (conn_at ctx i)\<rparr>)"
  have fl: "free_list ctx = Some i"
    using assms(1) by (auto simp: conn_alloc_def Let_def split: option.splits)
  then obtain d where d: "attach_handoff_buf m (conn_at ?c1 i) = Some d"
    and c: "c = (upd_conn i (\<lambda>_. d) ?c1)\<lparr>active_connections := active_connections (upd_conn i (\<lambda>_. d) ?c1) + 1,
      peak_connections := max (peak_connections (upd_conn i (\<lambda>_. d) ?c1)) (active_connections (upd_conn i (\<lambda>_. d) ?c1) + 1)\<rparr>"
    using assms(1) by (auto simp: conn_alloc_def Let_def split: option.splits)
  have at1: "conn_at ?c1 i = (conn_at ctx i)\<lparr>next_free := None\<rparr>" using assms(2) by simp
  have ci: "conn_at c i = d" using assms(2) by (simp add: c)
  note b = attach_blank [OF d, unfolded at1]
  show "curl_easy (conn_at c i) = curl_easy (conn_at ctx i)" "write_buf (conn_at c i) = write_buf (conn_at ctx i)"
    "state (conn_at c i) = state (conn_at ctx i)"
    "dirty_next (conn_at c i) = dirty_next (conn_at ctx i)" "on_dirty_list (conn_at c i) = on_dirty_list (conn_at ctx i)"
    using b by (simp_all add: ci)
  show "length (connections c) = length (connections ctx)" "use_curl_multi c = use_curl_multi ctx"
    "dirty_head c = dirty_head ctx" "dirty_tail c = dirty_tail ctx" by (simp_all add: c) (simp add: upd_conn_def)
  show "conn_at c j = conn_at ctx j" if "j \<noteq> i" for j using that by (simp add: c)
qed

lemma alloc_cases:
  assumes "pool_ok ctx fs" "conn_alloc m ctx = (r, c)"
  shows "r = None \<and> c = ctx \<or> (\<exists>i xs. r = Some i \<and> fs = i # xs \<and> pool_ok c xs)"
proof (cases fs)
  case Nil
  then show ?thesis using conn_alloc_empty [of ctx m] assms by auto
next
  case (Cons i xs)
  then have p: "pool_ok ctx (i # xs)" using assms(1) by simp
  show ?thesis
  proof (cases "handoff_buf (conn_at ctx i) \<noteq> None \<or> m \<noteq> None")
    case True
    then show ?thesis using conn_alloc_ok [OF p True] assms(2) Cons by auto
  next
    case False
    then show ?thesis using conn_alloc_no_memory [OF p] assms(2) by auto
  qed
qed

lemma alloc_ctx_ok:
  assumes ok: "ctx_ok ctx rqs" and a: "conn_alloc m ctx = (Some i, c)"
  shows "ctx_ok (upd_conn i (\<lambda>c. c\<lparr>unix_fd := fd, state := CONN_STATE_RECEIVING_FD\<rparr>) c) rqs"
    and "i < length (connections c)" "curl_easy (conn_at c i) = None"
proof -
  obtain fs ds where p: "pool_ok ctx fs" and d: "dirty_ok ctx ds" using ok unfolding ctx_ok_def by blast
  obtain xs where xs: "fs = i # xs" "pool_ok c xs" using alloc_cases [OF p a] by auto
  have i: "i < length (connections ctx)" "i \<notin> set xs" "state (conn_at ctx i) = CONN_STATE_UNUSED"
    using p xs(1) by (auto simp: pool_ok_def)
  note sh = alloc_shape [OF a i(1)]
  have "conn_ok rqs i (conn_at ctx i)" using ok i(1) unfolding ctx_ok_def by blast
  then have e: "curl_easy (conn_at ctx i) = None" "write_buf (conn_at ctx i) = None"
    using i(3) by (auto simp: conn_ok_def)
  then show "i < length (connections c)" "curl_easy (conn_at c i) = None" using sh i(1) by simp_all
  let ?f = "\<lambda>c. c\<lparr>unix_fd := fd, state := CONN_STATE_RECEIVING_FD\<rparr>"
  let ?c2 = "upd_conn i ?f c"
  have at: "conn_at ?c2 j = (if j = i then ?f (conn_at c i) else conn_at ctx j)" for j
    using i(1) sh by (cases "j = i") auto
  have "pool_ok ?c2 xs"
    by (rule pool_ok_upd [OF xs(2) i(2)]) (simp_all add: buf_ok_def cong: option.case_cong)
  moreover have "dirty_ok ?c2 ds"
  proof -
    have l: "dirty_link ?c2 = dirty_link ctx" by (simp add: fun_eq_iff at sh(8))
    have o: "on_dirty_list (conn_at ?c2 j) = on_dirty_list (conn_at ctx j)" for j by (simp add: at sh(9))
    show ?thesis using d unfolding dirty_ok_def l o by (simp add: sh(1,3,4))
  qed
  moreover have "conn_ok rqs j (conn_at ?c2 j)" if "j < length (connections ctx)" for j
  proof (cases "j = i")
    case True
    then show ?thesis using e sh by (simp add: at conn_ok_def)
  next
    case False
    then show ?thesis using ok that unfolding ctx_ok_def by (simp add: at)
  qed
  moreover have "j < length (connections ctx) \<and> curl_easy (conn_at ?c2 j) = Some h" if "rqs h = Some j" for h j
  proof -
    have "j < length (connections ctx)" "curl_easy (conn_at ctx j) = Some h" using ok that unfolding ctx_ok_def by blast+
    then show ?thesis using e by (cases "j = i") (auto simp: at)
  qed
  moreover have "use_curl_multi ?c2 = use_curl_multi ctx" using sh(2) by (simp add: upd_conn_def)
  ultimately show "ctx_ok ?c2 rqs" using ok unfolding ctx_ok_def by (simp add: sh(1)) blast
qed

lemma accept_inv:
  assumes inv: "curl_inv W"
  shows "good (lift_loop (handle_accept m fd multi) W)"
proof -
  let ?L = "cl W"
  define L1 where "L1 = (if \<not> multi \<and> \<not> shutdown_requested (dctx ?L) then ?L\<lparr>lring := rearm_accept (lring ?L)\<rparr> else ?L)"
  have L1: "dctx L1 = ctxt W" by (simp add: L1_def)
  have ok: "ctx_ok (ctxt W) (reqs W)" and n: "counted (reqs W) (active_requests (mgr W)) (next_easy W)"
    using inv by (simp_all add: curl_inv_def)
  have fin1: "good (Some (W\<lparr>cl := L\<rparr>))" if "ctx_ok (dctx L) (reqs W)" for L
    using that n by (simp add: good_def curl_inv_def)
  have h: "lift_loop (handle_accept m fd multi) W = map_option (\<lambda>L. W\<lparr>cl := L\<rparr>)
     (if fd < 0 then Some L1
      else (case conn_alloc m (ctxt W) of
          (None, c) \<Rightarrow> Some (L1\<lparr>dctx := close_fd fd c\<rparr>)
        | (Some i, c) \<Rightarrow>
            let c1 = upd_conn i (\<lambda>c. c\<lparr>unix_fd := fd, state := CONN_STATE_RECEIVING_FD\<rparr>) c;
                c2 = (if benchmark_mode c1 then c1\<lparr>total_started := total_started c1 + 1\<rparr> else c1)
            in (case ring_submit_recvmsg (conn_at c2 i) (lring L1) of (rc, r1) \<Rightarrow>
                  let L2 = L1\<lparr>dctx := c2, lring := r1\<rparr>
                  in if rc < 0 then cleanup_connection i L2 else Some L2)))"
    unfolding lift_loop_def handle_accept_def L1_def [symmetric] Let_def L1 ..
  show ?thesis
  proof (cases "fd < 0")
    case True
    then show ?thesis unfolding h using fin1 [of L1] ok L1 by simp
  next
    case False
    obtain r c where a: "conn_alloc m (ctxt W) = (r, c)" by fastforce
    show ?thesis
    proof (cases r)
      case None
      obtain fs where "pool_ok (ctxt W) fs" using ok unfolding ctx_ok_def by blast
      from alloc_cases [OF this a] None have "c = ctxt W" by simp
      then show ?thesis unfolding h using False a None fin1 [of "L1\<lparr>dctx := close_fd fd c\<rparr>"] ok by simp
    next
      case (Some i)
      note a1 = alloc_ctx_ok(1) [OF ok a [unfolded Some], of fd]
      note al = alloc_ctx_ok(2,3) [OF ok a [unfolded Some]]
      define c1 where "c1 = upd_conn i (\<lambda>c. c\<lparr>unix_fd := fd, state := CONN_STATE_RECEIVING_FD\<rparr>) c"
      define c2 where "c2 = (if benchmark_mode c1 then c1\<lparr>total_started := total_started c1 + 1\<rparr> else c1)"
      obtain rc r1 where s: "ring_submit_recvmsg (conn_at c2 i) (lring L1) = (rc, r1)" by fastforce
      let ?L2 = "L1\<lparr>dctx := c2, lring := r1\<rparr>"
      have e: "lift_loop (handle_accept m fd multi) W
          = map_option (\<lambda>L. W\<lparr>cl := L\<rparr>) (if rc < 0 then cleanup_connection i ?L2 else Some ?L2)"
        unfolding h by (simp only: False if_False a Some prod.case option.case Let_def c1_def [symmetric] c2_def [symmetric] s)
      have k2: "ctx_ok c2 (reqs W) = ctx_ok c1 (reqs W)" by (rule ctx_ok_stats) (simp_all add: c2_def)
      have ok2: "ctx_ok c2 (reqs W)" unfolding k2 c1_def by (rule a1)
      have c12: "conn_at c2 i = conn_at c1 i" "length (connections c2) = length (connections c1)" by (simp_all add: c2_def conn_at_def)
      have i2: "i < length (connections c2)" "state (conn_at c2 i) \<noteq> CONN_STATE_UNUSED" "curl_easy (conn_at c2 i) = None"
        using al by (simp_all add: c12) (simp_all add: c1_def)
      have "\<exists>L'. cleanup_connection i ?L2 = Some L' \<and> ctx_ok (dctx L') (reqs W)"
        using ctx_ok_cleanup [of ?L2 "reqs W" i] ok2 i2 by auto
      then show ?thesis unfolding e using fin1 ok2 by (cases "rc < 0") auto
    qed
  qed
qed

section \<open>A completed write without a buffer\<close>

text \<open>In the curl mode only a connection that is closing can have one, and it is freed.\<close>

lemma write_inv:
  assumes inv: "curl_inv W" and i: "i < length (connections (ctxt W))"
    and st: "state (conn (cl W) i) = CONN_STATE_STREAMING \<or> state (conn (cl W) i) = CONN_STATE_CLOSING"
  shows "good (lift_loop (handle_write i res mem) W)"
proof -
  have ok: "ctx_ok (ctxt W) (reqs W)" and n: "counted (reqs W) (active_requests (mgr W)) (next_easy W)"
    using inv by (simp_all add: curl_inv_def)
  have c: "conn_ok (reqs W) i (conn (cl W) i)" using ok i unfolding ctx_ok_def by blast
  then have st: "state (conn (cl W) i) = CONN_STATE_CLOSING" and e: "curl_easy (conn (cl W) i) = None" "write_buf (conn (cl W) i) = None"
    using st by (auto simp: conn_ok_def)
  have fin: "\<exists>L'. cleanup_connection i L = Some L' \<and> ctx_ok (dctx L') (reqs W)"
    if "ctx_ok (dctx L) (reqs W)" "length (connections (dctx L)) = length (connections (ctxt W))"
      "state (conn L i) = CONN_STATE_CLOSING" "curl_easy (conn L i) = None" for L
    using ctx_ok_cleanup [OF that(1), of i] that i by auto
  let ?L1 = "with_conn i (\<lambda>c. c\<lparr>bytes_sent := bytes_sent c + nat res, write_offset := write_offset c + nat res\<rparr>) (cl W)"
  let ?L2 = "with_conn i (\<lambda>c. c\<lparr>write_len := 0, write_offset := 0, write_buf := None\<rparr>) ?L1"
  have p1: "ctx_ok (dctx ?L1) (reqs W)"
    unfolding with_conn_def by (simp, rule ctx_ok_plain [OF ok]) (simp add: plain_def)
  have p2: "ctx_ok (dctx ?L2) (reqs W)"
    unfolding with_conn_def [of i _ ?L1]
    by (simp, rule ctx_ok_upd [OF p1])
      (use i st e in \<open>simp_all add: with_conn_def conn_ok_def buf_ok_def cong: option.case_cong\<close>)
  have at: "conn ?L1 i = (conn (cl W) i)\<lparr>bytes_sent := bytes_sent (conn (cl W) i) + nat res, write_offset := write_offset (conn (cl W) i) + nat res\<rparr>"
    "conn ?L2 i = (conn ?L1 i)\<lparr>write_len := 0, write_offset := 0, write_buf := None\<rparr>"
    "length (connections (dctx ?L1)) = length (connections (ctxt W))" "length (connections (dctx ?L2)) = length (connections (ctxt W))"
    using i by (simp_all add: with_conn_def)
  have cnt: "length (connections (dctx (count_failed L))) = length (connections (dctx L))"
    "length (connections (dctx (count_completed j L))) = length (connections (dctx L))"
    "conn (count_completed j L) i = conn L i" for L j
    by (simp_all add: count_failed_def count_completed_def conn_at_def)
  have f0: "\<exists>L'. fail_connection i (cl W) = Some L' \<and> ctx_ok (dctx L') (reqs W)"
    unfolding fail_connection_def by (rule fin) (simp_all add: ok st e cnt)
  have f1: "\<exists>L'. fail_connection i ?L1 = Some L' \<and> ctx_ok (dctx L') (reqs W)"
    unfolding fail_connection_def by (rule fin) (simp_all add: p1 at st e cnt)
  have f2: "\<exists>L'. cleanup_connection i (count_completed i ?L2) = Some L' \<and> ctx_ok (dctx L') (reqs W)"
    by (rule fin) (simp_all add: p2 at st e cnt)
  have "handle_write i res mem (cl W) \<in> {fail_connection i (cl W), fail_connection i ?L1, cleanup_connection i (count_completed i ?L2)}"
    unfolding handle_write_def Let_def using st e by (simp add: at)
  then show ?thesis using f0 f1 f2 n by (auto simp: lift_loop_def good_def curl_inv_def)
qed

end
