(* ===== verification/Curl_System.thy ===== *)
theory Curl_System
  imports Curl_Handlers Loop_System
begin

text \<open>
  The curl mode as a whole: every completion is handled, and the invariant holds in every state the
  daemon can reach, whatever the kernel, the allocator, the clients, the API and libcurl do.
\<close>

section \<open>Every completion\<close>

definition good_out :: "outcome option \<Rightarrow> bool" where
  "good_out r \<longleftrightarrow> (\<exists>x. r = Some x \<and> (\<forall>W'. x = Running W' \<longrightarrow> curl_inv W'))"

lemma good_running: "good r \<Longrightarrow> good_out (map_option Running r)"
  by (auto simp: good_def good_out_def)

lemma good_same: "curl_inv W \<Longrightarrow> good_out (Some (Running W))"
  by (simp add: good_out_def)

lemma flush_inv: "curl_inv W \<Longrightarrow> good_out (flush_streaming_connections W)"
proof -
  assume inv: "curl_inv W"
  then obtain ds where "dirty_ok (ctxt W) ds" unfolding curl_inv_def ctx_ok_def by blast
  from flush_done_all [OF inv this] show ?thesis
    unfolding flush_done_def good_out_def flush_post_def by blast
qed

lemma run_events_inv: "curl_inv W \<Longrightarrow> \<exists>W'. run_events es W = Some W' \<and> curl_inv W'"
  using run_events_total [of es W] run_events_keeps keeps_inv by blast

lemma poll_inv: "curl_inv W \<Longrightarrow> good_out (handle_curl_poll k fd res W)"
proof -
  assume inv: "curl_inv W"
  obtain W1 where 1: "run_events (k_socket k fd (curl_select_bits (poll_events res))) W = Some W1" "curl_inv W1"
    using run_events_inv [OF inv] by blast
  obtain W2 where 2: "run_events (k_timeout k) W1 = Some W2" "curl_inv W2" using run_events_inv [OF 1(2)] by blast
  from flush_inv [OF check_completions_inv [OF 2(2)]] show ?thesis
    by (simp add: handle_curl_poll_def curl_manager_socket_action_def 1 2)
qed

lemma timeout_inv: "curl_inv W \<Longrightarrow> good_out (handle_curl_timeout k W)"
proof -
  assume inv: "curl_inv W"
  let ?W0 = "W\<lparr>mgr := (mgr W)\<lparr>timer_active := False\<rparr>\<rparr>"
  have "reqs ?W0 = reqs W" by (simp add: fun_eq_iff reqs_def)
  then have "curl_inv ?W0" using inv by (simp add: curl_inv_def)
  then obtain W1 where 1: "run_events (k_timeout k) ?W0 = Some W1" "curl_inv W1" using run_events_inv by blast
  from flush_inv [OF check_completions_inv [OF 1(2)]] show ?thesis
    by (simp add: handle_curl_timeout_def curl_manager_timeout_action_def 1)
qed

lemma get_in_range: "curl_inv W \<Longrightarrow> conn_get n (ctxt W) = Some i \<Longrightarrow> i < length (connections (ctxt W))"
  by (auto simp: curl_inv_def ctx_ok_def pool_ok_def conn_get_def split: if_splits)

theorem process_cqe_curl_inv:
  assumes inv: "curl_inv W"
  shows "good_out (process_cqe_curl k a e W)"
proof -
  obtain p cid where pc: "ring_unpack_data (cqe_data e) = (p, cid)" by fastforce
  have free: "free_to_start i W" if "conn_get n (ctxt W) = Some i" "state (conn (cl W) i) = CONN_STATE_RECEIVING_FD" for i n
  proof -
    have i: "i < length (connections (ctxt W))" by (rule get_in_range [OF inv that(1)])
    then have "conn_ok (reqs W) i (conn (cl W) i)" using inv unfolding curl_inv_def ctx_ok_def by blast
    then show ?thesis using i that(2) by (auto simp: free_to_start_def conn_ok_def)
  qed
  have recv: "good (curl_handle_recv_fd (k_config k) (k_start k) i (cqe_res e) a W)"
    if "conn_get n (ctxt W) = Some i" "state (conn (cl W) i) = CONN_STATE_RECEIVING_FD" for i n
    by (rule recv_inv [OF inv free [OF that] that(2)])
  have aw: "good (curl_handle_async_write i (cqe_res e) W)"
    if "conn_get n (ctxt W) = Some i" "state (conn (cl W) i) \<noteq> CONN_STATE_UNUSED" for i n
    by (rule async_write_inv [OF inv]) (use get_in_range [OF inv that(1)] that(2) in \<open>simp add: in_use_conn_def\<close>)
  have w: "good (lift_loop (handle_write i (cqe_res e) (a_write_mem a)) W)"
    if "conn_get n (ctxt W) = Some i" "state (conn (cl W) i) = CONN_STATE_STREAMING \<or> state (conn (cl W) i) = CONN_STATE_CLOSING" for i n
    by (rule write_inv [OF inv get_in_range [OF inv that(1)] that(2)])
  have acc: "good (lift_loop (handle_accept (a_handoff_mem a) (cqe_res e) (cqe_more e)) W)" by (rule accept_inv [OF inv])
  show ?thesis
  proof (cases p)
    case None
    then show ?thesis using good_same [OF inv] by (simp add: process_cqe_curl_def pc)
  next
    case (Some x)
    then show ?thesis
      using good_same [OF inv] good_running [OF recv] good_running [OF aw] good_running [OF w] good_running [OF acc]
        poll_inv [OF inv] timeout_inv [OF inv]
      by (cases x) (auto simp: process_cqe_curl_def pc Let_def split: option.split)
  qed
qed

section \<open>Executions\<close>

definition started_curl :: "daemon_ctx \<Rightarrow> curl_loop \<Rightarrow> bool" where
  \<comment> \<open>\<open>main\<close> in the curl mode: the connections, the ring, the curl manager, and \<open>daemon_run\<close> up to its loop\<close>
  "started_curl ctx W \<longleftrightarrow> use_curl_multi ctx \<and> \<not> use_thread_pool ctx \<and> 0 \<le> max_connections ctx
     \<and> dirty_head ctx = None \<and> dirty_tail ctx = None
     \<and> (\<exists>c k ok p env cfg hs W0. conn_pool_init True ctx = Some c
          \<and> curl_manager_init env True True True hs \<lparr>dctx = c, lring = ring_new k ok, wpool = p\<rparr> = Some (cfg, W0)
          \<and> lift_loop enter_loop W0 = Some W)"

text \<open>A completion of the kernel and its handler, the flush at the end of a turn, a submission, a signal.\<close>

definition as_sys :: "(nat \<Rightarrow> string) \<Rightarrow> curl_loop \<Rightarrow> sys" where
  "as_sys tk W = \<lparr>lp = cl W, processing = [], adding = [], taken = tk\<rparr>"

inductive curl_step :: "curl_loop \<Rightarrow> curl_loop \<Rightarrow> bool" where
  cqe: "completes (as_sys tk W) a e S \<Longrightarrow> process_cqe_curl k a e (W\<lparr>cl := lp S\<rparr>) = Some (Running W') \<Longrightarrow> curl_step W W'"
| flush: "flush_streaming_connections W = Some (Running W') \<Longrightarrow> curl_step W W'"
| submit: "curl_step W (cl_submit W)"
| stop: "curl_step W (on_loop (\<lambda>L. L\<lparr>dctx := (dctx L)\<lparr>shutdown_requested := True\<rparr>\<rparr>) W)"

inductive curl_reachable :: "curl_loop \<Rightarrow> curl_loop \<Rightarrow> bool" for W0 where
  here: "curl_reachable W0 W0"
| onward: "curl_reachable W0 W \<Longrightarrow> curl_step W W' \<Longrightarrow> curl_reachable W0 W'"

definition curl_runs :: "daemon_ctx \<Rightarrow> curl_loop \<Rightarrow> bool" where
  "curl_runs ctx W \<longleftrightarrow> (\<exists>W0. started_curl ctx W0 \<and> curl_reachable W0 W)"

lemma ctx_ok_received:
  assumes ok: "ctx_ok ctx rqs" and g: "\<And>b. length (g b) = length b"
  shows "ctx_ok (upd_conn i (\<lambda>c. c\<lparr>handoff_buf := map_option g (handoff_buf c)\<rparr>) ctx) rqs"
proof (cases "i < length (connections ctx)")
  case True
  let ?f = "\<lambda>c. c\<lparr>handoff_buf := map_option g (handoff_buf c)\<rparr>"
  obtain fs ds where p: "pool_ok ctx fs" and d: "dirty_ok ctx ds" using ok by (auto simp: ctx_ok_def)
  have at: "conn_at (upd_conn i ?f ctx) j = (if j = i then ?f (conn_at ctx i) else conn_at ctx j)" for j
    using True by (cases "j = i") auto
  have b: "buf_ok (?f c) = buf_ok c" for c using g by (cases "handoff_buf c") (simp_all add: buf_ok_def)
  have fl: "free_link (upd_conn i ?f ctx) = free_link ctx" by (simp add: fun_eq_iff at)
  have "conn_id (conn_at (upd_conn i ?f ctx) j) = conn_id (conn_at ctx j)"
    "buf_ok (conn_at (upd_conn i ?f ctx) j) = buf_ok (conn_at ctx j)"
    "state (conn_at (upd_conn i ?f ctx) j) = state (conn_at ctx j)"
    "unix_fd (conn_at (upd_conn i ?f ctx) j) = unix_fd (conn_at ctx j)"
    "client_fd (conn_at (upd_conn i ?f ctx) j) = client_fd (conn_at ctx j)"
    "curl_easy (conn_at (upd_conn i ?f ctx) j) = curl_easy (conn_at ctx j)"
    "conn_ok rqs j (conn_at (upd_conn i ?f ctx) j) = conn_ok rqs j (conn_at ctx j)" for j
    using b by (simp_all add: at conn_ok_def)
  note s = this
  have sh: "length (connections (upd_conn i ?f ctx)) = length (connections ctx)" "free_list (upd_conn i ?f ctx) = free_list ctx"
    "max_connections (upd_conn i ?f ctx) = max_connections ctx" "active_connections (upd_conn i ?f ctx) = active_connections ctx"
    "use_curl_multi (upd_conn i ?f ctx) = use_curl_multi ctx"
    by (simp_all add: upd_conn_def)
  have "pool_ok (upd_conn i ?f ctx) fs" using p unfolding pool_ok_def fl s sh .
  moreover have "dirty_ok (upd_conn i ?f ctx) ds" by (rule dirty_ok_upd [OF d]) simp_all
  ultimately show ?thesis using ok unfolding ctx_ok_def s sh by blast
next
  case False
  then show ?thesis using ok by (simp add: upd_conn_def list_update_beyond)
qed

lemma curl_inv_loop: "curl_inv W \<Longrightarrow> ctx_ok (dctx L) (reqs W) \<Longrightarrow> curl_inv (W\<lparr>cl := L\<rparr>)"
  by (simp add: curl_inv_def reqs_def [abs_def])

lemma completes_inv:
  assumes "completes (as_sys tk W) a e S" and inv: "curl_inv W"
  shows "curl_inv (W\<lparr>cl := lp S\<rparr>)"
proof (rule curl_inv_loop [OF inv])
  have ok: "ctx_ok (ctxt W) (reqs W)" using inv by (simp add: curl_inv_def)
  have op: "ctx_ok (dctx (opened fd L)) rqs = ctx_ok (dctx L) rqs" for fd L rqs
    unfolding opened_def by (simp, intro impI ctx_ok_stats) simp_all
  have rt: "dctx (retire s L) = dctx L" for s L by (simp add: retire_def)
  have rv: "ctx_ok (dctx (received j msg L)) rqs" if "ctx_ok (dctx L) rqs" for j msg L rqs
    unfolding received_def with_conn_def by (simp, rule ctx_ok_received [OF that]) simp
  from assms(1) show "ctx_ok (dctx (lp S)) (reqs W)"
    by cases (simp_all add: as_sys_def op rt ok rv)
qed

lemma step_keeps_inv: "curl_step W W' \<Longrightarrow> curl_inv W \<Longrightarrow> curl_inv W'"
proof (induction rule: curl_step.induct)
  case (cqe tk W a e S k W')
  from process_cqe_curl_inv [OF completes_inv [OF cqe(1,3)], of k a e] cqe(2) show ?case by (simp add: good_out_def)
next
  case (flush W W')
  from flush_inv [OF flush(2)] flush(1) show ?case by (auto simp: good_out_def)
next
  case (submit W)
  then show ?case using keeps_inv [OF keeps_submit] by blast
next
  case (stop W)
  have "ctx_ok ((ctxt W)\<lparr>shutdown_requested := True\<rparr>) (reqs W) = ctx_ok (ctxt W) (reqs W)" by (rule ctx_ok_stats) simp_all
  then show ?case using curl_inv_loop [OF stop] stop by (simp add: on_loop_def curl_inv_def)
qed

lemma started_inv:
  assumes "started_curl ctx W"
  shows "curl_inv W"
proof -
  obtain c k ok p env cfg hs W0 where s: "use_curl_multi ctx" "\<not> use_thread_pool ctx" "0 \<le> max_connections ctx"
    "dirty_head ctx = None" "dirty_tail ctx = None" and c: "conn_pool_init True ctx = Some c"
    and w0: "curl_manager_init env True True True hs \<lparr>dctx = c, lring = ring_new k ok, wpool = p\<rparr> = Some (cfg, W0)"
    and w: "lift_loop enter_loop W0 = Some W"
    using assms unfolding started_curl_def by blast
  let ?n = "nat (max_connections ctx)"
  let ?c0 = "ctx\<lparr>connections := replicate ?n zero_connection, free_list := None\<rparr>"
  have e: "c = (init_loop ?n ?c0)\<lparr>active_connections := 0\<rparr>" and pool: "pool_ok c [0..<?n]"
    using c conn_pool_init_ok [OF c s(3)] by (auto simp: conn_pool_init_def Let_def)
  have fr: "use_curl_multi (init_loop n cc) = use_curl_multi cc" for n cc
    by (induction n arbitrary: cc) (simp_all add: upd_conn_def)
  have blank: "\<forall>x \<in> set (connections (init_loop ?n ?c0)). curl_easy x = None \<and> write_buf x = None
      \<and> state x = CONN_STATE_UNUSED \<and> \<not> on_dirty_list x \<and> dirty_next x = None"
    by (rule init_loop_keeps) (auto simp: init_connection_def zero_connection_def)
  have len: "length (connections c) = ?n" using init_loop_frame [of ?n ?c0] by (simp add: e)
  have b: "curl_easy (conn_at c i) = None \<and> write_buf (conn_at c i) = None \<and> state (conn_at c i) = CONN_STATE_UNUSED
      \<and> \<not> on_dirty_list (conn_at c i)" if "i < ?n" for i
    using blank that len by (simp add: e conn_at_def)
  have "dirty_ok c []" using s(4,5) init_loop_frame [of ?n ?c0] b len by (simp add: dirty_ok_def) (simp add: e)
  moreover have "use_curl_multi c" using s(1) by (simp add: e fr)
  moreover have "conn_ok (\<lambda>_. None) i (conn_at c i)" if "i < ?n" for i using b [OF that] by (simp add: conn_ok_def)
  ultimately have ok: "ctx_ok c (\<lambda>_. None)" using pool unfolding ctx_ok_def len by blast
  let ?L0 = "\<lparr>dctx = c, lring = ring_new k ok, wpool = p\<rparr>"
  have W0: "cl W0 = ?L0" "requests W0 = (\<lambda>_. None)" "active_requests (mgr W0) = 0"
    using w0 by (auto simp: curl_manager_init_def new_manager_def)
  obtain L where L: "enter_loop ?L0 = Some L" "W = W0\<lparr>cl := L\<rparr>" using w by (auto simp: lift_loop_def W0(1))
  have "dctx L = c" using L(1) by (auto simp: enter_loop_def split: prod.splits if_splits)
  then have "ctxt W = c" "requests W = (\<lambda>_. None)" "active_requests (mgr W) = 0"
    using W0 L(2) by simp_all
  then show ?thesis using ok by (simp add: curl_inv_def reqs_def [abs_def] counted_def)
qed

lemma curl_runs_inv: "curl_runs ctx W \<Longrightarrow> curl_inv W"
proof -
  have "curl_inv W" if "curl_reachable W0 W" "curl_inv W0" for W0
    using that by (induction rule: curl_reachable.induct) (auto intro: step_keeps_inv)
  then show "curl_runs ctx W \<Longrightarrow> curl_inv W" using started_inv unfolding curl_runs_def by blast
qed

end
