(* ===== verification/Curl_Stream.thy ===== *)
theory Curl_Stream
  imports Curl_Steps Backend_Stream
begin

text \<open>
  What the callbacks of the curl manager queue for a client: the same bytes as the blocking backend
  writes for the same text of the API, whatever other requests, sockets and timers do in between.
\<close>

section \<open>Views of a connection and of the requests\<close>

definition queued :: "nat \<Rightarrow> curl_loop \<Rightarrow> string" where
  "queued i W = (case async_write_buf (conn (cl W) i) of None \<Rightarrow> [] | Some wb \<Rightarrow> wb_content wb)"

definition buf_sound :: "nat \<Rightarrow> curl_loop \<Rightarrow> bool" where
  "buf_sound i W \<longleftrightarrow> (case async_write_buf (conn (cl W) i) of None \<Rightarrow> True | Some wb \<Rightarrow> wb_ok wb)"

definition stream_view :: "nat \<Rightarrow> curl_loop \<Rightarrow> bool \<times> string \<times> string option" where
  "stream_view i W = (buf_sound i W, queued i W, sse_line_buf (conn (cl W) i))"

definition rq_view :: "curl_loop \<Rightarrow> nat \<Rightarrow> (nat \<times> bool \<times> bool) option" where
  "rq_view W h = map_option (\<lambda>rq. (rq_conn rq, rq_headers_sent rq, rq_stopped rq)) (requests W h)"

definition silent :: "curl_loop \<Rightarrow> curl_loop \<Rightarrow> bool" where
  \<comment> \<open>nothing is queued, no line is read\<close>
  "silent W W' \<longleftrightarrow> length (connections (ctxt W')) = length (connections (ctxt W))
     \<and> (\<forall>i. stream_view i W' = stream_view i W) \<and> rq_view W' = rq_view W"

definition queues :: "nat \<Rightarrow> string \<Rightarrow> curl_loop \<Rightarrow> curl_loop \<Rightarrow> bool" where
  \<comment> \<open>the text \<open>d\<close> for the connection \<open>i\<close>\<close>
  "queues i d W W' \<longleftrightarrow> length (connections (ctxt W')) = length (connections (ctxt W)) \<and> rq_view W' = rq_view W
     \<and> (\<forall>j. j \<noteq> i \<longrightarrow> stream_view j W' = stream_view j W) \<and> sse_line_buf (conn (cl W') i) = sse_line_buf (conn (cl W) i)
     \<and> (buf_sound i W \<longrightarrow> buf_sound i W' \<and> queued i W' = queued i W @ d)"

lemma silent_refl [simp]: "silent W W" by (simp add: silent_def)

lemma silent_trans: "silent W V \<Longrightarrow> silent V X \<Longrightarrow> silent W X" by (simp add: silent_def)

lemma silent_queues: "silent W W' \<Longrightarrow> queues i [] W W'"
  by (simp add: silent_def queues_def stream_view_def)

lemma queues_trans: "queues i d W V \<Longrightarrow> queues i e V X \<Longrightarrow> queues i (d @ e) W X"
  by (simp add: queues_def)

lemma queues_silent: "queues i d W V \<Longrightarrow> silent V X \<Longrightarrow> queues i d W X"
  using queues_trans [OF _ silent_queues] by fastforce

lemma silent_then: "silent W V \<Longrightarrow> queues i d V X \<Longrightarrow> queues i d W X"
  using queues_trans [OF silent_queues] by fastforce

lemma silent_ctxt: "ctxt W' = ctxt W \<Longrightarrow> rq_view W' = rq_view W \<Longrightarrow> silent W W'"
  by (simp add: silent_def stream_view_def queued_def buf_sound_def)

lemma rq_view_cl [simp]: "rq_view (W\<lparr>cl := L\<rparr>) = rq_view W" "rq_view (W\<lparr>mgr := g\<rparr>) = rq_view W"
  "rq_view (W\<lparr>allocs := n\<rparr>) = rq_view W" "rq_view (cl_conn i f W) = rq_view W"
  by (simp_all add: fun_eq_iff rq_view_def cl_conn_def)

lemma silent_ring: "cl_ring f W = (rc, W') \<Longrightarrow> silent W W'"
  by (rule silent_ctxt) (auto simp: cl_ring_def split: prod.splits)

lemma silent_ring_snd [simp]: "silent W (snd (cl_ring f W))"
  by (metis silent_ring prod.collapse)

lemma silent_submit [simp]: "silent W (cl_submit W)" by (simp add: cl_submit_def)

lemma silent_heap: "next_heap W = (h, W') \<Longrightarrow> silent W W'"
  by (rule silent_ctxt) (auto simp: next_heap_def)

lemma silent_mgr [simp]: "silent W (W\<lparr>mgr := g\<rparr>)" by (rule silent_ctxt) simp_all

lemma silent_set_socket [simp]: "silent W (set_socket fd f W)" by (simp add: set_socket_def)

lemma silent_requests:
  "map_option (\<lambda>rq. (rq_conn rq, rq_headers_sent rq, rq_stopped rq)) q = rq_view W h
     \<Longrightarrow> silent W (W\<lparr>requests := (requests W)(h := q)\<rparr>)"
  by (rule silent_ctxt) (auto simp: fun_eq_iff rq_view_def)

lemma silent_same: "length (connections (ctxt W')) = length (connections (ctxt W)) \<Longrightarrow> rq_view W' = rq_view W
    \<Longrightarrow> (\<And>j. async_write_buf (conn (cl W') j) = async_write_buf (conn (cl W) j) \<and> sse_line_buf (conn (cl W') j) = sse_line_buf (conn (cl W) j))
    \<Longrightarrow> silent W W'"
  by (simp add: silent_def stream_view_def queued_def buf_sound_def)

text \<open>A change of one connection.\<close>

lemma cl_conn_at:
  "conn (cl (cl_conn i f W)) j = (if j = i \<and> i < length (connections (ctxt W)) then f (conn (cl W) i) else conn (cl W) j)"
  by (cases "i < length (connections (ctxt W))"; cases "j = i")
    (simp_all add: cl_conn_def with_conn_def upd_conn_def conn_at_def list_update_beyond)

lemma cl_conn_length [simp]: "length (connections (ctxt (cl_conn i f W))) = length (connections (ctxt W))"
  by (simp add: cl_conn_def with_conn_def upd_conn_def)

lemma silent_conn:
  "(\<And>c. async_write_buf (f c) = async_write_buf c) \<Longrightarrow> (\<And>c. sse_line_buf (f c) = sse_line_buf c) \<Longrightarrow> silent W (cl_conn i f W)"
  by (rule silent_same) (simp_all add: cl_conn_at)

lemma queues_buffer:
  assumes "i < length (connections (ctxt W))"
    and "buf_sound i W \<Longrightarrow> wb_ok wb \<and> wb_content wb = queued i W @ d"
  shows "queues i d W (cl_conn i (\<lambda>c. c\<lparr>async_write_buf := Some wb\<rparr>) W)"
  using assms by (simp add: queues_def stream_view_def queued_def buf_sound_def cl_conn_at)

lemma dirty_streams:
  "async_write_buf (conn_at (daemon_mark_connection_dirty i ctx) j) = async_write_buf (conn_at ctx j)
   \<and> sse_line_buf (conn_at (daemon_mark_connection_dirty i ctx) j) = sse_line_buf (conn_at ctx j)
   \<and> length (connections (daemon_mark_connection_dirty i ctx)) = length (connections ctx)"
proof -
  have u: "async_write_buf (conn_at (upd_conn k f c) j) = async_write_buf (conn_at c j)
      \<and> sse_line_buf (conn_at (upd_conn k f c) j) = sse_line_buf (conn_at c j)
      \<and> length (connections (upd_conn k f c)) = length (connections c)"
    if "\<And>c. async_write_buf (f c) = async_write_buf c" "\<And>c. sse_line_buf (f c) = sse_line_buf c" for k f c
    using that by (cases "k < length (connections c)"; cases "j = k")
      (simp_all add: upd_conn_def conn_at_def list_update_beyond)
  have h: "conn_at (c\<lparr>dirty_head := x\<rparr>) j = conn_at c j" "conn_at (c\<lparr>dirty_tail := x\<rparr>) j = conn_at c j"
    "conn_at (c\<lparr>dirty_head := x, dirty_tail := y\<rparr>) j = conn_at c j" for c x y
    by (simp_all add: conn_at_def)
  show ?thesis unfolding daemon_mark_connection_dirty_def Let_def
    by (simp add: u h split: option.split)
qed

lemma silent_dirty [simp]: "silent W (cl_dirty i W)"
  by (rule silent_same) (simp_all add: cl_dirty_def dirty_streams)

section \<open>The operations\<close>

definition ctx_requests :: "curl_loop \<Rightarrow> daemon_ctx \<times> (nat \<Rightarrow> curl_request option)" where
  "ctx_requests W = (ctxt W, requests W)"

lemma ctx_requests_simps [simp]:
  "ctx_requests (snd (cl_ring f W)) = ctx_requests W" "ctx_requests (cl_submit W) = ctx_requests W"
  "ctx_requests (W\<lparr>mgr := g\<rparr>) = ctx_requests W" "ctx_requests (set_socket fd u W) = ctx_requests W"
  by (simp_all add: ctx_requests_def cl_ring_def cl_submit_def set_socket_def split: prod.split)

lemma ctx_requests_silent: "ctx_requests W' = ctx_requests W \<Longrightarrow> silent W W'"
  by (rule silent_ctxt) (simp_all add: ctx_requests_def rq_view_def fun_eq_iff)

lemma ctx_requests_ring: "cl_ring f W = (rc, W') \<Longrightarrow> ctx_requests W' = ctx_requests W"
  using ctx_requests_simps(1) [of f W] by simp

lemma socket_callback_frame: "ctx_requests (socket_callback fd what W) = ctx_requests W"
proof -
  obtain rc W1 where e: "ensure_socket_capacity fd W = (rc, W1)" by fastforce
  have 1: "ctx_requests W1 = ctx_requests W"
    using e by (auto simp: ensure_socket_capacity_def Let_def next_heap_def ctx_requests_def split: if_splits)
  have b: "ctx_requests (case cl_ring f V of (rc2, W') \<Rightarrow> cl_submit (if rc2 = 0 then set_socket fd g W' else W')) = ctx_requests V" for V f g
    using ctx_requests_ring [of f V] by (cases "cl_ring f V") simp
  show "ctx_requests (socket_callback fd what W) = ctx_requests W"
    unfolding socket_callback_def e Let_def prod.case using 1 b by simp
qed

lemma socket_callback_silent: "silent W (socket_callback fd what W)"
  by (rule ctx_requests_silent [OF socket_callback_frame])

lemma timer_callback_frame: "ctx_requests (timer_callback ms W) = ctx_requests W"
proof -
  have b: "ctx_requests (case cl_ring f V of (rc, W') \<Rightarrow>
      cl_submit (if rc = 0 then W'\<lparr>mgr := (mgr W')\<lparr>timer_active := True\<rparr>\<rparr> else W')) = ctx_requests V" for V f
    using ctx_requests_ring [of f V] by (cases "cl_ring f V") simp
  show "ctx_requests (timer_callback ms W) = ctx_requests W"
    unfolding timer_callback_def Let_def by (simp add: b)
qed

lemma timer_callback_silent: "silent W (timer_callback ms W)"
  by (rule ctx_requests_silent [OF timer_callback_frame])

lemma ensure_write_buf_queues:
  assumes "ensure_write_buf i W = (ok, W')" "i < length (connections (ctxt W))"
  shows "queues i [] W W'"
proof (cases "async_write_buf (conn (cl W) i) \<noteq> None")
  case True
  then show ?thesis using assms(1) by (simp add: ensure_write_buf_def silent_queues)
next
  case none: False
  obtain h W1 where n: "next_heap W = (h, W1)" by fastforce
  note q = silent_heap [OF n]
  show ?thesis
  proof (cases "h_small h \<and> write_buffer_init (h_buf h) \<noteq> None")
    case False
    then have "W' = W1" using assms(1) none n by (auto simp: ensure_write_buf_def split: if_splits option.splits)
    then show ?thesis using q silent_queues by simp
  next
    case True
    then obtain wb where wb: "write_buffer_init (h_buf h) = Some wb" by auto
    have "wb_ok wb \<and> wb_content wb = []"
      using init_ok [OF wb [unfolded write_buffer_init_def]] by (simp add: WRITE_BUFFER_DEFAULT_SIZE_def WRITE_BUFFER_MAX_SIZE_def)
    moreover have "queued i W1 = []" using none n by (auto simp: queued_def next_heap_def)
    ultimately have "queues i [] W1 (cl_conn i (\<lambda>c. c\<lparr>async_write_buf := Some wb\<rparr>) W1)"
      using assms(2) q by (intro queues_buffer) (simp_all add: silent_def)
    then show ?thesis using silent_then [OF q] assms(1) none n True wb by (simp add: ensure_write_buf_def)
  qed
qed

lemma append_write_buf_queues:
  assumes "append_write_buf i d W = (ok, W')" "i < length (connections (ctxt W))"
  shows "queues i (if ok then d else []) W W'"
proof (cases "async_write_buf (conn (cl W) i)")
  case None
  then show ?thesis using assms(1) by (auto simp: append_write_buf_def silent_queues)
next
  case (Some wb)
  obtain h W1 where n: "next_heap W = (h, W1)" by fastforce
  obtain rc wb1 where a: "write_buffer_append (h_realloc h) d wb = (rc, wb1)" by fastforce
  note q = silent_heap [OF n]
  have W': "ok = (\<not> rc < 0)" "W' = cl_conn i (\<lambda>c. c\<lparr>async_write_buf := Some wb1\<rparr>) W1"
    using assms(1) Some n a by (auto simp: append_write_buf_def)
  have "conn (cl W1) i = conn (cl W) i" using n by (auto simp: next_heap_def)
  then have v: "buf_sound i W1 = wb_ok wb" "queued i W1 = wb_content wb" using Some by (simp_all add: buf_sound_def queued_def)
  have "queues i (if ok then d else []) W1 W'"
    unfolding W'(2) by (rule queues_buffer) (use assms(2) q append_spec [OF _ a] v W'(1) in \<open>auto simp: silent_def\<close>)
  then show ?thesis by (rule silent_then [OF q])
qed

lemma try_immediate_write_silent: "silent W (try_immediate_write i W)"
proof (cases "async_write_buf (conn (cl W) i)")
  case None
  then show ?thesis by (simp add: try_immediate_write_def)
next
  case (Some wb)
  let ?f = "\<lambda>c. c\<lparr>async_write_buf := Some (write_buffer_set_pending True wb)\<rparr>"
  have p: "wb_ok (write_buffer_set_pending True wb) = wb_ok wb" "wb_content (write_buffer_set_pending True wb) = wb_content wb"
    by (simp_all add: write_buffer_set_pending_def wb_ok_def wb_content_def)
  have c: "silent V (cl_conn i ?f V)" if "silent W V" "ctxt V = ctxt W" for V
    using that Some p by (auto simp: silent_def stream_view_def queued_def buf_sound_def cl_conn_at)
  have "silent W (case cl_ring f W of (rc, W1) \<Rightarrow> if rc < 0 then W1
      else let W2 = snd (cl_ring (g W1) W1) in cl_submit (cl_conn i ?f W2))" for f g
  proof -
    obtain rc W1 where r: "cl_ring f W = (rc, W1)" by fastforce
    let ?W2 = "snd (cl_ring (g W1) W1)"
    have q: "silent W ?W2" by (rule silent_trans [OF silent_ring [OF r] silent_ring_snd])
    have x: "ctxt ?W2 = ctxt W" using r by (auto simp: cl_ring_def split: prod.splits)
    show ?thesis using silent_ring [OF r] silent_trans [OF silent_trans [OF q c [OF q x]] silent_submit] r
      by (simp add: Let_def)
  qed
  then show ?thesis using Some by (simp add: try_immediate_write_def split: option.split)
qed

section \<open>Lines and headers\<close>

lemma silent_chunk: "silent W (W\<lparr>requests := (requests W)(h := map_option (rq_chunk_count_update Suc) (requests W h))\<rparr>)"
  by (rule silent_requests) (simp add: rq_view_def option.map_comp comp_def)

abbreviation line_events :: "string list \<Rightarrow> string" where
  "line_events ls \<equiv> events (List.map_filter sse_line_content ls)"

lemma sse_line_queues:
  assumes "process_sse_line h i line W = (ok, W')" "i < length (connections (ctxt W))"
  shows "queues i (if ok then line_events [line] else []) W W'"
proof (cases "sse_line_content line")
  case None
  then show ?thesis using assms(1) by (auto simp: process_sse_line_def List.map_filter_def silent_queues)
next
  case (Some content)
  obtain ok1 W1 where e: "ensure_write_buf i W = (ok1, W1)" by fastforce
  obtain ok2 W2 where a: "append_write_buf i (event_of content) W1 = (ok2, W2)" by fastforce
  define W3 where "W3 = try_immediate_write i (cl_dirty i W2)"
  have q1: "queues i [] W W1" by (rule ensure_write_buf_queues [OF e assms(2)])
  then have "i < length (connections (ctxt W1))" using assms(2) by (simp add: queues_def)
  from queues_trans [OF q1 append_write_buf_queues [OF a this]] have q2: "queues i (if ok2 then event_of content else []) W W2" by simp
  have "silent W2 W3" unfolding W3_def by (rule silent_trans [OF silent_dirty try_immediate_write_silent])
  from queues_silent [OF q2 silent_trans [OF this silent_chunk]] show ?thesis
    using assms(1) Some e a q1 q2
    by (auto simp: process_sse_line_def format_8192 Let_def List.map_filter_def W3_def split: if_splits)
qed

lemma run_lines_queue:
  assumes "run_lines (\<lambda>line W. Some (process_sse_line h i line W)) ls W = Some (ok, W')" "i < length (connections (ctxt W))"
  shows "\<exists>d. queues i d W W' \<and> prefix d (line_events ls) \<and> (ok \<longrightarrow> d = line_events ls)"
  using assms
proof (induction ls arbitrary: W)
  case Nil
  then show ?case using silent_queues [OF silent_refl] by (auto simp: List.map_filter_def)
next
  case (Cons l ls)
  obtain ok1 W1 where s: "process_sse_line h i l W = (ok1, W1)" by fastforce
  note q = sse_line_queues [OF s Cons.prems(2)]
  have e: "line_events (l # ls) = line_events [l] @ line_events ls" by (subst map_filter_Cons) simp
  show ?case
  proof (cases ok1)
    case True
    then obtain d where "queues i d W1 W'" "prefix d (line_events ls)" "ok \<longrightarrow> d = line_events ls"
      using Cons.IH [of W1] Cons.prems s q by (auto simp: queues_def)
    then show ?thesis using queues_trans [of i "line_events [l]" W W1 d W'] q True unfolding e
      by (intro exI [of _ "line_events [l] @ d"]) simp
  next
    case False
    then show ?thesis using Cons.prems(1) s q by auto
  qed
qed

definition line_of :: "nat \<Rightarrow> curl_loop \<Rightarrow> string" where
  \<comment> \<open>the line buffer; none is an empty one\<close>
  "line_of i W = (case sse_line_buf (conn (cl W) i) of None \<Rightarrow> [] | Some b \<Rightarrow> b)"

definition with_headers :: "(nat \<times> bool \<times> bool) option \<Rightarrow> (nat \<times> bool \<times> bool) option" where
  "with_headers = map_option (\<lambda>(i, hs, st). (i, True, st))"

text \<open>The steps of the callback for the connection \<open>i\<close>: what it keeps, and what it queues.\<close>

definition reads :: "nat \<Rightarrow> string \<Rightarrow> curl_loop \<Rightarrow> curl_loop \<Rightarrow> bool" where
  "reads i d W W' \<longleftrightarrow> length (connections (ctxt W')) = length (connections (ctxt W))
     \<and> (\<forall>j. j \<noteq> i \<longrightarrow> stream_view j W' = stream_view j W)
     \<and> (buf_sound i W \<longrightarrow> buf_sound i W' \<and> queued i W' = queued i W @ d)"

lemma queues_reads: "queues i d W W' \<Longrightarrow> reads i d W W'" by (simp add: queues_def reads_def)

lemma reads_trans: "reads i d W V \<Longrightarrow> reads i e V X \<Longrightarrow> reads i (d @ e) W X" by (simp add: reads_def)

lemma reads_line: "reads i [] W (cl_conn i (\<lambda>c. c\<lparr>sse_line_buf := b, sse_line_len := l\<rparr>) W)"
  "reads i [] W (cl_conn i (\<lambda>c. c\<lparr>sse_line_cap := n, sse_line_buf := b, sse_line_len := l\<rparr>) W)"
  "reads i [] W (cl_conn i (\<lambda>c. c\<lparr>sse_line_cap := n\<rparr>) W)"
  by (simp_all add: reads_def stream_view_def queued_def buf_sound_def cl_conn_at)

lemma reads_silent: "silent W W' \<Longrightarrow> reads i [] W W'" by (simp add: queues_reads silent_queues)

lemma line_of_silent: "silent W W' \<Longrightarrow> line_of i W' = line_of i W"
  by (simp add: silent_def stream_view_def line_of_def)

lemma line_of_queues: "queues i d W W' \<Longrightarrow> line_of i W' = line_of i W"
  by (simp add: queues_def line_of_def)

lemma queue_headers_queues:
  assumes "queue_headers h i W = (ok, W')" "i < length (connections (ctxt W))"
  shows "reads i (if ok then SSE_HEADERS else []) W W'" "line_of i W' = line_of i W"
    "rq_view W' = (if ok then (rq_view W)(h := with_headers (rq_view W h)) else rq_view W)"
proof -
  obtain ok1 W1 where e: "ensure_write_buf i W = (ok1, W1)" by fastforce
  obtain ok2 W2 where a: "append_write_buf i SSE_HEADERS W1 = (ok2, W2)" by fastforce
  define W3 where "W3 = W2\<lparr>requests := (requests W2)(h := map_option (rq_headers_sent_update (\<lambda>_. True)) (requests W2 h))\<rparr>"
  define W4 where "W4 = try_immediate_write i (cl_conn i (state_update (\<lambda>_. CONN_STATE_CURL_ACTIVE)) (cl_dirty i W3))"
  have q1: "queues i [] W W1" by (rule ensure_write_buf_queues [OF e assms(2)])
  then have "i < length (connections (ctxt W1))" using assms(2) by (simp add: queues_def)
  from queues_trans [OF q1 append_write_buf_queues [OF a this]] have q2: "queues i (if ok2 then SSE_HEADERS else []) W W2" by simp
  have v3: "rq_view W3 = (rq_view W2)(h := with_headers (rq_view W2 h))"
    by (auto simp: fun_eq_iff rq_view_def W3_def with_headers_def option.map_comp comp_def)
  have r3: "reads i [] W2 W3" "line_of i W3 = line_of i W2"
    by (simp_all add: reads_def stream_view_def queued_def buf_sound_def line_of_def W3_def)
  have q4: "silent W3 W4" unfolding W4_def
    by (rule silent_trans [OF silent_trans [OF silent_dirty silent_conn] try_immediate_write_silent]) simp_all
  have W': "ok = (ok1 \<and> ok2)" "W' = (if \<not> ok1 then W1 else if \<not> ok2 then W2 else W4)"
    using assms(1) e a by (auto simp: queue_headers_def W3_def [symmetric] W4_def [symmetric] Let_def split: if_splits)
  from reads_trans [OF reads_trans [OF queues_reads [OF q2] r3(1)] reads_silent [OF q4]]
  show "reads i (if ok then SSE_HEADERS else []) W W'"
    using q1 q2 queues_reads W' by (cases ok1; cases ok2) simp_all
  show "line_of i W' = line_of i W"
    using line_of_queues [OF q1] line_of_queues [OF q2] r3(2) line_of_silent [OF q4] W' by simp
  have "rq_view W1 = rq_view W" "rq_view W2 = rq_view W" using q1 q2 by (simp_all add: queues_def)
  moreover have "rq_view W4 = rq_view W3" using q4 by (simp add: silent_def)
  ultimately show "rq_view W' = (if ok then (rq_view W)(h := with_headers (rq_view W h)) else rq_view W)"
    using W' v3 by simp
qed

lemma line_buf_reads:
  assumes "i < length (connections (ctxt W))"
  shows "ensure_line_buf i W = (ok, W') \<Longrightarrow> reads i [] W W' \<and> rq_view W' = rq_view W \<and> line_of i W' = line_of i W
      \<and> (ok \<longrightarrow> sse_line_buf (conn (cl W') i) \<noteq> None)"
    and "grow_line_buf i n W = (ok, W') \<Longrightarrow> reads i [] W W' \<and> rq_view W' = rq_view W
      \<and> sse_line_buf (conn (cl W') i) = sse_line_buf (conn (cl W) i)"
proof -
  obtain h W1 where n: "next_heap W = (h, W1)" by fastforce
  note q = silent_heap [OF n]
  have r1: "reads i [] W W1" "rq_view W1 = rq_view W" "line_of i W1 = line_of i W"
    "sse_line_buf (conn (cl W1) i) = sse_line_buf (conn (cl W) i)" "i < length (connections (ctxt W1))"
    using reads_silent [OF q] line_of_silent [OF q] q assms by (simp_all add: silent_def stream_view_def)
  have t: "reads i [] W (cl_conn i f W1)" if "reads i [] W1 (cl_conn i f W1)" for f
    using reads_trans [OF r1(1) that] by simp
  show "reads i [] W W' \<and> rq_view W' = rq_view W \<and> line_of i W' = line_of i W \<and> (ok \<longrightarrow> sse_line_buf (conn (cl W') i) \<noteq> None)"
    if "ensure_line_buf i W = (ok, W')"
    using that r1 n t reads_line reads_silent [OF silent_refl]
    by (auto simp: ensure_line_buf_def cl_conn_at line_of_def split: if_splits)
  show "reads i [] W W' \<and> rq_view W' = rq_view W \<and> sse_line_buf (conn (cl W') i) = sse_line_buf (conn (cl W) i)"
    if "grow_line_buf i n W = (ok, W')"
    using that r1 n t reads_line reads_silent [OF silent_refl]
    by (auto simp: grow_line_buf_def Let_def cl_conn_at split: if_splits)
qed

section \<open>The callback\<close>

definition streams :: "nat \<Rightarrow> string \<Rightarrow> string \<Rightarrow> bool \<Rightarrow> curl_loop \<Rightarrow> bool" where
  \<comment> \<open>after the text \<open>t\<close> of the API; \<open>base\<close> has left the queue already\<close>
  "streams i base t hs W \<longleftrightarrow> buf_sound i W \<and> line_of i W = snd (chop_lines t)
     \<and> base @ queued i W = (if hs then stream_of t else []) \<and> (hs \<or> t = [])"

definition cut_off :: "nat \<Rightarrow> string \<Rightarrow> string \<Rightarrow> curl_loop \<Rightarrow> bool" where
  "cut_off i base t W \<longleftrightarrow> buf_sound i W \<and> prefix (base @ queued i W) (stream_of t)"

lemma cut_off_more: "cut_off i base t W \<Longrightarrow> cut_off i base (t @ u) W"
  by (auto simp: cut_off_def stream_of_append intro: prefix_order.trans)

lemma streams_cut: "streams i base t hs W \<Longrightarrow> cut_off i base t W"
  by (auto simp: streams_def cut_off_def)

lemma streams_reads:
  "reads i [] W W' \<Longrightarrow> line_of i W' = line_of i W \<Longrightarrow> streams i base t hs W \<Longrightarrow> streams i base t hs W'"
  by (simp add: reads_def streams_def)

lemma reads_others: "reads i d W W' \<Longrightarrow> j \<noteq> i \<Longrightarrow> stream_view j W' = stream_view j W"
  by (simp add: reads_def)

lemma lines_rq_view:
  "run_lines (\<lambda>line W. Some (process_sse_line h i line W)) ls W = Some (ok, W') \<Longrightarrow> i < length (connections (ctxt W))
     \<Longrightarrow> rq_view W' = rq_view W"
  using run_lines_queue unfolding queues_def by blast

lemma callback_stream:
  assumes w: "curl_write_callback h rq ptr W = Some (n, W')" and i: "rq_conn rq = i" "i < length (connections (ctxt W))"
    and v: "rq_view W h = Some (i, rq_headers_sent rq, False)" and s: "streams i base t (rq_headers_sent rq) W"
  shows "\<exists>hs d. rq_view W' = (rq_view W)(h \<mapsto> (i, hs, False)) \<and> reads i d W W'
    \<and> (if n = length ptr then streams i base (t @ ptr) hs W' else cut_off i base (t @ ptr) W')"
proof -
  obtain ok1 W1 where h: "(if \<not> rq_headers_sent rq then queue_headers h i W else (True, W)) = (ok1, W1)" by fastforce
  have 1: "\<exists>d. reads i d W W1" "rq_view W1 = (rq_view W)(h \<mapsto> (i, ok1, False))" "streams i base t ok1 W1"
  proof -
    have "(\<exists>d. reads i d W W1) \<and> rq_view W1 = (rq_view W)(h \<mapsto> (i, ok1, False)) \<and> streams i base t ok1 W1"
    proof (cases "rq_headers_sent rq")
      case True
      then show ?thesis using h v s reads_silent [OF silent_refl] by (auto simp: fun_eq_iff)
    next
      case False
      then have q: "queue_headers h i W = (ok1, W1)" using h by simp
      note qh = queue_headers_queues [OF this i(2)]
      have t: "t = []" using s False by (simp add: streams_def)
      have "rq_view W1 = (rq_view W)(h \<mapsto> (i, ok1, False))"
        using qh(3) v False by (auto simp: with_headers_def fun_eq_iff)
      moreover have "streams i base t ok1 W1"
        using qh(1,2) s False t by (auto simp: streams_def reads_def stream_of_Nil)
      ultimately show ?thesis using qh(1) by blast
    qed
    then show "\<exists>d. reads i d W W1" "rq_view W1 = (rq_view W)(h \<mapsto> (i, ok1, False))" "streams i base t ok1 W1" by auto
  qed
  have n1: "i < length (connections (ctxt W1))" using 1(1) i(2) by (auto simp: reads_def)
  obtain ok2 W2 where l: "ensure_line_buf i W1 = (ok2, W2)" by fastforce
  note 2 = line_buf_reads(1) [OF n1 l]
  have n2: "i < length (connections (ctxt W2))" using 2 n1 by (simp add: reads_def)
  obtain ok3 W3 where g: "grow_line_buf i (length ptr) W2 = (ok3, W3)" by fastforce
  note 3 = line_buf_reads(2) [OF n2 g]
  have l3: "line_of i W3 = line_of i W2" using 3 by (simp add: line_of_def)
  have s2: "streams i base t ok1 W2" using streams_reads 2 1(3) by blast
  have s3: "streams i base t ok1 W3" using streams_reads 3 l3 s2 by blast
  have fail: ?thesis if "W' = V" "n = 0" "\<exists>d. reads i d W V" "rq_view V = (rq_view W)(h \<mapsto> (i, ok1, False))" "streams i base t ok1 V" for V
  proof -
    have "if n = length ptr then streams i base (t @ ptr) ok1 W' else cut_off i base (t @ ptr) W'"
      using that(1,2,5) streams_cut [OF that(5)] cut_off_more by (cases ptr) auto
    then show ?thesis using that by blast
  qed
  show ?thesis
  proof (cases "ok1 \<and> ok2 \<and> ok3")
    case False
    have e: "W' = (if \<not> ok1 then W1 else if \<not> ok2 then W2 else W3) \<and> n = 0"
      using w h l g False i(1) by (auto simp: curl_write_callback_def Let_def split: if_splits)
    have r2: "\<exists>d. reads i d W W2" using 1(1) 2 reads_trans by blast
    then have r3: "\<exists>d. reads i d W W3" using 3 reads_trans by blast
    have v2: "rq_view W2 = (rq_view W)(h \<mapsto> (i, ok1, False))" using 1(2) 2 by simp
    then have v3: "rq_view W3 = (rq_view W)(h \<mapsto> (i, ok1, False))" using 3 by simp
    consider "W' = W1" | "W' = W2" | "W' = W3" using e by metis
    then show ?thesis using fail [OF _ _ 1] fail [OF _ _ r2 v2 s2] fail [OF _ _ r3 v3 s3] e by cases blast+
  next
    case True
    let ?h = "\<lambda>line W. Some (process_sse_line h i line W)"
    define W4 where "W4 = set_line i (the (sse_line_buf (conn (cl W3) i)) @ ptr) W3"
    have n3: "i < length (connections (ctxt W3))" using 3 n2 by (simp add: reads_def)
    have lb: "the (sse_line_buf (conn (cl W4) i)) = snd (chop_lines t) @ ptr"
      using s3 2 3 True n3 by (auto simp: W4_def set_line_def cl_conn_at streams_def line_of_def)
    obtain ok4 b W5 where p: "process_lines ?h [] (snd (chop_lines t) @ ptr) W4 = Some (ok4, b, W5)"
      and W': "n = (if ok4 then length ptr else 0)"
        "W' = (if ok4 then try_immediate_write i (set_line i b W5) else set_line i b W5)"
      using w h l g True i(1) lb by (auto simp: curl_write_callback_def W4_def [symmetric] Let_def bind_eq_Some_conv split: if_splits)
    have r4: "reads i [] W3 W4" "rq_view W4 = rq_view W3" by (simp_all add: W4_def set_line_def reads_line)
    have n4: "i < length (connections (ctxt W4))" using r4(1) n3 by (simp add: reads_def)
    note pl = process_lines_cases [OF p]
    obtain d where d: "queues i d W4 W5" "prefix d (events (contents (snd (chop_lines t) @ ptr)))"
        "ok4 \<longrightarrow> d = events (contents (snd (chop_lines t) @ ptr))"
      using run_lines_queue [OF pl(1) n4] unfolding contents_def by blast
    have r5: "reads i [] W5 (set_line i b W5)" "line_of i (set_line i b W5) = b" "rq_view (set_line i b W5) = rq_view W5"
      using d(1) n4 by (simp_all add: set_line_def reads_line line_of_def cl_conn_at queues_def)
    have q6: "silent (set_line i b W5) W'" unfolding W'(2) using try_immediate_write_silent by simp
    have r6: "reads i d W3 W'"
      using reads_trans [OF reads_trans [OF r4(1) queues_reads [OF d(1)]] reads_trans [OF r5(1) reads_silent [OF q6]]] by simp
    have v6: "rq_view W' = (rq_view W)(h \<mapsto> (i, True, False))"
      using q6 r5(3) d(1) r4(2) 3 2 1(2) True by (simp add: silent_def queues_def)
    have q: "buf_sound i W'" "base @ queued i W' = stream_of t @ d" using r6 s3 True by (auto simp: reads_def streams_def simp flip: append_assoc)
    have "if n = length ptr then streams i base (t @ ptr) True W' else cut_off i base (t @ ptr) W'"
    proof (cases ok4)
      case ok: True
      have "snd (chop_lines (t @ ptr)) = snd (chop_lines (snd (chop_lines t) @ ptr))"
        by (simp add: chop_lines_append [of t ptr] split: prod.split)
      moreover have "line_of i W' = b" using line_of_silent [OF q6] r5(2) by simp
      ultimately show ?thesis using q d(3) ok W'(1) pl(2) by (simp add: streams_def stream_of_append)
    next
      case False
      have "ptr \<noteq> []"
      proof
        assume "ptr = []"
        then have "fst (chop_lines (snd (chop_lines t) @ ptr)) = []" by (simp add: chop_lines_of_rest chop_lines_rest)
        then show False using pl(1) False by simp
      qed
      then show ?thesis using q d(2) False W'(1) by (auto simp: cut_off_def stream_of_append)
    qed
    moreover have "\<exists>d. reads i d W W'" using 1(1) 2 3 r6 reads_trans by blast
    ultimately show ?thesis using v6 by blast
  qed
qed

text \<open>A callback of another request.\<close>

definition aside :: "nat \<Rightarrow> nat \<Rightarrow> curl_loop \<Rightarrow> curl_loop \<Rightarrow> bool" where
  \<comment> \<open>only the connection \<open>i\<close> and the request \<open>h\<close> were worked on\<close>
  "aside h i W W' \<longleftrightarrow> (\<exists>d. reads i d W W') \<and> (\<forall>k. k \<noteq> h \<longrightarrow> rq_view W' k = rq_view W k)"

lemma aside_trans: "aside h i W V \<Longrightarrow> aside h i V X \<Longrightarrow> aside h i W X"
  unfolding aside_def using reads_trans by metis

lemma aside_reads: "reads i d W W' \<Longrightarrow> rq_view W' = rq_view W \<Longrightarrow> aside h i W W'"
  by (auto simp: aside_def)

lemma aside_silent: "silent W W' \<Longrightarrow> aside h i W W'"
  using aside_reads [OF reads_silent] by (simp add: silent_def)

lemma callback_aside:
  assumes w: "curl_write_callback h rq ptr W = Some (n, W')" and i: "rq_conn rq = i" "i < length (connections (ctxt W))"
  shows "aside h i W W'"
proof -
  have len: "aside h i W V \<Longrightarrow> i < length (connections (ctxt V))" for V
    using i(2) by (auto simp: aside_def reads_def)
  obtain ok1 W1 where h: "(if \<not> rq_headers_sent rq then queue_headers h i W else (True, W)) = (ok1, W1)" by fastforce
  have 1: "aside h i W W1"
    using h queue_headers_queues [OF _ i(2), of h ok1 W1] aside_silent [OF silent_refl]
    by (auto simp: aside_def split: if_splits)
  obtain ok2 W2 where l: "ensure_line_buf i W1 = (ok2, W2)" by fastforce
  have 2: "aside h i W W2" using aside_trans [OF 1] aside_reads line_buf_reads(1) [OF len [OF 1] l] by blast
  obtain ok3 W3 where g: "grow_line_buf i (length ptr) W2 = (ok3, W3)" by fastforce
  have 3: "aside h i W W3" using aside_trans [OF 2] aside_reads line_buf_reads(2) [OF len [OF 2] g] by blast
  define W4 where "W4 = set_line i (the (sse_line_buf (conn (cl W3) i)) @ ptr) W3"
  have a: "aside h i V (set_line i b V)" for V b
    unfolding set_line_def by (rule aside_reads [OF reads_line(1)]) simp
  have 4: "aside h i W W4" unfolding W4_def by (rule aside_trans [OF 3 a])
  show ?thesis
  proof (cases "ok1 \<and> ok2 \<and> ok3")
    case False
    then have "W' \<in> {W1, W2, W3}" using w h l g i(1) by (auto simp: curl_write_callback_def Let_def split: if_splits)
    then show ?thesis using 1 2 3 by auto
  next
    case True
    let ?h = "\<lambda>line W. Some (process_sse_line h i line W)"
    obtain ok4 b W5 where p: "process_lines ?h [] (the (sse_line_buf (conn (cl W4) i))) W4 = Some (ok4, b, W5)"
      and W': "W' = (if ok4 then try_immediate_write i (set_line i b W5) else set_line i b W5)"
      using w h l g True i(1) by (auto simp: curl_write_callback_def W4_def [symmetric] Let_def bind_eq_Some_conv split: if_splits)
    from run_lines_queue [OF process_lines_cases(1) [OF p] len [OF 4]]
    obtain d where d: "queues i d W4 W5" by blast
    have "rq_view W5 = rq_view W4" using d by (simp add: queues_def)
    then have 5: "aside h i W W5" by (rule aside_trans [OF 4 aside_reads [OF queues_reads [OF d]]])
    then show ?thesis unfolding W' using aside_trans [OF aside_trans [OF 5 a] aside_silent [OF try_immediate_write_silent]] aside_trans [OF 5 a]
      by auto
  qed
qed

section \<open>Everything that libcurl does in a call\<close>

fun heard :: "nat \<Rightarrow> curl_event list \<Rightarrow> string" where
  \<comment> \<open>the text of the API that is delivered for the request \<open>h\<close>\<close>
  "heard h [] = []"
| "heard h (e # es) = (case e of Write_cb k ptr \<Rightarrow> if k = h then ptr else [] | _ \<Rightarrow> []) @ heard h es"

definition served :: "nat \<Rightarrow> nat \<Rightarrow> string \<Rightarrow> string \<Rightarrow> curl_loop \<Rightarrow> bool" where
  "served h i base t W \<longleftrightarrow> (\<exists>hs st. rq_view W h = Some (i, hs, st)
     \<and> (if st then cut_off i base t W else streams i base t hs W))"

definition own_conns :: "curl_loop \<Rightarrow> bool" where
  \<comment> \<open>no two requests for a connection\<close>
  "own_conns W \<longleftrightarrow> (\<forall>h i hs st. rq_view W h = Some (i, hs, st) \<longrightarrow> i < length (connections (ctxt W))
     \<and> (\<forall>k hs' st'. rq_view W k = Some (i, hs', st') \<longrightarrow> k = h))"

lemma own_conns_inv: "curl_inv W \<Longrightarrow> own_conns W"
proof -
  have r: "rq_view W h = Some (i, hs, st) \<Longrightarrow> reqs W h = Some i" for h i hs st by (auto simp: rq_view_def reqs_def)
  show "own_conns W" if "curl_inv W"
    using that r unfolding own_conns_def curl_inv_def ctx_ok_def by (metis option.inject)
qed

lemma own_conns_same:
  assumes "length (connections (ctxt W')) = length (connections (ctxt W))"
    and "\<And>h. map_option fst (rq_view W' h) = map_option fst (rq_view W h)" "own_conns W"
  shows "own_conns W'"
proof -
  have b: "\<exists>hs st. rq_view W k = Some (i, hs, st)" if "rq_view W' k = Some (i, hs, st)" for i k hs st
    using that assms(2) [of k] by (cases "rq_view W k") auto
  show ?thesis using assms(1,3) b unfolding own_conns_def by metis
qed

lemma served_view:
  "stream_view i W' = stream_view i W \<Longrightarrow> rq_view W' h = rq_view W h \<Longrightarrow> served h i base t W = served h i base t W'"
  by (simp add: served_def stream_view_def streams_def cut_off_def line_of_def)

lemma served_silent: "silent W W' \<Longrightarrow> own_conns W \<Longrightarrow> served h i base t W \<Longrightarrow> served h i base t W' \<and> own_conns W'"
  using served_view [of i W' W h base t] own_conns_same [of W' W] by (simp add: silent_def)

lemma rq_view_stop:
  "rq_view (W\<lparr>requests := (requests W)(h := map_option (rq_stopped_update (\<lambda>_. True)) (requests W h))\<rparr>)
     = (rq_view W)(h := map_option (\<lambda>(i, hs, st). (i, hs, True)) (rq_view W h))"
  by (auto simp: fun_eq_iff rq_view_def option.map_comp comp_def)

lemma run_event_served:
  assumes "run_event e W = Some W'" "own_conns W" "served h i base t W"
  shows "served h i base (t @ heard h [e]) W' \<and> own_conns W'"
proof (cases e)
  case (Socket_cb fd what)
  then show ?thesis using assms served_silent [OF socket_callback_silent] by auto
next
  case (Timer_cb ms)
  then show ?thesis using assms served_silent [OF timer_callback_silent] by auto
next
  case (Write_cb k ptr)
  show ?thesis
  proof (cases "requests W k = None \<or> rq_stopped (the (requests W k))")
    case True
    then have "W' = W" using assms(1) Write_cb by (auto split: option.splits)
    moreover have "served h i base (t @ u) W" if "k = h" for u
    proof -
      obtain hs st where v: "rq_view W h = Some (i, hs, st)" "if st then cut_off i base t W else streams i base t hs W"
        using assms(3) by (auto simp: served_def)
      then have st using True that by (auto simp: rq_view_def)
      then show ?thesis using v cut_off_more by (auto simp: served_def)
    qed
    ultimately show ?thesis using assms(2,3) Write_cb by (cases "k = h") simp_all
  next
    case False
    then obtain rq where rq: "requests W k = Some rq" "\<not> rq_stopped rq" by auto
    obtain n W1 where w: "curl_write_callback k rq ptr W = Some (n, W1)"
      and W': "W' = (if n = length ptr then W1
        else W1\<lparr>requests := (requests W1)(k := map_option (rq_stopped_update (\<lambda>_. True)) (requests W1 k))\<rparr>)"
      using assms(1) Write_cb rq by (auto simp: bind_eq_Some_conv)
    have v: "rq_view W k = Some (rq_conn rq, rq_headers_sent rq, False)" using rq by (simp add: rq_view_def)
    have len: "rq_conn rq < length (connections (ctxt W))" using v assms(2) unfolding own_conns_def by blast
    note as = callback_aside [OF w refl len]
    have sv: "stream_view j W' = stream_view j W1" "ctxt W' = ctxt W1" for j
      by (simp_all add: W' stream_view_def queued_def buf_sound_def)
    have k1: "map_option fst (rq_view W1 k) = map_option fst (rq_view W k)"
    proof -
      have "map_option rq_conn (requests W1 k) = map_option rq_conn (requests W k)"
        using keeps_reqs [OF write_callback_keeps [OF w]] rq by (metis option.map(2) reqs_def)
      then show ?thesis by (simp add: rq_view_def option.map_comp comp_def)
    qed
    have conns: "map_option fst (rq_view W' j) = map_option fst (rq_view W j)" for j
    proof (cases "j = k")
      case True
      then show ?thesis using k1 by (simp add: W' rq_view_stop option.map_comp comp_def split_def)
    next
      case False
      then show ?thesis using as by (simp add: W' rq_view_stop aside_def)
    qed
    have "length (connections (ctxt W')) = length (connections (ctxt W))" using as sv by (auto simp: aside_def reads_def)
    then have own: "own_conns W'" using own_conns_same [OF _ conns assms(2)] by blast
    show ?thesis
    proof (cases "k = h")
      case True
      then have s: "streams i base t (rq_headers_sent rq) W" and i: "rq_conn rq = i"
        using v assms(3) by (auto simp: served_def)
      obtain hs d where c: "rq_view W1 = (rq_view W)(k \<mapsto> (i, hs, False))"
          "if n = length ptr then streams i base (t @ ptr) hs W1 else cut_off i base (t @ ptr) W1"
        using callback_stream [OF w i _ v [unfolded i] s] len i by blast
      have "served h i base (t @ ptr) W'"
      proof (cases "n = length ptr")
        case True
        then show ?thesis using c \<open>k = h\<close> W' unfolding served_def by (intro exI [of _ hs] exI [of _ False]) simp
      next
        case False
        have "cut_off i base (t @ ptr) W'" using c(2) False by (simp add: W' cut_off_def buf_sound_def queued_def)
        then show ?thesis using c(1) \<open>k = h\<close> False unfolding served_def
          by (intro exI [of _ hs] exI [of _ True]) (simp add: W' rq_view_stop)
      qed
      then show ?thesis using own True Write_cb by simp
    next
      case False
      have "i \<noteq> rq_conn rq" using v assms(2,3) False unfolding own_conns_def served_def by blast
      then have "stream_view i W' = stream_view i W" using as sv by (auto simp: aside_def reads_def)
      moreover have "rq_view W' h = rq_view W h" using as False by (simp add: W' rq_view_stop aside_def)
      ultimately have "served h i base t W'" using served_view [of i W' W h base t] assms(3) by blast
      then show ?thesis using own False Write_cb by simp
    qed
  qed
qed

lemma heard_Cons: "heard h (e # es) = heard h [e] @ heard h es" by simp

lemma run_events_served:
  "run_events es W = Some W' \<Longrightarrow> own_conns W \<Longrightarrow> served h i base t W \<Longrightarrow> served h i base (t @ heard h es) W' \<and> own_conns W'"
proof (induction es arbitrary: W t)
  case (Cons e es)
  then obtain W1 where "run_event e W = Some W1" "run_events es W1 = Some W'" by (auto simp: bind_eq_Some_conv)
  with run_event_served [of e W W1 h i base t] Cons show ?case
    by (subst heard_Cons) (metis append.assoc)
qed simp

end
