(* ===== verification/Curl_Proper.thy ===== *)
theory Curl_Proper
  imports Curl_System Curl_Stream
begin

text \<open>
  What holds of the connections in every state of the curl mode: each write buffer is one in the sense
  of \<open>Write_Buffer\<close>, only a connection that waits for the API, receives from it or is closing has one,
  and a connection with bytes to be written is on the dirty list, so a flush of that list misses none.
\<close>

section \<open>Contexts\<close>

definition proper :: "connection \<Rightarrow> bool" where
  "proper c \<longleftrightarrow> (\<forall>wb. async_write_buf c = Some wb \<longrightarrow> wb_ok wb
         \<and> state c \<in> {CONN_STATE_CURL_PENDING, CONN_STATE_CURL_ACTIVE, CONN_STATE_CLOSING}
         \<and> (write_buffer_has_data wb \<longrightarrow> on_dirty_list c \<and> state c \<noteq> CONN_STATE_CURL_PENDING))"

definition proper_but :: "nat option \<Rightarrow> daemon_ctx \<Rightarrow> bool" where
  \<comment> \<open>all connections but one\<close>
  "proper_but x ctx \<longleftrightarrow> (\<forall>j < length (connections ctx). x \<noteq> Some j \<longrightarrow> proper (conn_at ctx j))"

lemma proper_but_upd:
  assumes "proper_but x ctx" "x \<noteq> Some i \<Longrightarrow> proper (conn_at ctx i) \<Longrightarrow> proper (f (conn_at ctx i))"
  shows "proper_but x (upd_conn i f ctx)"
  unfolding proper_but_def
proof (intro allI impI)
  fix j assume j: "j < length (connections (upd_conn i f ctx))" "x \<noteq> Some j"
  then show "proper (conn_at (upd_conn i f ctx) j)" using assms by (cases "j = i") (auto simp: proper_but_def)
qed

lemma proper_but_same:
  "proper_but x ctx \<Longrightarrow> (\<And>c. async_write_buf (f c) = async_write_buf c \<and> state (f c) = state c \<and> on_dirty_list (f c) = on_dirty_list c)
     \<Longrightarrow> proper_but x (upd_conn i f ctx)"
  by (erule proper_but_upd) (simp add: proper_def)

lemma proper_but_self: "proper_but (Some i) ctx \<Longrightarrow> proper_but (Some i) (upd_conn i f ctx)"
  by (erule proper_but_upd) simp

lemma proper_but_conns: "connections ctx' = connections ctx \<Longrightarrow> proper_but x ctx' = proper_but x ctx"
  by (simp add: proper_but_def conn_at_def)

lemma proper_but_fields [simp]:
  "proper_but x (ctx\<lparr>dirty_head := v\<rparr>) = proper_but x ctx" "proper_but x (ctx\<lparr>dirty_tail := v\<rparr>) = proper_but x ctx"
  "proper_but x (ctx\<lparr>dirty_head := v, dirty_tail := w\<rparr>) = proper_but x ctx" "proper_but x (close_fd fd ctx) = proper_but x ctx"
  "proper_but x (ctx\<lparr>free_list := v\<rparr>) = proper_but x ctx"
  "proper_but x (ctx\<lparr>free_list := v, active_connections := n\<rparr>) = proper_but x ctx"
  "proper_but x (ctx\<lparr>active_connections := n, peak_connections := p\<rparr>) = proper_but x ctx"
  "proper_but x (ctx\<lparr>shutdown_requested := b\<rparr>) = proper_but x ctx" "proper_but x (ctx\<lparr>total_started := t\<rparr>) = proper_but x ctx"
  "proper_but x (dctx (count_failed L)) = proper_but x (dctx L)" "proper_but x (dctx (count_completed i L)) = proper_but x (dctx L)"
  by (rule proper_but_conns; simp add: close_fd_def count_failed_def count_completed_def)+

lemma proper_weaken: "proper_but None ctx \<Longrightarrow> proper_but x ctx" by (simp add: proper_but_def)

lemma proper_all: "proper_but (Some i) ctx \<Longrightarrow> (i < length (connections ctx) \<Longrightarrow> proper (conn_at ctx i)) \<Longrightarrow> proper_but None ctx"
  by (auto simp: proper_but_def)

text \<open>Marking a connection dirty: only its mark changes.\<close>

lemma mark_at:
  assumes "i < length (connections ctx)"
  shows "state (conn_at (daemon_mark_connection_dirty i ctx) j) = state (conn_at ctx j)"
    "on_dirty_list (conn_at (daemon_mark_connection_dirty i ctx) j) = (j = i \<or> on_dirty_list (conn_at ctx j))"
proof -
  have h: "conn_at (c\<lparr>dirty_head := x\<rparr>) j = conn_at c j" "conn_at (c\<lparr>dirty_tail := x\<rparr>) j = conn_at c j"
    "conn_at (c\<lparr>dirty_head := x, dirty_tail := y\<rparr>) j = conn_at c j" for c x y
    by (simp_all add: conn_at_def)
  let ?c1 = "upd_conn i (\<lambda>c. c\<lparr>on_dirty_list := True, dirty_next := None\<rparr>) ctx"
  have c1: "state (conn_at ?c1 j) = state (conn_at ctx j)" "on_dirty_list (conn_at ?c1 j) = (j = i \<or> on_dirty_list (conn_at ctx j))"
    using assms by (cases "j = i"; simp)+
  have n: "state (conn_at (upd_conn t (dirty_next_update g) c) j) = state (conn_at c j)"
    "on_dirty_list (conn_at (upd_conn t (dirty_next_update g) c) j) = on_dirty_list (conn_at c j)" for t g c
    by (cases "t < length (connections c)"; cases "j = t"; simp add: upd_conn_def conn_at_def list_update_beyond)+
  show "state (conn_at (daemon_mark_connection_dirty i ctx) j) = state (conn_at ctx j)"
    "on_dirty_list (conn_at (daemon_mark_connection_dirty i ctx) j) = (j = i \<or> on_dirty_list (conn_at ctx j))"
    unfolding daemon_mark_connection_dirty_def Let_def using c1 by (auto simp: n h split: option.split)
qed

lemma mark_proper:
  assumes "proper_but x ctx"
  shows "proper_but x (daemon_mark_connection_dirty i ctx)"
proof -
  have "proper_but x (upd_conn i (\<lambda>c. c\<lparr>on_dirty_list := True, dirty_next := None\<rparr>) ctx)"
    by (rule proper_but_upd [OF assms]) (simp add: proper_def)
  then show ?thesis using assms
    by (simp add: daemon_mark_connection_dirty_def Let_def proper_but_same split: option.split)
qed

definition nearly :: "connection \<Rightarrow> bool" where
  \<comment> \<open>proper once it is marked\<close>
  "nearly c \<longleftrightarrow> proper (c\<lparr>on_dirty_list := True\<rparr>)"

lemma mark_nearly:
  assumes "proper_but (Some i) ctx" "nearly (conn_at ctx i)"
  shows "proper_but None (daemon_mark_connection_dirty i ctx)"
proof (rule proper_all [OF mark_proper [OF assms(1)]])
  assume "i < length (connections (daemon_mark_connection_dirty i ctx))"
  then have "i < length (connections ctx)" using dirty_streams by simp
  from mark_at [OF this, of i] show "proper (conn_at (daemon_mark_connection_dirty i ctx) i)"
    using assms(2) dirty_streams [of i ctx i] by (simp add: nearly_def proper_def)
qed

lemma unlink_proper: "proper_but x ctx \<Longrightarrow> proper_but x (dirty_unlink i prev ctx)"
  by (auto simp: dirty_unlink_def Let_def split: option.split intro!: proper_but_same)

lemma unmark_proper: "daemon_unmark_connection_dirty i ctx = Some ctx' \<Longrightarrow> proper_but (Some i) ctx \<Longrightarrow> proper_but (Some i) ctx'"
  by (auto simp: daemon_unmark_connection_dirty_def bind_eq_Some_conv clear_dirty_def split: if_splits option.splits
      intro!: proper_but_self unlink_proper)

lemma free_proper: "proper_but (Some i) ctx \<Longrightarrow> proper_but None (conn_free i ctx)"
proof -
  assume a: "proper_but (Some i) ctx"
  have "proper_but (Some i) (conn_close_fds i ctx)"
    unfolding conn_close_fds_def Let_def using a by (auto intro!: proper_but_same)
  then have "proper_but (Some i) (upd_conn i conn_reset (conn_close_fds i ctx))" by (rule proper_but_self)
  then have "proper_but None (upd_conn i conn_reset (conn_close_fds i ctx))"
    by (rule proper_all) (simp add: proper_def conn_reset_def)
  then show ?thesis unfolding conn_free_def Let_def by (simp add: proper_but_same)
qed

lemma alloc_proper: "conn_alloc m ctx = (r, c) \<Longrightarrow> proper_but x ctx \<Longrightarrow> proper_but x c"
proof -
  assume c: "conn_alloc m ctx = (r, c)" and a: "proper_but x ctx"
  have b: "proper d = proper y" if "attach_handoff_buf m y = Some d" for y d
    using that by (auto simp: attach_handoff_buf_def proper_def split: option.splits)
  show "proper_but x c"
  proof (cases "free_list ctx")
    case None
    then show ?thesis using c a by (simp add: conn_alloc_def)
  next
    case (Some i)
    let ?c1 = "upd_conn i (next_free_update (\<lambda>_. None)) (ctx\<lparr>free_list := next_free (conn_at ctx i)\<rparr>)"
    have c1: "proper_but x ?c1" using a by (simp add: proper_but_same)
    show ?thesis
    proof (cases "attach_handoff_buf m (conn_at ?c1 i)")
      case None
      then show ?thesis using c Some c1 by (auto simp: conn_alloc_def Let_def simp del: upd_conn_fields intro!: proper_but_same)
    next
      case d: (Some d)
      have "proper_but x (upd_conn i (\<lambda>_. d) ?c1)" by (rule proper_but_upd [OF c1]) (simp add: b [OF d])
      then show ?thesis using c Some d by (auto simp: conn_alloc_def Let_def simp del: upd_conn_fields)
    qed
  qed
qed

section \<open>The invariant of the connections\<close>

definition answered :: "curl_loop \<Rightarrow> bool" where
  \<comment> \<open>once the headers were queued the connection is receiving\<close>
  "answered W \<longleftrightarrow> (\<forall>h i st. rq_view W h = Some (i, True, st) \<longrightarrow> state (conn (cl W) i) = CONN_STATE_CURL_ACTIVE)"

definition sound_loop :: "curl_loop \<Rightarrow> bool" where
  "sound_loop W \<longleftrightarrow> proper_but None (ctxt W) \<and> answered W"

definition sound_result :: "curl_loop option \<Rightarrow> bool" where
  "sound_result r \<longleftrightarrow> (\<forall>W'. r = Some W' \<longrightarrow> sound_loop W')"

lemma sound_some [simp]: "sound_result (Some W) = sound_loop W" by (simp add: sound_result_def)

lemma sound_at: "sound_loop W \<Longrightarrow> i < length (connections (ctxt W)) \<Longrightarrow> proper (conn (cl W) i)"
  by (simp add: sound_loop_def proper_but_def)

lemma answered_at: "sound_loop W \<Longrightarrow> rq_view W h = Some (i, hs, st) \<Longrightarrow> hs \<Longrightarrow> state (conn (cl W) i) = CONN_STATE_CURL_ACTIVE"
  by (auto simp: sound_loop_def answered_def)

text \<open>The requests that remain are as before, and their connections have their states.\<close>

lemma answered_frame:
  assumes "answered W" and "\<And>h i hs st. rq_view W' h = Some (i, hs, st) \<Longrightarrow>
      rq_view W h = Some (i, hs, st) \<and> state (conn (cl W') i) = state (conn (cl W) i)"
  shows "answered W'"
  using assms unfolding answered_def by metis

lemma answered_loop: "rq_view W' = rq_view W \<Longrightarrow> (\<And>j. state (conn (cl W') j) = state (conn (cl W) j)) \<Longrightarrow> answered W \<Longrightarrow> answered W'"
  by (rule answered_frame) simp_all

lemma proper_conn:
  "proper_but x (ctxt W) \<Longrightarrow> (\<And>c. async_write_buf (f c) = async_write_buf c \<and> state (f c) = state c \<and> on_dirty_list (f c) = on_dirty_list c)
     \<Longrightarrow> proper_but x (ctxt (cl_conn i f W))"
  by (simp add: cl_conn_def with_conn_def proper_but_same)

lemma sound_conn:
  assumes "sound_loop W" "\<And>c. async_write_buf (f c) = async_write_buf c \<and> state (f c) = state c \<and> on_dirty_list (f c) = on_dirty_list c"
  shows "sound_loop (cl_conn i f W)"
proof -
  have "answered (cl_conn i f W)"
    by (rule answered_loop [of _ W]) (use assms in \<open>auto simp: cl_conn_at sound_loop_def\<close>)
  then show ?thesis using assms by (simp add: sound_loop_def proper_conn)
qed

lemma sound_ctxt: "ctxt W' = ctxt W \<Longrightarrow> rq_view W' = rq_view W \<Longrightarrow> sound_loop W' = sound_loop W"
  by (simp add: sound_loop_def answered_def)

lemma sound_submit [simp]: "sound_loop (cl_submit W) = sound_loop W"
  by (rule sound_ctxt) (simp_all add: cl_submit_def cl_ring_def)

section \<open>Freeing a connection\<close>

lemma cleanup_frees:
  assumes "cleanup_connection i L = Some L'" "proper_but (Some i) (dctx L)" "i < length (connections (dctx L))"
  shows "proper_but None (dctx L')" "j \<noteq> i \<Longrightarrow> state (conn L' j) = state (conn L j)"
proof -
  obtain c where u: "daemon_unmark_connection_dirty i (dctx L) = Some c" and L': "L' = L\<lparr>dctx := conn_free i c\<rparr>"
    using assms(1) by (auto simp: cleanup_connection_def bind_eq_Some_conv)
  show "proper_but None (dctx L')" using free_proper [OF unmark_proper [OF u assms(2)]] by (simp add: L')
  note s = unmark_same [OF u, unfolded same_conns_def]
  then have "i < length (connections c)" using assms(3) by simp
  from conn_free_at [OF this] s show "state (conn L' j) = state (conn L j)" if "j \<noteq> i" using that by (simp add: L')
qed

lemma cancel_sound:
  assumes inv: "curl_inv W" and s: "sound_loop W" and i: "i < length (connections (ctxt W))"
  shows "sound_result (cancel_and_cleanup i W)"
proof -
  define W1 where "W1 = (if use_curl_multi (ctxt W) \<and> curl_easy (conn (cl W) i) \<noteq> None
      then curl_manager_cancel_request i W else W)"
  have d: "cancel_and_cleanup i W = lift_loop (cleanup_connection i) W1"
    unfolding cancel_and_cleanup_def W1_def ..
  have r: "rq_view W h = Some (k, hs, st) \<Longrightarrow> curl_easy (conn (cl W) k) = Some h" for h k hs st
    using inv unfolding curl_inv_def ctx_ok_def by (auto simp: rq_view_def reqs_def)
  have m: "use_curl_multi (ctxt W)" using inv by (simp add: curl_inv_def ctx_ok_def)
  have W1: "proper_but None (ctxt W1)" "length (connections (ctxt W1)) = length (connections (ctxt W))"
    "state (conn (cl W1) j) = state (conn (cl W) j)"
    "rq_view W1 h = Some (k, hs, st) \<Longrightarrow> rq_view W h = Some (k, hs, st) \<and> k \<noteq> i" for j h k hs st
  proof -
    have "proper_but None (ctxt W1) \<and> length (connections (ctxt W1)) = length (connections (ctxt W))
      \<and> state (conn (cl W1) j) = state (conn (cl W) j)
      \<and> (rq_view W1 h = Some (k, hs, st) \<longrightarrow> rq_view W h = Some (k, hs, st) \<and> k \<noteq> i)"
    proof (cases "curl_easy (conn (cl W) i)")
      case None
      then show ?thesis using s r [of h k hs st] by (auto simp: W1_def sound_loop_def)
    next
      case (Some e)
      then have w: "W1 = drop_request e i W" using m by (simp add: W1_def curl_manager_cancel_request_def)
      have "rq_view W1 = (rq_view W)(e := None)" by (auto simp: w drop_request_def rq_view_def cl_conn_def fun_eq_iff)
      then show ?thesis using s r [of h k hs st] Some
        by (auto simp: w drop_request_def cl_conn_at sound_loop_def proper_conn split: if_splits)
    qed
    then show "proper_but None (ctxt W1)" "length (connections (ctxt W1)) = length (connections (ctxt W))"
      "state (conn (cl W1) j) = state (conn (cl W) j)"
      "rq_view W1 h = Some (k, hs, st) \<Longrightarrow> rq_view W h = Some (k, hs, st) \<and> k \<noteq> i" by blast+
  qed
  have "sound_loop (W1\<lparr>cl := L\<rparr>)" if c: "cleanup_connection i (cl W1) = Some L" for L
  proof -
    note f = cleanup_frees [OF c proper_weaken [OF W1(1)]]
    have i1: "i < length (connections (ctxt W1))" using i W1(2) by simp
    have "answered (W1\<lparr>cl := L\<rparr>)"
    proof (rule answered_frame)
      show "answered W" using s by (simp add: sound_loop_def)
      show "rq_view W h = Some (k, hs, st) \<and> state (conn (cl (W1\<lparr>cl := L\<rparr>)) k) = state (conn (cl W) k)"
        if "rq_view (W1\<lparr>cl := L\<rparr>) h = Some (k, hs, st)" for h k hs st
        using W1(4) [of h k hs st] W1(3) [of k] f(2) [OF i1, of k] that by simp
    qed
    then show ?thesis using f(1) [OF i1] by (simp add: sound_loop_def)
  qed
  then show ?thesis unfolding d by (auto simp: lift_loop_def sound_result_def)
qed

lemma sound_counts [simp]: "sound_loop (on_loop count_failed W) = sound_loop W" "sound_loop (on_loop (count_completed i) W) = sound_loop W"
proof -
  have c: "conn (count_failed L) j = conn L j" "conn (count_completed k L) j = conn L j" for L j k
    by (simp_all add: count_failed_def count_completed_def conn_at_def)
  show "sound_loop (on_loop count_failed W) = sound_loop W" "sound_loop (on_loop (count_completed i) W) = sound_loop W"
    by (simp_all add: sound_loop_def answered_def on_loop_def c)
qed

lemma fail_sound:
  assumes "curl_inv W" "sound_loop W" "i < length (connections (ctxt W))"
  shows "sound_result (curl_fail i W)"
  unfolding curl_fail_def
proof (rule cancel_sound)
  show "curl_inv (on_loop count_failed W)" using assms(1) by (simp add: on_loop_def curl_inv_def)
  show "i < length (connections (ctxt (on_loop count_failed W)))" using assms(3) by (simp add: on_loop_def count_failed_def)
qed (use assms(2) in simp)

section \<open>Writes\<close>

lemma pending_ok: "wb_ok (write_buffer_set_pending b wb) = wb_ok wb"
  "write_buffer_has_data (write_buffer_set_pending b wb) = write_buffer_has_data wb"
  by (simp_all add: write_buffer_set_pending_def wb_ok_def write_buffer_has_data_def)

lemma sound_buffer:
  assumes s: "sound_loop W" and f: "\<And>c. state (f c) = state c \<and> on_dirty_list (f c) = on_dirty_list c"
    and p: "i < length (connections (ctxt W)) \<Longrightarrow> proper (conn (cl W) i) \<Longrightarrow> proper (f (conn (cl W) i))"
  shows "sound_loop (cl_conn i f W)"
proof -
  have "proper_but None (upd_conn i f (ctxt W))"
  proof (cases "i < length (connections (ctxt W))")
    case True
    then show ?thesis using s p by (intro proper_but_upd) (simp_all add: sound_loop_def)
  next
    case False
    then show ?thesis using s by (simp add: upd_conn_def list_update_beyond sound_loop_def)
  qed
  moreover have "answered (cl_conn i f W)"
    by (rule answered_loop [of _ W]) (use s f in \<open>auto simp: cl_conn_at sound_loop_def\<close>)
  ultimately show ?thesis by (simp add: sound_loop_def) (simp add: cl_conn_def with_conn_def)
qed

lemma sound_pending:
  assumes "sound_loop W" "async_write_buf (conn (cl W) i) = Some wb"
  shows "sound_loop (cl_conn i (\<lambda>c. c\<lparr>async_write_buf := Some (write_buffer_set_pending True wb)\<rparr>) W)"
  by (rule sound_buffer [OF assms(1)]) (use assms(2) in \<open>simp_all add: proper_def pending_ok\<close>)

lemma ring_sound: "cl_ring f W = (rc, V) \<Longrightarrow> sound_loop V = sound_loop W"
  by (rule sound_ctxt) (auto simp: cl_ring_def split: prod.splits)

lemma ring_inv: "cl_ring f W = (rc, V) \<Longrightarrow> curl_inv W \<Longrightarrow> curl_inv V"
  using keeps_inv keeps_ring by blast

lemma start_async_sound:
  assumes inv: "curl_inv W" and s: "sound_loop W" and i: "i < length (connections (ctxt W))"
  shows "sound_result (curl_start_async_write i W)"
proof (cases "\<exists>wb data. async_write_buf (conn (cl W) i) = Some wb \<and> write_buffer_has_data wb \<and> \<not> write_buffer_is_busy wb
    \<and> write_buffer_get_next wb = Some data \<and> data \<noteq> []")
  case False
  then have "curl_start_async_write i W = Some W"
    by (auto simp: curl_start_async_write_def split: option.split)
  then show ?thesis using s by simp
next
  case True
  then obtain wb data where wb: "async_write_buf (conn (cl W) i) = Some wb" "write_buffer_has_data wb" "\<not> write_buffer_is_busy wb"
    "write_buffer_get_next wb = Some data" "data \<noteq> []" by blast
  obtain rc W1 where w: "cl_ring (ring_submit_write (conn (cl W) i) data) W = (rc, W1)" by fastforce
  obtain rc2 W2 where t: "cl_ring (ring_submit_linked_timeout (conn (cl W1) i) (write_timeout_ms (ctxt W1))) W1 = (rc2, W2)"
    by fastforce
  note c = cl_ring_ctxt [OF w] cl_ring_ctxt [OF t]
  have s2: "sound_loop W1" "sound_loop W2" using s ring_sound [OF w] ring_sound [OF t] by simp_all
  have v2: "curl_inv W1" "curl_inv W2" using ring_inv [OF w inv] ring_inv [OF t] by simp_all
  have p: "sound_loop (cl_conn i (\<lambda>c. c\<lparr>async_write_buf := Some (write_buffer_set_pending True wb)\<rparr>) W2)"
    by (rule sound_pending [OF s2(2)]) (simp add: c wb(1))
  have "curl_start_async_write i W = (if rc < 0 then curl_fail i W1 else if rc2 < 0 then curl_fail i W2
      else Some (cl_submit (cl_conn i (\<lambda>c. c\<lparr>async_write_buf := Some (write_buffer_set_pending True wb)\<rparr>) W2)))"
    using wb w t by (simp add: curl_start_async_write_def)
  then show ?thesis using fail_sound [OF v2(1) s2(1)] fail_sound [OF v2(2) s2(2)] p i by (simp add: c)
qed

lemma consume_data: "write_buffer_has_data (snd (write_buffer_consume n wb)) \<Longrightarrow> write_buffer_has_data wb"
  by (auto simp: write_buffer_consume_def write_buffer_has_data_def Let_def split: if_splits)

lemma async_write_sound:
  assumes inv: "curl_inv W" and s: "sound_loop W" and i: "i < length (connections (ctxt W))"
  shows "sound_result (curl_handle_async_write i res W)"
proof -
  define wb where "wb = map_option (\<lambda>wb. write_buffer_set_pending False (snd (write_buffer_consume (nat res) wb)))
    (async_write_buf (conn (cl W) i))"
  define W1 where "W1 = cl_conn i (\<lambda>c. c\<lparr>bytes_sent := bytes_sent c + nat res, async_write_buf := wb\<rparr>) W"
  have c: "wb_ok b \<Longrightarrow> wb_ok (snd (write_buffer_consume n b))" for n b
    using consume_spec [of b n] by (cases "write_buffer_consume n b") simp
  have s1: "sound_loop W1"
    unfolding W1_def by (rule sound_buffer [OF s]) (auto simp: wb_def proper_def pending_ok dest: c consume_data)
  have v1: "curl_inv W1" unfolding W1_def by (rule keeps_inv [OF keeps_plain inv]) simp
  have v2: "curl_inv (on_loop (count_completed i) W1)" using v1 by (simp add: on_loop_def curl_inv_def)
  have i1: "i < length (connections (ctxt W1))" "i < length (connections (ctxt (on_loop (count_completed i) W1)))"
    using i by (simp_all add: W1_def on_loop_def count_completed_def)
  show ?thesis
    unfolding curl_handle_async_write_def wb_def [symmetric] Let_def W1_def [symmetric]
    using s1 start_async_sound [OF v1 s1 i1(1)] fail_sound [OF inv s i] cancel_sound [OF v2 _ i1(2)] by simp
qed

section \<open>Callbacks\<close>

definition works_on :: "nat \<Rightarrow> conn_state set \<Rightarrow> curl_loop \<Rightarrow> bool" where
  \<comment> \<open>all connections are proper, and \<open>i\<close> is in one of the states\<close>
  "works_on i S W \<longleftrightarrow> proper_but None (ctxt W) \<and> i < length (connections (ctxt W)) \<and> state (conn (cl W) i) \<in> S"

definition others :: "nat \<Rightarrow> curl_loop \<Rightarrow> curl_loop \<Rightarrow> bool" where
  "others i W W' \<longleftrightarrow> (\<forall>j. j \<noteq> i \<longrightarrow> state (conn (cl W') j) = state (conn (cl W) j))"

lemma others_refl [simp]: "others i W W" by (simp add: others_def)

lemma others_trans [trans]: "others i W V \<Longrightarrow> others i V X \<Longrightarrow> others i W X" by (simp add: others_def)

lemma others_conn [simp]: "others i W (cl_conn i f W)" by (simp add: others_def cl_conn_at)

lemma others_ctxt: "ctxt W' = ctxt W \<Longrightarrow> others i W W'" by (simp add: others_def)

lemma works_ctxt: "ctxt W' = ctxt W \<Longrightarrow> works_on i S W' = works_on i S W" by (simp add: works_on_def)

lemma works_conn:
  "works_on i S W \<Longrightarrow> (\<And>c. async_write_buf (f c) = async_write_buf c \<and> state (f c) = state c \<and> on_dirty_list (f c) = on_dirty_list c)
     \<Longrightarrow> works_on i S (cl_conn i f W)"
  by (simp add: works_on_def proper_conn cl_conn_at)

lemma works_buffer:
  "works_on i S W \<Longrightarrow> proper ((conn (cl W) i)\<lparr>async_write_buf := w\<rparr>) \<Longrightarrow> works_on i S (cl_conn i (\<lambda>c. c\<lparr>async_write_buf := w\<rparr>) W)"
  by (auto simp: works_on_def cl_conn_at) (auto simp: cl_conn_def with_conn_def intro: proper_but_upd)

lemma heap_ctxt: "next_heap W = (h, V) \<Longrightarrow> ctxt V = ctxt W" by (auto simp: next_heap_def)

abbreviation receiving :: "conn_state set" where "receiving \<equiv> {CONN_STATE_CURL_PENDING, CONN_STATE_CURL_ACTIVE}"

lemma ensure_works:
  assumes "ensure_write_buf i W = (ok, W')" "works_on i S W" "S \<subseteq> receiving"
  shows "works_on i S W' \<and> others i W W'"
proof (cases "async_write_buf (conn (cl W) i) \<noteq> None")
  case True
  then show ?thesis using assms by (simp add: ensure_write_buf_def)
next
  case none: False
  obtain h V where h: "next_heap W = (h, V)" by fastforce
  note c = heap_ctxt [OF h]
  show ?thesis
  proof (cases "h_small h \<and> write_buffer_init (h_buf h) \<noteq> None")
    case False
    then have "W' = V" using assms(1) none h by (auto simp: ensure_write_buf_def split: if_splits option.splits)
    then show ?thesis using assms(2) c works_ctxt others_ctxt by blast
  next
    case True
    then obtain wb where wb: "write_buffer_init (h_buf h) = Some wb" by auto
    have "wb_ok wb \<and> wb_content wb = []"
      using init_ok [OF wb [unfolded write_buffer_init_def]] by (simp add: WRITE_BUFFER_DEFAULT_SIZE_def WRITE_BUFFER_MAX_SIZE_def)
    then have "proper ((conn (cl V) i)\<lparr>async_write_buf := Some wb\<rparr>)"
      using assms(2,3) has_data_content [of wb] by (auto simp: proper_def works_on_def c)
    then have "works_on i S (cl_conn i (\<lambda>c. c\<lparr>async_write_buf := Some wb\<rparr>) V)"
      by (rule works_buffer [rotated]) (use assms(2) works_ctxt [OF c] in simp)
    moreover have "others i W (cl_conn i (\<lambda>c. c\<lparr>async_write_buf := Some wb\<rparr>) V)"
      using others_trans [OF others_ctxt [OF c] others_conn] .
    ultimately show ?thesis using assms(1) none h True wb by (simp add: ensure_write_buf_def)
  qed
qed

lemma append_state: "append_write_buf i d W = (ok, W') \<Longrightarrow> i < length (connections (ctxt W)) \<Longrightarrow> state (conn (cl W') j) = state (conn (cl W) j)"
  by (cases "j = i") (auto simp: append_write_buf_def next_heap_def cl_conn_at split: option.splits prod.splits)

text \<open>After bytes were appended the connection is proper once it is marked and receiving.\<close>

definition appended :: "nat \<Rightarrow> conn_state set \<Rightarrow> curl_loop \<Rightarrow> bool" where
  "appended i S W \<longleftrightarrow> proper_but (Some i) (ctxt W) \<and> i < length (connections (ctxt W)) \<and> state (conn (cl W) i) \<in> S \<and> buf_sound i W"

lemma append_works:
  assumes "append_write_buf i d W = (ok, W')" "works_on i S W"
  shows "(if ok then appended i S W' else works_on i S W') \<and> others i W W'"
proof (cases "async_write_buf (conn (cl W) i)")
  case None
  then show ?thesis using assms by (auto simp: append_write_buf_def)
next
  case (Some wb)
  obtain h V where h: "next_heap W = (h, V)" by fastforce
  note c = heap_ctxt [OF h]
  obtain rc wb1 where a: "write_buffer_append (h_realloc h) d wb = (rc, wb1)" by fastforce
  have W': "ok = (\<not> rc < 0)" "W' = cl_conn i (\<lambda>c. c\<lparr>async_write_buf := Some wb1\<rparr>) V"
    using assms(1) Some h a by (auto simp: append_write_buf_def)
  have p: "proper (conn (cl W) i)" using assms(2) by (simp add: works_on_def proper_but_def)
  then have ok: "wb_ok wb" using Some by (simp add: proper_def)
  note sp = append_spec [OF ok a]
  have o: "others i W W'" unfolding W'(2) using others_trans [OF others_ctxt [OF c] others_conn] .
  have n: "i < length (connections (ctxt V))" using assms(2) by (simp add: works_on_def c)
  show ?thesis
  proof (cases ok)
    case True
    have "proper_but (Some i) (ctxt V)" using assms(2) by (simp add: works_on_def c proper_weaken)
    then have "proper_but (Some i) (ctxt W')" unfolding W'(2) cl_conn_def with_conn_def by (simp add: proper_but_self)
    then have "appended i S W'"
      using n assms(2) sp(1) by (simp add: appended_def W'(2) cl_conn_at buf_sound_def works_on_def c)
    then show ?thesis using True o by simp
  next
    case False
    then have "wb_content wb1 = wb_content wb" using sp(2) W'(1) by simp
    then have "write_buffer_has_data wb1 = write_buffer_has_data wb" using has_data_content [OF ok] has_data_content [OF sp(1)] by simp
    then have "proper ((conn (cl V) i)\<lparr>async_write_buf := Some wb1\<rparr>)" using p Some sp(1) by (simp add: proper_def c)
    then have "works_on i S W'" unfolding W'(2) by (rule works_buffer [rotated]) (use assms(2) works_ctxt [OF c] in simp)
    then show ?thesis using False o by simp
  qed
qed

lemma dirty_others: "i < length (connections (ctxt W)) \<Longrightarrow> others i W (cl_dirty i W)"
  by (simp add: others_def cl_dirty_def mark_at)

lemma appended_dirty:
  assumes "appended i {CONN_STATE_CURL_ACTIVE} W"
  shows "works_on i {CONN_STATE_CURL_ACTIVE} (cl_dirty i W)"
proof -
  have i: "i < length (connections (ctxt W))" using assms by (simp add: appended_def)
  have "nearly (conn (cl W) i)" using assms by (auto simp: nearly_def proper_def appended_def buf_sound_def)
  then have "proper_but None (ctxt (cl_dirty i W))"
    using assms mark_nearly by (simp add: appended_def cl_dirty_def)
  moreover have "length (connections (ctxt (cl_dirty i W))) = length (connections (ctxt W))" by (simp add: cl_dirty_def dirty_streams)
  moreover have "state (conn (cl (cl_dirty i W)) i) = CONN_STATE_CURL_ACTIVE"
    using assms mark_at(1) [OF i] by (simp add: appended_def cl_dirty_def)
  ultimately show ?thesis using i by (simp add: works_on_def)
qed

lemma appended_activate:
  assumes "appended i S W"
  shows "works_on i {CONN_STATE_CURL_ACTIVE} (cl_conn i (state_update (\<lambda>_. CONN_STATE_CURL_ACTIVE)) (cl_dirty i W))"
proof -
  have i: "i < length (connections (ctxt W))" using assms by (simp add: appended_def)
  let ?V = "cl_dirty i W"
  have l: "length (connections (ctxt ?V)) = length (connections (ctxt W))" by (simp add: cl_dirty_def dirty_streams)
  have p: "proper_but (Some i) (ctxt ?V)" using assms mark_proper by (simp add: appended_def cl_dirty_def)
  have a: "async_write_buf (conn (cl ?V) i) = async_write_buf (conn (cl W) i)" "on_dirty_list (conn (cl ?V) i)"
    using mark_at(2) [OF i] dirty_streams by (simp_all add: cl_dirty_def)
  have "proper_but (Some i) (ctxt (cl_conn i (state_update (\<lambda>_. CONN_STATE_CURL_ACTIVE)) ?V))"
    using p by (simp add: cl_conn_def with_conn_def proper_but_self)
  moreover have "proper (conn (cl (cl_conn i (state_update (\<lambda>_. CONN_STATE_CURL_ACTIVE)) ?V)) i)"
    using a assms l by (auto simp: cl_conn_at proper_def appended_def buf_sound_def)
  ultimately show ?thesis using i l proper_all by (auto simp: works_on_def cl_conn_at)
qed

lemma works_pending:
  "works_on i S W \<Longrightarrow> async_write_buf (conn (cl W) j) = Some wb \<Longrightarrow> ctxt V = ctxt W
     \<Longrightarrow> works_on i S (cl_conn j (\<lambda>c. c\<lparr>async_write_buf := Some (write_buffer_set_pending True wb)\<rparr>) V)"
  by (auto simp: works_on_def cl_conn_at) (auto simp: cl_conn_def with_conn_def proper_def pending_ok intro!: proper_but_upd)

lemma try_immediate_works:
  assumes "works_on i S W"
  shows "works_on i S (try_immediate_write i W) \<and> others i W (try_immediate_write i W)"
proof (cases "async_write_buf (conn (cl W) i)")
  case None
  then show ?thesis using assms by (simp add: try_immediate_write_def)
next
  case (Some wb)
  let ?f = "\<lambda>c. c\<lparr>async_write_buf := Some (write_buffer_set_pending True wb)\<rparr>"
  have "let V = (case cl_ring f W of (rc, W1) \<Rightarrow> if rc < 0 then W1
      else let W2 = snd (cl_ring (g W1) W1) in cl_submit (cl_conn i ?f W2)) in works_on i S V \<and> others i W V" for f g
  proof -
    obtain rc W1 where r: "cl_ring f W = (rc, W1)" by fastforce
    note c1 = cl_ring_ctxt [OF r]
    let ?W2 = "snd (cl_ring (g W1) W1)"
    have c2: "ctxt ?W2 = ctxt W" using c1 by (simp add: cl_ring_def split: prod.split)
    have p: "works_on i S (cl_conn i ?f ?W2)" by (rule works_pending [OF assms Some c2])
    have cs: "ctxt (cl_submit V) = ctxt V" for V by (simp add: cl_submit_def cl_ring_def)
    have o: "others i W (cl_submit (cl_conn i ?f ?W2))"
      by (rule others_trans [OF others_trans [OF others_ctxt [OF c2] others_conn] others_ctxt [OF cs]])
    show ?thesis using works_ctxt [OF c1] others_ctxt [OF c1] assms p o works_ctxt [OF cs] r by (simp add: Let_def)
  qed
  then show ?thesis using Some assms by (simp add: try_immediate_write_def Let_def split: option.split)
qed

lemma sse_line_works:
  assumes "process_sse_line h i line W = (ok, W')" "works_on i {CONN_STATE_CURL_ACTIVE} W"
  shows "others i W W' \<and> works_on i {CONN_STATE_CURL_ACTIVE} W'"
proof (cases "sse_line_content line")
  case None
  then show ?thesis using assms by (simp add: process_sse_line_def)
next
  case (Some content)
  let ?S = "{CONN_STATE_CURL_ACTIVE}"
  obtain ok1 W1 where e: "ensure_write_buf i W = (ok1, W1)" by fastforce
  obtain ok2 W2 where a: "append_write_buf i (event_of content) W1 = (ok2, W2)" by fastforce
  have 1: "works_on i ?S W1" "others i W W1" using ensure_works [OF e assms(2)] by simp_all
  note 2 = append_works [OF a 1(1)]
  then have o2: "others i W W2" using others_trans [OF 1(2)] by blast
  show ?thesis
  proof (cases "ok1 \<and> ok2")
    case False
    then have "W' = (if \<not> ok1 then W1 else W2)"
      using assms(1) Some e a by (auto simp: process_sse_line_def format_8192 split: if_splits)
    then show ?thesis using 1 2 o2 False by auto
  next
    case True
    then have p: "appended i ?S W2" using 2 by simp
    define W3 where "W3 = try_immediate_write i (cl_dirty i W2)"
    have 3: "works_on i ?S W3" "others i (cl_dirty i W2) W3"
      using try_immediate_works [OF appended_dirty [OF p]] by (simp_all add: W3_def)
    have "others i W W3" using others_trans [OF others_trans [OF o2 dirty_others] 3(2)] p by (simp add: appended_def)
    moreover have "ctxt W' = ctxt W3"
      using assms(1) Some e a True by (auto simp: process_sse_line_def format_8192 W3_def [symmetric] Let_def)
    ultimately show ?thesis using 3(1) works_ctxt others_trans [OF _ others_ctxt] by metis
  qed
qed

lemma queue_headers_works:
  assumes "queue_headers h i W = (ok, W')" "works_on i receiving W"
  shows "others i W W' \<and> works_on i (if ok then {CONN_STATE_CURL_ACTIVE} else receiving) W'"
proof -
  obtain ok1 W1 where e: "ensure_write_buf i W = (ok1, W1)" by fastforce
  obtain ok2 W2 where a: "append_write_buf i SSE_HEADERS W1 = (ok2, W2)" by fastforce
  have 1: "works_on i receiving W1" "others i W W1" using ensure_works [OF e assms(2)] by simp_all
  note 2 = append_works [OF a 1(1)]
  then have o2: "others i W W2" using others_trans [OF 1(2)] by blast
  show ?thesis
  proof (cases "ok1 \<and> ok2")
    case False
    then have "W' = (if \<not> ok1 then W1 else W2) \<and> \<not> ok"
      using assms(1) e a by (auto simp: queue_headers_def split: if_splits)
    then show ?thesis using 1 2 o2 False by auto
  next
    case True
    define W3 where "W3 = W2\<lparr>requests := (requests W2)(h := map_option (rq_headers_sent_update (\<lambda>_. True)) (requests W2 h))\<rparr>"
    define W4 where "W4 = cl_conn i (state_update (\<lambda>_. CONN_STATE_CURL_ACTIVE)) (cl_dirty i W3)"
    have "appended i receiving W3" using 2 True by (simp add: appended_def W3_def buf_sound_def)
    then have 4: "works_on i {CONN_STATE_CURL_ACTIVE} W4" "i < length (connections (ctxt W3))"
      unfolding W4_def by (rule appended_activate) (use \<open>appended i receiving W3\<close> in \<open>simp add: appended_def\<close>)
    have "others i W2 W3" by (rule others_ctxt) (simp add: W3_def)
    from others_trans [OF others_trans [OF others_trans [OF o2 this] dirty_others [OF 4(2)]] others_conn]
    have o4: "others i W W4" unfolding W4_def .
    have "ok \<and> W' = try_immediate_write i W4"
      using assms(1) e a True by (auto simp: queue_headers_def W3_def [symmetric] W4_def [symmetric] Let_def)
    then show ?thesis using try_immediate_works [OF 4(1)] others_trans [OF o4] by auto
  qed
qed

lemma line_buf_works:
  "ensure_line_buf i W = (ok, W') \<Longrightarrow> works_on i S W \<Longrightarrow> works_on i S W' \<and> others i W W'"
  "grow_line_buf i n W = (ok, W') \<Longrightarrow> works_on i S W \<Longrightarrow> works_on i S W' \<and> others i W W'"
  "works_on i S W \<Longrightarrow> works_on i S (set_line i b W) \<and> others i W (set_line i b W)"
proof -
  obtain h V where n: "next_heap W = (h, V)" by fastforce
  note c = heap_ctxt [OF n]
  have v: "works_on i S W \<Longrightarrow> works_on i S V" "others i W V" using works_ctxt [OF c] others_ctxt [OF c] by simp_all
  have f: "works_on i S W \<Longrightarrow> (\<And>c. async_write_buf (f c) = async_write_buf c \<and> state (f c) = state c \<and> on_dirty_list (f c) = on_dirty_list c)
      \<Longrightarrow> works_on i S (cl_conn i f V) \<and> others i W (cl_conn i f V)" for f
    using works_conn [OF v(1)] others_trans [OF v(2) others_conn] by blast
  show "ensure_line_buf i W = (ok, W') \<Longrightarrow> works_on i S W \<Longrightarrow> works_on i S W' \<and> others i W W'"
    using f by (auto simp: ensure_line_buf_def n split: if_splits)
  show "grow_line_buf i n' W = (ok, W') \<Longrightarrow> works_on i S W \<Longrightarrow> works_on i S W' \<and> others i W W'" for n'
    using f v by (auto simp: grow_line_buf_def n Let_def split: if_splits)
  show "works_on i S W \<Longrightarrow> works_on i S (set_line i b W) \<and> others i W (set_line i b W)"
    by (simp add: set_line_def works_conn)
qed

lemma callback_works:
  assumes w: "curl_write_callback h rq ptr W = Some (n, W')" and i: "rq_conn rq = i"
    and s: "works_on i receiving W" "rq_headers_sent rq \<Longrightarrow> state (conn (cl W) i) = CONN_STATE_CURL_ACTIVE"
    and v: "rq_view W h = Some (i, rq_headers_sent rq, st)"
  shows "others i W W' \<and> works_on i receiving W'
    \<and> (\<forall>k st'. rq_view W' h = Some (k, True, st') \<longrightarrow> state (conn (cl W') i) = CONN_STATE_CURL_ACTIVE)"
proof -
  have len: "i < length (connections (ctxt W))" using s(1) by (simp add: works_on_def)
  obtain ok1 W1 where h: "(if \<not> rq_headers_sent rq then queue_headers h i W else (True, W)) = (ok1, W1)" by fastforce
  define S where "S = (if ok1 then {CONN_STATE_CURL_ACTIVE} else receiving)"
  have 1: "works_on i S W1 \<and> others i W W1"
  proof (cases "rq_headers_sent rq")
    case True
    then show ?thesis using h s by (auto simp: S_def works_on_def)
  next
    case False
    then show ?thesis using queue_headers_works [of h i W ok1 W1] h s(1) by (simp add: S_def)
  qed
  have v1: "rq_view W1 h = Some (i, ok1, st)"
    using h v queue_headers_queues(3) [OF _ len, of h ok1 W1] by (cases "rq_headers_sent rq") (auto simp: with_headers_def)
  have sub: "works_on i S V \<Longrightarrow> works_on i receiving V" for V by (auto simp: S_def works_on_def split: if_splits)
  have act: "works_on i S V \<Longrightarrow> ok1 \<Longrightarrow> state (conn (cl V) i) = CONN_STATE_CURL_ACTIVE" for V
    by (simp add: S_def works_on_def)
  obtain ok2 W2 where l: "ensure_line_buf i W1 = (ok2, W2)" by fastforce
  obtain ok3 W3 where g: "grow_line_buf i (length ptr) W2 = (ok3, W3)" by fastforce
  have 2: "works_on i S W2 \<and> others i W W2" using line_buf_works(1) [OF l] 1 others_trans by blast
  have 3: "works_on i S W3 \<and> others i W W3" using line_buf_works(2) [OF g] 2 others_trans by blast
  have fin: ?thesis if "works_on i S W' \<and> others i W W'" "ok1 \<or> W' = W1" using that sub act v1 by auto
  show ?thesis
  proof (cases "ok1 \<and> ok2 \<and> ok3")
    case False
    then have "W' = (if \<not> ok1 then W1 else if \<not> ok2 then W2 else W3)"
      using w h l g i by (auto simp: curl_write_callback_def Let_def split: if_splits)
    then show ?thesis using fin 1 2 3 by (cases ok1) auto
  next
    case True
    let ?h = "\<lambda>line W. Some (process_sse_line h i line W)"
    define W4 where "W4 = set_line i (the (sse_line_buf (conn (cl W3) i)) @ ptr) W3"
    have 4: "works_on i S W4 \<and> others i W W4" using line_buf_works(3) 3 others_trans unfolding W4_def by blast
    obtain ok4 b W5 where p: "process_lines ?h [] (the (sse_line_buf (conn (cl W4) i))) W4 = Some (ok4, b, W5)"
      and W': "W' = (if ok4 then try_immediate_write i (set_line i b W5) else set_line i b W5)"
      using w h l g True i by (auto simp: curl_write_callback_def W4_def [symmetric] Let_def bind_eq_Some_conv split: if_splits)
    have S: "S = {CONN_STATE_CURL_ACTIVE}" using True by (simp add: S_def)
    have "others i W4 W5 \<and> works_on i S W5" unfolding S
      by (rule process_lines_invariant [OF _ others_refl others_trans p]) (use 4 S sse_line_works in auto)
    then have "works_on i S (set_line i b W5) \<and> others i W (set_line i b W5)" using line_buf_works(3) 4 others_trans by blast
    then have "works_on i S W' \<and> others i W W'" unfolding W' using try_immediate_works others_trans by auto
    then show ?thesis using fin True by blast
  qed
qed

end
