(* ===== verification/Curl_Sound.thy ===== *)
theory Curl_Sound
  imports Curl_Proper
begin

text \<open>
  The invariant of \<open>Curl_Proper\<close> holds in every state that the daemon can reach in the curl mode: each
  callback, each handler and the flush keep it.
\<close>

section \<open>Events\<close>

lemma sound_views: "ctx_requests W' = ctx_requests W \<Longrightarrow> sound_loop W' = sound_loop W"
  by (rule sound_ctxt) (simp_all add: ctx_requests_def rq_view_def fun_eq_iff)

lemma request_receiving:
  assumes inv: "curl_inv W" and v: "rq_view W h = Some (i, hs, st)"
  shows "i < length (connections (ctxt W))" "state (conn (cl W) i) \<in> receiving"
proof -
  have r: "reqs W h = Some i" using v by (auto simp: rq_view_def reqs_def)
  then show i: "i < length (connections (ctxt W))" using inv unfolding curl_inv_def ctx_ok_def by blast
  have "curl_easy (conn (cl W) i) = Some h" using r inv unfolding curl_inv_def ctx_ok_def by blast
  moreover have "conn_ok (reqs W) i (conn (cl W) i)" using i inv unfolding curl_inv_def ctx_ok_def by blast
  ultimately show "state (conn (cl W) i) \<in> receiving" unfolding conn_ok_def by blast
qed

lemma callback_sound:
  assumes w: "curl_write_callback h rq ptr W = Some (n, W')" and rq: "requests W h = Some rq"
    and inv: "curl_inv W" and s: "sound_loop W"
  shows "sound_loop W'"
proof -
  let ?i = "rq_conn rq"
  have v: "rq_view W h = Some (?i, rq_headers_sent rq, rq_stopped rq)" using rq by (simp add: rq_view_def)
  note r = request_receiving [OF inv v]
  have a: "rq_headers_sent rq \<Longrightarrow> state (conn (cl W) ?i) = CONN_STATE_CURL_ACTIVE"
    using answered_at [OF s v] .
  have "works_on ?i receiving W" using s r by (simp add: works_on_def sound_loop_def)
  note c = callback_works [OF w refl this a v]
  note as = callback_aside [OF w refl r(1)]
  have k: "reqs W' h = Some ?i" using keeps_reqs [OF write_callback_keeps [OF w]] rq by (simp add: reqs_def)
  have "answered W'"
    unfolding answered_def
  proof (intro allI impI)
    fix g j st assume g: "rq_view W' g = Some (j, True, st)"
    show "state (conn (cl W') j) = CONN_STATE_CURL_ACTIVE"
    proof (cases "g = h")
      case True
      have "j = ?i" using g k True by (auto simp: rq_view_def reqs_def)
      then show ?thesis using c g True by blast
    next
      case False
      then have g': "rq_view W g = Some (j, True, st)" using as g by (simp add: aside_def)
      then have "j \<noteq> ?i" using own_conns_inv [OF inv] v False unfolding own_conns_def by blast
      then have "state (conn (cl W') j) = state (conn (cl W) j)" using c by (simp add: others_def)
      then show ?thesis using answered_at [OF s g'] by simp
    qed
  qed
  then show ?thesis using c by (simp add: sound_loop_def works_on_def)
qed

lemma run_event_sound:
  assumes "run_event e W = Some W'" "curl_inv W" "sound_loop W"
  shows "sound_loop W'"
proof (cases e)
  case (Write_cb k ptr)
  show ?thesis
  proof (cases "requests W k = None \<or> rq_stopped (the (requests W k))")
    case True
    then show ?thesis using assms Write_cb by (auto split: option.splits)
  next
    case False
    then obtain rq where rq: "requests W k = Some rq" "\<not> rq_stopped rq" by auto
    obtain n W1 where w: "curl_write_callback k rq ptr W = Some (n, W1)"
      and W': "W' = (if n = length ptr then W1
        else W1\<lparr>requests := (requests W1)(k := map_option (rq_stopped_update (\<lambda>_. True)) (requests W1 k))\<rparr>)"
      using assms(1) Write_cb rq by (auto simp: bind_eq_Some_conv)
    have s1: "sound_loop W1" by (rule callback_sound [OF w rq(1) assms(2,3)])
    have "rq_view W' h = Some (i, True, st) \<Longrightarrow> \<exists>st. rq_view W1 h = Some (i, True, st)" for h i st
      by (cases "h = k"; cases "n = length ptr") (auto simp: W' rq_view_stop)
    moreover have "ctxt W' = ctxt W1" by (simp add: W')
    ultimately show ?thesis using s1 unfolding sound_loop_def answered_def by metis
  qed
next
  case (Socket_cb fd what)
  have "sound_loop (socket_callback fd what W) = sound_loop W" by (rule sound_views) (rule socket_callback_frame)
  then show ?thesis using assms Socket_cb by simp
next
  case (Timer_cb ms)
  have "sound_loop (timer_callback ms W) = sound_loop W" by (rule sound_views) (rule timer_callback_frame)
  then show ?thesis using assms Timer_cb by simp
qed

lemma run_events_sound: "run_events es W = Some W' \<Longrightarrow> curl_inv W \<Longrightarrow> sound_loop W \<Longrightarrow> sound_loop W'"
proof (induction es arbitrary: W)
  case (Cons e es)
  then obtain W1 where w: "run_event e W = Some W1" "run_events es W1 = Some W'" by (auto simp: bind_eq_Some_conv)
  show ?case
    by (rule Cons.IH [OF w(2) keeps_inv [OF run_event_keeps [OF w(1)] Cons.prems(2)] run_event_sound [OF w(1) Cons.prems(2,3)]])
qed simp

section \<open>Requests that end\<close>

lemma complete_request_sound:
  assumes inv: "curl_inv W" and s: "sound_loop W"
  shows "sound_loop (complete_request msg W)"
proof (cases "requests W (m_easy msg)")
  case None
  then show ?thesis using assms by (simp add: complete_request_def)
next
  case (Some rq)
  let ?h = "m_easy msg" and ?i = "rq_conn rq" and ?C = "state_update (\<lambda>_. CONN_STATE_CLOSING)"
  have v: "rq_view W ?h = Some (?i, rq_headers_sent rq, rq_stopped rq)" using Some by (simp add: rq_view_def)
  note r = request_receiving [OF inv v]
  have w0: "works_on ?i receiving W" using s r by (simp add: works_on_def sound_loop_def)
  obtain ok W1 where a: "append_write_buf ?i SSE_DONE W = (ok, W1)" by fastforce
  note ap = append_works [OF a w0]
  have q: "rq_view W1 = rq_view W" using append_write_buf_queues [OF a r(1)] by (simp add: queues_def)
  define V where "V = (if m_ok msg \<and> (m_code msg = 200 \<or> rq_headers_sent rq) \<and> rq_headers_sent rq
      \<and> async_write_buf (conn (cl W) ?i) \<noteq> None then if ok then cl_dirty ?i W1 else W1 else W)"
  have e: "complete_request msg W = drop_request ?h ?i (cl_conn ?i ?C V)"
    using Some by (auto simp: complete_request_def V_def Let_def a)
  have act: "rq_headers_sent rq \<Longrightarrow> state (conn (cl W) ?i) = CONN_STATE_CURL_ACTIVE"
    using answered_at [OF s v] .
  have V: "others ?i W V" "rq_view V = rq_view W" "?i < length (connections (ctxt V))" "proper_but None (ctxt V)"
  proof -
    have "others ?i W V \<and> rq_view V = rq_view W \<and> ?i < length (connections (ctxt V)) \<and> proper_but None (ctxt V)"
    proof (cases "V = cl_dirty ?i W1 \<and> ok \<and> rq_headers_sent rq")
      case True
      then have p: "appended ?i {CONN_STATE_CURL_ACTIVE} W1"
        using ap append_state [OF a r(1)] act by (simp add: appended_def)
      have "rq_view (cl_dirty ?i W1) = rq_view W" using q by (simp add: rq_view_def cl_dirty_def fun_eq_iff)
      then show ?thesis using True appended_dirty [OF p] others_trans [OF _ dirty_others] ap p
        by (auto simp: works_on_def appended_def)
    next
      case False
      then have "V = W \<or> V = W1 \<and> \<not> ok" by (auto simp: V_def split: if_splits)
      then show ?thesis using ap q w0 by (auto simp: works_on_def)
    qed
    then show "others ?i W V" "rq_view V = rq_view W" "?i < length (connections (ctxt V))" "proper_but None (ctxt V)" by blast+
  qed
  have "proper_but None (ctxt (cl_conn ?i ?C V))"
    unfolding cl_conn_def with_conn_def using V(4) by (auto intro!: proper_but_upd simp: proper_def)
  then have p: "proper_but None (ctxt (complete_request msg W))"
    unfolding e drop_request_def by (intro proper_conn) (simp_all add: cl_conn_def)
  have "answered (complete_request msg W)"
  proof (rule answered_frame)
    show "answered W" using s by (simp add: sound_loop_def)
    fix g j hs st assume g: "rq_view (complete_request msg W) g = Some (j, hs, st)"
    have "rq_view (complete_request msg W) = (rq_view V)(?h := None)"
      unfolding e by (auto simp: drop_request_def rq_view_def cl_conn_def fun_eq_iff)
    then have g': "g \<noteq> ?h" "rq_view W g = Some (j, hs, st)" using g V(2) by (auto split: if_splits)
    then have "j \<noteq> ?i" using own_conns_inv [OF inv] v unfolding own_conns_def by blast
    then have "state (conn (cl (complete_request msg W)) j) = state (conn (cl V) j)"
      unfolding e drop_request_def by (simp add: cl_conn_at)
    then show "rq_view W g = Some (j, hs, st) \<and> state (conn (cl (complete_request msg W)) j) = state (conn (cl W) j)"
      using g' V(1) \<open>j \<noteq> ?i\<close> by (simp add: others_def)
  qed
  with p show ?thesis by (simp add: sound_loop_def)
qed

lemma check_completions_sound:
  "curl_inv W \<Longrightarrow> sound_loop W \<Longrightarrow> sound_loop (curl_manager_check_completions msgs W)"
proof -
  have "curl_inv (fold complete_request msgs W) \<and> sound_loop (fold complete_request msgs W)"
    if "curl_inv W" "sound_loop W" for W
    using that by (induction msgs arbitrary: W) (simp_all add: complete_request_inv complete_request_sound)
  then show "curl_inv W \<Longrightarrow> sound_loop W \<Longrightarrow> sound_loop (curl_manager_check_completions msgs W)"
    by (simp add: curl_manager_check_completions_def)
qed

section \<open>The flush\<close>

definition sound_out :: "outcome option \<Rightarrow> bool" where
  "sound_out r \<longleftrightarrow> (\<forall>W'. r = Some (Running W') \<longrightarrow> sound_loop W')"

lemma sound_running: "sound_result r \<Longrightarrow> sound_out (map_option Running r)"
  by (auto simp: sound_result_def sound_out_def)

text \<open>The flush takes connections off the list that have nothing to be written.\<close>

lemma flushed_sound:
  assumes s: "sound_loop W" and d: "dirty_ok (ctxt W) ds" and p: "flush_post [] ds W W'"
  shows "sound_loop W'"
proof -
  have p': "length (connections (ctxt W')) = length (connections (ctxt W))" "requests W' = requests W"
    "state (conn (cl W') j) = state (conn (cl W) j)" "buffer_of (conn (cl W') j) = buffer_of (conn (cl W) j)"
    "dirty_ok (ctxt W') (filter (\<lambda>i. stays (conn (cl W') i)) ds)" for j
    using p by (simp_all add: flush_post_def same_state_def)
  have "proper (conn (cl W') j)" if j: "j < length (connections (ctxt W))" for j
    unfolding proper_def
  proof (intro allI impI)
    fix wb assume w: "async_write_buf (conn (cl W') j) = Some wb"
    then obtain wb0 where w0: "async_write_buf (conn (cl W) j) = Some wb0" "write_buffer_set_pending True wb = write_buffer_set_pending True wb0"
      using p'(4) [of j] by (cases "async_write_buf (conn (cl W) j)") (auto simp: buffer_of_def)
    then have v: "wb_ok wb = wb_ok wb0" "write_buffer_has_data wb = write_buffer_has_data wb0" using pending_ok by metis+
    have c: "proper (conn (cl W) j)" by (rule sound_at [OF s j])
    have "on_dirty_list (conn (cl W') j)" if h: "write_buffer_has_data wb"
    proof -
      have b: "on_dirty_list (conn (cl W) j)" "state (conn (cl W) j) \<in> {CONN_STATE_CURL_ACTIVE, CONN_STATE_CLOSING}"
        using c w0(1) h v by (auto simp: proper_def)
      then have "j \<in> set ds" using d j by (simp add: dirty_ok_def)
      moreover have "stays (conn (cl W') j)" using b(2) h w by (auto simp: stays_def flushable_def drained_def p'(3))
      ultimately show ?thesis using p'(5) j by (simp add: dirty_ok_def p'(1))
    qed
    then show "wb_ok wb \<and> state (conn (cl W') j) \<in> {CONN_STATE_CURL_PENDING, CONN_STATE_CURL_ACTIVE, CONN_STATE_CLOSING}
        \<and> (write_buffer_has_data wb \<longrightarrow> on_dirty_list (conn (cl W') j) \<and> state (conn (cl W') j) \<noteq> CONN_STATE_CURL_PENDING)"
      using c w0(1) v by (simp add: proper_def p'(3))
  qed
  moreover have "answered W'"
    by (rule answered_loop [of _ W]) (use s p' in \<open>simp_all add: sound_loop_def rq_view_def fun_eq_iff\<close>)
  ultimately show ?thesis by (simp add: sound_loop_def proper_but_def p'(1))
qed

lemma flush_sound:
  assumes inv: "curl_inv W" and s: "sound_loop W"
  shows "sound_out (flush_streaming_connections W)"
proof -
  obtain ds where d: "dirty_ok (ctxt W) ds" using inv unfolding curl_inv_def ctx_ok_def by blast
  from flush_done_all [OF inv this] obtain x where x: "flush_streaming_connections W = Some x"
    "\<And>W'. x = Running W' \<Longrightarrow> flush_post [] ds W W'" by (auto simp: flush_done_def)
  show ?thesis using x(1) flushed_sound [OF s d x(2)] by (auto simp: sound_out_def)
qed

lemma poll_sound:
  assumes inv: "curl_inv W" and s: "sound_loop W"
  shows "sound_out (handle_curl_poll k fd res W)"
proof -
  obtain W1 where 1: "run_events (k_socket k fd (curl_select_bits (poll_events res))) W = Some W1" "curl_inv W1"
    using run_events_inv [OF inv] by blast
  obtain W2 where 2: "run_events (k_timeout k) W1 = Some W2" "curl_inv W2" using run_events_inv [OF 1(2)] by blast
  have "sound_loop W2" by (rule run_events_sound [OF 2(1) 1(2) run_events_sound [OF 1(1) inv s]])
  from flush_sound [OF check_completions_inv [OF 2(2)] check_completions_sound [OF 2(2) this]] show ?thesis
    by (simp add: handle_curl_poll_def curl_manager_socket_action_def 1 2)
qed

lemma timeout_sound:
  assumes inv: "curl_inv W" and s: "sound_loop W"
  shows "sound_out (handle_curl_timeout k W)"
proof -
  let ?W0 = "W\<lparr>mgr := (mgr W)\<lparr>timer_active := False\<rparr>\<rparr>"
  have "reqs ?W0 = reqs W" by (simp add: fun_eq_iff reqs_def)
  then have 0: "curl_inv ?W0" using inv by (simp add: curl_inv_def)
  have s0: "sound_loop ?W0" using s sound_ctxt [of ?W0 W] by simp
  obtain W1 where 1: "run_events (k_timeout k) ?W0 = Some W1" "curl_inv W1" using run_events_inv [OF 0] by blast
  have "sound_loop W1" by (rule run_events_sound [OF 1(1) 0 s0])
  from flush_sound [OF check_completions_inv [OF 1(2)] check_completions_sound [OF 1(2) this]] show ?thesis
    by (simp add: handle_curl_timeout_def curl_manager_timeout_action_def 1)
qed

section \<open>Connections that are set up\<close>

text \<open>A connection without a request and without a write buffer changes.\<close>

lemma sound_setup:
  assumes s: "sound_loop W" and n: "\<And>h hs st. rq_view W h \<noteq> Some (i, hs, st)"
    and b: "async_write_buf (f (conn (cl W) i)) = None"
  shows "sound_loop (cl_conn i f W)"
proof -
  have "proper_but None (upd_conn i f (ctxt W))"
    using s b by (intro proper_but_upd) (simp_all add: sound_loop_def proper_def)
  moreover have "answered (cl_conn i f W)"
    by (rule answered_frame [of W]) (use s n in \<open>auto simp: cl_conn_at sound_loop_def\<close>)
  ultimately show ?thesis by (simp add: sound_loop_def) (simp add: cl_conn_def with_conn_def)
qed

lemma no_request:
  assumes "curl_inv W" "free_to_start i W"
  shows "rq_view W h \<noteq> Some (i, hs, st)"
proof
  assume "rq_view W h = Some (i, hs, st)"
  then have "reqs W h = Some i" by (auto simp: rq_view_def reqs_def)
  then have "curl_easy (conn (cl W) i) = Some h" using assms(1) unfolding curl_inv_def ctx_ok_def by blast
  then show False using assms(2) by (simp add: free_to_start_def)
qed

lemma pending_sound:
  assumes inv: "curl_inv W" and i: "free_to_start i W" and s: "sound_loop W" and b: "async_write_buf (conn (cl W) i) = None"
  shows "sound_loop (pending i W)"
proof -
  have "sound_loop (W\<lparr>next_easy := next_easy W + 1\<rparr>)" using s sound_ctxt [of "W\<lparr>next_easy := next_easy W + 1\<rparr>" W]
    by (simp add: rq_view_def [abs_def])
  then show ?thesis unfolding pending_def
    by (rule sound_setup) (use no_request [OF inv i] b in \<open>simp_all add: rq_view_def\<close>)
qed

lemma with_request_sound:
  assumes inv: "curl_inv W" and i: "free_to_start i W" and s: "sound_loop W" and b: "async_write_buf (conn (cl W) i) = None"
    and rq: "fresh_request i rq"
  shows "sound_loop (with_request rq i W)"
proof -
  note p = pending_sound [OF inv i s b]
  have v: "rq_view (with_request rq i W) g = (if g = next_easy W then Some (i, False, False) else rq_view (pending i W) g)" for g
    using rq by (simp add: with_request_def rq_view_def pending_def cl_conn_def fresh_request_def)
  have "cl (with_request rq i W) = cl (pending i W)" by (simp add: with_request_def)
  then have "answered (with_request rq i W)"
    using p by (auto simp: sound_loop_def answered_def v)
  then show "sound_loop (with_request rq i W)" using p by (simp add: sound_loop_def with_request_def)
qed

lemma dispatch_sound:
  assumes inv: "curl_inv W" and i: "free_to_start i W" and s: "sound_loop W" and b: "async_write_buf (conn (cl W) i) = None"
  shows "sound_result (curl_dispatch cfg sa i W)"
proof -
  obtain rc W1 where st: "curl_manager_start_request cfg sa i W = Some (rc, W1)" using start_request_total by blast
  from start_request_inv [OF inv i st] have v1: "curl_inv W1" "rc < 0 \<Longrightarrow> free_to_start i W1" by auto
  have "sound_loop W1"
    using st
  proof (cases rule: start_request_cases)
    case 1
    then show ?thesis using s by simp
  next
    case 2
    then show ?thesis using sound_conn [OF pending_sound [OF inv i s b]] by simp
  next
    case (3 rq)
    show ?thesis by (rule run_events_sound [OF 3(3) with_request_inv [OF inv i 3(2)] with_request_sound [OF inv i s b 3(2)]])
  qed
  then show ?thesis using fail_sound [OF v1(1)] v1(2) by (simp add: curl_dispatch_def st free_to_start_def)
qed

lemma parse_same: "async_write_buf (parse_handoff c) = async_write_buf c" "state (parse_handoff c) = state c"
  by (simp_all add: parse_handoff_def split: option.split prod.split)

lemma sound_close:
  "sound_loop (on_loop (\<lambda>L. L\<lparr>dctx := close_fd (unix_fd (conn L i)) (dctx L)\<rparr>) W) = sound_loop W"
  by (simp add: sound_loop_def answered_def on_loop_def close_fd_def conn_at_def proper_but_def)

lemma recv_sound:
  assumes inv: "curl_inv W" and i: "free_to_start i W" and st: "state (conn (cl W) i) = CONN_STATE_RECEIVING_FD"
    and s: "sound_loop W"
  shows "sound_result (curl_handle_recv_fd cfg sa i res a W)"
proof -
  define W1 where "W1 = cl_conn i (handoff_len_update (\<lambda>_. nat res)) W"
  define W2 where "W2 = cl_conn i (client_fd_update (\<lambda>_. handoff_extract_fd (a_msg a))) W1"
  define W3 where "W3 = cl_conn i (unix_fd_update (\<lambda>_. -1)) (on_loop (\<lambda>L. L\<lparr>dctx := close_fd (unix_fd (conn L i)) (dctx L)\<rparr>) W2)"
  define W4 where "W4 = cl_conn i (\<lambda>c. parse_handoff (c\<lparr>state := CONN_STATE_PARSING\<rparr>)) W3"
  have v: "curl_inv W1 \<and> free_to_start i W1" "curl_inv W3 \<and> free_to_start i W3" "curl_inv W4 \<and> free_to_start i W4"
    unfolding W1_def W2_def W3_def W4_def by (rule recv_parsed_inv [OF inv i st])+
  have l: "i < length (connections (ctxt W))" using i by (simp add: free_to_start_def)
  have b: "async_write_buf (conn (cl W) i) = None" using sound_at [OF s l] st by (auto simp: proper_def)
  have s1: "sound_loop W1" unfolding W1_def by (rule sound_conn [OF s]) simp
  have s2: "sound_loop W2" unfolding W2_def by (rule sound_conn [OF s1]) simp
  have s3: "sound_loop W3" unfolding W3_def by (rule sound_conn) (use s2 in \<open>simp_all add: sound_close\<close>)
  have len: "i < length (connections (ctxt V))" if "curl_inv V \<and> free_to_start i V" for V using that by (simp add: free_to_start_def)
  have c: "conn (cl (on_loop (\<lambda>L. L\<lparr>dctx := close_fd (unix_fd (conn L i)) (dctx L)\<rparr>) V)) j = conn (cl V) j"
    "connections (ctxt (on_loop (\<lambda>L. L\<lparr>dctx := close_fd (unix_fd (conn L i)) (dctx L)\<rparr>) V)) = connections (ctxt V)" for V j
    by (simp_all add: on_loop_def close_fd_def conn_at_def)
  have b3: "async_write_buf (conn (cl W3) i) = None" using b l by (simp add: W3_def c W2_def W1_def cl_conn_at)
  have s4: "sound_loop W4" unfolding W4_def
    by (rule sound_setup [OF s3 no_request]) (use v(2) b3 in \<open>simp_all add: parse_same\<close>)
  have b4: "async_write_buf (conn (cl W4) i) = None" using b3 by (simp add: W4_def cl_conn_at parse_same)
  have "sound_result (curl_fail i W)" by (rule fail_sound [OF inv s l])
  moreover have "sound_result (curl_fail i W1)" using fail_sound [OF _ s1 len] v(1) by blast
  moreover have "sound_result (curl_fail i W3)" using fail_sound [OF _ s3 len] v(2) by blast
  moreover have "sound_result (curl_dispatch cfg sa i W4)" using dispatch_sound [OF _ _ s4 b4] v(3) by blast
  ultimately show ?thesis
    unfolding curl_handle_recv_fd_def Let_def W1_def [symmetric] W2_def [symmetric] W3_def [symmetric] W4_def [symmetric] by simp
qed

lemma accept_sound:
  assumes inv: "curl_inv W" and s: "sound_loop W"
  shows "sound_result (lift_loop (handle_accept m fd multi) W)"
proof -
  let ?L = "cl W"
  define L1 where "L1 = (if \<not> multi \<and> \<not> shutdown_requested (dctx ?L) then ?L\<lparr>lring := rearm_accept (lring ?L)\<rparr> else ?L)"
  have L1: "dctx L1 = ctxt W" by (simp add: L1_def)
  obtain r c where a: "conn_alloc m (ctxt W) = (r, c)" by fastforce
  have ok: "ctx_ok (ctxt W) (reqs W)" using inv by (simp add: curl_inv_def)
  then obtain fs where p: "pool_ok (ctxt W) fs" unfolding ctx_ok_def by blast
  have c: "proper_but None c" using alloc_proper [OF a] s by (simp add: sound_loop_def)
  have fin: "sound_loop (W\<lparr>cl := L\<rparr>)" if "proper_but None (dctx L)" "\<And>j. j \<noteq> i \<Longrightarrow> state (conn L j) = state (conn (cl W) j)"
    "\<And>h hs st. rq_view W h \<noteq> Some (i, hs, st)" for L i
  proof -
    have "answered (W\<lparr>cl := L\<rparr>)"
    proof (rule answered_frame [of W])
      show "answered W" using s by (simp add: sound_loop_def)
      show "rq_view W h = Some (k, hs, st) \<and> state (conn (cl (W\<lparr>cl := L\<rparr>)) k) = state (conn (cl W) k)"
        if "rq_view (W\<lparr>cl := L\<rparr>) h = Some (k, hs, st)" for h k hs st
        using that \<open>\<And>h hs st. rq_view W h \<noteq> Some (i, hs, st)\<close> \<open>\<And>j. j \<noteq> i \<Longrightarrow> state (conn L j) = state (conn (cl W) j)\<close>
        by (cases "k = i") simp_all
    qed
    then show ?thesis using that(1) by (simp add: sound_loop_def)
  qed
  have same: "sound_loop (W\<lparr>cl := L\<rparr>)" if "connections (dctx L) = connections (ctxt W)" for L
    using s that by (simp add: sound_loop_def answered_def conn_at_def proper_but_def)
  show ?thesis
  proof (cases r)
    case None
    then have "c = ctxt W" using alloc_cases [OF p a] by auto
    then have "connections (dctx L') = connections (ctxt W)" if "handle_accept m fd multi (cl W) = Some L'" for L'
      using that None a L1 unfolding handle_accept_def L1_def [symmetric] Let_def
      by (auto simp: close_fd_def split: if_splits)
    then show ?thesis using same by (auto simp: lift_loop_def sound_result_def)
  next
    case (Some i)
    note al = alloc_ctx_ok(2,3) [OF ok a [unfolded Some]]
    have sh: "i < length (connections (ctxt W))" using alloc_cases [OF p a] Some p by (auto simp: pool_ok_def)
    note shp = alloc_shape [OF a [unfolded Some] sh]
    have n: "rq_view W h \<noteq> Some (i, hs, st)" for h hs st
    proof
      assume "rq_view W h = Some (i, hs, st)"
      then have "reqs W h = Some i" by (auto simp: rq_view_def reqs_def)
      then have "curl_easy (conn (cl W) i) = Some h" using ok unfolding ctx_ok_def by blast
      then show False using al(2) shp(5) by simp
    qed
    have b: "async_write_buf (conn_at c i) = None"
    proof -
      have "state (conn_at c i) = CONN_STATE_UNUSED" using alloc_cases [OF p a] Some p shp(7) by (auto simp: pool_ok_def)
      moreover have "proper (conn_at c i)" using c al(1) by (simp add: proper_but_def)
      ultimately show ?thesis by (auto simp: proper_def)
    qed
    define c1 where "c1 = upd_conn i (\<lambda>c. c\<lparr>unix_fd := fd, state := CONN_STATE_RECEIVING_FD\<rparr>) c"
    define c2 where "c2 = (if benchmark_mode c1 then c1\<lparr>total_started := total_started c1 + 1\<rparr> else c1)"
    have p1: "proper_but None c1" unfolding c1_def using c b by (intro proper_but_upd) (simp_all add: proper_def)
    have c2: "connections c2 = connections c1" by (simp add: c2_def)
    then have p2: "proper_but None c2" using p1 proper_but_conns [of c2 c1] by simp
    have st: "state (conn_at c2 j) = state (conn (cl W) j)" if "j \<noteq> i" for j
      using that shp(10) c2 by (simp add: c1_def conn_at_def upd_conn_def)
    obtain rc r1 where sb: "ring_submit_recvmsg (conn_at c2 i) (lring L1) = (rc, r1)" by fastforce
    let ?L2 = "L1\<lparr>dctx := c2, lring := r1\<rparr>"
    have h: "handle_accept m fd multi (cl W) = (if fd < 0 then Some L1 else if rc < 0 then cleanup_connection i ?L2 else Some ?L2)"
      unfolding handle_accept_def L1_def [symmetric] Let_def
      by (simp only: L1 a Some prod.case option.case c1_def [symmetric] c2_def [symmetric] sb)
    have i2: "i < length (connections (dctx ?L2))" using al(1) by (simp add: c2_def c1_def)
    have cf: "sound_loop (W\<lparr>cl := L'\<rparr>)" if "cleanup_connection i ?L2 = Some L'" for L'
      by (rule fin [of L' i]) (use cleanup_frees [OF that proper_weaken i2] p2 st n in auto)
    have "sound_loop (W\<lparr>cl := ?L2\<rparr>)" by (rule fin [of ?L2 i]) (use p2 st n in auto)
    then show ?thesis using same [of L1] L1 cf unfolding lift_loop_def h by (auto simp: sound_result_def)
  qed
qed

lemma write_sound:
  assumes inv: "curl_inv W" and s: "sound_loop W" and i: "i < length (connections (ctxt W))"
    and st: "state (conn (cl W) i) = CONN_STATE_STREAMING \<or> state (conn (cl W) i) = CONN_STATE_CLOSING"
  shows "sound_result (lift_loop (handle_write i res mem) W)"
proof -
  have ok: "conn_ok (reqs W) i (conn (cl W) i)" using inv i unfolding curl_inv_def ctx_ok_def by blast
  then have c: "state (conn (cl W) i) = CONN_STATE_CLOSING" "write_buf (conn (cl W) i) = None" "free_to_start i W"
    using st i by (auto simp: conn_ok_def free_to_start_def)
  let ?L1 = "with_conn i (\<lambda>c. c\<lparr>bytes_sent := bytes_sent c + nat res, write_offset := write_offset c + nat res\<rparr>) (cl W)"
  let ?L2 = "with_conn i (\<lambda>c. c\<lparr>write_len := 0, write_offset := 0, write_buf := None\<rparr>) ?L1"
  have p: "proper_but None (ctxt W)" using s by (simp add: sound_loop_def)
  have 1: "proper_but None (dctx ?L1)" using p by (simp add: with_conn_def proper_but_same)
  then have 2: "proper_but None (dctx ?L2)" by (simp add: with_conn_def proper_but_same)
  have fr: "state (conn ?L1 j) = state (conn (cl W) j)" "state (conn ?L2 j) = state (conn (cl W) j)"
    "length (connections (dctx ?L1)) = length (connections (ctxt W))" "length (connections (dctx ?L2)) = length (connections (ctxt W))" for j
    using i by (cases "j = i"; simp add: with_conn_def)+
  have cnt: "conn (count_failed L) j = conn L j" "conn (count_completed k L) j = conn L j"
    "length (connections (dctx (count_failed L))) = length (connections (dctx L))"
    "length (connections (dctx (count_completed k L))) = length (connections (dctx L))" for L j k
    by (simp_all add: count_failed_def count_completed_def conn_at_def)
  have fin: "sound_loop (W\<lparr>cl := L'\<rparr>)"
    if "cleanup_connection i L = Some L'" "proper_but None (dctx L)" "\<And>j. state (conn L j) = state (conn (cl W) j)"
      "length (connections (dctx L)) = length (connections (ctxt W))" for L L'
  proof -
    have i': "i < length (connections (dctx L))" using i that(4) by simp
    note f = cleanup_frees [OF that(1) proper_weaken [OF that(2)] i']
    have "answered (W\<lparr>cl := L'\<rparr>)"
    proof (rule answered_frame [of W])
      show "answered W" using s by (simp add: sound_loop_def)
      show "rq_view W h = Some (k, hs, b) \<and> state (conn (cl (W\<lparr>cl := L'\<rparr>)) k) = state (conn (cl W) k)"
        if "rq_view (W\<lparr>cl := L'\<rparr>) h = Some (k, hs, b)" for h k hs b
        using that no_request [OF inv c(3)] f(2) \<open>\<And>j. state (conn L j) = state (conn (cl W) j)\<close> by (cases "k = i") simp_all
    qed
    then show ?thesis using f(1) by (simp add: sound_loop_def)
  qed
  have f0: "sound_loop (W\<lparr>cl := L'\<rparr>)" if "fail_connection i (cl W) = Some L'" for L'
    by (rule fin [OF that [unfolded fail_connection_def]]) (simp_all add: p cnt)
  have f1: "sound_loop (W\<lparr>cl := L'\<rparr>)" if "fail_connection i ?L1 = Some L'" for L'
    by (rule fin [OF that [unfolded fail_connection_def]]) (simp_all only: proper_but_fields 1 cnt fr)
  have f2: "sound_loop (W\<lparr>cl := L'\<rparr>)" if "cleanup_connection i (count_completed i ?L2) = Some L'" for L'
    by (rule fin [OF that]) (simp_all only: proper_but_fields 2 cnt fr)
  have "handle_write i res mem (cl W) \<in> {fail_connection i (cl W), fail_connection i ?L1, cleanup_connection i (count_completed i ?L2)}"
    unfolding handle_write_def Let_def using c i by (simp add: with_conn_def)
  then show ?thesis using f0 f1 f2 by (auto simp: lift_loop_def sound_result_def)
qed

section \<open>Executions\<close>

lemma process_cqe_curl_sound:
  assumes inv: "curl_inv W" and s: "sound_loop W"
  shows "sound_out (process_cqe_curl k a e W)"
proof -
  obtain p cid where pc: "ring_unpack_data (cqe_data e) = (p, cid)" by fastforce
  have ok: "conn_ok (reqs W) i (conn (cl W) i)" if "conn_get n (ctxt W) = Some i" for i n
    using get_in_range [OF inv that] inv unfolding curl_inv_def ctx_ok_def by blast
  have recv: "sound_result (curl_handle_recv_fd (k_config k) (k_start k) i (cqe_res e) a W)"
    if "conn_get n (ctxt W) = Some i" "state (conn (cl W) i) = CONN_STATE_RECEIVING_FD" for i n
    by (rule recv_sound [OF inv _ that(2) s])
      (use get_in_range [OF inv that(1)] ok [OF that(1)] that(2) in \<open>auto simp: free_to_start_def conn_ok_def\<close>)
  have aw: "sound_result (curl_handle_async_write i (cqe_res e) W)" if "conn_get n (ctxt W) = Some i" for i n
    by (rule async_write_sound [OF inv s get_in_range [OF inv that]])
  have w: "sound_result (lift_loop (handle_write i (cqe_res e) (a_write_mem a)) W)"
    if "conn_get n (ctxt W) = Some i" "state (conn (cl W) i) = CONN_STATE_STREAMING \<or> state (conn (cl W) i) = CONN_STATE_CLOSING" for i n
    by (rule write_sound [OF inv s get_in_range [OF inv that(1)] that(2)])
  have same: "sound_out (Some (Running W))" using s by (simp add: sound_out_def)
  show ?thesis
  proof (cases p)
    case None
    then show ?thesis using same by (simp add: process_cqe_curl_def pc)
  next
    case (Some x)
    then show ?thesis
      using same sound_running [OF recv] sound_running [OF aw] sound_running [OF w] sound_running [OF accept_sound [OF inv s]]
        poll_sound [OF inv s] timeout_sound [OF inv s]
      by (cases x) (auto simp: process_cqe_curl_def pc Let_def split: option.split)
  qed
qed

lemma completes_sound:
  assumes "completes (as_sys tk W) a e S" "sound_loop W"
  shows "sound_loop (W\<lparr>cl := lp S\<rparr>)"
proof -
  have o: "proper_but x (dctx (opened fd L)) = proper_but x (dctx L)" "dctx (retire s L) = dctx L"
    "conn (opened fd L) j = conn L j" for fd s L x j
    by (simp_all add: opened_def retire_def proper_but_def conn_at_def)
  have r: "proper_but x (dctx L) \<Longrightarrow> proper_but x (dctx (Loop_System.received j msg L))"
    "state (conn (Loop_System.received j msg L) k) = state (conn L k)" for j msg L x k
    by (simp_all add: Loop_System.received_def with_conn_def proper_but_same)
      (cases "j < length (connections (dctx L))"; cases "k = j"; simp add: upd_conn_def conn_at_def list_update_beyond)
  from assms(1) show ?thesis using assms(2)
    by cases (simp_all add: as_sys_def sound_loop_def answered_def o r)
qed

lemma step_sound: "curl_step W W' \<Longrightarrow> curl_inv W \<Longrightarrow> sound_loop W \<Longrightarrow> sound_loop W'"
proof (induction rule: curl_step.induct)
  case (cqe tk W a e S k W')
  from process_cqe_curl_sound [OF completes_inv [OF cqe(1,3)] completes_sound [OF cqe(1,4)], of k a e] cqe(2)
  show ?case by (simp add: sound_out_def)
next
  case (flush W W')
  from flush_sound [OF flush(2,3)] flush(1) show ?case by (simp add: sound_out_def)
next
  case (submit W)
  then show ?case by simp
next
  case (stop W)
  then show ?case by (simp add: sound_loop_def answered_def on_loop_def conn_at_def)
qed

lemma started_sound: "started_curl ctx W \<Longrightarrow> sound_loop W"
proof -
  assume s: "started_curl ctx W"
  then obtain c k ok p env cfg hs W0 where c: "conn_pool_init True ctx = Some c"
    and w0: "curl_manager_init env True True True hs \<lparr>dctx = c, lring = ring_new k ok, wpool = p\<rparr> = Some (cfg, W0)"
    and w: "lift_loop enter_loop W0 = Some W"
    unfolding started_curl_def by blast
  let ?n = "nat (max_connections ctx)"
  let ?c0 = "ctx\<lparr>connections := replicate ?n zero_connection, free_list := None\<rparr>"
  have "\<forall>x \<in> set (connections (init_loop ?n ?c0)). async_write_buf x = None"
    by (rule init_loop_keeps) (auto simp: init_connection_def zero_connection_def)
  then have "\<forall>x \<in> set (connections (init_loop ?n ?c0)). proper x" by (simp add: proper_def)
  then have "proper_but None c" using c by (auto simp: conn_pool_init_def Let_def proper_but_def conn_at_def)
  moreover have W0: "cl W0 = \<lparr>dctx = c, lring = ring_new k ok, wpool = p\<rparr>" "requests W0 = (\<lambda>_. None)"
    using w0 by (auto simp: curl_manager_init_def)
  moreover have "dctx L' = dctx L" if "enter_loop L = Some L'" for L L'
    using that by (auto simp: enter_loop_def split: prod.splits if_splits)
  ultimately have "proper_but None (ctxt W)" "requests W = (\<lambda>_. None)" using w by (auto simp: lift_loop_def)
  then show "sound_loop W" by (simp add: sound_loop_def answered_def rq_view_def)
qed

lemma curl_runs_sound: "curl_runs ctx W \<Longrightarrow> sound_loop W"
proof -
  have "curl_inv W \<and> sound_loop W" if "curl_reachable W0 W" "curl_inv W0" "sound_loop W0" for W0
    using that by (induction rule: curl_reachable.induct) (blast intro: step_keeps_inv step_sound)+
  then show "curl_runs ctx W \<Longrightarrow> sound_loop W" using started_inv started_sound unfolding curl_runs_def by blast
qed

end
