(* ===== verification/Curl_Demo.thy ===== *)
theory Curl_Demo
  imports Curl_Sound Loop_Correctness
begin

text \<open>
  A run of the curl mode with one connection, for the witnesses: a connection is accepted, a descriptor
  is received and a request starts, during which libcurl makes the callbacks \<open>es\<close>.
\<close>

definition crun_ctx :: daemon_ctx where
  "crun_ctx = (daemon_init True)\<lparr>max_connections := 1\<rparr>"

definition crun_ring :: "nat \<Rightarrow> (nat \<Rightarrow> bool) \<Rightarrow> sqe list \<Rightarrow> sqe list \<Rightarrow> nat \<Rightarrow> ring" where
  "crun_ring n ok q fl k = \<lparr>sq_entries = n, sq = q, inflight = fl, submit_ok = ok, submits = k, refused_links = 0\<rparr>"

definition crun_heap :: "nat \<Rightarrow> heap" where
  "crun_heap k = \<lparr>h_small = True, h_buf = (\<lambda>_. Some (1, \<lambda>_. NUL)), h_realloc = (\<lambda>_ _. Some (1, \<lambda>_. NUL))\<rparr>"

definition crun_state :: "daemon_ctx \<Rightarrow> ring \<Rightarrow> curl_loop" where
  "crun_state ctx r = \<lparr>cl = \<lparr>dctx = ctx, lring = r, wpool = demo_pool\<rparr>, mgr = new_manager, requests = (\<lambda>_. None),
     next_easy = 0, heaps = crun_heap, allocs = 0\<rparr>"

abbreviation crun_accept :: sqe where "crun_accept \<equiv> demo_sqe Prep_multishot_accept False OP_ACCEPT"
abbreviation crun_recv :: sqe where "crun_recv \<equiv> demo_sqe (Prep_recvmsg 5) False OP_RECV_FD"

definition crun0 :: "nat \<Rightarrow> (nat \<Rightarrow> bool) \<Rightarrow> curl_loop" where
  "crun0 n ok = crun_state (crun_ctx\<lparr>connections := [demo_conn], free_list := Some 0\<rparr>) (crun_ring n ok [] [crun_accept] 1)"

definition crun_conn :: connection where
  "crun_conn = demo_conn\<lparr>unix_fd := 5, state := CONN_STATE_RECEIVING_FD,
     handoff_buf := Some (map (\<lambda>_. NUL) [0..<HANDOFF_TIER1_SIZE]), handoff_cap := 4096\<rparr>"

definition crun1 :: "nat \<Rightarrow> (nat \<Rightarrow> bool) \<Rightarrow> curl_loop" where
  "crun1 n ok = crun_state (crun_ctx\<lparr>connections := [crun_conn], free_list := None, active_connections := 1,
       peak_connections := 1, d_fds := [5]\<rparr>) (crun_ring n ok [crun_recv] [crun_accept] 1)"

text \<open>The state in which the request is started.\<close>

definition crun_start :: "nat \<Rightarrow> (nat \<Rightarrow> bool) \<Rightarrow> curl_loop" where
  "crun_start n ok = crun_state (crun_ctx\<lparr>connections := [crun_conn\<lparr>unix_fd := -1, client_fd := 7, state := CONN_STATE_PARSING\<rparr>],
       free_list := None, active_connections := 1, peak_connections := 1, d_fds := [7]\<rparr>)
     (crun_ring n ok [] [crun_accept] 2)"

definition crun_config :: api_config where
  "crun_config = api_settings (\<lambda>v. if v = ''OPENAI_API_KEY'' then Some ''key'' else None)"

definition crun_answers :: "curl_event list \<Rightarrow> curl_answers" where
  "crun_answers es = \<lparr>k_config = crun_config, k_start = \<lparr>s_req = True, s_easy = True, s_body = True, s_add = True, s_kick = es\<rparr>,
     k_socket = (\<lambda>_ _. []), k_timeout = [], k_msgs = []\<rparr>"

lemmas crun_defs = crun_state_def crun_ring_def demo_pool_def demo_conn_def demo_sqe_def crun_ctx_def daemon_init_def

lemma crun_started: "0 < n \<Longrightarrow> ok 0 \<Longrightarrow> started_curl crun_ctx (crun0 n ok)"
proof -
  assume n: "0 < n" and ok: "ok 0"
  let ?c = "crun_ctx\<lparr>connections := [demo_conn], free_list := Some 0\<rparr>"
  have c: "conn_pool_init True crun_ctx = Some ?c"
    by (simp add: crun_defs conn_pool_init_def upd_conn_def init_connection_def zero_connection_def)
  let ?L = "\<lparr>dctx = ?c, lring = ring_new n ok, wpool = demo_pool\<rparr>"
  have m: "curl_manager_init (\<lambda>_. None) True True True crun_heap ?L =
      Some (api_settings (\<lambda>_. None), (crun0 n ok)\<lparr>cl := ?L\<rparr>)"
    by (simp add: curl_manager_init_def crun0_def crun_state_def)
  have "lift_loop enter_loop ((crun0 n ok)\<lparr>cl := ?L\<rparr>) = Some (crun0 n ok)"
    using n ok by (simp add: lift_loop_def enter_loop_def crun0_def crun_defs ring_new_def ring_submit_accept_def
        io_uring_get_sqe_def fill_sqe_def ring_submit_def io_uring_submit_def)
  with c m show ?thesis unfolding started_curl_def
    by (intro conjI exI [of _ ?c] exI [of _ n] exI [of _ ok] exI [of _ demo_pool]) (auto simp: crun_ctx_def daemon_init_def)
qed

lemmas crun_eval = demo_eval process_cqe_curl_def lift_loop_def crun_answers_def

lemma crun_step1: "0 < n \<Longrightarrow> curl_step (crun0 n ok) (crun1 n ok)"
proof -
  assume n: "0 < n"
  let ?e = "\<lparr>cqe_res = 5, cqe_more = True, cqe_data = sqe_data crun_accept\<rparr>"
  let ?S = "as_sys (\<lambda>_. []) (crun0 n ok)"
  have c: "completes ?S demo_answers ?e (?S\<lparr>lp := opened 5 (cl (crun0 n ok))\<rparr>)"
    using completes.accept [of crun_accept ?S ?e demo_answers]
    by (simp add: crun0_def crun_defs as_sys_def)
  show ?thesis
    by (rule curl_step.cqe [OF c, where k = "crun_answers []"])
      (use n in \<open>simp add: crun0_def crun1_def crun_conn_def crun_defs crun_eval as_sys_def HANDOFF_TIER1_SIZE_def zero_connection_def\<close>)
qed

lemma crun_step2: "curl_step (crun1 n ok) (cl_submit (crun1 n ok))" by (rule curl_step.submit)

definition crun_request :: "nat \<Rightarrow> (nat \<Rightarrow> bool) \<Rightarrow> curl_request" where
  "crun_request n ok = (let c = conn (cl (crun_start n ok)) 0 in
     \<lparr>rq_conn = 0, rq_api = make_request crun_config ''key'' (prompt_string c) (model_name c) (max_tokens (hdata c)),
      rq_headers_sent = False, rq_chunk_count = 0, rq_stopped = False\<rparr>)"

lemma crun_key: "api_key crun_config = Some ''key''"
  by (simp add: crun_config_def api_settings_def)

lemma crun_start_request:
  "curl_manager_start_request crun_config (k_start (crun_answers es)) 0 (crun_start n ok)
     = map_option (Pair 0) (run_events es (with_request (crun_request n ok) 0 (crun_start n ok)))"
  by (simp add: curl_manager_start_request_def crun_key crun_answers_def Let_def with_request_def pending_def crun_request_def
      cl_conn_def with_conn_def)

lemma crun_step3:
  assumes "0 < n" "ok 1" "run_events es (with_request (crun_request n ok) 0 (crun_start n ok)) = Some W"
  shows "curl_step (cl_submit (crun1 n ok)) W"
proof -
  let ?W = "cl_submit (crun1 n ok)"
  let ?e = "\<lparr>cqe_res = 0, cqe_more = False, cqe_data = sqe_data crun_recv\<rparr>"
  let ?S = "as_sys (\<lambda>_. []) ?W"
  have sub: "?W = (crun1 n ok)\<lparr>cl := (cl (crun1 n ok))\<lparr>lring := crun_ring n ok [] [crun_accept, crun_recv] 2\<rparr>\<rparr>"
    using assms(2) by (simp add: crun1_def crun_defs cl_submit_def cl_ring_def ring_submit_def io_uring_submit_def)
  let ?L = "opened 7 (Loop_System.received 0 [] (retire crun_recv (cl ?W)))"
  have c: "completes ?S demo_answers ?e (?S\<lparr>lp := ?L, taken := (taken ?S)(0 := [])\<rparr>)"
    using completes.recv [of crun_recv ?S 5 ?e "[]" demo_answers] unfolding sub
    by (simp add: crun1_def crun_defs as_sys_def demo_answers_def handoff_extract_fd_def fresh_item_def sqe_id_def unpack_pack)
  have d: "process_cqe_curl (crun_answers es) demo_answers ?e (?W\<lparr>cl := ?L\<rparr>)
      = map_option Running (curl_dispatch crun_config (k_start (crun_answers es)) 0 (crun_start n ok))"
    unfolding sub
    by (simp add: crun1_def crun_start_def crun_conn_def crun_defs process_cqe_curl_def unpack_pack opened_def conn_at_def upd_conn_def
        demo_answers_def Loop_System.received_def with_conn_def retire_def conn_get_def curl_handle_recv_fd_def cl_conn_def on_loop_def
        handoff_extract_fd_def close_fd_def handoff_validate_socket_def parse_handoff_def parse_nothing zero_connection_def
        crun_answers_def Let_def)
  show ?thesis
    by (rule curl_step.cqe [OF c, where k = "crun_answers es"]) (use d assms(3) in \<open>simp add: curl_dispatch_def crun_start_request\<close>)
qed

lemma crun_runs:
  assumes "0 < n" "ok 0" "ok 1" "run_events es (with_request (crun_request n ok) 0 (crun_start n ok)) = Some W"
  shows "curl_runs crun_ctx W"
  unfolding curl_runs_def
  using crun_started [of n ok, OF assms(1,2)] crun_step1 [OF assms(1), of ok] crun_step2 [of n ok]
    crun_step3 [of n ok, OF assms(1,3,4)]
  by (meson curl_reachable.intros)

section \<open>A full ring\<close>

text \<open>A ring with one entry: the timer that libcurl asks for fills it, and it cannot be submitted.\<close>

definition tight_ok :: "nat \<Rightarrow> bool" where "tight_ok k \<longleftrightarrow> k < 2"

definition tight_start :: curl_loop where
  "tight_start = with_request (crun_request 1 tight_ok) 0 (crun_start 1 tight_ok)"

definition tight_timer :: sqe where
  "tight_timer = \<lparr>prep = Prep_timeout 1, io_link = False, sqe_data = ring_pack_data OP_CURL_TIMEOUT 1\<rparr>"

lemma tight_timer_run:
  "\<exists>m. timer_callback 1 tight_start = tight_start\<lparr>mgr := m, cl := (cl tight_start)\<lparr>lring := crun_ring 1 tight_ok [tight_timer] [crun_accept] 3\<rparr>\<rparr>"
  by (simp add: timer_callback_def tight_start_def with_request_def pending_def crun_start_def crun_state_def crun_ring_def cl_ring_def
      cl_conn_def with_conn_def new_manager_def cl_submit_def ring_submit_def io_uring_submit_def ring_submit_curl_timeout_def
      with_flush_def ring_get_sqe_flush_def io_uring_get_sqe_def fill_sqe_def tight_ok_def tight_timer_def c_int_def Let_def)

definition tight_wb :: write_buffer where
  "tight_wb = \<lparr>buffer = map (\<lambda>_. NUL) [0..<WRITE_BUFFER_DEFAULT_SIZE], buf_addr = 1, capacity = WRITE_BUFFER_DEFAULT_SIZE,
     head = 0, tail = 0, bytes_written = 0, write_pending = False\<rparr>"

lemma tight_buffers: "write_buffer_init (h_buf (crun_heap k)) = Some tight_wb" "wb_ok tight_wb"
  "write_buffer_append r SSE_HEADERS tight_wb = (0, store_bytes SSE_HEADERS tight_wb)"
proof -
  have l: "length SSE_HEADERS < 200" by code_simp
  show "write_buffer_init (h_buf (crun_heap k)) = Some tight_wb" "wb_ok tight_wb"
    by (simp_all add: write_buffer_init_def write_buffer_init_sized_def crun_heap_def tight_wb_def wb_ok_def
        WRITE_BUFFER_DEFAULT_SIZE_def WRITE_BUFFER_MAX_SIZE_def del: upt_conv_Cons)
  show "write_buffer_append r SSE_HEADERS tight_wb = (0, store_bytes SSE_HEADERS tight_wb)"
    using l by (simp add: write_buffer_append_def tight_wb_def WRITE_BUFFER_DEFAULT_SIZE_def WRITE_BUFFER_MAX_SIZE_def Let_def del: upt_conv_Cons)
qed

text \<open>What stays true while the ring takes nothing.\<close>

definition stuck :: "curl_loop \<Rightarrow> bool" where
  "stuck W \<longleftrightarrow> sq_entries (lring (cl W)) \<le> length (sq (lring (cl W))) \<and> (\<forall>k \<ge> submits (lring (cl W)). \<not> submit_ok (lring (cl W)) k)
     \<and> refused_links (lring (cl W)) = 0"

definition waits_to_write :: "curl_loop \<Rightarrow> bool" where
  "waits_to_write W \<longleftrightarrow> stuck W \<and> dirty_head (ctxt W) = Some 0 \<and> length (connections (ctxt W)) = 1
     \<and> state (conn (cl W) 0) = CONN_STATE_CURL_ACTIVE \<and> idle_data (conn (cl W) 0)"

lemma try_stuck: "waits_to_write W \<Longrightarrow> waits_to_write (try_immediate_write i W)"
proof -
  assume w: "waits_to_write W"
  let ?V = "W\<lparr>cl := (cl W)\<lparr>lring := io_uring_submit (lring (cl W))\<rparr>\<rparr>"
  have "cl_ring (ring_submit_write c d) W = (-11, ?V)" for c d
    using w by (simp add: waits_to_write_def stuck_def cl_ring_def ring_submit_write_def with_flush_def ring_get_sqe_flush_def
        io_uring_get_sqe_def io_uring_submit_def)
  then have "try_immediate_write i W \<in> {W, ?V}"
    by (auto simp: try_immediate_write_def split: option.split)
  moreover have "waits_to_write ?V" using w by (simp add: waits_to_write_def stuck_def io_uring_submit_def)
  ultimately show ?thesis using w by auto
qed

lemma waits_conn:
  "waits_to_write W \<Longrightarrow> (\<And>c. state (f c) = state c \<and> async_write_buf (f c) = async_write_buf c) \<Longrightarrow> waits_to_write (cl_conn i f W)"
  by (auto simp: waits_to_write_def stuck_def idle_data_def cl_conn_at) (auto simp: cl_conn_def with_conn_def)

lemma waits_same:
  "waits_to_write W \<Longrightarrow> cl V = cl W \<Longrightarrow> waits_to_write V"
  by (simp add: waits_to_write_def stuck_def)

lemma tight_headers:
  assumes V: "V = tight_start\<lparr>mgr := m, cl := (cl tight_start)\<lparr>lring := crun_ring 1 tight_ok [tight_timer] [crun_accept] 3\<rparr>\<rparr>"
  shows "\<exists>W. queue_headers 0 0 V = (True, W) \<and> waits_to_write W \<and> sse_line_buf (conn (cl W) 0) = None"
proof -
  let ?wb = "store_bytes SSE_HEADERS tight_wb"
  define c where "c = conn (cl V) 0"
  have c: "async_write_buf c = None" "\<not> on_dirty_list c" "sse_line_buf c = None" "length (connections (ctxt V)) = 1" "dirty_tail (ctxt V) = None"
    "allocs V = 0" "heaps V = crun_heap"
    by (simp_all add: c_def V tight_start_def with_request_def pending_def crun_start_def crun_state_def crun_conn_def demo_conn_def
        zero_connection_def cl_conn_def with_conn_def upd_conn_def conn_at_def crun_ctx_def daemon_init_def)
  have h: "h_small (crun_heap k)" for k by (simp add: crun_heap_def)
  let ?V1 = "cl_conn 0 (\<lambda>c. c\<lparr>async_write_buf := Some tight_wb\<rparr>) (V\<lparr>allocs := 1\<rparr>)"
  let ?V2 = "cl_conn 0 (\<lambda>c. c\<lparr>async_write_buf := Some ?wb\<rparr>) (?V1\<lparr>allocs := 2\<rparr>)"
  have e: "ensure_write_buf 0 V = (True, ?V1)"
    using c(1,6,7) h tight_buffers(1) by (simp add: ensure_write_buf_def next_heap_def c_def)
  have a: "append_write_buf 0 SSE_HEADERS ?V1 = (True, ?V2)"
    using c(4,6,7) tight_buffers(3) by (simp add: append_write_buf_def next_heap_def cl_conn_at) (simp add: cl_conn_def)
  define V3 where "V3 = ?V2\<lparr>requests := (requests ?V2)(0 := map_option (rq_headers_sent_update (\<lambda>_. True)) (requests ?V2 0))\<rparr>"
  define V4 where "V4 = cl_conn 0 (state_update (\<lambda>_. CONN_STATE_CURL_ACTIVE)) (cl_dirty 0 V3)"
  have q: "queue_headers 0 0 V = (True, try_immediate_write 0 V4)"
    by (simp only: V3_def V4_def queue_headers_def e a prod.case Let_def not_True_eq_False if_False)
  have d3: "conn (cl V3) 0 = c\<lparr>async_write_buf := Some ?wb\<rparr>" "length (connections (ctxt V3)) = 1" "dirty_tail (ctxt V3) = None"
    using c unfolding V3_def by (simp_all add: cl_conn_at c_def) (simp add: cl_conn_def with_conn_def)
  have dd: "ctxt (cl_dirty 0 V3) = (upd_conn 0 (\<lambda>c. c\<lparr>on_dirty_list := True, dirty_next := None\<rparr>) (ctxt V3))\<lparr>dirty_head := Some 0, dirty_tail := Some 0\<rparr>"
    using d3 c(2) by (simp add: cl_dirty_def daemon_mark_connection_dirty_def Let_def)
  have d4: "conn (cl V4) 0 = c\<lparr>async_write_buf := Some ?wb, on_dirty_list := True, dirty_next := None, state := CONN_STATE_CURL_ACTIVE\<rparr>"
    "length (connections (ctxt V4)) = 1" "dirty_head (ctxt V4) = Some 0"
    using d3 unfolding V4_def by (simp_all add: cl_conn_at dd) (simp add: cl_conn_def with_conn_def dd)
  have "idle_data (conn (cl V4) 0)" unfolding d4(1)
    by (simp add: idle_data_def write_buffer_has_data_def write_buffer_is_busy_def store_bytes_def tight_wb_def SSE_HEADERS_def del: upt_conv_Cons)
  moreover have "lring (cl V4) = crun_ring 1 tight_ok [tight_timer] [crun_accept] 3"
    unfolding V4_def V3_def by (simp add: cl_conn_def with_conn_def cl_dirty_def V)
  ultimately have w: "waits_to_write V4"
    using d4 by (simp add: waits_to_write_def stuck_def crun_ring_def tight_ok_def)
  have "line_of 0 (try_immediate_write 0 V4) = line_of 0 V4" by (rule line_of_silent [OF try_immediate_write_silent])
  have "sse_line_buf (conn (cl (try_immediate_write 0 V4)) 0) = sse_line_buf (conn (cl V4) 0)"
    using try_immediate_write_silent [of V4 0] by (simp add: silent_def stream_view_def)
  then show ?thesis using q try_stuck [OF w] c(3) d4(1) by simp
qed

lemma waits_lines:
  "waits_to_write W \<Longrightarrow> ensure_line_buf i W = (ok, V) \<Longrightarrow> waits_to_write V"
  "waits_to_write W \<Longrightarrow> grow_line_buf i n W = (ok, V) \<Longrightarrow> waits_to_write V"
  "waits_to_write W \<Longrightarrow> waits_to_write (set_line i b W)"
  by (auto simp: ensure_line_buf_def grow_line_buf_def set_line_def next_heap_def Let_def intro!: waits_conn split: if_splits
      intro: waits_same)

lemma tight_callback:
  assumes q: "queue_headers 0 0 V = (True, W1)" "waits_to_write W1" "sse_line_buf (conn (cl W1) 0) = None"
    and rq: "rq_conn rq = 0" "\<not> rq_headers_sent rq"
  shows "\<exists>W. curl_write_callback 0 rq [] V = Some (0, W) \<and> waits_to_write W"
proof -
  obtain ok2 W2 where l: "ensure_line_buf 0 W1 = (ok2, W2)" by fastforce
  obtain ok3 W3 where g: "grow_line_buf 0 0 W2 = (ok3, W3)" by fastforce
  note w2 = waits_lines(1) [OF q(2) l]
  note w3 = waits_lines(2) [OF w2 g]
  have n: "0 < length (connections (ctxt W1))" "0 < length (connections (ctxt W2))" "0 < length (connections (ctxt W3))"
    using q(2) w2 w3 by (simp_all add: waits_to_write_def)
  let ?h = "\<lambda>line W. Some (process_sse_line 0 0 line W)"
  show ?thesis
  proof (cases "ok2 \<and> ok3")
    case False
    then have "curl_write_callback 0 rq [] V = Some (0, if \<not> ok2 then W2 else W3)"
      using q(1) l g rq by (auto simp: curl_write_callback_def Let_def)
    then show ?thesis using w2 w3 by simp
  next
    case True
    then have "sse_line_buf (conn (cl W3) 0) = Some []"
      using line_buf_reads(1) [OF n(1) l] line_buf_reads(2) [OF n(2) g] q(3) by (auto simp: line_of_def)
    then have "process_lines ?h [] (the (sse_line_buf (conn (cl (set_line 0 [] W3)) 0))) (set_line 0 [] W3) = Some (True, [], set_line 0 [] W3)"
      using n(3) by (simp add: set_line_def cl_conn_at process_lines.simps)
    then have "curl_write_callback 0 rq [] V = Some (0, try_immediate_write 0 (set_line 0 [] (set_line 0 [] W3)))"
      using q(1) l g rq True \<open>sse_line_buf (conn (cl W3) 0) = Some []\<close> by (simp add: curl_write_callback_def Let_def)
    then show ?thesis using try_stuck [OF waits_lines(3) [OF waits_lines(3) [OF w3]]] by blast
  qed
qed

lemma tight_run: "\<exists>W. run_events [Timer_cb 1, Write_cb 0 []] tight_start = Some W \<and> waits_to_write W"
proof -
  obtain m where t: "timer_callback 1 tight_start
      = tight_start\<lparr>mgr := m, cl := (cl tight_start)\<lparr>lring := crun_ring 1 tight_ok [tight_timer] [crun_accept] 3\<rparr>\<rparr>"
    using tight_timer_run by blast
  have r: "requests (timer_callback 1 tight_start) 0 = Some (crun_request 1 tight_ok)"
    unfolding t by (simp add: tight_start_def with_request_def crun_start_def crun_state_def)
  obtain W1 where h: "queue_headers 0 0 (timer_callback 1 tight_start) = (True, W1)" "waits_to_write W1"
    "sse_line_buf (conn (cl W1) 0) = None" using tight_headers [OF t] by blast
  have q: "rq_conn (crun_request 1 tight_ok) = 0" "\<not> rq_headers_sent (crun_request 1 tight_ok)" "\<not> rq_stopped (crun_request 1 tight_ok)"
    by (simp_all add: crun_request_def Let_def)
  from tight_callback [OF h q(1,2)] r q(3) show ?thesis by (auto simp: bind_eq_Some_conv)
qed

end
