(* ===== verification/Curl_Owners.thy ===== *)
theory Curl_Owners
  imports Curl_Sound
begin

text \<open>
  Which entries of the ring work for which connection in the curl mode: at most one for each connection, a
  \<open>recvmsg\<close> while it waits for its descriptor, or the write of the first bytes of its buffer, which is
  marked busy as long. The callbacks of libcurl, whatever they are, keep this.
\<close>

section \<open>The entries of a connection\<close>

definition owners_at :: "nat \<Rightarrow> ring \<Rightarrow> owner multiset" where
  "owners_at i r = image_mset snd (filter_mset (\<lambda>x. fst x = i) (ring_owners r))"

definition holds :: "connection \<Rightarrow> owner multiset \<Rightarrow> bool" where
  "holds c M \<longleftrightarrow> (\<forall>wb. async_write_buf c = Some wb \<longrightarrow> wb_ok wb)
     \<and> (M = {#} \<or> M = {#Receiving#} \<and> state c = CONN_STATE_RECEIVING_FD \<and> async_write_buf c = None
        \<or> (\<exists>wb b. M = {#Sending b#} \<and> b \<noteq> [] \<and> async_write_buf c = Some wb \<and> write_buffer_is_busy wb \<and> prefix b (wb_content wb)))"

definition held :: "curl_loop \<Rightarrow> bool" where
  "held W \<longleftrightarrow> ring_ok (lring (cl W)) \<and> length (connections (ctxt W)) \<le> 2 ^ 32
     \<and> (\<forall>j < length (connections (ctxt W)). conn_id (conn (cl W) j) = j \<and> holds (conn (cl W) j) (owners_at j (lring (cl W))))
     \<and> (\<forall>j \<ge> length (connections (ctxt W)). owners_at j (lring (cl W)) = {#})"

abbreviation refused :: "curl_loop \<Rightarrow> nat" where "refused W \<equiv> refused_links (lring (cl W))"

lemma holds_view:
  "async_write_buf c' = async_write_buf c \<Longrightarrow> (state c' = CONN_STATE_RECEIVING_FD) = (state c = CONN_STATE_RECEIVING_FD)
     \<Longrightarrow> holds c' M = holds c M"
  by (simp add: holds_def)

lemma holds_none: "holds c M \<Longrightarrow> async_write_buf c = None \<Longrightarrow> state c \<noteq> CONN_STATE_RECEIVING_FD \<Longrightarrow> M = {#}"
  by (auto simp: holds_def)

lemma holds_idle: "holds c M \<Longrightarrow> async_write_buf c = Some wb \<Longrightarrow> \<not> write_buffer_is_busy wb \<Longrightarrow> M = {#}"
  by (auto simp: holds_def)

lemma holds_empty: "(\<And>wb. async_write_buf c = Some wb \<Longrightarrow> wb_ok wb) \<Longrightarrow> holds c {#}"
  by (simp add: holds_def)

lemma holds_more:
  assumes "holds c M" "async_write_buf c = Some wb" "wb_ok wb'" "prefix (wb_content wb) (wb_content wb')"
    "write_pending wb' = write_pending wb"
  shows "holds (c\<lparr>async_write_buf := Some wb'\<rparr>) M"
  using assms by (auto simp: holds_def write_buffer_is_busy_def intro: prefix_order.trans)

lemma held_at: "held W \<Longrightarrow> i < length (connections (ctxt W)) \<Longrightarrow> holds (conn (cl W) i) (owners_at i (lring (cl W)))"
  by (simp add: held_def)

lemma held_id: "held W \<Longrightarrow> i < length (connections (ctxt W)) \<Longrightarrow> conn_id (conn (cl W) i) = i \<and> i < 2 ^ 32"
  by (auto simp: held_def)

lemma held_frame:
  assumes "held W" and "ring_ok (lring (cl W)) \<Longrightarrow> ring_ok (lring (cl W'))" "ring_owners (lring (cl W')) = ring_owners (lring (cl W))"
    and "length (connections (ctxt W')) = length (connections (ctxt W))"
    and "\<And>j M. j < length (connections (ctxt W)) \<Longrightarrow> conn_id (conn (cl W') j) = conn_id (conn (cl W) j)
       \<and> (M = owners_at j (lring (cl W)) \<longrightarrow> holds (conn (cl W) j) M \<longrightarrow> holds (conn (cl W') j) M)"
  shows "held W'"
proof -
  have o: "owners_at j (lring (cl W')) = owners_at j (lring (cl W))" for j using assms(3) by (simp add: owners_at_def)
  show ?thesis using assms(1,2,5) unfolding held_def assms(4) o by simp
qed

text \<open>The entries of one connection change.\<close>

lemma held_owner:
  assumes "held W" "i < length (connections (ctxt W))" and "ring_ok (lring (cl W'))"
    and "\<And>j. j \<noteq> i \<Longrightarrow> owners_at j (lring (cl W')) = owners_at j (lring (cl W))"
    and "length (connections (ctxt W')) = length (connections (ctxt W))"
    and "\<And>j. j < length (connections (ctxt W)) \<Longrightarrow> conn_id (conn (cl W') j) = conn_id (conn (cl W) j)"
    and "\<And>j M. j < length (connections (ctxt W)) \<Longrightarrow> j \<noteq> i \<Longrightarrow> holds (conn (cl W) j) M \<Longrightarrow> holds (conn (cl W') j) M"
    and "holds (conn (cl W') i) (owners_at i (lring (cl W')))"
  shows "held W'"
proof -
  have n: "length (connections (ctxt W)) \<le> 2 ^ 32" using assms(1) unfolding held_def by blast
  have a: "conn_id (conn (cl W') j) = j \<and> holds (conn (cl W') j) (owners_at j (lring (cl W')))"
    if "j < length (connections (ctxt W))" for j
    using that assms by (cases "j = i") (simp_all add: held_def)
  have b: "owners_at j (lring (cl W')) = {#}" if "length (connections (ctxt W)) \<le> j" for j
    using that assms(1,2,4) unfolding held_def by (metis not_le)
  show ?thesis unfolding held_def assms(5) using n a b assms(3) by blast
qed

section \<open>Steps for one connection\<close>

definition up :: "nat \<Rightarrow> curl_loop \<Rightarrow> bool" where
  "up i W \<longleftrightarrow> i < length (connections (ctxt W)) \<and> state (conn (cl W) i) \<noteq> CONN_STATE_RECEIVING_FD"

definition passes :: "nat \<Rightarrow> curl_loop \<Rightarrow> curl_loop \<Rightarrow> bool" where
  \<comment> \<open>a step for a connection \<open>i\<close> that is not waiting for its descriptor\<close>
  "passes i W W' \<longleftrightarrow> refused W \<le> refused W' \<and> (up i W \<longrightarrow> up i W' \<and> (held W \<longrightarrow> held W'))"

lemma passes_refl [simp]: "passes i W W" by (simp add: passes_def)

lemma passes_trans [trans]: "passes i W V \<Longrightarrow> passes i V X \<Longrightarrow> passes i W X" by (auto simp: passes_def)

lemma passes_ring:
  assumes "ctxt W' = ctxt W" "ring_ok (lring (cl W)) \<Longrightarrow> ring_ok (lring (cl W'))"
    "ring_owners (lring (cl W')) = ring_owners (lring (cl W))" "refused W \<le> refused W'"
  shows "passes i W W'"
  using held_frame [of W W'] assms by (simp add: passes_def up_def)

lemma passes_cl: "cl W' = cl W \<Longrightarrow> passes i W W'" by (rule passes_ring) simp_all

definition quiet :: "(ring \<Rightarrow> int \<times> ring) \<Rightarrow> bool" where
  \<comment> \<open>an operation of the ring that adds no entry for a connection\<close>
  "quiet f \<longleftrightarrow> (\<forall>r rc r'. f r = (rc, r') \<longrightarrow> ring_owners r' = ring_owners r \<and> (ring_ok r \<longrightarrow> ring_ok r')
     \<and> refused_links r \<le> refused_links r')"

lemma quiet_flush:
  assumes "x \<in> prep_op p" "\<And>fd. p \<noteq> Prep_recvmsg fd" "\<And>fd b. p \<noteq> Prep_write fd b"
  shows "quiet (with_flush p l x n)"
  unfolding quiet_def
proof (intro allI impI)
  fix r rc r' assume w: "with_flush p l x n r = (rc, r')"
  have "sqe_owner \<lparr>prep = p, io_link = l, sqe_data = d\<rparr> = None" for d
    using assms(2,3) by (auto simp: sqe_owner_def split: prep.split)
  then show "ring_owners r' = ring_owners r \<and> (ring_ok r \<longrightarrow> ring_ok r') \<and> refused_links r \<le> refused_links r'"
    using with_flush_cases [OF w] ring_ok_submit [OF _ w assms(1)] by (auto simp: ring_owners_def)
qed

lemma quiet_ops [simp]:
  "quiet (ring_submit_poll_add fd ev)" "quiet (ring_submit_poll_cancel fd)" "quiet (ring_submit_curl_timeout ms t)"
  "quiet (ring_cancel_curl_timeout t)" "quiet (\<lambda>r. (0, ring_submit r))"
  by (simp_all add: ring_submit_poll_add_def ring_submit_poll_cancel_def ring_submit_curl_timeout_def
      ring_cancel_curl_timeout_def quiet_flush)
    (simp add: quiet_def ring_submit_def ring_owners_def ring_ok_def)

lemma quiet_link [simp]: "quiet (ring_submit_linked_timeout c ms)"
  unfolding quiet_def
proof (intro allI impI)
  fix r rc r' assume t: "ring_submit_linked_timeout c ms r = (rc, r')"
  show "ring_owners r' = ring_owners r \<and> (ring_ok r \<longrightarrow> ring_ok r') \<and> refused_links r \<le> refused_links r'"
    using linked_timeout_cases [OF t] ring_ok_link [OF _ t] by (auto simp: ring_owners_def sqe_owner_def)
qed

lemma passes_quiet: "quiet f \<Longrightarrow> cl_ring f W = (rc, W') \<Longrightarrow> passes i W W'"
  by (rule passes_ring) (auto simp: cl_ring_def quiet_def split: prod.splits)

lemma passes_quiet_snd [simp]: "quiet f \<Longrightarrow> passes i W (snd (cl_ring f W))"
  using passes_quiet [of f W "fst (cl_ring f W)"] by simp

lemma passes_submit [simp]: "passes i W (cl_submit W)" by (simp add: cl_submit_def)

lemma passes_heap: "next_heap W = (h, W') \<Longrightarrow> passes i W W'"
  by (rule passes_cl) (auto simp: next_heap_def)

lemma held_view:
  assumes "held W" "lring (cl W') = lring (cl W)" "length (connections (ctxt W')) = length (connections (ctxt W))"
    and "\<And>j. conn_id (conn (cl W') j) = conn_id (conn (cl W) j)"
    and "\<And>j. async_write_buf (conn (cl W') j) = async_write_buf (conn (cl W) j)"
    and "\<And>j. (state (conn (cl W') j) = CONN_STATE_RECEIVING_FD) = (state (conn (cl W) j) = CONN_STATE_RECEIVING_FD)"
  shows "held W'"
proof -
  have h: "holds (conn (cl W') j) M = holds (conn (cl W) j) M" for j M using holds_view assms(5,6) by blast
  show ?thesis using assms(1) unfolding held_def assms(2,3,4) h .
qed

lemma lring_cl_conn [simp]: "lring (cl (cl_conn i f W)) = lring (cl W)" by (simp add: cl_conn_def with_conn_def)

lemma lring_cl_dirty [simp]: "lring (cl (cl_dirty i W)) = lring (cl W)" by (simp add: cl_dirty_def)

lemma passes_conn:
  assumes f: "\<And>c. conn_id (f c) = conn_id c \<and> state (f c) = state c \<and> async_write_buf (f c) = async_write_buf c"
  shows "passes i W (cl_conn k f W)"
proof -
  have v: "conn_id (conn (cl (cl_conn k f W)) j) = conn_id (conn (cl W) j)" "state (conn (cl (cl_conn k f W)) j) = state (conn (cl W) j)"
    "async_write_buf (conn (cl (cl_conn k f W)) j) = async_write_buf (conn (cl W) j)" for j
    using f by (simp_all add: cl_conn_at)
  have "held (cl_conn k f W)" if "held W" by (rule held_view [OF that]) (simp_all add: v)
  then show ?thesis by (simp add: passes_def up_def v)
qed

text \<open>The buffer or the state of the connection changes.\<close>

lemma passes_at:
  assumes id: "\<And>c. conn_id (f c) = conn_id c"
    and st: "up i W \<Longrightarrow> state (f (conn (cl W) i)) \<noteq> CONN_STATE_RECEIVING_FD"
    and h: "\<And>M. up i W \<Longrightarrow> holds (conn (cl W) i) M \<Longrightarrow> holds (f (conn (cl W) i)) M"
  shows "passes i W (cl_conn i f W)"
proof -
  have "held (cl_conn i f W)" if "held W" "up i W"
  proof (rule held_frame [OF that(1)])
    fix j M
    show "conn_id (conn (cl (cl_conn i f W)) j) = conn_id (conn (cl W) j)
        \<and> (M = owners_at j (lring (cl W)) \<longrightarrow> holds (conn (cl W) j) M \<longrightarrow> holds (conn (cl (cl_conn i f W)) j) M)"
      using id h [OF that(2), of M] by (auto simp: cl_conn_at)
  qed simp_all
  then show ?thesis using st by (simp add: passes_def up_def cl_conn_at)
qed

lemma mark_id: "conn_id (conn_at (daemon_mark_connection_dirty i ctx) j) = conn_id (conn_at ctx j)"
proof -
  have h: "conn_at (c\<lparr>dirty_head := x\<rparr>) j = conn_at c j" "conn_at (c\<lparr>dirty_tail := x\<rparr>) j = conn_at c j"
    "conn_at (c\<lparr>dirty_head := x, dirty_tail := y\<rparr>) j = conn_at c j" for c x y
    by (simp_all add: conn_at_def)
  have u: "conn_id (conn_at (upd_conn k f c) j) = conn_id (conn_at c j)" if "\<And>c. conn_id (f c) = conn_id c" for k f c
    using that by (cases "k < length (connections c)"; cases "j = k") (simp_all add: upd_conn_def conn_at_def list_update_beyond)
  show ?thesis unfolding daemon_mark_connection_dirty_def Let_def by (simp add: u h split: option.split)
qed

lemma passes_dirty: "passes i W (cl_dirty i W)"
proof (cases "up i W")
  case True
  then have i: "i < length (connections (ctxt W))" by (simp add: up_def)
  have v: "conn_id (conn (cl (cl_dirty i W)) j) = conn_id (conn (cl W) j)"
    "state (conn (cl (cl_dirty i W)) j) = state (conn (cl W) j)"
    "async_write_buf (conn (cl (cl_dirty i W)) j) = async_write_buf (conn (cl W) j)"
    "length (connections (ctxt (cl_dirty i W))) = length (connections (ctxt W))" for j
    using mark_id mark_at(1) [OF i] dirty_streams by (simp_all add: cl_dirty_def)
  have "held (cl_dirty i W)" if "held W" by (rule held_view [OF that]) (simp_all add: v)
  then show ?thesis using True by (simp add: passes_def up_def v)
qed (simp add: passes_def)

section \<open>Callbacks\<close>

lemma passes_ensure:
  assumes "ensure_write_buf i W = (ok, W')"
  shows "passes i W W'"
proof (cases "async_write_buf (conn (cl W) i) \<noteq> None")
  case True
  then show ?thesis using assms by (simp add: ensure_write_buf_def)
next
  case none: False
  obtain h V where h: "next_heap W = (h, V)" by fastforce
  note p = passes_heap [OF h]
  show ?thesis
  proof (cases "h_small h \<and> write_buffer_init (h_buf h) \<noteq> None")
    case False
    then have "W' = V" using assms none h by (auto simp: ensure_write_buf_def split: if_splits option.splits)
    then show ?thesis using p by simp
  next
    case True
    then obtain wb where wb: "write_buffer_init (h_buf h) = Some wb" by auto
    have k: "wb_ok wb"
      using init_ok [OF wb [unfolded write_buffer_init_def]] by (simp add: WRITE_BUFFER_DEFAULT_SIZE_def WRITE_BUFFER_MAX_SIZE_def)
    have c: "conn (cl V) i = conn (cl W) i" using heap_ctxt [OF h] by simp
    have "passes i V (cl_conn i (\<lambda>c. c\<lparr>async_write_buf := Some wb\<rparr>) V)"
    proof (rule passes_at)
      show "holds ((conn (cl V) i)\<lparr>async_write_buf := Some wb\<rparr>) M" if "up i V" "holds (conn (cl V) i) M" for M
        using holds_none [OF that(2)] that(1) none c k by (simp add: up_def holds_def)
    qed (simp_all add: up_def)
    then show ?thesis using assms none h True wb passes_trans [OF p] by (simp add: ensure_write_buf_def)
  qed
qed

lemma passes_append:
  assumes "append_write_buf i d W = (ok, W')"
  shows "passes i W W'"
proof (cases "async_write_buf (conn (cl W) i)")
  case None
  then show ?thesis using assms by (simp add: append_write_buf_def)
next
  case (Some wb)
  obtain h V where h: "next_heap W = (h, V)" by fastforce
  have c: "conn (cl V) i = conn (cl W) i" using heap_ctxt [OF h] by simp
  obtain rc wb1 where a: "write_buffer_append (h_realloc h) d wb = (rc, wb1)" by fastforce
  have "passes i V (cl_conn i (\<lambda>c. c\<lparr>async_write_buf := Some wb1\<rparr>) V)"
  proof (rule passes_at)
    fix M assume m: "holds (conn (cl V) i) M"
    then have k: "wb_ok wb" using Some c by (simp add: holds_def)
    note sp = append_spec [OF k a]
    have pre: "prefix (wb_content wb) (wb_content wb1)" using sp(2) by simp
    show "holds ((conn (cl V) i)\<lparr>async_write_buf := Some wb1\<rparr>) M"
      by (rule holds_more [OF m]) (use Some c sp(1,4) pre in simp_all)
  qed (simp_all add: up_def)
  then show ?thesis using assms Some h a passes_trans [OF passes_heap [OF h]] by (auto simp: append_write_buf_def)
qed

section \<open>A write is started\<close>

lemma owners_submit_write:
  assumes "ring_submit_write c d r = (rc, r')" "conn_id c < 2 ^ 32"
  shows "ring_owners r' = (if rc < 0 then ring_owners r else add_mset (conn_id c, Sending d) (ring_owners r))"
    "ring_ok r \<Longrightarrow> ring_ok r'" "refused_links r' = refused_links r"
proof -
  note w = with_flush_cases [OF assms(1) [unfolded ring_submit_write_def]]
  let ?s = "\<lparr>prep = Prep_write (client_fd c) d, io_link = True, sqe_data = ring_pack_data OP_WRITE (of_nat (conn_id c))\<rparr>"
  have "sqe_owner ?s = Some (conn_id c, Sending d)" using assms(2) by (simp add: sqe_owner_def sqe_id_pack)
  then show "ring_owners r' = (if rc < 0 then ring_owners r else add_mset (conn_id c, Sending d) (ring_owners r))"
    using w by (auto simp: ring_owners_def)
  show "ring_ok r \<Longrightarrow> ring_ok r'" by (rule ring_ok_submit [OF _ assms(1) [unfolded ring_submit_write_def]]) simp_all
  show "refused_links r' = refused_links r" using w by simp
qed

lemma owners_at_add: "ring_owners r' = add_mset (k, w) (ring_owners r)
    \<Longrightarrow> owners_at j r' = (if j = k then add_mset w (owners_at j r) else owners_at j r)"
  by (simp add: owners_at_def)

lemma start_write_held:
  assumes h: "held W" and i: "i < length (connections (ctxt W))"
    and wb: "async_write_buf (conn (cl W) i) = Some wb" "\<not> write_buffer_is_busy wb" "write_buffer_get_next wb = Some data"
    and w: "cl_ring (ring_submit_write (conn (cl W) i) data) W = (rc, W1)"
  shows "refused W1 = refused W" "rc < 0 \<Longrightarrow> held W1"
    and "quiet f \<Longrightarrow> \<not> rc < 0 \<Longrightarrow>
      held (cl_conn i (\<lambda>c. c\<lparr>async_write_buf := Some (write_buffer_set_pending True wb)\<rparr>) (snd (cl_ring f W1)))"
proof -
  let ?r = "lring (cl W)"
  note id = held_id [OF h i] and m = holds_idle [OF held_at [OF h i] wb(1,2)]
  have k: "wb_ok wb" using held_at [OF h i] wb(1) by (simp add: holds_def)
  obtain r1 where r1: "ring_submit_write (conn (cl W) i) data ?r = (rc, r1)" "W1 = W\<lparr>cl := (cl W)\<lparr>lring := r1\<rparr>\<rparr>"
    using w by (auto simp: cl_ring_def split: prod.splits)
  have "conn_id (conn (cl W) i) < 2 ^ 32" using id by simp
  note s = owners_submit_write [OF r1(1) this]
  show "refused W1 = refused W" using s(3) r1(2) by simp
  show "held W1" if "rc < 0"
    by (rule held_frame [OF h]) (use s that r1(2) in simp_all)
  show "held (cl_conn i (\<lambda>c. c\<lparr>async_write_buf := Some (write_buffer_set_pending True wb)\<rparr>) (snd (cl_ring f W1)))"
    (is "held ?W3") if q: "quiet f" "\<not> rc < 0"
  proof -
    obtain rc2 r2 where t: "f r1 = (rc2, r2)" by fastforce
    have o: "ring_owners r2 = add_mset (i, Sending data) (ring_owners ?r)" "ring_ok r2"
      using q s t id h unfolding quiet_def held_def by auto
    have v: "lring (cl (snd (cl_ring f W1))) = r2" "ctxt (snd (cl_ring f W1)) = ctxt W" by (simp_all add: cl_ring_def r1(2) t)
    have at: "conn (cl ?W3) j = (if j = i then (conn (cl W) i)\<lparr>async_write_buf := Some (write_buffer_set_pending True wb)\<rparr> else conn (cl W) j)" for j
      using i by (simp add: cl_conn_at v(2))
    have c: "wb_content wb = data" "data \<noteq> []" using get_next_content [OF k] wb(3) by (auto split: if_splits)
    have "write_buffer_is_busy (write_buffer_set_pending True wb)" "wb_content (write_buffer_set_pending True wb) = data"
      "wb_ok (write_buffer_set_pending True wb)"
      using c(1) k by (simp_all add: write_buffer_is_busy_def write_buffer_set_pending_def wb_content_def wb_ok_def)
    then have "holds (conn (cl ?W3) i) {#Sending data#}" using c(2) by (simp add: at holds_def)
    then show ?thesis
      by (intro held_owner [OF h i]) (use o(2) owners_at_add [OF o(1)] m in \<open>simp_all add: v at\<close>)
  qed
qed

lemma passes_try: "passes i W (try_immediate_write i W)"
proof (cases "\<exists>wb data. async_write_buf (conn (cl W) i) = Some wb \<and> write_buffer_has_data wb \<and> \<not> write_buffer_is_busy wb
    \<and> write_buffer_get_next wb = Some data \<and> data \<noteq> []")
  case False
  then have "try_immediate_write i W = W" by (auto simp: try_immediate_write_def split: option.split)
  then show ?thesis by simp
next
  case True
  then obtain wb data where wb: "async_write_buf (conn (cl W) i) = Some wb" "write_buffer_has_data wb" "\<not> write_buffer_is_busy wb"
    "write_buffer_get_next wb = Some data" "data \<noteq> []" by blast
  obtain rc W1 where w: "cl_ring (ring_submit_write (conn (cl W) i) data) W = (rc, W1)" by fastforce
  let ?f = "\<lambda>c. c\<lparr>async_write_buf := Some (write_buffer_set_pending True wb)\<rparr>"
  define W2 where "W2 = snd (cl_ring (ring_submit_linked_timeout (conn (cl W1) i) (write_timeout_ms (ctxt W1))) W1)"
  have e: "try_immediate_write i W = (if rc < 0 then W1 else cl_submit (cl_conn i ?f W2))"
    using wb w by (simp add: try_immediate_write_def W2_def Let_def)
  have c1: "ctxt W1 = ctxt W" by (rule cl_ring_ctxt [OF w])
  have c2: "ctxt W2 = ctxt W" using c1 by (simp add: W2_def cl_ring_def split: prod.split)
  have r1: "refused W1 = refused W"
    using w with_flush_cases by (auto simp: cl_ring_def ring_submit_write_def split: prod.splits)
  have "passes i W1 W2" by (simp add: W2_def)
  then have r2: "refused W \<le> refused (cl_conn i ?f W2)" using r1 by (simp add: passes_def)
  have u2: "up i W \<Longrightarrow> up i (cl_conn i ?f W2)" using c2 by (auto simp: up_def cl_conn_at)
  have "passes i W (cl_conn i ?f W2)" if "\<not> rc < 0"
    unfolding passes_def using r2 u2 start_write_held(3) [OF _ _ wb(1,3,4) w quiet_link that] by (auto simp: W2_def up_def)
  moreover have "passes i W W1" if "rc < 0"
    unfolding passes_def using r1 start_write_held(2) [OF _ _ wb(1,3,4) w that] c1 by (auto simp: up_def)
  ultimately show ?thesis unfolding e using passes_trans [OF _ passes_submit] by simp
qed

lemma passes_requests: "passes i W (W\<lparr>requests := q\<rparr>)" "passes i W (W\<lparr>mgr := m\<rparr>)" by (rule passes_cl; simp)+

lemma passes_sse_line:
  assumes "process_sse_line h i line W = (ok, W')"
  shows "passes i W W'"
proof (cases "sse_line_content line")
  case None
  then show ?thesis using assms by (simp add: process_sse_line_def)
next
  case (Some content)
  obtain ok1 W1 where e: "ensure_write_buf i W = (ok1, W1)" by fastforce
  obtain ok2 W2 where a: "append_write_buf i (event_of content) W1 = (ok2, W2)" by fastforce
  note p1 = passes_ensure [OF e]
  note p2 = passes_trans [OF p1 passes_append [OF a]]
  note p3 = passes_trans [OF passes_trans [OF passes_trans [OF p2 passes_dirty] passes_try] passes_requests(1)]
  show ?thesis using assms Some e a p1 p2 p3 by (auto simp: process_sse_line_def format_8192 Let_def split: if_splits)
qed

lemma passes_headers:
  assumes "queue_headers h i W = (ok, W')"
  shows "passes i W W'"
proof -
  obtain ok1 W1 where e: "ensure_write_buf i W = (ok1, W1)" by fastforce
  obtain ok2 W2 where a: "append_write_buf i SSE_HEADERS W1 = (ok2, W2)" by fastforce
  note p1 = passes_ensure [OF e]
  note p2 = passes_trans [OF p1 passes_append [OF a]]
  have act: "passes i V (cl_conn i (state_update (\<lambda>_. CONN_STATE_CURL_ACTIVE)) V)" for V
    by (rule passes_at) (auto simp: up_def holds_view [of "x\<lparr>state := CONN_STATE_CURL_ACTIVE\<rparr>" x for x])
  note p3 = passes_trans [OF passes_trans [OF passes_trans [OF passes_trans [OF p2 passes_requests(1)] passes_dirty] act] passes_try]
  show ?thesis using assms e a p1 p2 p3 by (auto simp: queue_headers_def Let_def split: if_splits)
qed

lemma passes_lines:
  "ensure_line_buf i W = (ok, W') \<Longrightarrow> passes i W W'" "grow_line_buf i n W = (ok, W') \<Longrightarrow> passes i W W'" "passes i W (set_line i b W)"
proof -
  obtain h V where n: "next_heap W = (h, V)" by fastforce
  note p = passes_heap [OF n]
  have f: "(\<And>c. conn_id (f c) = conn_id c \<and> state (f c) = state c \<and> async_write_buf (f c) = async_write_buf c)
      \<Longrightarrow> passes i W (cl_conn i f V)" for f
    using passes_trans [OF p passes_conn] by blast
  show "ensure_line_buf i W = (ok, W') \<Longrightarrow> passes i W W'" "grow_line_buf i n' W = (ok, W') \<Longrightarrow> passes i W W'" for n'
    using p f by (auto simp: ensure_line_buf_def grow_line_buf_def n Let_def split: if_splits)
  show "passes i W (set_line i b W)" by (simp add: set_line_def passes_conn)
qed

lemma passes_callback:
  assumes w: "curl_write_callback h rq ptr W = Some (n, W')" and i: "rq_conn rq = i"
  shows "passes i W W'"
proof -
  obtain ok1 W1 where h: "(if \<not> rq_headers_sent rq then queue_headers h i W else (True, W)) = (ok1, W1)" by fastforce
  obtain ok2 W2 where l: "ensure_line_buf i W1 = (ok2, W2)" by fastforce
  obtain ok3 W3 where g: "grow_line_buf i (length ptr) W2 = (ok3, W3)" by fastforce
  have 1: "passes i W W1" using h passes_headers by (auto split: if_splits)
  note 2 = passes_trans [OF 1 passes_lines(1) [OF l]]
  note 3 = passes_trans [OF 2 passes_lines(2) [OF g]]
  show ?thesis
  proof (cases "ok1 \<and> ok2 \<and> ok3")
    case False
    then have "W' \<in> {W1, W2, W3}" using w h l g i by (auto simp: curl_write_callback_def Let_def split: if_splits)
    then show ?thesis using 1 2 3 by auto
  next
    case True
    let ?h = "\<lambda>line W. Some (process_sse_line h i line W)"
    define W4 where "W4 = set_line i (the (sse_line_buf (conn (cl W3) i)) @ ptr) W3"
    obtain ok4 b W5 where p: "process_lines ?h [] (the (sse_line_buf (conn (cl W4) i))) W4 = Some (ok4, b, W5)"
      and W': "W' = (if ok4 then try_immediate_write i (set_line i b W5) else set_line i b W5)"
      using w h l g True i by (auto simp: curl_write_callback_def W4_def [symmetric] Let_def bind_eq_Some_conv split: if_splits)
    have "passes i W4 W5 \<and> True"
      by (rule process_lines_invariant [where P = "\<lambda>_. True", OF _ passes_refl passes_trans p]) (auto dest: passes_sse_line)
    then have "passes i W (set_line i b W5)"
      using passes_trans [OF passes_trans [OF passes_trans [OF 3 passes_lines(3)]] passes_lines(3)] unfolding W4_def by blast
    then show ?thesis unfolding W' using passes_trans [OF _ passes_try] by simp
  qed
qed

section \<open>Sockets and the timer\<close>

definition rings :: "curl_loop \<Rightarrow> curl_loop \<Rightarrow> bool" where
  \<comment> \<open>no entry for a connection is added\<close>
  "rings W W' \<longleftrightarrow> ring_owners (lring (cl W')) = ring_owners (lring (cl W)) \<and> (ring_ok (lring (cl W)) \<longrightarrow> ring_ok (lring (cl W')))
     \<and> refused W \<le> refused W'"

lemma rings_trans: "rings W V \<Longrightarrow> rings V X \<Longrightarrow> rings W X" by (simp add: rings_def)

lemma rings_requests [simp]: "rings W (W\<lparr>requests := q\<rparr>)" "rings W (W\<lparr>mgr := m\<rparr>)" "rings W W" by (simp_all add: rings_def)

lemma rings_quiet: "quiet f \<Longrightarrow> cl_ring f W = (rc, W') \<Longrightarrow> rings W W'"
  by (auto simp: cl_ring_def quiet_def rings_def split: prod.splits)

lemma rings_quiet_snd [simp]: "quiet f \<Longrightarrow> rings W (snd (cl_ring f W))"
  using rings_quiet [of f W "fst (cl_ring f W)"] by simp

lemma rings_submit [simp]: "rings W (cl_submit W)" by (simp add: cl_submit_def)

lemma rings_heap: "next_heap W = (h, W') \<Longrightarrow> rings W W'" by (auto simp: next_heap_def rings_def)

lemma rings_held: "rings W W' \<Longrightarrow> ctxt W' = ctxt W \<Longrightarrow> held W \<Longrightarrow> held W'"
  using held_frame [of W W'] by (simp add: rings_def)

lemma rings_socket: "rings W (socket_callback fd what W)"
proof -
  obtain rc W1 where c: "ensure_socket_capacity fd W = (rc, W1)" by fastforce
  define info where "info = sockets (mgr W1) ! nat fd"
  define m where "m = poll_mask_of what"
  define W2 where "W2 = (if poll_active info \<and> (m \<noteq> poll_mask info \<or> what = CURL_POLL_REMOVE)
      then set_socket fd (poll_active_update (\<lambda>_. False)) (snd (cl_ring (ring_submit_poll_cancel fd) W1)) else W1)"
  obtain rc2 W' where a: "cl_ring (ring_submit_poll_add fd m) W2 = (rc2, W')" by fastforce
  define W3 where "W3 = (if m \<noteq> 0 \<and> what \<noteq> CURL_POLL_REMOVE
      then cl_submit (if rc2 = 0 then set_socket fd (\<lambda>_. \<lparr>sockfd = fd, poll_mask = m, poll_active = True\<rparr>) W' else W')
      else W2)"
  have s: "socket_callback fd what W =
      (if rc < 0 then W1 else if what = CURL_POLL_REMOVE then set_socket fd (\<lambda>_. no_socket) W3 else W3)"
    unfolding socket_callback_def c prod.case Let_def m_def [symmetric] info_def [symmetric] W2_def [symmetric] a
      W3_def [symmetric] ..
  have set: "rings V (set_socket fd g V)" for g V by (simp add: set_socket_def rings_requests)
  have 1: "rings W W1"
    using c by (auto simp: ensure_socket_capacity_def Let_def intro: rings_heap rings_trans [OF rings_heap rings_requests(2)]
        split: if_splits prod.splits)
  have 2: "rings W W2"
    unfolding W2_def using 1 rings_trans [OF 1 rings_trans [OF rings_quiet_snd [OF quiet_ops(2)] set]] by simp
  note 3 = rings_trans [OF 2 rings_quiet [OF quiet_ops(1) a]]
  have "rings W W3"
    unfolding W3_def using 2 rings_trans [OF 3 rings_submit] rings_trans [OF rings_trans [OF 3 set] rings_submit] by simp
  then show ?thesis unfolding s using 1 rings_trans [OF _ set] by simp
qed

lemma rings_timer: "rings W (timer_callback ms W)"
proof -
  define W1 where "W1 = (if timer_active (mgr W)
      then (snd (cl_ring (ring_cancel_curl_timeout (timer_id (mgr W))) W))\<lparr>mgr := (mgr W)\<lparr>timer_active := False\<rparr>\<rparr> else W)"
  have 1: "rings W W1"
    unfolding W1_def using rings_trans [OF rings_quiet_snd [OF quiet_ops(4)] rings_requests(2)] by simp
  have "rings W (case cl_ring (ring_submit_curl_timeout x t) (W1\<lparr>mgr := (mgr W1)\<lparr>timer_id := t\<rparr>\<rparr>) of (rc, W3) \<Rightarrow>
      cl_submit (if rc = 0 then W3\<lparr>mgr := (mgr W3)\<lparr>timer_active := True\<rparr>\<rparr> else W3))" for x t
  proof -
    obtain rc W3 where r: "cl_ring (ring_submit_curl_timeout x t) (W1\<lparr>mgr := (mgr W1)\<lparr>timer_id := t\<rparr>\<rparr>) = (rc, W3)" by fastforce
    note 3 = rings_trans [OF rings_trans [OF 1 rings_requests(2)] rings_quiet [OF quiet_ops(3) r]]
    show ?thesis unfolding r using rings_trans [OF 3 rings_submit] rings_trans [OF rings_trans [OF 3 rings_requests(2)] rings_submit] by simp
  qed
  then show ?thesis unfolding timer_callback_def W1_def [symmetric] Let_def using 1 by simp
qed

text \<open>Everything that libcurl does in a call.\<close>

lemma run_event_held:
  assumes e: "run_event e W = Some W'" and inv: "curl_inv W"
  shows "refused W \<le> refused W' \<and> (held W \<longrightarrow> held W')"
proof (cases e)
  case (Socket_cb fd what)
  moreover have "ctxt (socket_callback fd what W) = ctxt W" using socket_callback_frame [of fd what W] by (simp add: ctx_requests_def)
  ultimately show ?thesis using e rings_socket [of W fd what] rings_held by (auto simp: rings_def)
next
  case (Timer_cb ms)
  moreover have "ctxt (timer_callback ms W) = ctxt W" using timer_callback_frame [of ms W] by (simp add: ctx_requests_def)
  ultimately show ?thesis using e rings_timer [of W ms] rings_held by (auto simp: rings_def)
next
  case (Write_cb h ptr)
  show ?thesis
  proof (cases "requests W h = None \<or> rq_stopped (the (requests W h))")
    case True
    then show ?thesis using e Write_cb by (auto split: option.splits)
  next
    case False
    then obtain rq where rq: "requests W h = Some rq" "\<not> rq_stopped rq" by auto
    obtain n W1 where w: "curl_write_callback h rq ptr W = Some (n, W1)"
      and W': "W' = (if n = length ptr then W1
        else W1\<lparr>requests := (requests W1)(h := map_option (rq_stopped_update (\<lambda>_. True)) (requests W1 h))\<rparr>)"
      using e Write_cb rq by (auto simp: bind_eq_Some_conv)
    have "rq_view W h = Some (rq_conn rq, rq_headers_sent rq, rq_stopped rq)" using rq by (simp add: rq_view_def)
    from request_receiving [OF inv this] have "up (rq_conn rq) W" by (auto simp: up_def)
    moreover have "passes (rq_conn rq) W W'"
      unfolding W' using passes_callback [OF w refl] passes_trans [OF _ passes_requests(1)] by simp
    ultimately show ?thesis by (simp add: passes_def)
  qed
qed

lemma run_events_held:
  "run_events es W = Some W' \<Longrightarrow> curl_inv W \<Longrightarrow> refused W \<le> refused W' \<and> (held W \<longrightarrow> held W')"
proof (induction es arbitrary: W)
  case (Cons e es)
  then obtain W1 where w: "run_event e W = Some W1" "run_events es W1 = Some W'" by (auto simp: bind_eq_Some_conv)
  from run_event_held [OF w(1) Cons.prems(2)] Cons.IH [OF w(2) keeps_inv [OF run_event_keeps [OF w(1)] Cons.prems(2)]]
  show ?case by auto
qed simp

section \<open>Freeing a connection\<close>

text \<open>The connection \<open>i\<close> was freed; of the others nothing changed.\<close>

definition blank :: "connection \<Rightarrow> bool" where
  "blank c \<longleftrightarrow> async_write_buf c = None \<and> sse_line_buf c = None"

definition view :: "connection \<Rightarrow> nat \<times> conn_state \<times> write_buffer option \<times> string option \<times> nat option" where
  "view c = (conn_id c, state c, async_write_buf c, sse_line_buf c, curl_easy c)"

definition freed :: "nat \<Rightarrow> curl_loop \<Rightarrow> curl_loop \<Rightarrow> bool" where
  "freed i W W' \<longleftrightarrow> lring (cl W') = lring (cl W) \<and> length (connections (ctxt W')) = length (connections (ctxt W))
     \<and> conn_id (conn (cl W') i) = conn_id (conn (cl W) i) \<and> blank (conn (cl W') i) \<and> state (conn (cl W') i) = CONN_STATE_UNUSED
     \<and> curl_easy (conn (cl W') i) = None \<and> (\<forall>j. j \<noteq> i \<longrightarrow> view (conn (cl W') j) = view (conn (cl W) j))
     \<and> (\<forall>h. curl_easy (conn (cl W) i) \<noteq> Some h \<longrightarrow> rq_view W' h = rq_view W h) \<and> next_easy W' = next_easy W"

end
