(* ===== verification/Curl_Clients.thy ===== *)
theory Curl_Clients
  imports Curl_Owners
begin

text \<open>
  What the client of a connection has received and what is queued for it, together, in the curl mode: how
  each handler of a completion and the flush of the dirty list change it.
\<close>

section \<open>The stream of a connection\<close>

definition client_ok :: "nat \<Rightarrow> string \<Rightarrow> string \<Rightarrow> curl_loop \<Rightarrow> bool" where
  \<comment> \<open>\<open>sent\<close> has left the queue, the API has sent the text \<open>t\<close>\<close>
  "client_ok i sent t W \<longleftrightarrow> (case curl_easy (conn (cl W) i) of
       Some h \<Rightarrow> served h i sent t W
     | None \<Rightarrow> buf_sound i W \<and> (if state (conn (cl W) i) \<in> {CONN_STATE_UNUSED, CONN_STATE_RECEIVING_FD}
         then blank (conn (cl W) i)
         else \<exists>p. prefix p (stream_of t) \<and> prefix (sent @ queued i W) (p @ SSE_DONE)))"

definition clients_ok :: "(nat \<Rightarrow> string) \<Rightarrow> (nat \<Rightarrow> string) \<Rightarrow> curl_loop \<Rightarrow> bool" where
  "clients_ok tk ap W \<longleftrightarrow> held W \<and> (\<forall>i < length (connections (ctxt W)). client_ok i (tk i) (ap i) W)"

text \<open>Bytes may go from the queue to the client.\<close>

lemma client_ok_moved:
  assumes "curl_easy (conn (cl W') i) = curl_easy (conn (cl W) i)" "sse_line_buf (conn (cl W') i) = sse_line_buf (conn (cl W) i)"
    and "buf_sound i W' = buf_sound i W" "sent' @ queued i W' = sent @ queued i W"
    and "(state (conn (cl W') i) \<in> {CONN_STATE_UNUSED, CONN_STATE_RECEIVING_FD})
       = (state (conn (cl W) i) \<in> {CONN_STATE_UNUSED, CONN_STATE_RECEIVING_FD})"
    and "async_write_buf (conn (cl W') i) = None \<longleftrightarrow> async_write_buf (conn (cl W) i) = None"
    and "\<And>h. curl_easy (conn (cl W) i) = Some h \<Longrightarrow> rq_view W' h = rq_view W h"
  shows "client_ok i sent' t W' = client_ok i sent t W"
proof (cases "curl_easy (conn (cl W) i)")
  case None
  have "blank (conn (cl W') i) = blank (conn (cl W) i)" using assms(2,6) by (simp add: blank_def)
  then show ?thesis using None assms(1,3-5) by (simp add: client_ok_def)
next
  case (Some h)
  then show ?thesis using assms(1-4) assms(7) [OF Some]
    by (simp add: client_ok_def served_def streams_def cut_off_def line_of_def)
qed

lemma client_ok_same:
  assumes "curl_easy (conn (cl W') i) = curl_easy (conn (cl W) i)" "stream_view i W' = stream_view i W"
    and "(state (conn (cl W') i) \<in> {CONN_STATE_UNUSED, CONN_STATE_RECEIVING_FD})
       = (state (conn (cl W) i) \<in> {CONN_STATE_UNUSED, CONN_STATE_RECEIVING_FD})"
    and "async_write_buf (conn (cl W') i) = None \<longleftrightarrow> async_write_buf (conn (cl W) i) = None"
    and "\<And>h. curl_easy (conn (cl W) i) = Some h \<Longrightarrow> rq_view W' h = rq_view W h"
  shows "client_ok i sent t W' = client_ok i sent t W"
  using assms(2) by (intro client_ok_moved assms) (simp_all add: stream_view_def)

lemma client_ok_cut:
  assumes "client_ok i sent t W"
  shows "state (conn (cl W) i) \<in> {CONN_STATE_UNUSED, CONN_STATE_RECEIVING_FD} \<and> curl_easy (conn (cl W) i) = None
    \<or> (\<exists>p. prefix p (stream_of t) \<and> prefix (sent @ queued i W) (p @ SSE_DONE))"
proof (cases "curl_easy (conn (cl W) i)")
  case None
  then show ?thesis using assms by (auto simp: client_ok_def split: if_splits)
next
  case (Some h)
  then obtain hs st where "if st then cut_off i sent t W else streams i sent t hs W"
    using assms by (auto simp: client_ok_def served_def)
  then have "cut_off i sent t W" using streams_cut by (cases st) auto
  then have "prefix (sent @ queued i W) (stream_of t)" by (simp add: cut_off_def)
  then show ?thesis by (intro disjI2 exI [of _ "sent @ queued i W"]) simp
qed

lemma view_at: "view c' = view c \<Longrightarrow> conn_id c' = conn_id c \<and> state c' = state c \<and> async_write_buf c' = async_write_buf c
    \<and> sse_line_buf c' = sse_line_buf c \<and> curl_easy c' = curl_easy c"
  by (simp add: view_def)

lemma client_ok_view:
  assumes "view (conn (cl W') i) = view (conn (cl W) i)" "\<And>h. curl_easy (conn (cl W) i) = Some h \<Longrightarrow> rq_view W' h = rq_view W h"
  shows "client_ok i sent t W' = client_ok i sent t W"
  using view_at [OF assms(1)] by (intro client_ok_same assms(2)) (simp_all add: stream_view_def queued_def buf_sound_def)

text \<open>Nothing changes but what no client sees.\<close>

lemma clients_same:
  assumes "clients_ok tk ap W" "rings W W'" "length (connections (ctxt W')) = length (connections (ctxt W))"
    and "\<And>j. view (conn (cl W') j) = view (conn (cl W) j)" "rq_view W' = rq_view W"
  shows "clients_ok tk ap W'"
proof -
  have "held W'"
  proof (rule held_frame [of W])
    show "held W" using assms(1) by (simp add: clients_ok_def)
    fix j M
    show "conn_id (conn (cl W') j) = conn_id (conn (cl W) j)
      \<and> (M = owners_at j (lring (cl W)) \<longrightarrow> holds (conn (cl W) j) M \<longrightarrow> holds (conn (cl W') j) M)"
      using view_at [OF assms(4) [of j]] holds_view [of "conn (cl W') j" "conn (cl W) j" M] by auto
  qed (use assms(2,3) in \<open>simp_all add: rings_def\<close>)
  then show ?thesis using assms(1,3) client_ok_view [OF assms(4)] assms(5) by (simp add: clients_ok_def)
qed

section \<open>A freed connection\<close>

lemma easy_req: "curl_inv W \<Longrightarrow> i < length (connections (ctxt W)) \<Longrightarrow> curl_easy (conn (cl W) i) = Some h \<longleftrightarrow> reqs W h = Some i"
  unfolding curl_inv_def ctx_ok_def conn_ok_def by blast

lemma view_upd: "(\<And>c. view (f c) = view c) \<Longrightarrow> view (conn_at (upd_conn i f ctx) j) = view (conn_at ctx j)"
  by (cases "i < length (connections ctx)"; cases "j = i") (simp_all add: upd_conn_def conn_at_def list_update_beyond)

lemma view_heads [simp]:
  "conn_at (ctx\<lparr>dirty_head := x\<rparr>) j = conn_at ctx j" "conn_at (ctx\<lparr>dirty_tail := x\<rparr>) j = conn_at ctx j"
  by (simp_all add: conn_at_def)

lemma view_unlink: "view (conn_at (dirty_unlink i prev ctx) j) = view (conn_at ctx j)"
  by (simp add: dirty_unlink_def Let_def view_upd [of "dirty_next_update g" for g, unfolded view_def, simplified] view_def
      split: option.split)

lemma view_unmark: "daemon_unmark_connection_dirty i ctx = Some ctx' \<Longrightarrow>
    view (conn_at ctx' j) = view (conn_at ctx j) \<and> length (connections ctx') = length (connections ctx)"
proof -
  have c: "view (conn_at (clear_dirty i c) j) = view (conn_at c j)" for c
    unfolding clear_dirty_def by (rule view_upd) (simp add: view_def)
  have n: "length (connections (dirty_unlink i prev c)) = length (connections c)"
    "length (connections (clear_dirty i c)) = length (connections c)" for prev c
    by (simp_all add: dirty_unlink_def clear_dirty_def Let_def split: option.split)
  show "daemon_unmark_connection_dirty i ctx = Some ctx' \<Longrightarrow> ?thesis"
    by (auto simp: daemon_unmark_connection_dirty_def bind_eq_Some_conv c n view_unlink split: if_splits option.splits)
qed

lemma cleanup_freed:
  assumes c: "cleanup_connection i (cl W) = Some L" and i: "i < length (connections (ctxt W))"
  shows "freed i W (W\<lparr>cl := L\<rparr>)"
proof -
  obtain c where u: "daemon_unmark_connection_dirty i (ctxt W) = Some c" and L: "L = (cl W)\<lparr>dctx := conn_free i c\<rparr>"
    using c by (auto simp: cleanup_connection_def bind_eq_Some_conv)
  note v = view_unmark [OF u]
  have i': "i < length (connections c)" using v i by simp
  have fd: "conn_id (conn_at (conn_close_fds i c) i) = conn_id (conn_at c i)"
    using i' by (simp add: conn_close_fds_def close_fd_def Let_def conn_at_def upd_conn_def)
  show ?thesis
    using conn_free_at [OF i'] v view_at [OF conjunct1 [OF v]] fd
    by (simp add: freed_def L conn_reset_def blank_def rq_view_def [abs_def] view_def)
qed

lemma cancel_freed:
  assumes inv: "curl_inv W" and c: "cancel_and_cleanup i W = Some W'" and i: "i < length (connections (ctxt W))"
  shows "freed i W W'"
proof -
  define W1 where "W1 = (if use_curl_multi (ctxt W) \<and> curl_easy (conn (cl W) i) \<noteq> None
      then curl_manager_cancel_request i W else W)"
  obtain L where L: "cleanup_connection i (cl W1) = Some L" "W' = W1\<lparr>cl := L\<rparr>"
    using c unfolding cancel_and_cleanup_def W1_def [symmetric] by (auto simp: lift_loop_def)
  have m: "use_curl_multi (ctxt W)" using inv by (simp add: curl_inv_def ctx_ok_def)
  have W1: "lring (cl W1) = lring (cl W) \<and> length (connections (ctxt W1)) = length (connections (ctxt W))
    \<and> conn_id (conn (cl W1) i) = conn_id (conn (cl W) i) \<and> (\<forall>j. j \<noteq> i \<longrightarrow> view (conn (cl W1) j) = view (conn (cl W) j))
    \<and> (\<forall>h. curl_easy (conn (cl W) i) \<noteq> Some h \<longrightarrow> rq_view W1 h = rq_view W h) \<and> next_easy W1 = next_easy W"
  proof (cases "curl_easy (conn (cl W) i)")
    case (Some e)
    then have w: "W1 = drop_request e i W" using m by (simp add: W1_def curl_manager_cancel_request_def)
    have "rq_view W1 = (rq_view W)(e := None)" by (auto simp: w drop_request_def rq_view_def cl_conn_def fun_eq_iff)
    then show ?thesis using Some by (simp add: w drop_request_def cl_conn_at) (simp add: cl_conn_def with_conn_def)
  qed (simp add: W1_def)
  have "freed i W1 W'" unfolding L(2) by (rule cleanup_freed [OF L(1)]) (use W1 i in simp)
  moreover have "curl_easy (conn (cl W1) i) \<noteq> Some h" if "curl_easy (conn (cl W) i) \<noteq> Some h" for h
    using that m by (auto simp: W1_def curl_manager_cancel_request_def drop_request_def cl_conn_at split: option.splits)
  ultimately show ?thesis using W1 unfolding freed_def by simp
qed

lemma fail_freed:
  assumes inv: "curl_inv W" and c: "curl_fail i W = Some W'" and i: "i < length (connections (ctxt W))"
  shows "freed i W W'"
proof -
  let ?V = "on_loop count_failed W"
  have v: "lring (cl ?V) = lring (cl W)" "connections (ctxt ?V) = connections (ctxt W)" "conn (cl ?V) j = conn (cl W) j"
    "rq_view ?V = rq_view W" "next_easy ?V = next_easy W" for j
    by (simp_all add: on_loop_def count_failed_def conn_at_def rq_view_def [abs_def])
  have "freed i ?V W'"
    by (rule cancel_freed [OF _ c [unfolded curl_fail_def]]) (use inv i v in \<open>simp_all add: on_loop_def curl_inv_def\<close>)
  then show ?thesis by (simp add: freed_def v)
qed

lemma freed_clients:
  assumes inv: "curl_inv W" and ok: "clients_ok tk ap W" and i: "i < length (connections (ctxt W))" "owners_at i (lring (cl W)) = {#}"
    and f: "freed i W W'"
  shows "clients_ok tk ap W'"
proof -
  note f' = f [unfolded freed_def]
  have "held W'"
  proof (rule held_owner [OF _ i(1)])
    show "held W" using ok by (simp add: clients_ok_def)
    then show "ring_ok (lring (cl W'))" using f' by (simp add: held_def)
    show "holds (conn (cl W') i) (owners_at i (lring (cl W')))" using f' i(2) by (simp add: holds_def blank_def)
    have v: "view (conn (cl W') j) = view (conn (cl W) j)" if "j \<noteq> i" for j using f' that by blast
    fix j
    show "conn_id (conn (cl W') j) = conn_id (conn (cl W) j)" using f' view_at [OF v [of j]] by (cases "j = i") blast+
    show "holds (conn (cl W') j) M" if "j \<noteq> i" "holds (conn (cl W) j) M" for M
      using that(2) view_at [OF v [OF that(1)]] holds_view [of "conn (cl W') j" "conn (cl W) j" M] by simp
  qed (use f' in simp_all)
  moreover have "client_ok j (tk j) (ap j) W'" if j: "j < length (connections (ctxt W))" for j
  proof (cases "j = i")
    case True
    then show ?thesis using f' by (simp add: client_ok_def blank_def buf_sound_def)
  next
    case False
    have "curl_easy (conn (cl W) i) \<noteq> Some h" if "curl_easy (conn (cl W) j) = Some h" for h
      using that easy_req [OF inv i(1)] easy_req [OF inv j] False by (metis option.inject)
    then have "client_ok j (tk j) (ap j) W' = client_ok j (tk j) (ap j) W"
      using f' False by (intro client_ok_view) auto
    then show ?thesis using ok j by (simp add: clients_ok_def)
  qed
  ultimately show ?thesis using f' by (simp add: clients_ok_def)
qed

section \<open>Writes and the flush\<close>

definition fair :: "(nat \<Rightarrow> string) \<Rightarrow> (nat \<Rightarrow> string) \<Rightarrow> curl_loop \<Rightarrow> curl_loop \<Rightarrow> bool" where
  \<comment> \<open>unless a linked timeout was refused, the clients are served\<close>
  "fair tk ap W W' \<longleftrightarrow> refused W \<le> refused W' \<and> (refused W' = refused W \<longrightarrow> clients_ok tk ap W \<longrightarrow> clients_ok tk ap W')"

lemma fair_refl [simp]: "fair tk ap W W" by (simp add: fair_def)

lemma fair_trans [trans]: "fair tk ap W V \<Longrightarrow> fair tk ap V X \<Longrightarrow> fair tk ap W X" by (auto simp: fair_def)

lemma fair_same:
  assumes "rings W W'" "length (connections (ctxt W')) = length (connections (ctxt W))"
    and "\<And>j. view (conn (cl W') j) = view (conn (cl W) j)" "rq_view W' = rq_view W"
  shows "fair tk ap W W'"
  using clients_same [OF _ assms] assms(1) by (simp add: fair_def rings_def)

lemma rings_refused_write: "cl_ring (ring_submit_write c d) W = (rc, W') \<Longrightarrow> rc < 0 \<Longrightarrow> rings W W'"
  using with_flush_cases ring_ok_submit by (fastforce simp: cl_ring_def rings_def ring_submit_write_def ring_owners_def split: prod.splits)

lemma fair_fail:
  assumes inv: "curl_inv W" and f: "freed i W W'" and i: "i < length (connections (ctxt W))"
    and o: "clients_ok tk ap W \<Longrightarrow> owners_at i (lring (cl W)) = {#}"
  shows "fair tk ap W W'"
  using freed_clients [OF inv _ i o f] f by (simp add: fair_def freed_def)

lemma rq_view_ring: "cl_ring f W = (rc, W') \<Longrightarrow> rq_view W' = rq_view W \<and> next_easy W' = next_easy W"
  by (auto simp: cl_ring_def split: prod.splits)

lemma submit_fair: "fair tk ap W (cl_submit W)"
  by (rule fair_same [OF rings_submit]) (simp_all add: cl_submit_def cl_ring_def rq_view_def fun_eq_iff)

lemma start_async_fair:
  assumes inv: "curl_inv W" and i: "i < length (connections (ctxt W))" and e: "curl_start_async_write i W = Some W'"
  shows "fair tk ap W W'"
proof (cases "\<exists>wb data. async_write_buf (conn (cl W) i) = Some wb \<and> write_buffer_has_data wb \<and> \<not> write_buffer_is_busy wb
    \<and> write_buffer_get_next wb = Some data \<and> data \<noteq> []")
  case False
  then have "W' = W" using e by (auto simp: curl_start_async_write_def split: option.splits if_splits)
  then show ?thesis by simp
next
  case True
  then obtain wb data where wb: "async_write_buf (conn (cl W) i) = Some wb" "write_buffer_has_data wb" "\<not> write_buffer_is_busy wb"
    "write_buffer_get_next wb = Some data" "data \<noteq> []" by blast
  obtain rc W1 where w: "cl_ring (ring_submit_write (conn (cl W) i) data) W = (rc, W1)" by fastforce
  let ?link = "ring_submit_linked_timeout (conn (cl W1) i) (write_timeout_ms (ctxt W1))"
  obtain rc2 W2 where t: "cl_ring ?link W1 = (rc2, W2)" by fastforce
  let ?f = "\<lambda>c. c\<lparr>async_write_buf := Some (write_buffer_set_pending True wb)\<rparr>"
  note c = cl_ring_ctxt [OF w] cl_ring_ctxt [OF t]
  have "curl_start_async_write i W = (if rc < 0 then curl_fail i W1 else if rc2 < 0 then curl_fail i W2 else Some (cl_submit (cl_conn i ?f W2)))"
    using wb w t by (simp add: curl_start_async_write_def)
  then have s: "(if rc < 0 then curl_fail i W1 else if rc2 < 0 then curl_fail i W2 else Some (cl_submit (cl_conn i ?f W2))) = Some W'"
    using e by simp
  have r1: "refused W1 = refused W"
    using w with_flush_cases by (auto simp: cl_ring_def ring_submit_write_def split: prod.splits)
  have r2: "refused W2 = (if rc2 < 0 then Suc (refused W) else refused W)"
    using t linked_timeout_cases r1 by (fastforce simp: cl_ring_def split: prod.splits)
  have h: "held W" if "clients_ok tk ap W" using that by (simp add: clients_ok_def)
  have v1: "curl_inv W1" and v2: "curl_inv W2" using ring_inv [OF w inv] ring_inv [OF t] by auto
  consider "rc < 0" | "\<not> rc < 0" "rc2 < 0" | "\<not> rc < 0" "\<not> rc2 < 0" by blast
  then show ?thesis
  proof cases
    case 1
    note rg = rings_refused_write [OF w 1]
    have o: "owners_at i (lring (cl W1)) = {#}" if ok: "clients_ok tk ap W1"
    proof -
      have "async_write_buf (conn (cl W1) i) = Some wb" using wb(1) c by simp
      moreover have "holds (conn (cl W1) i) (owners_at i (lring (cl W1)))" using ok i c by (simp add: clients_ok_def held_def)
      ultimately show ?thesis using holds_idle wb(3) by blast
    qed
    have "freed i W1 W'" using s 1 i c by (intro fail_freed [OF v1]) simp_all
    then have "fair tk ap W1 W'" using i c by (intro fair_fail [OF v1 _ _ o]) simp_all
    moreover have "fair tk ap W W1" by (rule fair_same [OF rg]) (use c rq_view_ring [OF w] in simp_all)
    ultimately show ?thesis using fair_trans by blast
  next
    case 2
    then have "freed i W2 W'" using s i c by (intro fail_freed [OF v2]) simp_all
    then show ?thesis using r2 2 by (simp add: fair_def freed_def)
  next
    case 3
    let ?V = "cl_conn i ?f W2"
    have W': "W' = cl_submit ?V" using s 3 by simp
    have e2: "snd (cl_ring ?link W1) = W2" using t by simp
    have "fair tk ap W ?V"
    proof -
      have "clients_ok tk ap ?V" if ok: "clients_ok tk ap W"
      proof -
        have "held ?V" using start_write_held(3) [OF h [OF ok] i wb(1,3,4) w quiet_link 3(1)] e2 by metis
        moreover have "client_ok j (tk j) (ap j) ?V" if j: "j < length (connections (ctxt W))" for j
        proof -
          have "stream_view j ?V = stream_view j W"
            using wb(1) i by (simp add: stream_view_def queued_def buf_sound_def cl_conn_at c wb_ok_def wb_content_def write_buffer_set_pending_def)
          then have "client_ok j (tk j) (ap j) ?V = client_ok j (tk j) (ap j) W"
            using wb(1) c rq_view_ring [OF w] rq_view_ring [OF t] by (intro client_ok_same) (simp_all add: cl_conn_at)
          then show ?thesis using ok j by (simp add: clients_ok_def)
        qed
        ultimately show ?thesis by (simp add: clients_ok_def c)
      qed
      then show ?thesis using r2 3 by (simp add: fair_def)
    qed
    then show ?thesis unfolding W' using fair_trans submit_fair by blast
  qed
qed

text \<open>The flush.\<close>

lemma view_clear: "view (conn_at (clear_dirty i ctx) j) = view (conn_at ctx j)"
  unfolding clear_dirty_def by (rule view_upd) (simp add: view_def)

lemma drop_fair:
  assumes "nx = dirty_link (ctxt W) i"
  shows "fair tk ap W (drop_dirty i prev nx W)"
proof (rule fair_same)
  let ?V = "drop_dirty i prev nx W"
  have e: "ctxt ?V = clear_dirty i (dirty_unlink i prev (ctxt W))" "lring (cl ?V) = lring (cl W)" "requests ?V = requests W"
    using flush_unlink_eq [OF assms] by (simp_all add: drop_dirty_def on_loop_def)
  show "rings W ?V" by (simp add: rings_def e)
  show "length (connections (ctxt ?V)) = length (connections (ctxt W))"
    by (simp add: e(1) clear_dirty_def dirty_unlink_def Let_def split: option.split)
  show "view (conn (cl ?V) j) = view (conn (cl W) j)" for j by (simp add: e(1) view_clear view_unlink)
  show "rq_view ?V = rq_view W" by (simp add: rq_view_def fun_eq_iff e)
qed

lemma flush_from_fair:
  "curl_inv W \<Longrightarrow> dirty_ok (ctxt W) (us @ vs) \<Longrightarrow> flush_from (before us) (first vs) W = Some (Running W') \<Longrightarrow> fair tk ap W W'"
proof (induction vs arbitrary: us W)
  case Nil
  then show ?case by (simp add: flush_from.simps)
next
  case (Cons i vs)
  let ?c = "conn (cl W) i"
  note inv = Cons.prems(1) and d = Cons.prems(2) and r = Cons.prems(3)
  note fi = dirty_first [OF d]
  show ?case
  proof (cases "flushable (state ?c)")
    case False
    let ?W1 = "drop_dirty i (before us) (first vs) W"
    note dd = drop_dirty_spec [OF d fi(1) [symmetric]]
    have "flush_from (before us) (first vs) ?W1 = Some (Running W')"
      using r by (subst (asm) flush_from.simps) (simp add: False fi(1) Let_def)
    then have "fair tk ap ?W1 W'" by (rule Cons.IH [OF keeps_inv [OF dd(3) inv] dd(1)])
    then show ?thesis using fair_trans [OF drop_fair [OF fi(1) [symmetric]]] by blast
  next
    case True
    have use: "in_use_conn i W" using fi(2) True by (auto simp: in_use_conn_def flushable_def)
    obtain W1 where st: "(if idle_data ?c then curl_start_async_write i W else Some W) = Some W1" and inv1: "curl_inv W1"
      and cs: "async_write_buf (conn (cl W1) i) = None \<and> async_write_buf ?c \<noteq> None \<or> W1 = W
        \<or> (\<exists>wb. async_write_buf ?c = Some wb \<and> requests W1 = requests W
             \<and> ctxt W1 = upd_conn i (\<lambda>c. c\<lparr>async_write_buf := Some (write_buffer_set_pending True wb)\<rparr>) (ctxt W))"
    proof (cases "idle_data ?c")
      case True
      from start_async_cases [OF inv use] show ?thesis
        using that True by (auto simp: idle_data_def split: option.splits)
    next
      case False
      then show ?thesis using that [of W] inv by simp
    qed
    have f1: "fair tk ap W W1" using st start_async_fair [OF inv fi(2)] by (auto split: if_splits)
    have e: "\<not> (async_write_buf ?c \<noteq> None \<and> async_write_buf (conn (cl W1) i) = None)"
      "(if drained (conn (cl W1) i) then flush_from (before us) (first vs) (drop_dirty i (before us) (first vs) W1)
        else flush_from (Some i) (first vs) W1) = Some (Running W')"
      using r by (subst (asm) flush_from.simps, simp add: True fi(1) Let_def st split: if_splits)+
    have w: "W1 = W \<or> (\<exists>w. ctxt W1 = upd_conn i (\<lambda>c. c\<lparr>async_write_buf := w\<rparr>) (ctxt W)
        \<and> map_option (write_buffer_set_pending True) w = buffer_of ?c \<and> requests W1 = requests W)"
      using e(1) cs by (auto simp: buffer_of_def pending_twice)
    have d1: "dirty_ok (ctxt W1) (us @ i # vs)" and l1: "dirty_link (ctxt W1) i = first vs"
      using w started_dirty [OF d _ fi(2), of W1] d fi(1) by auto
    show ?thesis
    proof (cases "drained (conn (cl W1) i)")
      case True
      note dd = drop_dirty_spec [OF d1 l1 [symmetric]]
      have "fair tk ap (drop_dirty i (before us) (first vs) W1) W'"
        by (rule Cons.IH [OF keeps_inv [OF dd(3) inv1] dd(1)]) (use e(2) True in simp)
      then show ?thesis using fair_trans [OF fair_trans [OF f1 drop_fair [OF l1 [symmetric]]]] by blast
    next
      case False
      then have "flush_from (before (us @ [i])) (first vs) W1 = Some (Running W')" using e(2) by (simp add: before_snoc)
      then have "fair tk ap W1 W'" by (rule Cons.IH [OF inv1, rotated]) (use d1 in simp)
      then show ?thesis using fair_trans [OF f1] by blast
    qed
  qed
qed

lemma flush_fair:
  assumes "curl_inv W" "flush_streaming_connections W = Some (Running W')"
  shows "fair tk ap W W'"
proof -
  obtain ds where d: "dirty_ok (ctxt W) ds" using assms(1) unfolding curl_inv_def ctx_ok_def by blast
  have "dirty_head (ctxt W) = first ds"
    using d chain_start [of "dirty_link (ctxt W)" "dirty_head (ctxt W)" ds] by (cases ds) (auto simp: dirty_ok_def)
  then show ?thesis
    using flush_from_fair [OF assms(1), of "[]" ds W'] d assms(2) by (simp add: flush_streaming_connections_def)
qed

section \<open>Callbacks\<close>

text \<open>A connection without a request is left alone.\<close>

definition no_rq :: "nat \<Rightarrow> curl_loop \<Rightarrow> bool" where
  "no_rq i W \<longleftrightarrow> (\<forall>h hs st. rq_view W h \<noteq> Some (i, hs, st))"

lemma run_event_spares:
  assumes e: "run_event e W = Some W'" and inv: "curl_inv W" and s: "sound_loop W" and n: "no_rq i W"
  shows "stream_view i W' = stream_view i W \<and> state (conn (cl W') i) = state (conn (cl W) i)"
proof (cases e)
  case (Socket_cb fd what)
  then show ?thesis using e socket_callback_frame [of fd what W] by (auto simp: ctx_requests_def stream_view_def queued_def buf_sound_def)
next
  case (Timer_cb ms)
  then show ?thesis using e timer_callback_frame [of ms W] by (auto simp: ctx_requests_def stream_view_def queued_def buf_sound_def)
next
  case (Write_cb h ptr)
  show ?thesis
  proof (cases "requests W h = None \<or> rq_stopped (the (requests W h))")
    case True
    then show ?thesis using e Write_cb by (auto split: option.splits)
  next
    case False
    then obtain rq where rq: "requests W h = Some rq" "\<not> rq_stopped rq" by auto
    obtain m W1 where w: "curl_write_callback h rq ptr W = Some (m, W1)"
      and W': "W' = (if m = length ptr then W1
        else W1\<lparr>requests := (requests W1)(h := map_option (rq_stopped_update (\<lambda>_. True)) (requests W1 h))\<rparr>)"
      using e Write_cb rq by (auto simp: bind_eq_Some_conv)
    have v: "rq_view W h = Some (rq_conn rq, rq_headers_sent rq, rq_stopped rq)" using rq by (simp add: rq_view_def)
    note r = request_receiving [OF inv v]
    have ni: "i \<noteq> rq_conn rq" using n v by (auto simp: no_rq_def)
    have "works_on (rq_conn rq) receiving W" using s r by (simp add: works_on_def sound_loop_def)
    from callback_works [OF w refl this answered_at [OF s v] v] have "others (rq_conn rq) W W1" by blast
    moreover have "stream_view i W1 = stream_view i W" using callback_aside [OF w refl r(1)] ni by (auto simp: aside_def reads_def)
    moreover have "ctxt W' = ctxt W1" by (simp add: W')
    ultimately show ?thesis using ni by (simp add: others_def stream_view_def queued_def buf_sound_def)
  qed
qed

lemma no_rq_reqs: "no_rq i W = (\<forall>h. reqs W h \<noteq> Some i)"
  by (auto simp: no_rq_def rq_view_def reqs_def)

lemma no_rq_easy: "curl_inv W \<Longrightarrow> i < length (connections (ctxt W)) \<Longrightarrow> no_rq i W \<longleftrightarrow> curl_easy (conn (cl W) i) = None"
  unfolding no_rq_reqs curl_inv_def ctx_ok_def conn_ok_def by (metis option.exhaust option.simps(3))

lemma run_events_spares:
  "run_events es W = Some W' \<Longrightarrow> curl_inv W \<Longrightarrow> sound_loop W \<Longrightarrow> no_rq i W
     \<Longrightarrow> stream_view i W' = stream_view i W \<and> state (conn (cl W') i) = state (conn (cl W) i)"
proof (induction es arbitrary: W)
  case (Cons e es)
  then obtain W1 where w: "run_event e W = Some W1" "run_events es W1 = Some W'" by (auto simp: bind_eq_Some_conv)
  note k = run_event_keeps [OF w(1)]
  have "no_rq i W1" using Cons.prems(4) keeps_reqs [OF k] by (simp add: no_rq_reqs)
  from Cons.IH [OF w(2) keeps_inv [OF k Cons.prems(2)] run_event_sound [OF w(1) Cons.prems(2,3)] this]
    run_event_spares [OF w(1) Cons.prems(2-4)] show ?case by simp
qed simp

lemma easy_same:
  assumes "curl_inv W" "curl_inv W'" "reqs W' = reqs W" "length (connections (ctxt W')) = length (connections (ctxt W))"
    "i < length (connections (ctxt W))"
  shows "curl_easy (conn (cl W') i) = curl_easy (conn (cl W) i)"
proof -
  show ?thesis using easy_req [OF assms(1,5)] easy_req [OF assms(2)] assms(3-5) by (metis not_Some_eq)
qed

definition hears :: "curl_event list \<Rightarrow> curl_loop \<Rightarrow> (nat \<Rightarrow> string) \<Rightarrow> nat \<Rightarrow> string" where
  \<comment> \<open>the text of the API for each connection, after the callbacks \<open>es\<close>\<close>
  "hears es W ap i = (case curl_easy (conn (cl W) i) of None \<Rightarrow> ap i | Some h \<Rightarrow> ap i @ heard h es)"

lemma run_event_length:
  assumes e: "run_event e W = Some W'" and inv: "curl_inv W"
  shows "length (connections (ctxt W')) = length (connections (ctxt W))"
proof (cases e)
  case (Socket_cb fd what)
  then show ?thesis using e socket_callback_silent [of W fd what] by (auto simp: silent_def)
next
  case (Timer_cb ms)
  then show ?thesis using e timer_callback_silent [of W ms] by (auto simp: silent_def)
next
  case (Write_cb h ptr)
  show ?thesis
  proof (cases "requests W h = None \<or> rq_stopped (the (requests W h))")
    case True
    then show ?thesis using e Write_cb by (auto split: option.splits)
  next
    case False
    then obtain rq where rq: "requests W h = Some rq" "\<not> rq_stopped rq" by auto
    then have "rq_view W h = Some (rq_conn rq, rq_headers_sent rq, rq_stopped rq)" by (simp add: rq_view_def)
    note r = request_receiving(1) [OF inv this]
    show ?thesis using e Write_cb rq callback_aside [OF _ refl r]
      by (fastforce simp: bind_eq_Some_conv aside_def reads_def split: if_splits)
  qed
qed

lemma run_events_length:
  "run_events es W = Some W' \<Longrightarrow> curl_inv W \<Longrightarrow> length (connections (ctxt W')) = length (connections (ctxt W))"
proof (induction es arbitrary: W)
  case (Cons e es)
  then obtain W1 where w: "run_event e W = Some W1" "run_events es W1 = Some W'" by (auto simp: bind_eq_Some_conv)
  from Cons.IH [OF w(2) keeps_inv [OF run_event_keeps [OF w(1)] Cons.prems(2)]] run_event_length [OF w(1) Cons.prems(2)]
  show ?case by simp
qed simp

lemma run_events_clients:
  assumes e: "run_events es W = Some W'" and inv: "curl_inv W" and s: "sound_loop W" and ok: "clients_ok tk ap W"
  shows "clients_ok tk (hears es W ap) W'"
proof -
  note k = run_events_keeps [OF e]
  note inv' = keeps_inv [OF k inv]
  note n = run_events_length [OF e inv]
  have "client_ok i (tk i) (hears es W ap i) W'" if i: "i < length (connections (ctxt W))" for i
  proof -
    note c = easy_same [OF inv inv' keeps_reqs [OF k] n i]
    have o: "client_ok i (tk i) (ap i) W" using ok i by (simp add: clients_ok_def)
    show ?thesis
    proof (cases "curl_easy (conn (cl W) i)")
      case None
      note v = run_events_spares [OF e inv s no_rq_easy [OF inv i, THEN iffD2, OF None]]
      have "async_write_buf (conn (cl W') i) = None \<longleftrightarrow> async_write_buf (conn (cl W) i) = None"
        if "state (conn (cl W) i) \<in> {CONN_STATE_UNUSED, CONN_STATE_RECEIVING_FD}"
      proof -
        have "proper (conn (cl W') i)" by (rule sound_at [OF run_events_sound [OF e inv s]]) (use i n in simp)
        moreover have "blank (conn (cl W) i)" using o None that by (simp add: client_ok_def)
        ultimately show ?thesis using that v by (auto simp: proper_def blank_def)
      qed
      then have "client_ok i (tk i) (ap i) W'"
        using o None v c by (auto simp: client_ok_def stream_view_def blank_def)
      then show ?thesis using None by (simp add: hears_def)
    next
      case (Some h)
      then have "served h i (tk i) (ap i) W" using o by (simp add: client_ok_def)
      from run_events_served [OF e own_conns_inv [OF inv] this] have "served h i (tk i) (ap i @ heard h es) W'" by simp
      then show ?thesis using Some c by (simp add: client_ok_def hears_def)
    qed
  qed
  moreover have "held W'" using run_events_held [OF e inv] ok by (simp add: clients_ok_def)
  ultimately show ?thesis by (simp add: clients_ok_def n)
qed

section \<open>Requests that end\<close>

lemma complete_request_clients:
  assumes inv: "curl_inv W" and ok: "clients_ok tk ap W"
  shows "clients_ok tk ap (complete_request msg W) \<and> refused W \<le> refused (complete_request msg W)"
proof (cases "requests W (m_easy msg)")
  case None
  then show ?thesis using ok by (simp add: complete_request_def)
next
  case (Some rq)
  let ?h = "m_easy msg" and ?i = "rq_conn rq" and ?C = "state_update (\<lambda>_. CONN_STATE_CLOSING)"
  have v: "rq_view W ?h = Some (?i, rq_headers_sent rq, rq_stopped rq)" using Some by (simp add: rq_view_def)
  note r = request_receiving [OF inv v]
  have easy: "curl_easy (conn (cl W) ?i) = Some ?h"
    using v inv unfolding curl_inv_def ctx_ok_def by (auto simp: rq_view_def reqs_def)
  obtain ok1 W1 where a: "append_write_buf ?i SSE_DONE W = (ok1, W1)" by fastforce
  note q1 = append_write_buf_queues [OF a r(1)]
  define C where "C \<longleftrightarrow> m_ok msg \<and> (m_code msg = 200 \<or> rq_headers_sent rq) \<and> rq_headers_sent rq
      \<and> async_write_buf (conn (cl W) ?i) \<noteq> None"
  define V where "V = (if C then if ok1 then cl_dirty ?i W1 else W1 else W)"
  have e: "complete_request msg W = drop_request ?h ?i (cl_conn ?i ?C V)"
    using Some by (auto simp: complete_request_def V_def C_def Let_def a)
  define d where "d = (if C \<and> ok1 then SSE_DONE else [])"
  have "queues ?i d W V"
  proof (cases "C \<and> ok1")
    case True
    then show ?thesis using queues_silent [OF q1 silent_dirty] by (simp add: V_def d_def)
  next
    case False
    then show ?thesis using q1 silent_queues [OF silent_refl] by (cases C) (simp_all add: V_def d_def)
  qed
  then have d: "queues ?i d W V" "d = [] \<or> d = SSE_DONE" by (simp_all add: d_def)
  have p: "passes ?i W V"
    using passes_append [OF a] passes_trans [OF passes_append [OF a] passes_dirty] by (simp add: V_def)
  have close: "passes ?i V (cl_conn ?i ?C V)"
    by (rule passes_at) (simp_all add: up_def holds_view [of "x\<lparr>state := CONN_STATE_CLOSING\<rparr>" x for x])
  have drop: "passes ?i X (drop_request ?h ?i X)" for X
  proof -
    have "passes ?i (X\<lparr>requests := (requests X)(?h := None), mgr := (mgr X)\<lparr>active_requests := active_requests (mgr X) - 1\<rparr>\<rparr>)
        (drop_request ?h ?i X)" unfolding drop_request_def by (rule passes_conn) simp
    moreover have "passes ?i X (X\<lparr>requests := (requests X)(?h := None), mgr := (mgr X)\<lparr>active_requests := active_requests (mgr X) - 1\<rparr>\<rparr>)"
      by (rule passes_cl) simp
    ultimately show ?thesis using passes_trans by blast
  qed
  have "passes ?i W (complete_request msg W)" unfolding e by (rule passes_trans [OF passes_trans [OF p close] drop])
  moreover have "up ?i W" using r by (auto simp: up_def)
  ultimately have h: "refused W \<le> refused (complete_request msg W)" "held (complete_request msg W)"
    using ok by (simp_all add: passes_def clients_ok_def)
  let ?X = "complete_request msg W"
  have w: "length (connections (ctxt ?X)) = length (connections (ctxt W))" "\<And>j. stream_view j ?X = stream_view j V"
    "rq_view ?X = (rq_view W)(?h := None)"
    using d(1) by (simp_all add: e drop_request_def queues_def stream_view_def queued_def buf_sound_def cl_conn_at fun_eq_iff rq_view_def)
      (auto simp: cl_conn_def)
  have at: "state (conn (cl ?X) j) = (if j = ?i then CONN_STATE_CLOSING else state (conn (cl V) j))"
    "curl_easy (conn (cl ?X) j) = (if j = ?i then None else curl_easy (conn (cl V) j))" for j
    using d(1) r(1) by (auto simp: e drop_request_def cl_conn_at queues_def)
  have other: "state (conn (cl V) j) = state (conn (cl W) j) \<and> curl_easy (conn (cl V) j) = curl_easy (conn (cl W) j)
      \<and> async_write_buf (conn (cl V) j) = async_write_buf (conn (cl W) j)" if "j \<noteq> ?i" for j
  proof -
    have "conn (cl W1) j = conn (cl W) j"
      using a that by (auto simp: append_write_buf_def next_heap_def cl_conn_at split: option.splits prod.splits)
    then show ?thesis using mark_same [of "ctxt W1" ?i] by (simp add: V_def same_conns_def cl_dirty_def)
  qed
  have "client_ok j (tk j) (ap j) ?X" if j: "j < length (connections (ctxt W))" for j
  proof (cases "j = ?i")
    case True
    have "served ?h ?i (tk ?i) (ap ?i) W" using ok r(1) easy by (auto simp: clients_ok_def client_ok_def split: option.splits)
    then have c: "cut_off ?i (tk ?i) (ap ?i) W" using v streams_cut by (auto simp: served_def split: if_splits)
    then have b: "buf_sound ?i V" "queued ?i V = queued ?i W @ d" using d(1) by (simp_all add: queues_def cut_off_def)
    have "prefix (tk ?i @ queued ?i W @ d) ((tk ?i @ queued ?i W) @ SSE_DONE)" using d(2) by auto
    then have "\<exists>p. prefix p (stream_of (ap ?i)) \<and> prefix (tk ?i @ queued ?i ?X) (p @ SSE_DONE)"
      using c b w(2) [of ?i] unfolding cut_off_def stream_view_def by (intro exI [of _ "tk ?i @ queued ?i W"]) simp
    then show ?thesis using True at b w(2) [of ?i] by (simp add: client_ok_def stream_view_def)
  next
    case False
    have "curl_easy (conn (cl W) j) \<noteq> Some ?h"
      using easy_req [OF inv j] easy_req [OF inv r(1)] easy False by (metis option.inject)
    moreover have "stream_view j V = stream_view j W" using d(1) False by (simp add: queues_def)
    moreover have "async_write_buf (conn (cl ?X) j) = async_write_buf (conn (cl V) j)"
      by (simp add: e drop_request_def cl_conn_at)
    ultimately have "client_ok j (tk j) (ap j) ?X = client_ok j (tk j) (ap j) W"
      using w at other [OF False] False by (intro client_ok_same) auto
    then show ?thesis using ok j by (simp add: clients_ok_def)
  qed
  then show ?thesis using h w(1) by (simp add: clients_ok_def)
qed

lemma check_completions_clients:
  "curl_inv W \<Longrightarrow> clients_ok tk ap W \<Longrightarrow> clients_ok tk ap (curl_manager_check_completions msgs W)
     \<and> refused W \<le> refused (curl_manager_check_completions msgs W)"
proof -
  have "clients_ok tk ap (fold complete_request msgs W) \<and> refused W \<le> refused (fold complete_request msgs W)"
    if "curl_inv W" "clients_ok tk ap W" for W
    using that
  proof (induction msgs arbitrary: W)
    case (Cons m ms)
    note c = complete_request_clients [OF Cons.prems, of m]
    from Cons.IH [OF complete_request_inv [OF Cons.prems(1)] conjunct1 [OF c]] c show ?case by auto
  qed simp
  then show "curl_inv W \<Longrightarrow> clients_ok tk ap W \<Longrightarrow> clients_ok tk ap (curl_manager_check_completions msgs W)
     \<and> refused W \<le> refused (curl_manager_check_completions msgs W)" by (simp add: curl_manager_check_completions_def)
qed

section \<open>The handlers\<close>

definition serves_on :: "(nat \<Rightarrow> string) \<Rightarrow> (nat \<Rightarrow> string) \<Rightarrow> curl_loop \<Rightarrow> curl_loop \<Rightarrow> bool" where
  \<comment> \<open>after the handler\<close>
  "serves_on tk ap W W' \<longleftrightarrow> refused W \<le> refused W' \<and> (refused W' = refused W \<longrightarrow> clients_ok tk ap W')"

lemma serves_fair: "clients_ok tk ap W \<Longrightarrow> fair tk ap W W' \<Longrightarrow> serves_on tk ap W W'"
  by (simp add: fair_def serves_on_def)

lemma serves_later: "refused W \<le> refused V \<Longrightarrow> serves_on tk ap V W' \<Longrightarrow> serves_on tk ap W W'"
  by (auto simp: serves_on_def)

lemma run_events_append: "run_events (xs @ ys) W = do { W1 \<leftarrow> run_events xs W; run_events ys W1 }"
  by (induction xs arbitrary: W) (auto split: Option.bind_split)

lemma after_events:
  assumes e: "run_events es W = Some V" and inv: "curl_inv W" and s: "sound_loop W" and ok: "clients_ok tk ap W"
    and f: "flush_streaming_connections (curl_manager_check_completions msgs V) = Some (Running W')"
  shows "serves_on tk (hears es W ap) W W'"
proof -
  have inv1: "curl_inv V" by (rule keeps_inv [OF run_events_keeps [OF e] inv])
  have 1: "refused W \<le> refused V" "clients_ok tk (hears es W ap) V"
    using run_events_held [OF e inv] run_events_clients [OF e inv s ok] by simp_all
  note 2 = check_completions_clients [OF inv1 1(2), of msgs]
  note 3 = flush_fair [OF check_completions_inv [OF inv1] f]
  show ?thesis by (rule serves_later [OF _ serves_fair [OF _ 3]]) (use 1 2 in auto)
qed

lemma poll_clients:
  assumes inv: "curl_inv W" and s: "sound_loop W" and ok: "clients_ok tk ap W" and h: "handle_curl_poll k fd res W = Some (Running W')"
  shows "serves_on tk (hears (k_socket k fd (curl_select_bits (poll_events res)) @ k_timeout k) W ap) W W'"
proof -
  obtain V where "run_events (k_socket k fd (curl_select_bits (poll_events res)) @ k_timeout k) W = Some V"
    "flush_streaming_connections (curl_manager_check_completions (k_msgs k) V) = Some (Running W')"
    using h by (auto simp: handle_curl_poll_def curl_manager_socket_action_def run_events_append bind_eq_Some_conv)
  then show ?thesis by (rule after_events [OF _ inv s ok])
qed

lemma timeout_clients:
  assumes inv: "curl_inv W" and s: "sound_loop W" and ok: "clients_ok tk ap W" and h: "handle_curl_timeout k W = Some (Running W')"
  shows "serves_on tk (hears (k_timeout k) W ap) W W'"
proof -
  let ?W0 = "W\<lparr>mgr := (mgr W)\<lparr>timer_active := False\<rparr>\<rparr>"
  have "reqs ?W0 = reqs W" by (simp add: fun_eq_iff reqs_def)
  then have 0: "curl_inv ?W0" using inv by (simp add: curl_inv_def)
  have s0: "sound_loop ?W0" using s sound_ctxt [of ?W0 W] by simp
  have ok0: "clients_ok tk ap ?W0" by (rule clients_same [OF ok]) simp_all
  obtain V where "run_events (k_timeout k) ?W0 = Some V"
    "flush_streaming_connections (curl_manager_check_completions (k_msgs k) V) = Some (Running W')"
    using h by (auto simp: handle_curl_timeout_def curl_manager_timeout_action_def bind_eq_Some_conv)
  from after_events [OF this(1) 0 s0 ok0 this(2)] have "serves_on tk (hears (k_timeout k) ?W0 ap) ?W0 W'" .
  moreover have "hears (k_timeout k) ?W0 ap = hears (k_timeout k) W ap" by (simp add: hears_def fun_eq_iff)
  ultimately show ?thesis by (simp add: serves_on_def)
qed

text \<open>A write has ended: the kernel took the first \<open>n\<close> bytes of the buffer.\<close>

lemma consume_content:
  assumes "wb_ok wb" "prefix b (wb_content wb)" "n \<le> length b"
  defines "w \<equiv> write_buffer_set_pending False (snd (write_buffer_consume n wb))"
  shows "wb_ok w" "take n b @ wb_content w = wb_content wb"
proof -
  obtain k v where c: "write_buffer_consume n wb = (k, v)" by fastforce
  note sp = consume_spec [OF assms(1) c]
  have "wb_ok w = wb_ok v" "wb_content w = wb_content v" by (simp_all add: w_def c wb_ok_def wb_content_def write_buffer_set_pending_def)
  moreover have "k = n" using sp(2) assms(2,3) prefix_length_le by fastforce
  moreover have "take n b = take n (wb_content wb)" using assms(2,3) by (auto simp: prefix_def)
  ultimately show "wb_ok w" "take n b @ wb_content w = wb_content wb" using sp(1,3) by simp_all
qed

lemma async_write_clients:
  assumes inv: "curl_inv W" and ok: "clients_ok tk ap W" and i: "i < length (connections (ctxt W))"
    and o: "owners_at i (lring (cl W)) = {#}" and wb: "async_write_buf (conn (cl W) i) = Some wb" "prefix b (wb_content wb)"
    and n: "nat res \<le> length b" and h: "curl_handle_async_write i res W = Some W'"
  shows "serves_on (tk(i := tk i @ take (nat res) b)) ap W W'"
proof (cases "res < 0")
  case True
  then have "curl_fail i W = Some W'" using h by (simp add: curl_handle_async_write_def)
  then have "fair tk ap W W'" using fail_freed [OF inv _ i] o by (intro fair_fail [OF inv _ i])
  then show ?thesis using serves_fair [OF ok] True by simp
next
  case False
  let ?tk = "tk(i := tk i @ take (nat res) b)"
  define w where "w = write_buffer_set_pending False (snd (write_buffer_consume (nat res) wb))"
  define W1 where "W1 = cl_conn i (\<lambda>c. c\<lparr>bytes_sent := bytes_sent c + nat res, async_write_buf := Some w\<rparr>) W"
  have k: "wb_ok wb" using ok i wb(1) by (auto simp: clients_ok_def held_def holds_def)
  note c = consume_content [OF k wb(2) n, folded w_def]
  have inv1: "curl_inv W1" unfolding W1_def by (rule keeps_inv [OF keeps_plain inv]) simp
  have l1: "length (connections (ctxt W1)) = length (connections (ctxt W))" "lring (cl W1) = lring (cl W)" "rq_view W1 = rq_view W"
    by (simp_all add: W1_def)
  have at: "conn (cl W1) j = (if j = i then (conn (cl W) i)\<lparr>bytes_sent := bytes_sent (conn (cl W) i) + nat res, async_write_buf := Some w\<rparr>
      else conn (cl W) j)" for j using i by (simp add: W1_def cl_conn_at)
  have ok1: "clients_ok ?tk ap W1"
  proof -
    have "held W1"
      by (rule held_owner [of W i]) (use ok i o c(1) in \<open>simp_all add: l1 at clients_ok_def held_def holds_def\<close>)
    moreover have "client_ok j (?tk j) (ap j) W1 = client_ok j (tk j) (ap j) W" for j
      using wb(1) c k by (intro client_ok_moved) (simp_all add: at l1 queued_def buf_sound_def)
    ultimately show ?thesis using ok by (simp add: clients_ok_def l1)
  qed
  have e: "curl_handle_async_write i res W = (if write_buffer_has_data w then curl_start_async_write i W1
      else if state (conn (cl W1) i) = CONN_STATE_CLOSING then cancel_and_cleanup i (on_loop (count_completed i) W1) else Some W1)"
    using False wb(1) by (simp add: curl_handle_async_write_def Let_def w_def W1_def)
  let ?V = "on_loop (count_completed i) W1"
  have v: "lring (cl ?V) = lring (cl W1)" "connections (ctxt ?V) = connections (ctxt W1)" "conn (cl ?V) j = conn (cl W1) j"
    "rq_view ?V = rq_view W1" for j
    by (simp_all add: on_loop_def count_completed_def conn_at_def rq_view_def [abs_def])
  have invV: "curl_inv ?V" using inv1 by (simp add: on_loop_def curl_inv_def)
  have "fair ?tk ap W1 W'"
  proof -
    consider "curl_start_async_write i W1 = Some W'" | "cancel_and_cleanup i ?V = Some W'" | "W' = W1"
      using h unfolding e by (metis option.inject)
    then show ?thesis
    proof cases
      case 1
      then show ?thesis using start_async_fair [OF inv1 _ 1] i l1 by simp
    next
      case 2
      have "freed i ?V W'" by (rule cancel_freed [OF invV 2]) (use i l1 v in simp)
      then have "fair ?tk ap ?V W'" by (rule fair_fail [OF invV]) (use i l1 v o in simp_all)
      moreover have "fair ?tk ap W1 ?V" by (rule fair_same) (use v in \<open>simp_all add: rings_def\<close>)
      ultimately show ?thesis using fair_trans by blast
    qed simp
  qed
  then have "serves_on ?tk ap W1 W'" by (rule serves_fair [OF ok1])
  then show ?thesis by (rule serves_later [rotated]) (simp add: l1)
qed

end
