(* ===== verification/Curl_Mono.thy ===== *)
theory Curl_Mono
  imports Curl_Owners
begin

text \<open>
  The number of linked timeouts that were refused never goes down: so when none was refused at the end of a
  run of the curl mode, none was before.
\<close>

section \<open>The event loop\<close>


lemma cleanup_ring: "cleanup_connection i L = Some L' \<Longrightarrow> lring L' = lring L"
  by (auto simp: cleanup_connection_def bind_eq_Some_conv)

lemma cancel_ring: "cancel_and_cleanup i W = Some W' \<Longrightarrow> lring (cl W') = lring (cl W)"
  by (auto simp: cancel_and_cleanup_def lift_loop_def curl_manager_cancel_request_def drop_request_def dest!: cleanup_ring
      split: if_splits option.splits)

lemma fail_ring: "curl_fail i W = Some W' \<Longrightarrow> lring (cl W') = lring (cl W)"
  using cancel_ring by (fastforce simp: curl_fail_def on_loop_def count_failed_def split: if_splits)

lemma run_events_refused: "run_events es W = Some W' \<Longrightarrow> refused W \<le> refused W'"
proof (induction es arbitrary: W)
  case (Cons e es)
  then obtain W1 where w: "run_event e W = Some W1" "run_events es W1 = Some W'" by (auto simp: bind_eq_Some_conv)
  have "refused W \<le> refused W1"
  proof (cases e)
    case (Socket_cb fd what)
    then show ?thesis using w rings_socket [of W fd what] by (auto simp: rings_def)
  next
    case (Timer_cb ms)
    then show ?thesis using w rings_timer [of W ms] by (auto simp: rings_def)
  next
    case (Write_cb h ptr)
    then show ?thesis using w passes_callback by (fastforce simp: bind_eq_Some_conv passes_def split: option.splits if_splits)
  qed
  then show ?case using Cons.IH [OF w(2)] by simp
qed simp

lemma write_refused: "ring_submit_write c d r = (rc, r') \<Longrightarrow> refused_links r' = refused_links r"
  using with_flush_cases by (auto simp: ring_submit_write_def)

lemma link_refused: "ring_submit_linked_timeout c ms r = (rc, r') \<Longrightarrow> refused_links r \<le> refused_links r'"
  using linked_timeout_cases [of c ms r rc r'] by auto

lemma cl_ring_at: "cl_ring f W = (rc, W') \<Longrightarrow> f (lring (cl W)) = (rc, lring (cl W'))"
  by (auto simp: cl_ring_def split: prod.splits)

lemma start_async_refused:
  assumes "curl_start_async_write i W = Some W'"
  shows "refused W \<le> refused W'"
proof (cases "\<exists>wb data. async_write_buf (conn (cl W) i) = Some wb \<and> write_buffer_has_data wb \<and> \<not> write_buffer_is_busy wb
    \<and> write_buffer_get_next wb = Some data \<and> data \<noteq> []")
  case False
  then have "W' = W" using assms by (auto simp: curl_start_async_write_def split: option.splits if_splits)
  then show ?thesis by simp
next
  case True
  then obtain wb data where wb: "async_write_buf (conn (cl W) i) = Some wb" "write_buffer_has_data wb" "\<not> write_buffer_is_busy wb"
    "write_buffer_get_next wb = Some data" "data \<noteq> []" by blast
  obtain rc W1 where w: "cl_ring (ring_submit_write (conn (cl W) i) data) W = (rc, W1)" by fastforce
  obtain rc2 W2 where t: "cl_ring (ring_submit_linked_timeout (conn (cl W1) i) (write_timeout_ms (ctxt W1))) W1 = (rc2, W2)" by fastforce
  let ?V = "cl_submit (cl_conn i (\<lambda>c. c\<lparr>async_write_buf := Some (write_buffer_set_pending True wb)\<rparr>) W2)"
  have "curl_start_async_write i W = (if rc < 0 then curl_fail i W1 else if rc2 < 0 then curl_fail i W2 else Some ?V)"
    using wb w t by (simp add: curl_start_async_write_def)
  then have "curl_fail i W1 = Some W' \<or> curl_fail i W2 = Some W' \<or> W' = ?V" using assms by (metis option.inject)
  moreover have "refused ?V = refused W2" by (simp add: cl_submit_def cl_ring_def ring_submit_def)
  ultimately show ?thesis using write_refused [OF cl_ring_at [OF w]] link_refused [OF cl_ring_at [OF t]] fail_ring by force
qed

lemma async_write_refused:
  assumes "curl_handle_async_write i res W = Some W'"
  shows "refused W \<le> refused W'"
proof -
  define wb where "wb = map_option (\<lambda>wb. write_buffer_set_pending False (snd (write_buffer_consume (nat res) wb))) (async_write_buf (conn (cl W) i))"
  define W1 where "W1 = cl_conn i (\<lambda>c. c\<lparr>bytes_sent := bytes_sent c + nat res, async_write_buf := wb\<rparr>) W"
  have "curl_fail i W = Some W' \<or> curl_start_async_write i W1 = Some W' \<or> cancel_and_cleanup i (on_loop (count_completed i) W1) = Some W' \<or> W' = W1"
    using assms unfolding curl_handle_async_write_def Let_def wb_def [symmetric] W1_def [symmetric] by (metis option.inject)
  moreover have "lring (cl W1) = lring (cl W)" "lring (cl (on_loop (count_completed i) W1)) = lring (cl W1)"
    by (simp_all add: W1_def on_loop_def count_completed_def)
  ultimately show ?thesis using fail_ring cancel_ring start_async_refused by (metis order_refl)
qed

lemma complete_ring: "lring (cl (complete_request msg W)) = lring (cl W)"
proof -
  have a: "lring (cl W') = lring (cl W)" if "append_write_buf i d W = (ok, W')" for i d ok W'
    using that by (auto simp: append_write_buf_def next_heap_def split: option.splits prod.splits)
  show ?thesis
    by (auto simp: complete_request_def drop_request_def Let_def a split: option.split prod.split)
qed

lemma completions_ring: "lring (cl (curl_manager_check_completions msgs W)) = lring (cl W)"
  unfolding curl_manager_check_completions_def by (induction msgs arbitrary: W) (simp_all add: complete_ring)

lemma flush_from_refused:
  assumes "flush_from prev cur W = Some x"
  shows "\<forall>W'. x = Running W' \<longrightarrow> refused W \<le> refused W'"
proof (rule flush_from.raw_induct [where P = "\<lambda>prev cur W x. \<forall>W'. x = Running W' \<longrightarrow> refused W \<le> refused W'", OF _ assms])
  fix f prev cur W x
  assume IH: "\<And>prev cur W x. f prev cur W = Some x \<Longrightarrow> \<forall>W'. x = Running W' \<longrightarrow> refused W \<le> refused W'"
    and e: "(case cur of None \<Rightarrow> Some (Running W)
      | Some i \<Rightarrow>
          let c = conn (cl W) i; nx = dirty_next c in
          if \<not> flushable (state c) then f prev nx (drop_dirty i prev nx W)
          else do {
            W1 \<leftarrow> (if idle_data c then curl_start_async_write i W else Some W);
            if async_write_buf c \<noteq> None \<and> async_write_buf (conn (cl W1) i) = None then Some Freed_read
            else if drained (conn (cl W1) i) then f prev nx (drop_dirty i prev nx W1)
            else f (Some i) nx W1 }) = Some x"
  have d: "refused (drop_dirty i p nx V) = refused V" for i p nx V by (simp add: drop_dirty_def on_loop_def)
  show "\<forall>W'. x = Running W' \<longrightarrow> refused W \<le> refused W'"
  proof (cases cur)
    case None
    then show ?thesis using e by auto
  next
    case (Some i)
    let ?c = "conn (cl W) i"
    show ?thesis
    proof (cases "flushable (state ?c)")
      case False
      then have "f prev (dirty_next ?c) (drop_dirty i prev (dirty_next ?c) W) = Some x" using e Some by (simp add: Let_def)
      from IH [OF this] show ?thesis by (simp add: d)
    next
      case True
      then obtain W1 where w: "(if idle_data ?c then curl_start_async_write i W else Some W) = Some W1"
        and r: "(if async_write_buf ?c \<noteq> None \<and> async_write_buf (conn (cl W1) i) = None then Some Freed_read
            else if drained (conn (cl W1) i) then f prev (dirty_next ?c) (drop_dirty i prev (dirty_next ?c) W1)
            else f (Some i) (dirty_next ?c) W1) = Some x"
        using e Some by (auto simp: Let_def bind_eq_Some_conv)
      have "refused W \<le> refused W1" using w start_async_refused by (auto split: if_splits)
      moreover have "x = Freed_read \<or> f prev (dirty_next ?c) (drop_dirty i prev (dirty_next ?c) W1) = Some x \<or> f (Some i) (dirty_next ?c) W1 = Some x"
        using r by (metis option.inject)
      ultimately show ?thesis using IH d by (metis dual_order.trans outcome.distinct(1))
    qed
  qed
qed

lemma flush_refused: "flush_streaming_connections W = Some (Running W') \<Longrightarrow> refused W \<le> refused W'"
  using flush_from_refused unfolding flush_streaming_connections_def by blast

lemma poll_refused: "handle_curl_poll k fd res W = Some (Running W') \<Longrightarrow> refused W \<le> refused W'"
proof -
  assume "handle_curl_poll k fd res W = Some (Running W')"
  then obtain V X where v: "run_events (k_socket k fd (curl_select_bits (poll_events res))) W = Some V" "run_events (k_timeout k) V = Some X"
    "flush_streaming_connections (curl_manager_check_completions (k_msgs k) X) = Some (Running W')"
    by (auto simp: handle_curl_poll_def curl_manager_socket_action_def bind_eq_Some_conv)
  show "refused W \<le> refused W'"
    using run_events_refused [OF v(1)] run_events_refused [OF v(2)] flush_refused [OF v(3)] by (simp add: completions_ring)
qed

lemma timeout_refused: "handle_curl_timeout k W = Some (Running W') \<Longrightarrow> refused W \<le> refused W'"
proof -
  assume "handle_curl_timeout k W = Some (Running W')"
  then obtain V where v: "run_events (k_timeout k) (W\<lparr>mgr := (mgr W)\<lparr>timer_active := False\<rparr>\<rparr>) = Some V"
    "flush_streaming_connections (curl_manager_check_completions (k_msgs k) V) = Some (Running W')"
    by (auto simp: handle_curl_timeout_def curl_manager_timeout_action_def bind_eq_Some_conv)
  show "refused W \<le> refused W'"
    using run_events_refused [OF v(1)] flush_refused [OF v(2)] by (simp add: completions_ring)
qed

lemma dispatch_refused:
  assumes "curl_dispatch cfg sa i W = Some W'"
  shows "refused W \<le> refused W'"
proof -
  obtain rc W1 where r: "curl_manager_start_request cfg sa i W = Some (rc, W1)" using start_request_total by blast
  have "refused W \<le> refused W1"
    using r
  proof (cases rule: start_request_cases)
    case (3 rq)
    then show ?thesis using run_events_refused [OF 3(3)] by (simp add: with_request_def pending_def)
  qed (simp_all add: pending_def)
  then show ?thesis using assms r fail_ring by (fastforce simp: curl_dispatch_def split: if_splits)
qed

lemma recv_refused:
  assumes "curl_handle_recv_fd cfg sa i res a W = Some W'"
  shows "refused W \<le> refused W'"
proof -
  have r: "lring (cl (on_loop (\<lambda>L. L\<lparr>dctx := g L\<rparr>) V)) = lring (cl V)" for g V by (simp add: on_loop_def)
  define W1 where "W1 = cl_conn i (handoff_len_update (\<lambda>_. nat res)) W"
  define W3 where "W3 = cl_conn i (unix_fd_update (\<lambda>_. -1)) (on_loop (\<lambda>L. L\<lparr>dctx := close_fd (unix_fd (conn L i)) (dctx L)\<rparr>)
    (cl_conn i (client_fd_update (\<lambda>_. handoff_extract_fd (a_msg a))) W1))"
  define W4 where "W4 = cl_conn i (\<lambda>c. parse_handoff (c\<lparr>state := CONN_STATE_PARSING\<rparr>)) W3"
  have l: "lring (cl W1) = lring (cl W)" "lring (cl W3) = lring (cl W)" "lring (cl W4) = lring (cl W)"
    by (simp_all add: W1_def W3_def W4_def r)
  have "curl_fail i W = Some W' \<or> curl_fail i W1 = Some W' \<or> curl_fail i W3 = Some W' \<or> curl_dispatch cfg sa i W4 = Some W'"
    using assms unfolding curl_handle_recv_fd_def Let_def W1_def [symmetric] W3_def [symmetric] W4_def [symmetric] by metis
  then show ?thesis using fail_ring [of i _ W'] dispatch_refused [of cfg sa i W4 W'] l by force
qed

lemma submit_write_refused: "submit_write i b g L = Some (x, L') \<Longrightarrow> (\<And>L. lring (g L) = lring L) \<Longrightarrow> refused_links (lring L) \<le> refused_links (lring L')"
proof -
  assume s: "submit_write i b g L = Some (x, L')" and g: "\<And>L. lring (g L) = lring L"
  obtain rc r1 where w: "ring_submit_write (conn L i) b (lring L) = (rc, r1)" by fastforce
  obtain rc2 r2 where t: "ring_submit_linked_timeout (conn (L\<lparr>lring := r1\<rparr>) i) (write_timeout_ms (dctx L)) r1 = (rc2, r2)" by fastforce
  have "lring L' = r1 \<or> lring L' = r2"
    using s w t g by (auto simp: submit_write_def Let_def fail_connection_def count_failed_def dest!: cleanup_ring split: if_splits)
  then show ?thesis using write_refused [OF w] link_refused [OF t] by auto
qed

lemma count_ring [simp]: "lring (count_failed L) = lring L" "lring (count_completed i L) = lring L"
  by (simp_all add: count_failed_def count_completed_def)

lemma loop_fail_ring: "fail_connection i L = Some L' \<Longrightarrow> lring L' = lring L"
  using cleanup_ring by (fastforce simp: fail_connection_def)

lemma with_conn_ring [simp]: "lring (with_conn i f L) = lring L" by (simp add: with_conn_def)

lemmas submitted_refused = submit_write_refused [where g = count_failed, simplified] submit_write_refused [where g = "count_completed k" for k, simplified]

lemma send_next_refused:
  assumes "send_next i mem L = Some L'"
  shows "refused_links (lring L) \<le> refused_links (lring L')"
  using assms unfolding send_next_def Let_def
  by (auto split: prod.splits option.splits if_splits dest!: loop_fail_ring submitted_refused)

lemma handle_write_refused:
  assumes "handle_write i res mem L = Some L'"
  shows "refused_links (lring L) \<le> refused_links (lring L')"
  using assms unfolding handle_write_def Let_def
  by (auto split: option.splits if_splits dest!: loop_fail_ring submitted_refused send_next_refused cleanup_ring)

lemma accept_refused:
  assumes "handle_accept m fd multi L = Some L'"
  shows "refused_links (lring L) \<le> refused_links (lring L')"
proof -
  define L1 where "L1 = (if \<not> multi \<and> \<not> shutdown_requested (dctx L) then L\<lparr>lring := rearm_accept (lring L)\<rparr> else L)"
  have L1: "refused_links (lring L1) = refused_links (lring L)" using rearm_accept_sqes by (simp add: L1_def)
  have r: "refused_links r' = refused_links r" if "ring_submit_recvmsg c r = (rc, r')" for c r rc r'
    using that with_flush_cases by (auto simp: ring_submit_recvmsg_def)
  show ?thesis
    unfolding L1 [symmetric] using assms unfolding handle_accept_def L1_def [symmetric] Let_def
    by (auto split: option.splits prod.splits if_splits dest!: cleanup_ring r)
qed

lemma process_refused:
  assumes "process_cqe_curl k a e W = Some (Running W')"
  shows "refused W \<le> refused W'"
proof -
  have l: "refused W \<le> refused W'" if "lift_loop f W = Some W'" "\<And>L'. f (cl W) = Some L' \<Longrightarrow> refused W \<le> refused_links (lring L')" for f
    using that by (auto simp: lift_loop_def)
  obtain p cid where pc: "ring_unpack_data (cqe_data e) = (p, cid)" by fastforce
  show ?thesis
  proof (cases p)
    case None
    then show ?thesis using assms by (simp add: process_cqe_curl_def pc)
  next
    case (Some x)
    note h = assms [unfolded process_cqe_curl_def pc prod.case Some option.case Let_def]
    show ?thesis
      using h by (cases x) (auto simp: Let_def split: option.splits if_splits
          intro: recv_refused async_write_refused poll_refused timeout_refused l [OF _ accept_refused] l [OF _ handle_write_refused])
  qed
qed

end
