(* ===== verification/Curl_Histories.thy ===== *)
theory Curl_Histories
  imports Curl_Clients Curl_Mono
begin

text \<open>
  Whole runs of the curl mode, with what each client has received and what the API has sent for it.
\<close>

section \<open>A descriptor is received\<close>

lemma client_ok_idle:
  assumes "curl_easy (conn (cl W) i) = None" "state (conn (cl W) i) \<in> {CONN_STATE_UNUSED, CONN_STATE_RECEIVING_FD}"
  shows "client_ok i sent t W = (buf_sound i W \<and> blank (conn (cl W) i))"
  using assms by (simp add: client_ok_def)

lemma client_ok_quiet:
  \<comment> \<open>a connection that waits for nothing\<close>
  "curl_easy (conn (cl W) i) = None \<Longrightarrow> blank (conn (cl W) i) \<Longrightarrow> client_ok i [] t W"
  by (auto simp: client_ok_def blank_def buf_sound_def queued_def intro: exI [of _ "[]"])

text \<open>The connection \<open>i\<close> changes, which has no entry in the ring, no request and no buffer.\<close>

lemma clients_setup:
  assumes inv: "curl_inv W" and ok: "clients_ok tk ap W" and i: "i < length (connections (ctxt W))" "curl_easy (conn (cl W) i) = None"
    and o: "owners_at i (lring (cl W)) = {#}" and b: "blank (conn (cl W) i)" and tk: "tk i = []"
    and f: "conn_id (f (conn (cl W) i)) = conn_id (conn (cl W) i)" "blank (f (conn (cl W) i))" "curl_easy (f (conn (cl W) i)) = None"
  shows "clients_ok tk ap (cl_conn i f W)"
proof -
  let ?V = "cl_conn i f W"
  have at: "conn (cl ?V) j = (if j = i then f (conn (cl W) i) else conn (cl W) j)" for j using i by (simp add: cl_conn_at)
  have "held ?V"
    by (rule held_owner [of W i]) (use ok i o f in \<open>simp_all add: at clients_ok_def held_def holds_def blank_def\<close>)
  moreover have "client_ok j (tk j) (ap j) ?V" if "j < length (connections (ctxt W))" for j
  proof (cases "j = i")
    case True
    then show ?thesis using client_ok_quiet [of ?V i] f tk by (simp add: at)
  next
    case False
    then have "client_ok j (tk j) (ap j) ?V = client_ok j (tk j) (ap j) W" by (intro client_ok_view) (simp_all add: at)
    then show ?thesis using ok that by (simp add: clients_ok_def)
  qed
  ultimately show ?thesis by (simp add: clients_ok_def)
qed

definition waits :: "nat \<Rightarrow> (nat \<Rightarrow> string) \<Rightarrow> (nat \<Rightarrow> string) \<Rightarrow> curl_loop \<Rightarrow> bool" where
  \<comment> \<open>all clients are served, and nothing works for \<open>i\<close>\<close>
  "waits i tk ap W \<longleftrightarrow> curl_inv W \<and> clients_ok tk ap W \<and> free_to_start i W \<and> owners_at i (lring (cl W)) = {#}
     \<and> blank (conn (cl W) i) \<and> tk i = []"

lemma waitsD:
  assumes "waits i tk ap W"
  shows "curl_inv W" "clients_ok tk ap W" "i < length (connections (ctxt W))" "state (conn (cl W) i) \<noteq> CONN_STATE_UNUSED"
    "curl_easy (conn (cl W) i) = None" "owners_at i (lring (cl W)) = {#}" "blank (conn (cl W) i)" "tk i = []" "free_to_start i W"
  using assms unfolding waits_def free_to_start_def by blast+

lemma waits_fail:
  assumes w: "waits i tk ap W" and e: "curl_fail i W = Some W'"
  shows "serves_on tk ap W W'" "rq_view W' = rq_view W"
proof -
  note a = waitsD [OF w]
  have f: "freed i W W'" by (rule fail_freed [OF a(1) e a(3)])
  show "serves_on tk ap W W'" by (rule serves_fair [OF a(2) fair_fail [OF a(1) f a(3) a(6)]])
  show "rq_view W' = rq_view W" using f a(5) by (simp add: freed_def fun_eq_iff)
qed

definition starts :: "nat \<Rightarrow> curl_event list \<Rightarrow> curl_loop \<Rightarrow> curl_loop \<Rightarrow> (nat \<Rightarrow> string) \<Rightarrow> nat \<Rightarrow> string" where
  \<comment> \<open>the text of the API for each connection when a request was to be started for \<open>i\<close>\<close>
  "starts i es W W' ap j =
     (if requests W' (next_easy W) = None then ap j else if j = i then heard (next_easy W) es else hears es W ap j)"

lemma dispatch_clients:
  assumes w: "waits i tk ap W" and s: "sound_loop W" and e: "curl_dispatch cfg sa i W = Some W'"
  shows "serves_on tk (starts i (s_kick sa) W W' ap) W W'"
proof -
  note f = waitsD [OF w]
  obtain rc W1 where r: "curl_manager_start_request cfg sa i W = Some (rc, W1)" using start_request_total by blast
  have e1: "(if rc < 0 then curl_fail i W1 else Some W1) = Some W'" using e r by (simp add: curl_dispatch_def)
  have inv1: "curl_inv W1" "rc < 0 \<Longrightarrow> free_to_start i W1" using start_request_inv [OF _ _ r] f by auto
  have failed: ?thesis if "waits i tk ap W1" "rc < 0" "refused W1 = refused W" "requests W1 = requests W"
  proof -
    have c: "curl_fail i W1 = Some W'" using e1 that by simp
    have "reqs W (next_easy W) = None" using f(1) by (auto simp: curl_inv_def counted_def)
    then have "rq_view W1 (next_easy W) = None" using that(4) by (simp add: reqs_def rq_view_def)
    then have "rq_view W' (next_easy W) = None" using waits_fail(2) [OF that(1) c] by simp
    then have "requests W' (next_easy W) = None" by (simp add: rq_view_def)
    then have "starts i (s_kick sa) W W' ap = ap" by (simp add: starts_def fun_eq_iff)
    then show ?thesis using waits_fail(1) [OF that(1) c] that(3) by (simp add: serves_on_def)
  qed
  show ?thesis
    using r
  proof (cases rule: start_request_cases)
    case 1
    then show ?thesis using failed w by simp
  next
    case 2
    let ?f = "\<lambda>c. c\<lparr>state := CONN_STATE_CURL_PENDING, curl_easy := None\<rparr>" and ?W0 = "W\<lparr>next_easy := next_easy W + 1\<rparr>"
    have W1: "W1 = cl_conn i ?f ?W0"
      using 2 by (simp add: pending_def cl_conn_def with_conn_def upd_conn_def conn_at_def) (cases "i < length (connections (ctxt W))"; simp add: list_update_beyond)
    have inv0: "curl_inv ?W0" using f(1) by (fastforce simp: curl_inv_def counted_def less_Suc_eq)
    have ok0: "clients_ok tk ap ?W0" by (rule clients_same [of tk ap W]) (use f(2) in \<open>simp_all add: rings_def rq_view_def [abs_def]\<close>)
    have "clients_ok tk ap W1" unfolding W1
      by (rule clients_setup [OF inv0 ok0]) (use f in \<open>simp_all add: blank_def\<close>)
    moreover have "owners_at i (lring (cl W1)) = {#}" "blank (conn (cl W1) i)" "refused W1 = refused W" "requests W1 = requests W"
      using f by (simp_all add: W1 cl_conn_at blank_def) (simp_all add: cl_conn_def)
    ultimately show ?thesis using failed inv1 2 f(8) by (simp add: waits_def)
  next
    case (3 rq)
    let ?V = "with_request rq i W" and ?h = "next_easy W"
    have invV: "curl_inv ?V" by (rule with_request_inv [OF f(1,9) 3(2)])
    have at: "conn (cl ?V) j = (if j = i then (conn (cl W) i)\<lparr>curl_easy := Some ?h, state := CONN_STATE_CURL_PENDING\<rparr> else conn (cl W) j)" for j
      using f by (simp add: with_request_def pending_def cl_conn_at)
    have l: "lring (cl ?V) = lring (cl W)" "length (connections (ctxt ?V)) = length (connections (ctxt W))"
      by (simp_all add: with_request_def pending_def)
    have v: "rq_view ?V = (rq_view W)(?h \<mapsto> (i, False, False))"
      using 3(2) by (auto simp: with_request_def rq_view_def pending_def cl_conn_def fresh_request_def fun_eq_iff)
    have "held ?V"
      by (rule held_owner [of W i]) (use f in \<open>simp_all add: at l clients_ok_def held_def holds_def blank_def\<close>)
    moreover have "client_ok j (tk j) ((ap(i := [])) j) ?V" if j: "j < length (connections (ctxt W))" for j
    proof (cases "j = i")
      case True
      have "streams i [] [] False ?V"
        using f by (simp add: streams_def buf_sound_def queued_def line_of_def at blank_def chop_lines.simps)
      then have "served ?h i [] [] ?V" unfolding served_def v by (intro exI [of _ False]) simp
      then show ?thesis using True f by (simp add: client_ok_def at)
    next
      case False
      have "h \<noteq> ?h" if "curl_easy (conn (cl W) j) = Some h" for h
        using that easy_req [OF f(1) j] f(1) by (auto simp: curl_inv_def counted_def)
      then have "client_ok j (tk j) (ap j) ?V = client_ok j (tk j) (ap j) W"
        using False by (intro client_ok_view) (simp_all add: at v)
      then show ?thesis using f(2) j False by (simp add: clients_ok_def)
    qed
    ultimately have okV: "clients_ok tk (ap(i := [])) ?V" by (simp add: clients_ok_def l)
    have sV: "sound_loop ?V" using with_request_sound [OF f(1,9) s _ 3(2)] f(7) by (simp add: blank_def)
    have W': "W' = W1" using e1 3 by simp
    have "reqs W1 ?h = Some i"
      using keeps_reqs [OF run_events_keeps [OF 3(3)]] 3(2) by (simp add: reqs_def with_request_def fresh_request_def)
    then have "hears (s_kick sa) ?V (ap(i := [])) = starts i (s_kick sa) W W' ap"
      by (auto simp: fun_eq_iff hears_def starts_def at W' reqs_def split: option.split)
    then show ?thesis
      using run_events_clients [OF 3(3) invV sV okV] run_events_held [OF 3(3) invV] W' l by (simp add: serves_on_def)
  qed
qed

lemma serves_same:
  "serves_on tk ap V W' \<Longrightarrow> refused V = refused W \<Longrightarrow> serves_on tk ap W W'" by (simp add: serves_on_def)

lemma starts_same:
  assumes "next_easy V = next_easy W" "\<And>j. curl_easy (conn (cl V) j) = curl_easy (conn (cl W) j)"
  shows "starts i es V W' ap = starts i es W W' ap"
  using assms by (auto simp: starts_def hears_def fun_eq_iff)

lemma parse_blank: "blank (parse_handoff c) = blank c" "conn_id (parse_handoff c) = conn_id c" "curl_easy (parse_handoff c) = curl_easy c"
  by (simp_all add: parse_handoff_def blank_def split: option.split prod.split)

lemma recv_clients:
  assumes w: "waits i tk ap W" and s: "sound_loop W" and st: "state (conn (cl W) i) = CONN_STATE_RECEIVING_FD"
    and e: "curl_handle_recv_fd cfg sa i res a W = Some W'"
  shows "serves_on tk (starts i (s_kick sa) W W' ap) W W'"
proof -
  note f = waitsD [OF w]
  define W1 where "W1 = cl_conn i (handoff_len_update (\<lambda>_. nat res)) W"
  define W2 where "W2 = cl_conn i (client_fd_update (\<lambda>_. handoff_extract_fd (a_msg a))) W1"
  define V where "V = on_loop (\<lambda>L. L\<lparr>dctx := close_fd (unix_fd (conn L i)) (dctx L)\<rparr>) W2"
  define W3 where "W3 = cl_conn i (unix_fd_update (\<lambda>_. -1)) V"
  define W4 where "W4 = cl_conn i (\<lambda>c. parse_handoff (c\<lparr>state := CONN_STATE_PARSING\<rparr>)) W3"
  have v: "curl_inv W1 \<and> free_to_start i W1" "curl_inv W3 \<and> free_to_start i W3" "curl_inv W4 \<and> free_to_start i W4"
    unfolding W1_def W2_def V_def W3_def W4_def by (rule recv_parsed_inv [OF f(1,9) st])+
  have V: "conn (cl V) j = conn (cl W2) j" "length (connections (ctxt V)) = length (connections (ctxt W2))" "lring (cl V) = lring (cl W2)"
    "requests V = requests W2" "next_easy V = next_easy W2" for j
    by (simp_all add: V_def on_loop_def close_fd_def conn_at_def)
  have fr: "requests W1 = requests W" "requests W3 = requests W" "requests W4 = requests W"
    "next_easy W1 = next_easy W" "next_easy W3 = next_easy W" "next_easy W4 = next_easy W"
    "lring (cl W1) = lring (cl W)" "lring (cl W3) = lring (cl W)" "lring (cl W4) = lring (cl W)"
    "length (connections (ctxt W1)) = length (connections (ctxt W))" "length (connections (ctxt W3)) = length (connections (ctxt W))"
    using V by (simp_all add: W4_def W3_def W2_def W1_def) (simp_all add: cl_conn_def)
  have at1: "view (conn (cl W1) j) = view (conn (cl W) j)" for j by (simp add: W1_def cl_conn_at view_def)
  have "view (conn (cl W2) j) = view (conn (cl W) j)" for j using at1 [of j] by (auto simp: W2_def cl_conn_at view_def)
  then have at3: "view (conn (cl W3) j) = view (conn (cl W) j)" for j using V(1) by (auto simp: W3_def cl_conn_at view_def)
  have rv: "rq_view W1 = rq_view W" "rq_view W3 = rq_view W" "rq_view W4 = rq_view W" using fr by (simp_all add: rq_view_def fun_eq_iff)
  have ok1: "clients_ok tk ap W1" by (rule clients_same [OF f(2)]) (simp_all add: rings_def fr at1 rv)
  have ok3: "clients_ok tk ap W3" by (rule clients_same [OF f(2)]) (simp_all add: rings_def fr at3 rv)
  have b: "blank (conn (cl W1) i)" "blank (conn (cl W3) i)"
    using f(7) view_at [OF at1 [of i]] view_at [OF at3 [of i]] by (simp_all add: blank_def)
  have w1: "waits i tk ap W1" using v(1) ok1 b f fr by (simp add: waits_def)
  have w3: "waits i tk ap W3" using v(2) ok3 b f fr by (simp add: waits_def)
  note f3 = waitsD [OF w3]
  have ok4: "clients_ok tk ap W4"
    unfolding W4_def by (rule clients_setup [OF f3(1,2,3,5,6,7,8)]) (use f3(5,7) in \<open>simp_all add: parse_blank\<close>, simp add: blank_def)
  have c4: "conn (cl W4) i = parse_handoff ((conn (cl W3) i)\<lparr>state := CONN_STATE_PARSING\<rparr>)"
    "curl_easy (conn (cl W4) j) = curl_easy (conn (cl W3) j)" for j
    using f3(3) by (simp_all add: W4_def cl_conn_at parse_blank)
  have "blank (conn (cl W4) i)" using b(2) unfolding c4 parse_blank by (simp add: blank_def)
  then have w4: "waits i tk ap W4" using v(3) ok4 f(6,8) fr(9) by (simp add: waits_def)
  have s4: "sound_loop W4"
  proof -
    have "sound_loop W1" unfolding W1_def by (rule sound_conn [OF s]) simp
    then have "sound_loop W2" unfolding W2_def by (rule sound_conn) simp
    then have "sound_loop V" by (simp add: V_def sound_close)
    then have "sound_loop W3" unfolding W3_def by (rule sound_conn) simp
    then show ?thesis unfolding W4_def
      by (rule sound_setup [OF _ no_request]) (use v(2) b(2) in \<open>simp_all add: parse_same blank_def\<close>)
  qed
  have fail: ?thesis if "waits i tk ap X" "curl_fail i X = Some W'" "requests X = requests W" "lring (cl X) = lring (cl W)" for X
  proof -
    have "reqs W (next_easy W) = None" using f(1) by (auto simp: curl_inv_def counted_def)
    then have "rq_view W' (next_easy W) = None" using waits_fail(2) [OF that(1,2)] that(3) by (simp add: reqs_def rq_view_def)
    then have "starts i (s_kick sa) W W' ap = ap" by (simp add: starts_def rq_view_def fun_eq_iff)
    then show ?thesis using waits_fail(1) [OF that(1,2)] that(4) by (simp add: serves_on_def)
  qed
  have e': "(if res < 0 then curl_fail i W else if handoff_extract_fd (a_msg a) < 0 then curl_fail i W1
      else if handoff_validate_socket (a_sotype a) < 0 then curl_fail i W3 else curl_dispatch cfg sa i W4) = Some W'"
    using e unfolding curl_handle_recv_fd_def Let_def W1_def [symmetric] W2_def [symmetric] V_def [symmetric] W3_def [symmetric]
      W4_def [symmetric] .
  consider "curl_fail i W = Some W'" | "curl_fail i W1 = Some W'" | "curl_fail i W3 = Some W'" | "curl_dispatch cfg sa i W4 = Some W'"
    using e' by argo
  then show ?thesis
  proof cases
    case 1
    then show ?thesis using fail [OF w] by simp
  next
    case 2
    then show ?thesis using fail [OF w1] fr by simp
  next
    case 3
    then show ?thesis using fail [OF w3] fr by simp
  next
    case 4
    have "starts i (s_kick sa) W4 W' ap = starts i (s_kick sa) W W' ap"
      by (rule starts_same [OF fr(6)]) (use c4(2) view_at [OF at3] in simp)
    then show ?thesis using dispatch_clients [OF w4 s4 4] fr(9) by (simp add: serves_on_def)
  qed
qed

section \<open>A connection is accepted\<close>

lemma alloc_blank:
  assumes "conn_alloc m ctx = (Some i, c)" "i < length (connections ctx)"
  shows "blank (conn_at c i) = blank (conn_at ctx i)"
proof -
  let ?c1 = "upd_conn i (next_free_update (\<lambda>_. None)) (ctx\<lparr>free_list := next_free (conn_at ctx i)\<rparr>)"
  have fl: "free_list ctx = Some i"
    using assms(1) by (auto simp: conn_alloc_def Let_def split: option.splits)
  then obtain d where d: "attach_handoff_buf m (conn_at ?c1 i) = Some d"
    and c: "c = (upd_conn i (\<lambda>_. d) ?c1)\<lparr>active_connections := active_connections (upd_conn i (\<lambda>_. d) ?c1) + 1,
      peak_connections := max (peak_connections (upd_conn i (\<lambda>_. d) ?c1)) (active_connections (upd_conn i (\<lambda>_. d) ?c1) + 1)\<rparr>"
    using assms(1) by (auto simp: conn_alloc_def Let_def split: option.splits)
  have "blank d = blank (conn_at ?c1 i)" using d by (auto simp: attach_handoff_buf_def blank_def split: option.splits)
  moreover have "conn_at c i = d" using assms(2) by (simp add: c)
  moreover have "blank (conn_at ?c1 i) = blank (conn_at ctx i)" using assms(2) by (simp add: blank_def)
  ultimately show ?thesis by simp
qed

lemma owners_submit_recvmsg:
  assumes "ring_submit_recvmsg c r = (rc, r')" "conn_id c < 2 ^ 32"
  shows "ring_owners r' = (if rc < 0 then ring_owners r else add_mset (conn_id c, Receiving) (ring_owners r))"
    "ring_ok r \<Longrightarrow> ring_ok r'" "refused_links r' = refused_links r"
proof -
  note w = with_flush_cases [OF assms(1) [unfolded ring_submit_recvmsg_def]]
  let ?s = "\<lparr>prep = Prep_recvmsg (unix_fd c), io_link = False, sqe_data = ring_pack_data OP_RECV_FD (of_nat (conn_id c))\<rparr>"
  have "sqe_owner ?s = Some (conn_id c, Receiving)" using assms(2) by (simp add: sqe_owner_def sqe_id_pack)
  then show "ring_owners r' = (if rc < 0 then ring_owners r else add_mset (conn_id c, Receiving) (ring_owners r))"
    using w by (auto simp: ring_owners_def)
  show "ring_ok r \<Longrightarrow> ring_ok r'" by (rule ring_ok_submit [OF _ assms(1) [unfolded ring_submit_recvmsg_def]]) simp_all
  show "refused_links r' = refused_links r" using w by simp
qed

lemma accept_clients:
  assumes inv: "curl_inv W" and s: "sound_loop W" and ok: "clients_ok tk ap W" and e: "lift_loop (handle_accept m fd multi) W = Some W'"
  shows "serves_on tk ap W W'"
proof -
  let ?L = "cl W"
  define L1 where "L1 = (if \<not> multi \<and> \<not> shutdown_requested (dctx ?L) then ?L\<lparr>lring := rearm_accept (lring ?L)\<rparr> else ?L)"
  have L1: "dctx L1 = ctxt W" "ring_owners (lring L1) = ring_owners (lring ?L)" "refused_links (lring L1) = refused W"
    "ring_ok (lring ?L) \<Longrightarrow> ring_ok (lring L1)"
    using rearm_accept_sqes by (simp_all add: L1_def)
  obtain r c where a: "conn_alloc m (ctxt W) = (r, c)" by fastforce
  have ctx: "ctx_ok (ctxt W) (reqs W)" using inv by (simp add: curl_inv_def)
  then obtain fs where p: "pool_ok (ctxt W) fs" unfolding ctx_ok_def by blast
  have same: "serves_on tk ap W (W\<lparr>cl := L\<rparr>)"
    if "connections (dctx L) = connections (ctxt W)" "lring L = lring L1" for L
    by (rule serves_fair [OF ok fair_same]) (use L1 that in \<open>simp_all add: rings_def conn_at_def rq_view_def [abs_def]\<close>)
  show ?thesis
  proof (cases "fd < 0 \<or> r = None")
    case True
    moreover have "r = None \<Longrightarrow> c = ctxt W" using alloc_cases [OF p a] by auto
    ultimately have "W' = W\<lparr>cl := L1\<rparr> \<or> W' = W\<lparr>cl := L1\<lparr>dctx := close_fd fd (ctxt W)\<rparr>\<rparr>"
      using e a unfolding lift_loop_def handle_accept_def L1_def [symmetric] Let_def L1(1) by (auto split: if_splits)
    then show ?thesis using same L1(1) by (auto simp: close_fd_def)
  next
    case False
    then obtain i where r: "r = Some i" by auto
    have i: "i < length (connections (ctxt W))" "state (conn (cl W) i) = CONN_STATE_UNUSED" using alloc_cases [OF p a] r p by (auto simp: pool_ok_def)
    note sh = alloc_shape [OF a [unfolded r] i(1)] and al1 = alloc_ctx_ok(1) [OF ctx a [unfolded r], of fd]
      and al = alloc_ctx_ok(2,3) [OF ctx a [unfolded r]]
    define c1 where "c1 = upd_conn i (\<lambda>c. c\<lparr>unix_fd := fd, state := CONN_STATE_RECEIVING_FD\<rparr>) c"
    define c2 where "c2 = (if benchmark_mode c1 then c1\<lparr>total_started := total_started c1 + 1\<rparr> else c1)"
    obtain rc r1 where sb: "ring_submit_recvmsg (conn_at c2 i) (lring L1) = (rc, r1)" by fastforce
    let ?L2 = "L1\<lparr>dctx := c2, lring := r1\<rparr>"
    let ?X = "W\<lparr>cl := ?L2\<rparr>"
    have c2: "connections c2 = connections c1" by (simp add: c2_def)
    have at: "conn_at c2 j = (if j = i then (conn_at c i)\<lparr>unix_fd := fd, state := CONN_STATE_RECEIVING_FD\<rparr> else conn (cl W) j)" for j
      using al(1) sh(10) c2 by (simp add: c1_def conn_at_def upd_conn_def)
    have n: "length (connections c2) = length (connections (ctxt W))" by (simp add: c2 c1_def sh(1))
    have "ctx_ok c2 (reqs W) = ctx_ok c1 (reqs W)" by (rule ctx_ok_stats) (simp_all add: c2_def)
    then have ok2: "ctx_ok c2 (reqs W)" using al1 by (simp add: c1_def)
    then have invX: "curl_inv ?X" by (intro curl_inv_loop [OF inv]) simp
    have id: "conn_id (conn_at c2 j) = j" if "j < length (connections (ctxt W))" for j
      using ok2 that n by (auto simp: ctx_ok_def pool_ok_def)
    have h: "held W" "\<And>j. j < length (connections (ctxt W)) \<Longrightarrow> client_ok j (tk j) (ap j) W" using ok by (simp_all add: clients_ok_def)
    have easy: "curl_easy (conn (cl W) i) = None" using al(2) sh(5) by simp
    have b: "blank (conn (cl W) i)" using h(2) [OF i(1)] i(2) easy by (simp add: client_ok_idle)
    then have b2: "blank (conn_at c2 i)" using alloc_blank [OF a [unfolded r] i(1)] by (simp add: at blank_def)
    have M: "owners_at i (lring (cl W)) = {#}"
      using holds_none [OF held_at [OF h(1) i(1)]] b i(2) by (simp add: blank_def)
    have small: "conn_id (conn_at c2 i) < 2 ^ 32" using id [OF i(1)] held_id [OF h(1) i(1)] by simp
    note o = owners_submit_recvmsg [OF sb small]
    have o2: "ring_owners r1 = (if rc < 0 then ring_owners (lring (cl W)) else add_mset (i, Receiving) (ring_owners (lring (cl W))))"
      using o(1) id [OF i(1)] by (simp add: L1(2))
    have oi: "owners_at j r1 = (if j = i \<and> \<not> rc < 0 then {#Receiving#} else owners_at j (lring (cl W)))" for j
    proof (cases "rc < 0")
      case True
      then show ?thesis using o2 by (simp add: owners_at_def)
    next
      case False
      then have "ring_owners r1 = add_mset (i, Receiving) (ring_owners (lring (cl W)))" using o2 by simp
      from owners_at_add [OF this, of j] show ?thesis using False M by simp
    qed
    have "held ?X"
      by (rule held_owner [OF h(1) i(1)])
        (use o(2) L1(4) h(1) n id oi at b2 M in \<open>simp_all add: held_def holds_def blank_def\<close>)
    moreover have "client_ok j (tk j) (ap j) ?X" if j: "j < length (connections (ctxt W))" for j
    proof (cases "j = i")
      case True
      then show ?thesis using b2 easy sh(5) al(2) by (simp add: client_ok_idle at) (simp add: buf_sound_def blank_def at)
    next
      case False
      then have "client_ok j (tk j) (ap j) ?X = client_ok j (tk j) (ap j) W"
        by (intro client_ok_view) (simp_all add: at rq_view_def)
      then show ?thesis using h(2) [OF j] by simp
    qed
    ultimately have okX: "clients_ok tk ap ?X" using n by (simp add: clients_ok_def)
    have e': "(if rc < 0 then cleanup_connection i ?L2 else Some ?L2) = Some (cl W') \<and> W' = W\<lparr>cl := cl W'\<rparr>"
      using e False unfolding lift_loop_def handle_accept_def L1_def [symmetric] Let_def
      by (auto simp only: L1(1) a r prod.case option.case c1_def [symmetric] c2_def [symmetric] sb if_False map_option_eq_Some) simp_all
    show ?thesis
    proof (cases "rc < 0")
      case True
      then have c: "cleanup_connection i (cl ?X) = Some (cl W')" using e' by simp
      have fr: "freed i ?X (?X\<lparr>cl := cl W'\<rparr>)" by (rule cleanup_freed [OF c]) (use i n in simp)
      have "fair tk ap ?X (?X\<lparr>cl := cl W'\<rparr>)" by (rule fair_fail [OF invX fr]) (use i n oi True M in simp_all)
      then have "serves_on tk ap ?X W'" using serves_fair [OF okX] e' by simp
      then show ?thesis by (rule serves_same) (simp add: o(3) L1(3))
    next
      case False
      then have "W' = ?X" using e' by simp
      then show ?thesis using okX o(3) L1(3) by (simp add: serves_on_def)
    qed
  qed
qed

section \<open>What the kernel reports\<close>

definition told :: "curl_answers \<Rightarrow> cqe \<Rightarrow> curl_loop \<Rightarrow> curl_loop \<Rightarrow> (nat \<Rightarrow> string) \<Rightarrow> nat \<Rightarrow> string" where
  \<comment> \<open>the text of the API for each connection after the handler of a completion\<close>
  "told k e W W' ap = (case ring_unpack_data (cqe_data e) of (p, cid) \<Rightarrow>
     (case p of
        Some OP_RECV_FD \<Rightarrow> starts (unat cid) (s_kick (k_start k)) W W' ap
      | Some OP_CURL_POLL \<Rightarrow> hears (k_socket k (sint cid) (curl_select_bits (poll_events (cqe_res e))) @ k_timeout k) W ap
      | Some OP_CURL_TIMEOUT \<Rightarrow> hears (k_timeout k) W ap
      | _ \<Rightarrow> ap))"

lemma completed_entry:
  assumes "held W" "s \<in> set (inflight (lring (cl W)))" "cqe_data e = sqe_data s"
  obtains p where "p \<in> prep_op (prep s)" "ring_unpack_data (cqe_data e) = (Some p, of_nat (sqe_id s))"
  using completed_op [of "cl W" s] assms by (auto simp: held_def)

lemma retired_owner:
  assumes h: "held W" and s: "s \<in> set (inflight (lring (cl W)))" "sqe_owner s = Some (i, w)"
    and V: "lring (cl V) = lring (retire s (cl W))" "length (connections (ctxt V)) = length (connections (ctxt W))"
      "\<And>j. view (conn (cl V) j) = view (conn (cl W) j)"
  shows "i < length (connections (ctxt W))" "i = sqe_id s" "holds (conn (cl W) i) {#w#}" "owners_at i (lring (cl V)) = {#}" "held V"
proof -
  have "ring_owners (lring (cl W)) = add_mset (i, w) (ring_owners (lring (cl V)))"
    using ring_owners_retire [OF s(1)] s(2) V(1) by simp
  note o = owners_at_add [OF this]
  have oi: "owners_at i (lring (cl W)) \<noteq> {#}" using o [of i] by simp
  then show i: "i < length (connections (ctxt W))" using h unfolding held_def by (meson not_le)
  show "i = sqe_id s" using s(2) by (auto simp: sqe_owner_def split: prep.splits)
  note m = held_at [OF h i]
  then have one: "owners_at i (lring (cl W)) = {#w#}" "owners_at i (lring (cl V)) = {#}"
    using o [of i] by (auto simp: holds_def)
  show "holds (conn (cl W) i) {#w#}" using m one(1) by simp
  show "owners_at i (lring (cl V)) = {#}" by (rule one(2))
  have v: "conn_id (conn (cl V) j) = conn_id (conn (cl W) j)" "holds (conn (cl V) j) M = holds (conn (cl W) j) M" for j M
    using view_at [OF V(3) [of j]] holds_view [of "conn (cl V) j" "conn (cl W) j" M] by simp_all
  have e: "holds (conn (cl V) i) (owners_at i (lring (cl V)))"
    unfolding one(2) v(2) using m by (auto simp: holds_def)
  have "ring_ok (lring (cl V))" using h ring_ok_retire [of "cl W" s] V(1) by (simp add: held_def)
  then show "held V" by (rule held_owner [OF h i _ _ V(2) _ _ e]) (simp_all add: o v)
qed

lemma clients_retired:
  assumes h: "held V" and ok: "clients_ok tk ap W" and V: "length (connections (ctxt V)) = length (connections (ctxt W))"
    "\<And>j. view (conn (cl V) j) = view (conn (cl W) j)" "rq_view V = rq_view W"
  shows "clients_ok tk ap V"
  using ok h client_ok_view [OF V(2)] V(1,3) by (simp add: clients_ok_def)

lemma get_self: "curl_inv W \<Longrightarrow> i < length (connections (ctxt W)) \<Longrightarrow> conn_get i (ctxt W) = Some i"
  by (auto simp: curl_inv_def ctx_ok_def pool_ok_def conn_get_def)

lemma word_self: "held W \<Longrightarrow> i < length (connections (ctxt W)) \<Longrightarrow> unat (of_nat i :: 32 word) = i"
  using held_id [of W i] by (simp add: unat_of_nat)

lemma rq_view_loop [simp]: "rq_view (W\<lparr>cl := L\<rparr>) = rq_view W" by (simp add: rq_view_def fun_eq_iff)

lemma received_view: "view (conn (Loop_System.received i msg L) j) = view (conn L j)"
  unfolding Loop_System.received_def with_conn_def by (simp, rule view_upd) (simp add: view_def)

lemma received_length: "length (connections (dctx (Loop_System.received i msg L))) = length (connections (dctx L))"
  by (simp add: Loop_System.received_def with_conn_def)

lemma completion_clients:
  assumes inv: "curl_inv W" and snd: "sound_loop W" and ok: "clients_ok tk ap W" and c: "completes (as_sys tk W) a e S"
    and h: "process_cqe_curl k a e (W\<lparr>cl := lp S\<rparr>) = Some (Running W')"
  shows "serves_on (taken S) (told k e (W\<lparr>cl := lp S\<rparr>) W' ap) W W'"
proof -
  let ?V = "W\<lparr>cl := lp S\<rparr>"
  note invV = completes_inv [OF c inv] and sndV = completes_sound [OF c snd]
  have hw: "held W" using ok by (simp add: clients_ok_def)
  from c show ?thesis
  proof cases
    case (accept s)
    have S: "lp S = opened (cqe_res e) (if cqe_more e then cl W else retire s (cl W))" "taken S = tk"
      and s: "s \<in> set (inflight (lring (cl W)))" using accept by (simp_all add: as_sys_def)
    obtain p where u: "p \<in> prep_op (prep s)" "ring_unpack_data (cqe_data e) = (Some p, of_nat (sqe_id s))"
      using completed_entry [OF hw s] accept by blast
    then have p: "p = OP_ACCEPT" using accept by simp
    have "sqe_owner s = None" using accept by (simp add: sqe_owner_def)
    then have rg: "rings W ?V"
      using ring_owners_retire [OF s] ring_ok_retire [of "cl W" s] by (simp add: rings_def S)
    have okV: "clients_ok tk ap ?V" by (rule clients_same [OF ok rg]) (simp_all add: S)
    have "lift_loop (handle_accept (a_handoff_mem a) (cqe_res e) (cqe_more e)) ?V = Some W'"
      using h u(2) p by (simp add: process_cqe_curl_def)
    from accept_clients [OF invV sndV okV this] have "serves_on tk ap ?V W'" .
    then have "serves_on tk ap W W'" by (rule serves_same) (simp add: S)
    then show ?thesis using u(2) p by (simp add: told_def S)
  next
    case (recv s fd msg)
    let ?i = "sqe_id s"
    have S: "lp S = opened (if cqe_res e < 0 then -1 else handoff_extract_fd (a_msg a)) (Loop_System.received ?i msg (retire s (cl W)))"
        "taken S = tk(?i := [])"
      and s: "s \<in> set (inflight (lring (cl W)))" using recv by (simp_all add: as_sys_def)
    obtain p where u: "p \<in> prep_op (prep s)" "ring_unpack_data (cqe_data e) = (Some p, of_nat ?i)"
      using completed_entry [OF hw s] recv by blast
    then have p: "p = OP_RECV_FD" using recv by simp
    have own: "sqe_owner s = Some (?i, Receiving)" using recv by (simp add: sqe_owner_def)
    have V: "lring (cl ?V) = lring (retire s (cl W))" "length (connections (ctxt ?V)) = length (connections (ctxt W))"
      "view (conn (cl ?V) j) = view (conn (cl W) j)" for j
      by (simp_all add: S received_view received_length)
    note r = retired_owner [OF hw s own V]
    have st: "state (conn (cl W) ?i) = CONN_STATE_RECEIVING_FD" using r(3) by (auto simp: holds_def)
    have easy: "curl_easy (conn (cl W) ?i) = None"
    proof -
      have "conn_ok (reqs W) ?i (conn (cl W) ?i)" using inv r(1) unfolding curl_inv_def ctx_ok_def by blast
      then show ?thesis using st by (auto simp: conn_ok_def)
    qed
    note vi = view_at [OF V(3) [of ?i]]
    have cw: "client_ok j (tk j) (ap j) W" if "j < length (connections (ctxt W))" for j using ok that by (simp add: clients_ok_def)
    have b: "blank (conn (cl ?V) ?i)"
      using cw [OF r(1)] client_ok_idle [OF easy] st vi by (simp add: blank_def)
    have okV: "clients_ok (taken S) ap ?V"
    proof -
      have "client_ok j (taken S j) (ap j) ?V" if j: "j < length (connections (ctxt W))" for j
      proof (cases "j = ?i")
        case True
        then show ?thesis using client_ok_quiet [of ?V ?i] easy vi b S(2) by simp
      next
        case False
        have "client_ok j (tk j) (ap j) ?V = client_ok j (tk j) (ap j) W" by (rule client_ok_view [OF V(3)]) simp
        then show ?thesis using cw [OF j] False S(2) by simp
      qed
      then show ?thesis using r(5) V(2) by (simp add: clients_ok_def)
    qed
    have w: "waits ?i (taken S) ap ?V"
      unfolding waits_def using invV okV r(1,4) st easy vi b V(2) S(2) by (simp add: free_to_start_def)
    have iw: "unat (of_nat ?i :: 32 word) = ?i" by (rule word_self [OF hw r(1)])
    have g: "conn_get ?i (ctxt ?V) = Some ?i" by (rule get_self [OF invV]) (use r(1) V(2) in simp)
    have "curl_handle_recv_fd (k_config k) (k_start k) ?i (cqe_res e) a ?V = Some W'"
      using h u(2) p iw g st vi by (simp add: process_cqe_curl_def)
    from recv_clients [OF w sndV _ this] have "serves_on (taken S) (starts ?i (s_kick (k_start k)) ?V W' ap) ?V W'"
      using st vi by simp
    then have "serves_on (taken S) (starts ?i (s_kick (k_start k)) ?V W' ap) W W'"
      by (rule serves_same) (use V(1) in simp)
    then show ?thesis using u(2) p iw by (simp add: told_def)
  next
    case (written s fd b)
    let ?i = "sqe_id s"
    have S: "lp S = retire s (cl W)" "taken S = tk(?i := tk ?i @ take (nat (cqe_res e)) b)"
      and s: "s \<in> set (inflight (lring (cl W)))" using written by (simp_all add: as_sys_def)
    obtain p where u: "p \<in> prep_op (prep s)" "ring_unpack_data (cqe_data e) = (Some p, of_nat ?i)"
      using completed_entry [OF hw s] written by blast
    then have p: "p = OP_WRITE" using written by simp
    have own: "sqe_owner s = Some (?i, Sending b)" using written by (simp add: sqe_owner_def)
    have V: "lring (cl ?V) = lring (retire s (cl W))" "length (connections (ctxt ?V)) = length (connections (ctxt W))"
      "view (conn (cl ?V) j) = view (conn (cl W) j)" for j
      by (simp_all add: S)
    note r = retired_owner [OF hw s own V]
    obtain wb where wb: "async_write_buf (conn (cl W) ?i) = Some wb" "prefix b (wb_content wb)" "b \<noteq> []" "wb_ok wb"
      using r(3) by (auto simp: holds_def)
    note vi = view_at [OF V(3) [of ?i]]
    have okV: "clients_ok tk ap ?V" by (rule clients_retired [OF r(5) ok V(2,3)]) simp
    have "wb_content wb \<noteq> []" using wb(2,3) by auto
    then have "write_buffer_has_data wb" using has_data_content [OF wb(4)] by simp
    then have st: "state (conn (cl W) ?i) \<in> {CONN_STATE_CURL_ACTIVE, CONN_STATE_CLOSING}"
      using sound_at [OF snd r(1)] wb(1) by (auto simp: proper_def)
    have iw: "unat (of_nat ?i :: 32 word) = ?i" by (rule word_self [OF hw r(1)])
    have g: "conn_get ?i (ctxt ?V) = Some ?i" by (rule get_self [OF invV]) (use r(1) V(2) in simp)
    have "curl_handle_async_write ?i (cqe_res e) ?V = Some W'"
      using h u(2) p iw g st vi wb(1) by (auto simp: process_cqe_curl_def Let_def)
    from async_write_clients [OF invV okV _ r(4) _ wb(2) _ this]
    have "serves_on (taken S) ap ?V W'" using r(1) V(2) vi wb(1) written S(2) by simp
    then have "serves_on (taken S) ap W W'" by (rule serves_same) (use V(1) in simp)
    then show ?thesis using u(2) p by (simp add: told_def)
  next
    case (other s)
    have S: "lp S = retire s (cl W)" "taken S = tk" and s: "s \<in> set (inflight (lring (cl W)))"
      using other by (simp_all add: as_sys_def)
    obtain p where u: "p \<in> prep_op (prep s)" "ring_unpack_data (cqe_data e) = (Some p, of_nat (sqe_id s))"
      using completed_entry [OF hw s] other by blast
    have p: "p \<noteq> OP_ACCEPT" "p \<noteq> OP_RECV_FD" "p \<noteq> OP_WRITE"
      using u(1) other by (cases "prep s"; auto simp: sqe_owner_def)+
    have rg: "rings W ?V"
      using ring_owners_retire [OF s] ring_ok_retire [of "cl W" s] other(4) by (simp add: rings_def S)
    have okV: "clients_ok tk ap ?V" by (rule clients_same [OF ok rg]) (simp_all add: S)
    have r: "refused ?V = refused W" by (simp add: S)
    note pl = poll_clients [OF invV sndV okV] and tm = timeout_clients [OF invV sndV okV]
    show ?thesis
      using h u(2) p serves_same [OF pl r] serves_same [OF tm r] okV r
      by (cases p) (auto simp: process_cqe_curl_def told_def S(2) serves_on_def)
  qed
qed

section \<open>Runs\<close>

type_synonym history = "curl_loop \<times> (nat \<Rightarrow> string) \<times> (nat \<Rightarrow> string)"

text \<open>
  The steps of \<open>curl_step\<close> with the bytes that the client of each connection has received since its
  descriptor came, and the text that the API has sent for it since its request started.
\<close>

inductive client_step :: "history \<Rightarrow> history \<Rightarrow> bool" where
  cqe: "completes (as_sys tk W) a e S \<Longrightarrow> process_cqe_curl k a e (W\<lparr>cl := lp S\<rparr>) = Some (Running W')
    \<Longrightarrow> client_step (W, tk, ap) (W', taken S, told k e (W\<lparr>cl := lp S\<rparr>) W' ap)"
| flush: "flush_streaming_connections W = Some (Running W') \<Longrightarrow> client_step (W, tk, ap) (W', tk, ap)"
| submit: "client_step (W, tk, ap) (cl_submit W, tk, ap)"
| stop: "client_step (W, tk, ap) (on_loop (\<lambda>L. L\<lparr>dctx := (dctx L)\<lparr>shutdown_requested := True\<rparr>\<rparr>) W, tk, ap)"

inductive client_reachable :: "curl_loop \<Rightarrow> history \<Rightarrow> bool" for W0 where
  here: "client_reachable W0 (W0, (\<lambda>_. []), (\<lambda>_. []))"
| onward: "client_reachable W0 H \<Longrightarrow> client_step H H' \<Longrightarrow> client_reachable W0 H'"

definition client_runs :: "daemon_ctx \<Rightarrow> curl_loop \<Rightarrow> (nat \<Rightarrow> string) \<Rightarrow> (nat \<Rightarrow> string) \<Rightarrow> bool" where
  "client_runs ctx W tk ap \<longleftrightarrow> (\<exists>W0. started_curl ctx W0 \<and> client_reachable W0 (W, tk, ap))"

inductive_cases client_stepE: "client_step (W, tk, ap) H"

text \<open>Every run has such a history, and nothing but runs has one.\<close>

lemma completes_any:
  assumes "completes (as_sys tk W) a e S"
  shows "\<exists>S'. completes (as_sys tk' W) a e S' \<and> lp S' = lp S"
  using assms
proof cases
  case (accept s)
  have l: "lp (as_sys t W) = cl W" for t by (simp add: as_sys_def)
  let ?S = "(as_sys tk' W)\<lparr>lp := opened (cqe_res e) (if cqe_more e then lp (as_sys tk' W) else retire s (lp (as_sys tk' W)))\<rparr>"
  have "completes (as_sys tk' W) a e ?S"
    by (rule completes.accept) (use accept(2-5) in \<open>simp_all add: l\<close>)
  moreover have "lp ?S = lp S" unfolding accept(1) by (simp add: l)
  ultimately show ?thesis by blast
next
  case (recv s fd msg)
  have l: "lp (as_sys t W) = cl W" for t by (simp add: as_sys_def)
  let ?S = "(as_sys tk' W)\<lparr>lp := opened (if cqe_res e < 0 then -1 else handoff_extract_fd (a_msg a))
      (Loop_System.received (sqe_id s) msg (retire s (lp (as_sys tk' W)))), taken := (taken (as_sys tk' W))(sqe_id s := [])\<rparr>"
  have "completes (as_sys tk' W) a e ?S"
    by (rule completes.recv) (use recv(2-) in \<open>simp_all add: l\<close>)
  moreover have "lp ?S = lp S" unfolding recv(1) by (simp add: l)
  ultimately show ?thesis by blast
next
  case (written s fd b)
  have l: "lp (as_sys t W) = cl W" for t by (simp add: as_sys_def)
  let ?S = "(as_sys tk' W)\<lparr>lp := retire s (lp (as_sys tk' W)),
      taken := (taken (as_sys tk' W))(sqe_id s := taken (as_sys tk' W) (sqe_id s) @ take (nat (cqe_res e)) b)\<rparr>"
  have "completes (as_sys tk' W) a e ?S"
    by (rule completes.written) (use written(2-) in \<open>simp_all add: l\<close>)
  moreover have "lp ?S = lp S" unfolding written(1) by (simp add: l)
  ultimately show ?thesis by blast
next
  case (other s)
  have l: "lp (as_sys t W) = cl W" for t by (simp add: as_sys_def)
  let ?S = "(as_sys tk' W)\<lparr>lp := retire s (lp (as_sys tk' W))\<rparr>"
  have "completes (as_sys tk' W) a e ?S"
    by (rule completes.other) (use other(2-) in \<open>simp_all add: l\<close>)
  moreover have "lp ?S = lp S" unfolding other(1) by (simp add: l)
  ultimately show ?thesis by blast
qed

lemma step_history: "curl_step W W' \<Longrightarrow> \<exists>tk' ap'. client_step (W, tk, ap) (W', tk', ap')"
proof (induction rule: curl_step.induct)
  case (cqe tk0 W a e S k W')
  obtain S' where "completes (as_sys tk W) a e S'" "lp S' = lp S" using completes_any [OF cqe(1)] by blast
  then show ?case using client_step.cqe [of tk W a e S' k W' ap] cqe(2) by auto
qed (blast intro: client_step.intros)+

lemma runs_history: "curl_runs ctx W \<longleftrightarrow> (\<exists>tk ap. client_runs ctx W tk ap)"
proof
  have "\<exists>tk ap. client_reachable W0 (W, tk, ap)" if "curl_reachable W0 W" for W0
    using that
  proof induction
    case here
    show ?case using client_reachable.here by blast
  next
    case (onward W W')
    then show ?case using step_history client_reachable.onward by blast
  qed
  then show "curl_runs ctx W \<Longrightarrow> \<exists>tk ap. client_runs ctx W tk ap" unfolding curl_runs_def client_runs_def by blast
next
  have s: "curl_step (fst H) (fst H')" if "client_step H H'" for H H'
    using that by induction (auto intro: curl_step.intros)
  have "curl_reachable W0 (fst H)" if "client_reachable W0 H" for W0 H
    using that by induction (auto intro: curl_reachable.intros s)
  then show "\<exists>tk ap. client_runs ctx W tk ap \<Longrightarrow> curl_runs ctx W" unfolding curl_runs_def client_runs_def by fastforce
qed

definition served_loop :: "history \<Rightarrow> bool" where
  "served_loop H \<longleftrightarrow> (case H of (W, tk, ap) \<Rightarrow> curl_inv W \<and> sound_loop W \<and> (refused W = 0 \<longrightarrow> clients_ok tk ap W))"

lemma step_serves:
  assumes "client_step H H'" "served_loop H"
  shows "served_loop H'"
  using assms
proof (induction rule: client_step.induct)
  case (cqe tk W a e S k W' ap)
  have i: "curl_inv W" "sound_loop W" and ok: "refused W = 0 \<Longrightarrow> clients_ok tk ap W" using cqe(3) by (simp_all add: served_loop_def)
  have st: "curl_step W W'" by (rule curl_step.cqe [OF cqe(1,2)])
  have r: "refused W = 0 \<and> clients_ok (taken S) (told k e (W\<lparr>cl := lp S\<rparr>) W' ap) W'" if "refused W' = 0"
  proof -
    have "refused (W\<lparr>cl := lp S\<rparr>) = refused W" using completes_fields(4) [OF cqe(1)] by (simp add: links_refused_def as_sys_def)
    then have z: "refused W = 0" using process_refused [OF cqe(2)] that by simp
    then show ?thesis using completion_clients [OF i ok [OF z] cqe(1,2)] that by (simp add: serves_on_def)
  qed
  then show ?case using step_keeps_inv [OF st i(1)] step_sound [OF st i] by (simp add: served_loop_def)
next
  case (flush W W' tk ap)
  have i: "curl_inv W" "sound_loop W" using flush(2) by (simp_all add: served_loop_def)
  have st: "curl_step W W'" by (rule curl_step.flush [OF flush(1)])
  show ?case using step_keeps_inv [OF st i(1)] step_sound [OF st i] flush_fair [OF i(1) flush(1), of tk ap] flush(2)
    by (auto simp: served_loop_def fair_def)
next
  case (submit W tk ap)
  have i: "curl_inv W" "sound_loop W" using submit by (simp_all add: served_loop_def)
  have st: "curl_step W (cl_submit W)" by (rule curl_step.submit)
  show ?case using step_keeps_inv [OF st i(1)] step_sound [OF st i] submit_fair [of tk ap W] submit
    by (auto simp: served_loop_def fair_def)
next
  case (stop W tk ap)
  let ?V = "on_loop (\<lambda>L. L\<lparr>dctx := (dctx L)\<lparr>shutdown_requested := True\<rparr>\<rparr>) W"
  have i: "curl_inv W" "sound_loop W" using stop by (simp_all add: served_loop_def)
  have st: "curl_step W ?V" by (rule curl_step.stop)
  have "fair tk ap W ?V" by (rule fair_same) (simp_all add: on_loop_def rings_def conn_at_def)
  then show ?case using step_keeps_inv [OF st i(1)] step_sound [OF st i] stop by (auto simp: served_loop_def fair_def)
qed

lemma enter_loop_new:
  assumes "enter_loop \<lparr>dctx = c, lring = ring_new k ok, wpool = p\<rparr> = Some L"
  shows "dctx L = c \<and> ring_owners (lring L) = {#} \<and> ring_ok (lring L) \<and> refused_links (lring L) = 0"
proof -
  obtain rc r1 where a: "ring_submit_accept (ring_new k ok) = (rc, r1)" by fastforce
  obtain rc2 r2 where e: "ring_submit_eventfd_read pool_eventfd r1 = (rc2, r2)" by fastforce
  note e' = e [unfolded ring_submit_eventfd_read_def]
  have new: "ring_sqes (ring_new k ok) = []" "refused_links (ring_new k ok) = 0"
    by (simp_all add: ring_new_def ring_sqes_def)
  have r1: "ring_owners r1 = {#}" "ring_ok r1" "refused_links r1 = 0"
    using submit_accept_cases [OF a] ring_ok_accept [OF _ a] new
    by (auto simp: ring_owners_def sqe_owner_def ring_ok_def)
  then have r2: "ring_owners r2 = {#}" "ring_ok r2" "refused_links r2 = 0"
    using with_flush_cases [OF e'] ring_ok_submit [OF _ e'] by (auto simp: ring_owners_def sqe_owner_def)
  have "ring_owners (ring_submit r) = ring_owners r" "ring_ok (ring_submit r) = ring_ok r"
    "refused_links (ring_submit r) = refused_links r" for r
    by (simp_all add: ring_submit_def ring_owners_def ring_ok_def)
  then show ?thesis using assms a e r1 r2 by (auto simp: enter_loop_def split: if_splits)
qed

lemma started_serves:
  assumes st: "started_curl ctx W" and m: "max_connections ctx \<le> 2 ^ 32"
  shows "served_loop (W, \<lambda>_. [], \<lambda>_. [])"
proof -
  obtain c k ok p env cfg hs W0 where s: "0 \<le> max_connections ctx" and c: "conn_pool_init True ctx = Some c"
    and w0: "curl_manager_init env True True True hs \<lparr>dctx = c, lring = ring_new k ok, wpool = p\<rparr> = Some (cfg, W0)"
    and w: "lift_loop enter_loop W0 = Some W"
    using st unfolding started_curl_def by blast
  let ?n = "nat (max_connections ctx)"
  let ?c0 = "ctx\<lparr>connections := replicate ?n zero_connection, free_list := None\<rparr>"
  have pool: "pool_ok c [0..<?n]" using conn_pool_init_ok [OF c s] by simp
  have e: "connections c = connections (init_loop ?n ?c0)" using c by (auto simp: conn_pool_init_def Let_def)
  then have len: "length (connections c) = ?n" using init_loop_frame [of ?n ?c0] by simp
  have "\<forall>x \<in> set (connections (init_loop ?n ?c0)). curl_easy x = None \<and> blank x \<and> state x = CONN_STATE_UNUSED"
    by (rule init_loop_keeps) (auto simp: init_connection_def zero_connection_def blank_def)
  then have b: "curl_easy (conn_at c i) = None \<and> blank (conn_at c i) \<and> state (conn_at c i) = CONN_STATE_UNUSED" if "i < ?n" for i
    using that len by (simp add: e conn_at_def)
  let ?L0 = "\<lparr>dctx = c, lring = ring_new k ok, wpool = p\<rparr>"
  have "cl W0 = ?L0" using w0 by (auto simp: curl_manager_init_def)
  then obtain L where L: "enter_loop ?L0 = Some L" "W = W0\<lparr>cl := L\<rparr>" using w by (auto simp: lift_loop_def)
  have r: "dctx L = c" "ring_owners (lring L) = {#}" "ring_ok (lring L)" "refused_links (lring L) = 0"
    using enter_loop_new [OF L(1)] by simp_all
  have "owners_at j (lring (cl W)) = {#}" for j using r(2) L(2) by (simp add: owners_at_def)
  moreover have "conn_id (conn_at c j) = j" if "j < ?n" for j using pool len that by (simp add: pool_ok_def)
  ultimately have "held W" using r L(2) len b m by (auto simp: held_def holds_def blank_def)
  moreover have "client_ok j [] [] W" if "j < ?n" for j
    by (rule client_ok_quiet) (use r L(2) b that in simp_all)
  ultimately have "clients_ok (\<lambda>_. []) (\<lambda>_. []) W" using r L(2) len by (simp add: clients_ok_def)
  then show ?thesis using started_inv [OF st] started_sound [OF st] by (simp add: served_loop_def)
qed

lemma client_runs_served:
  assumes "client_runs ctx W tk ap" "max_connections ctx \<le> 2 ^ 32" "refused W = 0"
  shows "curl_inv W" "sound_loop W" "clients_ok tk ap W"
proof -
  obtain W0 where w: "started_curl ctx W0" "client_reachable W0 (W, tk, ap)" using assms(1) by (auto simp: client_runs_def)
  have "served_loop H" if "client_reachable W0 H" for H
    using that by induction (use started_serves [OF w(1) assms(2)] step_serves in auto)
  from this [OF w(2)] assms(3) show "curl_inv W" "sound_loop W" "clients_ok tk ap W" by (simp_all add: served_loop_def)
qed

end
