(* ===== verification/Curl_Correctness.thy ===== *)
theory Curl_Correctness
  imports Curl_Demo Curl_Histories Api_Correctness
begin

text \<open>
  The properties of the curl mode (curl_manager.c and the handlers of daemon.c that it has), in every
  state the daemon can reach, with their witnesses.
\<close>

section \<open>Requests and connections\<close>

text \<open>
  C3. In every state that the daemon can reach in the curl mode, requests and connections belong to
  each other one to one: a request's connection has that request's handle and is waiting for the API or
  receiving from it, so no callback is ever made for a connection that was freed or given to another
  client, and the manager's count of requests is right.
\<close>

theorem requests_have_connections:
  assumes "curl_runs ctx W"
  shows "(\<forall>h rq. requests W h = Some rq \<longrightarrow>
      rq_conn rq < length (connections (ctxt W)) \<and> curl_easy (conn (cl W) (rq_conn rq)) = Some h
      \<and> state (conn (cl W) (rq_conn rq)) \<in> {CONN_STATE_CURL_PENDING, CONN_STATE_CURL_ACTIVE})
    \<and> (\<forall>i < length (connections (ctxt W)). \<forall>h. curl_easy (conn (cl W) i) = Some h \<longrightarrow>
          (\<exists>rq. requests W h = Some rq \<and> rq_conn rq = i))
    \<and> active_requests (mgr W) = int (card {h. requests W h \<noteq> None})"
proof -
  have inv: "ctx_ok (ctxt W) (reqs W)" "counted (reqs W) (active_requests (mgr W)) (next_easy W)"
    using curl_runs_inv [OF assms] by (simp_all add: curl_inv_def)
  have d: "dom (reqs W) = {h. requests W h \<noteq> None}" by (auto simp: reqs_def)
  have c: "conn_ok (reqs W) i (conn (cl W) i)" if "i < length (connections (ctxt W))" for i
    using inv(1) that unfolding ctx_ok_def by blast
  have b: "j < length (connections (ctxt W)) \<and> curl_easy (conn (cl W) j) = Some h" if "reqs W h = Some j" for h j
    using inv(1) that unfolding ctx_ok_def by blast
  have r: "reqs W h = Some (rq_conn rq)" if "requests W h = Some rq" for h rq using that by (simp add: reqs_def)
  have e: "\<exists>rq. requests W h = Some rq \<and> rq_conn rq = i"
    if "i < length (connections (ctxt W))" "curl_easy (conn (cl W) i) = Some h" for i h
    using c [OF that(1)] that(2) by (auto simp: conn_ok_def reqs_def)
  show ?thesis
    using b [OF r] c e inv(2) by (auto simp: counted_def d conn_ok_def)
qed

theorem requests_have_connections_witness:
  "\<exists>W rq. curl_runs crun_ctx W \<and> requests W 0 = Some rq \<and> rq_conn rq = 0 \<and> curl_easy (conn (cl W) 0) = Some 0
     \<and> active_requests (mgr W) = 1"
proof -
  let ?q = "crun_request 8 (\<lambda>_. True)"
  define W where "W = with_request ?q 0 (crun_start 8 (\<lambda>_. True))"
  have r: "curl_runs crun_ctx W" unfolding W_def by (rule crun_runs [of 8 "\<lambda>_. True" "[]"]) simp_all
  have q: "requests W 0 = Some ?q" "rq_conn ?q = 0" "{h. requests W h \<noteq> None} = {0}"
    by (auto simp: W_def with_request_def crun_start_def crun_state_def crun_request_def Let_def)
  note c = requests_have_connections [OF r]
  have "curl_easy (conn (cl W) 0) = Some 0" using c q(1,2) by metis
  moreover have "active_requests (mgr W) = 1" using c q(3) by simp
  ultimately show ?thesis using r q by blast
qed

text \<open>
  C29. Every handler returns in the curl mode: the walk over the dirty list ends, whatever the kernel,
  the allocator, the clients, the API and libcurl do.
\<close>

theorem curl_handlers_return:
  assumes "curl_runs ctx W"
  shows "(\<exists>x. process_cqe_curl k a e W = Some x) \<and> (\<exists>x. flush_streaming_connections W = Some x)"
  using process_cqe_curl_inv flush_inv curl_runs_inv [OF assms] unfolding good_out_def by blast

theorem curl_handlers_return_witness:
  "\<exists>W. curl_runs crun_ctx W \<and> requests W 0 \<noteq> None
     \<and> (\<exists>x. process_cqe_curl (crun_answers [Write_cb 0 ''data'']) demo_answers
           \<lparr>cqe_res = 1, cqe_more = False, cqe_data = ring_pack_data OP_CURL_POLL 9\<rparr> W = Some x)
     \<and> (\<exists>x. flush_streaming_connections W = Some x)"
proof -
  let ?W = "with_request (crun_request 8 (\<lambda>_. True)) 0 (crun_start 8 (\<lambda>_. True))"
  have r: "curl_runs crun_ctx ?W" by (rule crun_runs [of 8 "\<lambda>_. True" "[]"]) simp_all
  moreover have "requests ?W 0 \<noteq> None" by (simp add: with_request_def crun_start_def crun_state_def)
  ultimately show ?thesis using curl_handlers_return [OF r] by blast
qed

section \<open>The stream of a client\<close>

text \<open>
  C7. For a request that is not answered yet, libcurl may make any callbacks, for this and for other
  requests, sockets and timers: what is queued for the client is a prefix of what the blocking backend
  writes for the same text of the API, and unless a callback was refused it is exactly that, the header
  and one event for each content, however the text is cut into chunks.
\<close>

theorem curl_client_stream:
  assumes run: "curl_runs ctx W" and rq: "requests W h = Some rq" "fresh_request i rq"
    and fresh: "queued i W = []" "line_of i W = []" and ev: "run_events es W = Some W'"
  shows "\<exists>rq'. requests W' h = Some rq' \<and> rq_conn rq' = i \<and> prefix (queued i W') (stream_of (heard h es))
    \<and> (rq_stopped rq' \<or> heard h es = [] \<or> queued i W' = stream_of (heard h es))"
proof -
  have v: "rq_view W h = Some (i, False, False)" using rq by (simp add: rq_view_def fresh_request_def)
  have own: "own_conns W" by (rule own_conns_inv [OF curl_runs_inv [OF run]])
  then have "i < length (connections (ctxt W))" using v unfolding own_conns_def by blast
  from sound_at [OF curl_runs_sound [OF run] this] have "buf_sound i W"
    by (simp add: buf_sound_def proper_def split: option.split)
  then have "served h i [] [] W"
    unfolding served_def using v fresh
    by (intro exI [of _ False]) (simp add: streams_def chop_lines.simps)
  from run_events_served [OF ev own this] obtain rq' where
    "requests W' h = Some rq'" "rq_conn rq' = i"
    "if rq_stopped rq' then cut_off i [] (heard h es) W' else streams i [] (heard h es) (rq_headers_sent rq') W'"
    by (auto simp: served_def rq_view_def)
  then show ?thesis by (cases "rq_stopped rq'") (auto simp: cut_off_def streams_def)
qed

theorem curl_client_stream_witness:
  "\<exists>W W' rq'. curl_runs crun_ctx W
     \<and> run_events [Write_cb 0 (hd wit_chunks), Timer_cb 200, Write_cb 0 (concat (tl wit_chunks))] W = Some W'
     \<and> requests W' 0 = Some rq' \<and> (rq_stopped rq' \<or> queued 0 W' = SSE_HEADERS @ sse_open @ ''Hello'' @ sse_close)"
proof -
  let ?q = "crun_request 8 (\<lambda>_. True)" and ?es = "[Write_cb 0 (hd wit_chunks), Timer_cb 200, Write_cb 0 (concat (tl wit_chunks))]"
  let ?W = "with_request ?q 0 (crun_start 8 (\<lambda>_. True))"
  have r: "curl_runs crun_ctx ?W" by (rule crun_runs [of 8 "\<lambda>_. True" "[]"]) simp_all
  have q: "requests ?W 0 = Some ?q" "fresh_request 0 ?q"
    by (simp_all add: with_request_def crun_start_def crun_state_def crun_request_def fresh_request_def Let_def)
  have f: "queued 0 ?W = []" "line_of 0 ?W = []"
    by (simp_all add: queued_def line_of_def with_request_def pending_def crun_start_def crun_state_def crun_conn_def demo_conn_def
        zero_connection_def cl_conn_def with_conn_def upd_conn_def conn_at_def)
  obtain W' where ev: "run_events ?es ?W = Some W'" using run_events_total by blast
  have h: "heard 0 ?es = concat wit_chunks" "concat wit_chunks \<noteq> []" by (simp_all add: wit_chunks_def)
  have s: "stream_of (concat wit_chunks) = SSE_HEADERS @ sse_open @ ''Hello'' @ sse_close" by code_simp
  show ?thesis using curl_client_stream [OF r q f ev, unfolded h(1) s] r ev h(2) by blast
qed



section \<open>The dirty list\<close>

text \<open>
  C11. In every reachable state the dirty list is a proper list, and every connection with bytes that are
  still to be written is on it, in a state in which they will be: no data is forgotten, although only
  the list and never the array of connections is searched.
\<close>

theorem unsent_data_on_dirty_list:
  assumes "curl_runs ctx W"
  shows "\<exists>ds. dirty_ok (ctxt W) ds \<and> (\<forall>i < length (connections (ctxt W)). queued i W \<noteq> [] \<longrightarrow>
    i \<in> set ds \<and> state (conn (cl W) i) \<in> {CONN_STATE_CURL_ACTIVE, CONN_STATE_CLOSING})"
proof -
  obtain ds where d: "dirty_ok (ctxt W) ds"
    using curl_runs_inv [OF assms] unfolding curl_inv_def ctx_ok_def by blast
  have "i \<in> set ds \<and> state (conn (cl W) i) \<in> {CONN_STATE_CURL_ACTIVE, CONN_STATE_CLOSING}"
    if i: "i < length (connections (ctxt W))" and q: "queued i W \<noteq> []" for i
  proof -
    obtain wb where wb: "async_write_buf (conn (cl W) i) = Some wb" "wb_content wb \<noteq> []"
      using q by (auto simp: queued_def split: option.splits)
    have p: "proper (conn (cl W) i)" by (rule sound_at [OF curl_runs_sound [OF assms] i])
    then have "write_buffer_has_data wb" using wb has_data_content [of wb] by (simp add: proper_def)
    then show ?thesis using p wb(1) d i by (auto simp: proper_def dirty_ok_def)
  qed
  then show ?thesis using d by blast
qed

theorem unsent_data_on_dirty_list_witness:
  "\<exists>W ds. curl_runs crun_ctx W \<and> requests W 0 \<noteq> None \<and> dirty_ok (ctxt W) ds
     \<and> (\<forall>i < length (connections (ctxt W)). queued i W \<noteq> [] \<longrightarrow>
          i \<in> set ds \<and> state (conn (cl W) i) \<in> {CONN_STATE_CURL_ACTIVE, CONN_STATE_CLOSING})"
proof -
  obtain W where W: "run_events [Timer_cb 1, Write_cb 0 []] tight_start = Some W" "waits_to_write W" using tight_run by blast
  have r: "curl_runs crun_ctx W"
    by (rule crun_runs [of 1 tight_ok "[Timer_cb 1, Write_cb 0 []]"]) (use W(1) in \<open>simp_all add: tight_ok_def tight_start_def\<close>)
  have "reqs tight_start 0 \<noteq> None" by (simp add: reqs_def tight_start_def with_request_def crun_start_def crun_state_def)
  then have "requests W 0 \<noteq> None" using keeps_reqs [OF run_events_keeps [OF W(1)]] by (metis option.map_disc_iff reqs_def)
  then show ?thesis using unsent_data_on_dirty_list [OF r] r by blast
qed



section \<open>What goes wrong\<close>

text \<open>
  C38. When a request ends while its client has no write buffer, that is when it fails before the first
  byte of an answer, its connection is left closing with nothing to be done for it: no request, no
  operation in the ring, no entry in the dirty list, its descriptor open. Nothing will free it. A flush
  does not change that.
\<close>

theorem failed_request_schedules_nothing:
  assumes run: "curl_runs ctx W" and rq: "requests W h = Some rq" and none: "async_write_buf (conn (cl W) (rq_conn rq)) = None"
  shows "\<exists>V. V = curl_manager_check_completions [\<lparr>m_easy = h, m_ok = ok, m_code = code\<rparr>] W
    \<and> state (conn (cl V) (rq_conn rq)) = CONN_STATE_CLOSING \<and> curl_easy (conn (cl V) (rq_conn rq)) = None
    \<and> client_fd (conn (cl V) (rq_conn rq)) = client_fd (conn (cl W) (rq_conn rq)) \<and> d_fds (ctxt V) = d_fds (ctxt W)
    \<and> requests V h = None \<and> lring (cl V) = lring (cl W)
    \<and> dirty_head (ctxt V) = dirty_head (ctxt W) \<and> on_dirty_list (conn (cl V) (rq_conn rq)) = on_dirty_list (conn (cl W) (rq_conn rq))
    \<and> (\<forall>X. flush_streaming_connections V = Some (Running X) \<longrightarrow>
          state (conn (cl X) (rq_conn rq)) = CONN_STATE_CLOSING \<and> async_write_buf (conn (cl X) (rq_conn rq)) = None)"
proof -
  let ?i = "rq_conn rq"
  define V where "V = curl_manager_check_completions [\<lparr>m_easy = h, m_ok = ok, m_code = code\<rparr>] W"
  have inv: "curl_inv W" by (rule curl_runs_inv [OF run])
  have "rq_view W h = Some (?i, rq_headers_sent rq, rq_stopped rq)" using rq by (simp add: rq_view_def)
  then have i: "?i < length (connections (ctxt W))" using own_conns_inv [OF inv] unfolding own_conns_def by blast
  have e: "V = drop_request h ?i (cl_conn ?i (state_update (\<lambda>_. CONN_STATE_CLOSING)) W)"
    using rq none by (simp add: V_def curl_manager_check_completions_def complete_request_def Let_def)
  have at: "conn (cl V) ?i = (conn (cl W) ?i)\<lparr>state := CONN_STATE_CLOSING, curl_easy := None\<rparr>"
    using i by (simp add: e drop_request_def cl_conn_def with_conn_def)
  have same: "requests V h = None" "lring (cl V) = lring (cl W)" "d_fds (ctxt V) = d_fds (ctxt W)" "dirty_head (ctxt V) = dirty_head (ctxt W)"
    by (simp_all add: e drop_request_def cl_conn_def with_conn_def upd_conn_def)
  have "curl_inv V" unfolding V_def by (rule check_completions_inv [OF inv])
  moreover from this obtain ds where "dirty_ok (ctxt V) ds" unfolding curl_inv_def ctx_ok_def by blast
  ultimately have fd: "flush_done [] ds V (flush_streaming_connections V)" by (rule flush_done_all)
  have f: "state (conn (cl X) ?i) = CONN_STATE_CLOSING \<and> async_write_buf (conn (cl X) ?i) = None"
    if "flush_streaming_connections V = Some (Running X)" for X
  proof -
    have "same_state (set ds) V X" using fd that by (simp add: flush_done_def flush_post_def)
    then have "state (conn (cl X) ?i) = state (conn (cl V) ?i)" "buffer_of (conn (cl X) ?i) = buffer_of (conn (cl V) ?i)"
      by (simp_all add: same_state_def)
    then show ?thesis using none by (simp add: at buffer_of_def)
  qed
  show ?thesis using at same f by (intro exI [of _ V]) (simp add: V_def)
qed

theorem failed_request_schedules_nothing_witness:
  "\<exists>W V rq. curl_runs crun_ctx W \<and> requests W 0 = Some rq
     \<and> V = curl_manager_check_completions [\<lparr>m_easy = 0, m_ok = False, m_code = 0\<rparr>] W
     \<and> state (conn (cl V) (rq_conn rq)) = CONN_STATE_CLOSING \<and> curl_easy (conn (cl V) (rq_conn rq)) = None
     \<and> lring (cl V) = lring (cl W)"
proof -
  let ?q = "crun_request 8 (\<lambda>_. True)"
  define W where "W = with_request ?q 0 (crun_start 8 (\<lambda>_. True))"
  have r: "curl_runs crun_ctx W" unfolding W_def by (rule crun_runs [of 8 "\<lambda>_. True" "[]"]) simp_all
  have q: "requests W 0 = Some ?q" by (simp add: W_def with_request_def crun_start_def crun_state_def)
  have n: "async_write_buf (conn (cl W) (rq_conn ?q)) = None"
    by (simp add: W_def with_request_def pending_def crun_start_def crun_state_def crun_conn_def demo_conn_def crun_request_def
        zero_connection_def cl_conn_def with_conn_def upd_conn_def conn_at_def Let_def)
  show ?thesis using failed_request_schedules_nothing [OF r q n, of False 0] r q by blast
qed

text \<open>
  C39. When the submission queue is full and cannot be submitted, the flush frees a connection whose write
  is refused and then asks the write buffer that was freed with it whether it is empty.
\<close>

theorem refused_write_reads_freed_buffer:
  assumes run: "curl_runs ctx W" and hd: "dirty_head (ctxt W) = Some i"
    and c: "flushable (state (conn (cl W) i))" "idle_data (conn (cl W) i)"
    and full: "sq_entries (lring (cl W)) \<le> length (sq (lring (cl W)))" "\<not> submit_ok (lring (cl W)) (submits (lring (cl W)))"
  shows "flush_streaming_connections W = Some Freed_read"
proof -
  have inv: "curl_inv W" by (rule curl_runs_inv [OF run])
  then obtain ds where "dirty_ok (ctxt W) ds" unfolding curl_inv_def ctx_ok_def by blast
  then have i: "i < length (connections (ctxt W))" using hd by (cases ds) (auto simp: dirty_ok_def)
  obtain wb where wb: "async_write_buf (conn (cl W) i) = Some wb" "write_buffer_has_data wb" "\<not> write_buffer_is_busy wb"
    using c(2) by (auto simp: idle_data_def split: option.splits)
  have ok: "wb_ok wb" using sound_at [OF curl_runs_sound [OF run] i] wb(1) by (simp add: proper_def)
  obtain data where d: "write_buffer_get_next wb = Some data" "data \<noteq> []"
    using get_next_content [OF ok] has_data_content [OF ok] wb(2) by auto
  let ?V = "W\<lparr>cl := (cl W)\<lparr>lring := io_uring_submit (lring (cl W))\<rparr>\<rparr>"
  have "cl_ring (ring_submit_write (conn (cl W) i) data) W = (-11, ?V)"
    using full by (simp add: cl_ring_def ring_submit_write_def with_flush_def ring_get_sqe_flush_def io_uring_get_sqe_def io_uring_submit_def)
  then have s: "curl_start_async_write i W = curl_fail i ?V"
    using wb d by (simp add: curl_start_async_write_def)
  have "curl_inv ?V" using inv by (simp add: curl_inv_def reqs_def [abs_def])
  then obtain W1 where "curl_fail i ?V = Some W1" "async_write_buf (conn (cl W1) i) = None"
    using curl_fail_inv [of ?V i] i c(1) by (auto simp: flushable_def)
  then show ?thesis
    using c s wb(1) hd unfolding flush_streaming_connections_def by (subst flush_from.simps) (simp add: Let_def)
qed

theorem refused_write_reads_freed_buffer_witness:
  "\<exists>W. curl_runs crun_ctx W \<and> requests W 0 \<noteq> None \<and> flush_streaming_connections W = Some Freed_read"
proof -
  obtain W where W: "run_events [Timer_cb 1, Write_cb 0 []] tight_start = Some W" "waits_to_write W" using tight_run by blast
  have r: "curl_runs crun_ctx W"
    by (rule crun_runs [of 1 tight_ok "[Timer_cb 1, Write_cb 0 []]"]) (use W(1) in \<open>simp_all add: tight_ok_def tight_start_def\<close>)
  have "reqs tight_start 0 \<noteq> None" by (simp add: reqs_def tight_start_def with_request_def crun_start_def crun_state_def)
  then have q: "requests W 0 \<noteq> None" using keeps_reqs [OF run_events_keeps [OF W(1)]] by (metis option.map_disc_iff reqs_def)
  have "flush_streaming_connections W = Some Freed_read"
    by (rule refused_write_reads_freed_buffer [OF r, of 0]) (use W(2) in \<open>simp_all add: waits_to_write_def stuck_def flushable_def\<close>)
  then show ?thesis using r q by blast
qed

end
