(* ===== verification/Server.thy ===== *)
theory Server
  imports Kernel Daemon_Types
begin

text \<open>
  The listening socket of the io_uring daemon (server.c). The names of the file system that matter are
  a map from paths to what is there: a plain file, or a socket, which is bound by a descriptor of this
  process or by another process, of type SEQPACKET or another, listening or not. The calls on names
  answer as they are documented to: \<open>stat\<close> says ENOENT exactly when nothing is there, \<open>connect\<close> says
  ECONNREFUSED exactly when nobody listens; every other failure may happen at any time.
\<close>

section \<open>Names and the calls on them\<close>

record socket_file =
  bound_by :: "int option" \<comment> \<open>the descriptor of this process; \<open>None\<close>: another process's\<close>
  seqpacket :: bool
  listening :: bool

datatype node = Plain_file | Socket_file socket_file

record host =
  proc :: world
  names :: "string \<Rightarrow> node option"

abbreviation h_errno :: "host \<Rightarrow> int" where "h_errno h \<equiv> c_errno (proc h)"

definition h_fail :: "int \<Rightarrow> host \<Rightarrow> int \<times> host" where
  "h_fail e h = (-1, h\<lparr>proc := (proc h)\<lparr>c_errno := e\<rparr>\<rparr>)"

definition h_call :: "host \<Rightarrow> answer \<times> host" where
  "h_call h = (case kcall (proc h) of (a, w) \<Rightarrow> (a, h\<lparr>proc := w\<rparr>))"

definition file_at :: "string \<Rightarrow> host \<Rightarrow> node option" where
  \<comment> \<open>the empty path names no file; as a socket address it is an abstract name\<close>
  "file_at p h = (if p = [] then None else names h p)"

definition sys_stat :: "string \<Rightarrow> host \<Rightarrow> int \<times> host" where
  "sys_stat p h = (case h_call h of (a, h1) \<Rightarrow>
     if ret a < 0 \<and> err a \<noteq> 2 then h_fail (err a) h1
     else if file_at p h1 = None then h_fail 2 h1 else (0, h1))"

definition S_ISSOCK :: "string \<Rightarrow> host \<Rightarrow> bool" where
  \<comment> \<open>of the mode that a successful \<open>stat\<close> stored\<close>
  "S_ISSOCK p h \<longleftrightarrow> (case file_at p h of Some (Socket_file s) \<Rightarrow> True | _ \<Rightarrow> False)"

definition h_socket :: "host \<Rightarrow> int \<times> host" where
  "h_socket h = (case sys_socket (proc h) of (fd, w) \<Rightarrow> (fd, h\<lparr>proc := w\<rparr>))"

definition h_simple :: "host \<Rightarrow> int \<times> host" where
  "h_simple h = (case sys_simple (proc h) of (r, w) \<Rightarrow> (r, h\<lparr>proc := w\<rparr>))"

definition sys_connect_to :: "string \<Rightarrow> host \<Rightarrow> int \<times> host" where
  "sys_connect_to p h = (case h_call h of (a, h1) \<Rightarrow>
     if ret a < 0 \<and> err a \<noteq> 111 then h_fail (err a) h1
     else case names h1 p of
       None \<Rightarrow> h_fail 2 h1
     | Some Plain_file \<Rightarrow> h_fail 111 h1
     | Some (Socket_file s) \<Rightarrow>
         if \<not> seqpacket s then h_fail 91 h1
         else if \<not> listening s then h_fail 111 h1
         else (0, h1))"

definition sys_unlink :: "string \<Rightarrow> host \<Rightarrow> int \<times> host" where
  "sys_unlink p h = (case h_call h of (a, h1) \<Rightarrow>
     if ret a < 0 then h_fail (err a) h1
     else if file_at p h1 = None then h_fail 2 h1
     else (0, h1\<lparr>names := (names h1)(p := None)\<rparr>))"

definition sys_bind :: "int \<Rightarrow> string \<Rightarrow> host \<Rightarrow> int \<times> host" where
  "sys_bind fd p h = (case h_call h of (a, h1) \<Rightarrow>
     if names h1 p \<noteq> None then h_fail 98 h1
     else if ret a < 0 then h_fail (err a) h1
     else (0, h1\<lparr>names := (names h1)(p \<mapsto> Socket_file \<lparr>bound_by = Some fd, seqpacket = True, listening = False\<rparr>)\<rparr>))"

definition ours :: "int \<Rightarrow> node \<Rightarrow> bool" where
  "ours fd n \<longleftrightarrow> (case n of Socket_file s \<Rightarrow> bound_by s = Some fd | Plain_file \<Rightarrow> False)"

definition set_listening :: "int \<Rightarrow> bool \<Rightarrow> node \<Rightarrow> node" where
  "set_listening fd b n = (case n of Socket_file s \<Rightarrow>
     if bound_by s = Some fd then Socket_file (s\<lparr>listening := b\<rparr>) else n | Plain_file \<Rightarrow> n)"

definition sys_listen :: "int \<Rightarrow> host \<Rightarrow> int \<times> host" where
  "sys_listen fd h = (case h_call h of (a, h1) \<Rightarrow>
     if ret a < 0 then h_fail (err a) h1
     else (0, h1\<lparr>names := map_option (set_listening fd True) \<circ> names h1\<rparr>))"

definition forget :: "int \<Rightarrow> node \<Rightarrow> node" where
  "forget fd n = (case n of Socket_file s \<Rightarrow>
     if bound_by s = Some fd then Socket_file (s\<lparr>bound_by := None, listening := False\<rparr>) else n | Plain_file \<Rightarrow> n)"

definition h_close :: "int \<Rightarrow> host \<Rightarrow> host" where
  \<comment> \<open>a closed socket leaves its name behind; \<open>errno\<close> stays as it is\<close>
  "h_close fd h = h\<lparr>proc := sys_close fd (proc h), names := map_option (forget fd) \<circ> names h\<rparr>"

definition sun_path :: "string \<Rightarrow> string" where
  \<comment> \<open>\<open>strncpy(addr.sun_path, path, sizeof(addr.sun_path) - 1)\<close>\<close>
  "sun_path p = take 107 p"

section \<open>server.c\<close>

definition server_check_stale_socket :: "string \<Rightarrow> host \<Rightarrow> int \<times> host" where
  "server_check_stale_socket path h0 =
     (case sys_stat path h0 of (r, h1) \<Rightarrow>
      if r \<noteq> 0 then (if h_errno h1 = ENOENT then (0, h1) else (-1, h1))
      else if \<not> S_ISSOCK path h1 then (-1, h1)
      else case h_socket h1 of (probe, h2) \<Rightarrow>
      if probe < 0 then (-1, h2)
      else case h_simple h2 of (flags, h3) \<Rightarrow>
      case h_simple h3 of (_, h4) \<Rightarrow>
      case sys_connect_to (sun_path path) h4 of (r2, h5) \<Rightarrow>
      let h6 = h_close probe h5 in
      if r2 = 0 then (-1, h6)
      else if h_errno h6 = ECONNREFUSED then (0, snd (sys_unlink path h6))
      else (-1, h6))"

record server =
  sctx :: daemon_ctx
  listen_fd :: int
  host :: host

definition server_create_listener :: "server \<Rightarrow> int \<times> server" where
  "server_create_listener s =
     (case server_check_stale_socket (socket_path (sctx s)) (host s) of (rc, h1) \<Rightarrow>
      if rc < 0 then (-1, s\<lparr>host := h1\<rparr>)
      else case h_socket h1 of (fd, h2) \<Rightarrow>
      if fd < 0 then (-1, s\<lparr>host := h2\<rparr>)
      else case sys_bind fd (sun_path (socket_path (sctx s))) h2 of (rb, h3) \<Rightarrow>
      if rb < 0 then (-1, s\<lparr>host := h_close fd h3\<rparr>)
      else case h_simple h3 of (_, h4) \<Rightarrow> \<comment> \<open>\<open>chmod\<close>; a failure is reported and not fatal\<close>
      case sys_listen fd h4 of (rl, h5) \<Rightarrow>
      if rl < 0 then (-1, s\<lparr>host := snd (sys_unlink (socket_path (sctx s)) (h_close fd h5))\<rparr>)
      else (0, s\<lparr>host := h5, listen_fd := fd\<rparr>))"

definition server_close_listener :: "server \<Rightarrow> server" where
  \<comment> \<open>\<open>ctx->socket_path\<close> is set from \<open>daemon_init\<close> on\<close>
  "server_close_listener s =
     (let s1 = (if listen_fd s \<ge> 0 then s\<lparr>host := h_close (listen_fd s) (host s), listen_fd := -1\<rparr> else s)
      in s1\<lparr>host := snd (sys_unlink (socket_path (sctx s1)) (host s1))\<rparr>)"

end
