(* ===== verification/Metrics.thy ===== *)
theory Metrics
  imports Kernel Daemon_Types Sse_Stream
begin

text \<open>
  The metrics endpoint of the io_uring daemon (metrics.c): the text of a page, the answer to a request,
  and the thread that serves requests, as a step relation with the main thread, which starts and stops
  it. A request is what one \<open>recv\<close> returns, at most 1023 bytes.
\<close>

section \<open>The page\<close>

definition DAEMON_VERSION :: string where "DAEMON_VERSION = ''0.4.0''"

definition enabled :: "bool \<Rightarrow> string" where
  "enabled b = (if b then ''enabled'' else ''disabled'')"

definition metric_lines :: "daemon_ctx \<Rightarrow> string list" where
  "metric_lines ctx =
    [''# HELP streaming_daemon_connections_active Current active connections'',
     ''# TYPE streaming_daemon_connections_active gauge'',
     ''streaming_daemon_connections_active '' @ dec_int (active_connections ctx),
     [],
     ''# HELP streaming_daemon_connections_peak Peak concurrent connections'',
     ''# TYPE streaming_daemon_connections_peak gauge'',
     ''streaming_daemon_connections_peak '' @ dec_int (peak_connections ctx),
     [],
     ''# HELP streaming_daemon_connections_max Maximum allowed connections'',
     ''# TYPE streaming_daemon_connections_max gauge'',
     ''streaming_daemon_connections_max '' @ dec_int (max_connections ctx),
     [],
     ''# HELP streaming_daemon_requests_total Total requests by status'',
     ''# TYPE streaming_daemon_requests_total counter'',
     ''streaming_daemon_requests_total{status='' @ [DQ] @ ''started'' @ [DQ] @ ''} '' @ decimal (total_started ctx),
     ''streaming_daemon_requests_total{status='' @ [DQ] @ ''completed'' @ [DQ] @ ''} '' @ decimal (total_completed ctx),
     ''streaming_daemon_requests_total{status='' @ [DQ] @ ''failed'' @ [DQ] @ ''} '' @ decimal (total_failed ctx),
     [],
     ''# HELP streaming_daemon_bytes_total Total bytes sent'',
     ''# TYPE streaming_daemon_bytes_total counter'',
     ''streaming_daemon_bytes_total '' @ decimal (total_bytes ctx),
     [],
     ''# HELP streaming_daemon_info Daemon information'',
     ''# TYPE streaming_daemon_info gauge'',
     ''streaming_daemon_info{version='' @ [DQ] @ DAEMON_VERSION @ [DQ] @ '',sqpoll='' @ [DQ] @ enabled (use_sqpoll ctx)
       @ [DQ] @ '',thread_pool='' @ [DQ] @ enabled (use_thread_pool ctx) @ [DQ] @ ''} 1'']"

definition in_lines :: "string list \<Rightarrow> string" where
  "in_lines ls = concat (map (\<lambda>l. l @ [LF]) ls)"

definition format_metrics :: "nat \<Rightarrow> daemon_ctx \<Rightarrow> nat \<times> string" where
  \<comment> \<open>what \<open>snprintf\<close> returns, the length of the whole text, and what it stores\<close>
  "format_metrics bufsize ctx =
     (let t = in_lines (metric_lines ctx) in (length t, take (bufsize - 1) t))"

section \<open>A request\<close>

definition crlf :: "string list \<Rightarrow> string" where
  "crlf ls = concat (map (\<lambda>l. l @ [CR, LF]) ls)"

definition not_found :: string where
  "not_found = crlf [''HTTP/1.1 404 Not Found'', ''Content-Length: 9'', ''Connection: close'', []] @ ''Not Found''"

definition ok_response :: "nat \<Rightarrow> string \<Rightarrow> string" where
  "ok_response body_len body =
     crlf [''HTTP/1.1 200 OK'', ''Content-Type: text/plain; version=0.0.4; charset=utf-8'',
           ''Content-Length: '' @ decimal body_len, ''Connection: close'', []] @ body"

definition wants_metrics :: "string \<Rightarrow> bool" where
  \<comment> \<open>\<open>strncmp\<close> stops at a NUL byte of the request; the two prefixes hold none\<close>
  "wants_metrics request \<longleftrightarrow> has_prefix ''GET /metrics'' request \<or> has_prefix ''GET / '' request"

record metrics =
  mfd :: int
  m_shutdown :: bool
  m_fds :: "int list" \<comment> \<open>descriptors open in the process\<close>
  sent :: "(int \<times> string) list" \<comment> \<open>what \<open>send\<close> was called with\<close>

definition m_close :: "int \<Rightarrow> metrics \<Rightarrow> metrics" where
  "m_close fd m = m\<lparr>m_fds := removeAll fd (m_fds m)\<rparr>"

definition m_send :: "int \<Rightarrow> string \<Rightarrow> metrics \<Rightarrow> metrics" where
  \<comment> \<open>the result is not looked at\<close>
  "m_send fd s m = m\<lparr>sent := sent m @ [(fd, s)]\<rparr>"

definition handle_request :: "daemon_ctx \<Rightarrow> string option \<Rightarrow> int \<Rightarrow> metrics \<Rightarrow> metrics option" where
  \<comment> \<open>\<open>None\<close> for the request: \<open>recv\<close> returned 0 or failed. The result is \<open>None\<close> when \<open>send\<close> would read
      past the 8192 bytes of \<open>response\<close>\<close>
  "handle_request ctx request cfd m =
     (case request of
        None \<Rightarrow> Some (m_close cfd m)
      | Some r \<Rightarrow>
          if \<not> wants_metrics r then Some (m_close cfd (m_send cfd not_found m))
          else case format_metrics 4096 ctx of (body_len, body) \<Rightarrow>
            let full = ok_response body_len body; resp_len = length full; response = take 8191 full @ [NUL] in
            if resp_len > 8192 then None
            else Some (m_close cfd (m_send cfd (take resp_len response) m)))"

section \<open>Start and stop\<close>

record listen_answers =
  sa_socket :: "int option" \<comment> \<open>a new descriptor, or a failure\<close>
  sa_bind :: bool
  sa_listen :: bool
  sa_thread :: bool

datatype thread = No_thread | Testing | Polling | Accepting | Reading int | Ended

record endpoint =
  ep :: metrics
  thr :: thread

definition metrics_start :: "listen_answers \<Rightarrow> endpoint \<Rightarrow> int \<times> endpoint" where
  "metrics_start a E =
     (let m = ep E; closed = (\<lambda>m. (m_close (mfd m) m)\<lparr>mfd := -1\<rparr>) in
      case sa_socket a of
        None \<Rightarrow> (-1, E\<lparr>ep := m\<lparr>mfd := -1\<rparr>\<rparr>)
      | Some fd \<Rightarrow>
          let m1 = m\<lparr>mfd := fd, m_fds := fd # m_fds m\<rparr> in
          if \<not> sa_bind a then (-1, E\<lparr>ep := closed m1\<rparr>)
          else if \<not> sa_listen a then (-1, E\<lparr>ep := closed m1\<rparr>)
          else
            let m2 = m1\<lparr>m_shutdown := False\<rparr> in
            if \<not> sa_thread a then (-1, E\<lparr>ep := closed m2\<rparr>)
            else (0, \<lparr>ep = m2, thr = Testing\<rparr>))"

definition metrics_stop_begin :: "endpoint \<Rightarrow> endpoint" where
  \<comment> \<open>\<open>metrics_stop\<close> up to \<open>pthread_join\<close>\<close>
  "metrics_stop_begin E = (if mfd (ep E) < 0 then E else E\<lparr>ep := (ep E)\<lparr>m_shutdown := True\<rparr>\<rparr>)"

definition metrics_stop_end :: "endpoint \<Rightarrow> endpoint option" where
  \<comment> \<open>the rest; \<open>None\<close>: \<open>pthread_join\<close> waits\<close>
  "metrics_stop_end E =
     (if mfd (ep E) < 0 then Some E
      else if thr E \<noteq> Ended then None
      else Some \<lparr>ep = (m_close (mfd (ep E)) (ep E))\<lparr>mfd := -1\<rparr>, thr = No_thread\<rparr>)"

definition metrics_running :: "endpoint \<Rightarrow> bool" where
  "metrics_running E \<longleftrightarrow> mfd (ep E) \<ge> 0"

section \<open>The thread\<close>

text \<open>
  One step of \<open>metrics_thread_func\<close>, up to the next point where it waits or looks at the flag. The
  sockets block: \<open>recv\<close> returns when the client has sent something or has gone, and not before.
\<close>

datatype metrics_event =
    Tick \<comment> \<open>the thread goes on by itself, a poll ends after its second\<close>
  | Incoming \<comment> \<open>a client connects\<close>
  | Accepted "int option" \<comment> \<open>what \<open>accept\<close> gives\<close>
  | Received "string option" \<comment> \<open>what \<open>recv\<close> gives\<close>

fun metrics_thread :: "daemon_ctx \<Rightarrow> metrics_event \<Rightarrow> endpoint \<Rightarrow> endpoint option" where
  "metrics_thread ctx Tick E =
     (case thr E of
        Testing \<Rightarrow> Some (E\<lparr>thr := (if m_shutdown (ep E) then Ended else Polling)\<rparr>)
      | Polling \<Rightarrow> Some (E\<lparr>thr := Testing\<rparr>)
      | _ \<Rightarrow> None)"
| "metrics_thread ctx Incoming E = (if thr E = Polling then Some (E\<lparr>thr := Accepting\<rparr>) else None)"
| "metrics_thread ctx (Accepted r) E =
     (if thr E \<noteq> Accepting then None
      else case r of
        None \<Rightarrow> Some (E\<lparr>thr := Testing\<rparr>)
      | Some fd \<Rightarrow> Some \<lparr>ep = (ep E)\<lparr>m_fds := fd # m_fds (ep E)\<rparr>, thr = Reading fd\<rparr>)"
| "metrics_thread ctx (Received r) E =
     (case thr E of
        Reading fd \<Rightarrow> map_option (\<lambda>m. \<lparr>ep = m, thr = Testing\<rparr>) (handle_request ctx r fd (ep E))
      | _ \<Rightarrow> None)"

end
