(* ===== verification/Startup.thy ===== *)
theory Startup
  imports Server Metrics Daemon_Config Connection_Pool Work_Pool
begin

text \<open>
  \<open>main\<close> and \<open>daemon_cleanup\<close> (daemon.c), with what they need of ring.c, pool.c, curl_manager.c and the
  backends: what is acquired, in which order, and what is released when a step fails and at the end. The
  answers of the calls are an argument, and so is what the event loop, which has its own theories, leaves.
  Of libcurl the users of the library are counted and the state of the multi handle is kept; a
  handle that was freed and is still stored is \<open>Dangling\<close>, and its use is a result of its own.
\<close>

section \<open>What the program holds\<close>

datatype handle = Null | Live | Dangling

record resources =
  srv :: server
  endp :: endpoint
  recv_contexts :: bool
  ring_initialized :: bool
  curl_mgr :: bool \<comment> \<open>\<open>ctx->curl_mgr\<close> is set\<close>
  multi :: handle \<comment> \<open>\<open>g_curl_mgr.multi\<close>\<close>
  curl_users :: nat \<comment> \<open>calls of \<open>curl_global_init\<close> that were not undone\<close>
  pool_set :: bool \<comment> \<open>\<open>ctx->pool\<close> is set\<close>
  g_pool :: "pool_ctx option" \<comment> \<open>\<open>None\<close>: \<open>g_pool.threads\<close> is NULL\<close>

abbreviation pctx :: "resources \<Rightarrow> daemon_ctx" where "pctx R \<equiv> sctx (srv R)"

definition with_ctx :: "daemon_ctx \<Rightarrow> resources \<Rightarrow> resources" where
  "with_ctx c R = R\<lparr>srv := (srv R)\<lparr>sctx := c\<rparr>\<rparr>"

record init_answers =
  ia_recv_contexts :: bool
  ia_connections :: bool
  ia_ring_params :: bool \<comment> \<open>\<open>io_uring_queue_init_params\<close> with the flags\<close>
  ia_ring_plain :: bool
  ia_curl_global :: bool
  ia_multi :: bool
  ia_sockets :: bool
  ia_pool :: "bool \<times> bool \<times> bool"
  ia_metrics :: listen_answers

section \<open>Initialisation\<close>

definition ring_init :: "init_answers \<Rightarrow> resources \<Rightarrow> int \<times> resources" where
  "ring_init a R =
     (if ia_ring_params a then (0, R\<lparr>ring_initialized := True\<rparr>)
      else if \<not> ia_ring_plain a then (-1, R)
      else (0, (with_ctx ((pctx R)\<lparr>use_sqpoll := False\<rparr>) R)\<lparr>ring_initialized := True\<rparr>))"

definition ring_cleanup :: "resources \<Rightarrow> resources" where
  "ring_cleanup R = R\<lparr>ring_initialized := False\<rparr>"

definition manager_init :: "init_answers \<Rightarrow> resources \<Rightarrow> int \<times> resources" where
  \<comment> \<open>\<open>curl_manager_init\<close> as far as it acquires and undoes\<close>
  "manager_init a R =
     (let R1 = R\<lparr>multi := Null\<rparr> in
      if \<not> ia_curl_global a then (-1, R1)
      else if \<not> ia_multi a then (-1, R1)
      else if \<not> ia_sockets a then (-1, R1\<lparr>multi := Dangling\<rparr>)
      else (0, R1\<lparr>multi := Live, curl_users := curl_users R1 + 1\<rparr>))"

definition curl_manager_cleanup :: "resources \<Rightarrow> resources option" where
  \<comment> \<open>\<open>None\<close>: a freed handle is used\<close>
  "curl_manager_cleanup R =
     (if multi R = Dangling then None
      else Some (R\<lparr>multi := (if multi R = Live then Dangling else multi R), curl_users := curl_users R - 1\<rparr>))"

definition backend_init :: "bool \<Rightarrow> init_answers \<Rightarrow> resources \<Rightarrow> int \<times> resources" where
  \<comment> \<open>the first argument: whether the backend is the one for OpenAI; the mock backend has nothing to acquire\<close>
  "backend_init openai a R =
     (if \<not> openai then (0, R)
      else if \<not> ia_curl_global a then (-1, R)
      else (0, R\<lparr>curl_users := curl_users R + 1\<rparr>))"

definition backend_cleanup :: "bool \<Rightarrow> resources \<Rightarrow> resources" where
  "backend_cleanup openai R = (if openai then R\<lparr>curl_users := curl_users R - 1\<rparr> else R)"

section \<open>daemon_cleanup\<close>

datatype main_result =
    Exit int resources
  | Joining resources \<comment> \<open>\<open>metrics_stop\<close> waits for its thread\<close>
  | Freed_handle_used

definition daemon_cleanup :: "bool \<Rightarrow> int \<Rightarrow> resources \<Rightarrow> main_result" where
  \<comment> \<open>the result of \<open>main\<close> that calls it is an argument\<close>
  "daemon_cleanup openai rc R =
     (case metrics_stop_end (metrics_stop_begin (endp R)) of
        None \<Rightarrow> Joining (R\<lparr>endp := metrics_stop_begin (endp R)\<rparr>)
      | Some E \<Rightarrow>
          let R1 = R\<lparr>endp := E\<rparr> in
          case (if openai \<and> use_curl_multi (pctx R1) \<and> curl_mgr R1 then curl_manager_cleanup R1 else Some R1) of
            None \<Rightarrow> Freed_handle_used
          | Some R2 \<Rightarrow>
              let R3 = (if use_thread_pool (pctx R2) \<and> pool_set R2 then R2\<lparr>g_pool := None\<rparr> else R2);
                  R4 = (if \<not> use_curl_multi (pctx R3) then backend_cleanup openai R3 else R3);
                  R5 = ring_cleanup R4;
                  R6 = with_ctx (conn_pool_cleanup (pctx R5)) R5;
                  R7 = R6\<lparr>srv := server_close_listener (srv R6)\<rparr>
              in Exit rc (R7\<lparr>recv_contexts := False\<rparr>))"

section \<open>main\<close>

definition init_requests :: "bool \<Rightarrow> init_answers \<Rightarrow> resources \<Rightarrow> int \<times> resources" where
  \<comment> \<open>the curl manager or the backend\<close>
  "init_requests openai a R =
     (if openai \<and> use_curl_multi (pctx R) then manager_init a (R\<lparr>curl_mgr := True\<rparr>)
      else backend_init openai a R)"

definition init_workers :: "init_answers \<Rightarrow> resources \<Rightarrow> int \<times> resources" where
  "init_workers a R =
     (if main_creates_pool (pctx R)
      then (case ia_pool a of (sync_ok, memory_ok, threads_ok) \<Rightarrow>
              let p = pool_init sync_ok memory_ok threads_ok (pctx R)
              in (if p = None then -1 else 0, R\<lparr>pool_set := True, g_pool := p\<rparr>))
      else (0, R))"

definition start_up :: "bool \<Rightarrow> init_answers \<Rightarrow> resources \<Rightarrow> main_result + resources" where
  \<comment> \<open>\<open>main\<close> from the allocation of \<open>recv_contexts\<close> to the start of the metrics; \<open>Inl\<close>: \<open>main\<close> has ended\<close>
  "start_up openai a R =
     (if \<not> ia_recv_contexts a then Inl (Exit 1 R)
      else case conn_pool_init (ia_connections a) (pctx R) of
        None \<Rightarrow> Inl (Exit 1 (R\<lparr>recv_contexts := True\<rparr>))
      | Some c \<Rightarrow>
      case ring_init a (with_ctx c (R\<lparr>recv_contexts := True\<rparr>)) of (rc, R1) \<Rightarrow>
      if rc < 0 then Inl (daemon_cleanup openai 1 R1)
      else case init_requests openai a R1 of (rc, R2) \<Rightarrow>
      if rc < 0 then Inl (daemon_cleanup openai 1 R2)
      else case init_workers a R2 of (rc, R3) \<Rightarrow>
      if rc < 0 then Inl (daemon_cleanup openai 1 R3)
      else case server_create_listener (srv R3) of (rc, s) \<Rightarrow>
      if rc < 0 then Inl (daemon_cleanup openai 1 (R3\<lparr>srv := s\<rparr>))
      else Inr (let R4 = R3\<lparr>srv := s\<rparr> in
        if metrics_port (pctx R4) > 0 then R4\<lparr>endp := snd (metrics_start (ia_metrics a) (endp R4))\<rparr> else R4))"

definition main_resources :: "daemon_ctx \<Rightarrow> host \<Rightarrow> endpoint \<Rightarrow> resources" where
  \<comment> \<open>\<open>daemon_init\<close> and \<open>parse_args\<close> give the context; nothing is acquired\<close>
  "main_resources ctx h E =
     \<lparr>srv = \<lparr>sctx = ctx, listen_fd = -1, host = h\<rparr>, endp = E, recv_contexts = False, ring_initialized = False,
      curl_mgr = False, multi = Null, curl_users = 0, pool_set = False, g_pool = None\<rparr>"

definition daemon_main :: "bool \<Rightarrow> init_answers \<Rightarrow> (resources \<Rightarrow> int \<times> resources) \<Rightarrow> resources \<Rightarrow> main_result" where
  \<comment> \<open>the third argument: what \<open>daemon_run\<close> returns and leaves\<close>
  "daemon_main openai a run R =
     (case start_up openai a R of
        Inl out \<Rightarrow> out
      | Inr R1 \<Rightarrow> case run R1 of (rc, R2) \<Rightarrow> daemon_cleanup openai (if rc \<noteq> 0 then 1 else 0) R2)"

end
