(* ===== verification/Server_Steps.thy ===== *)
theory Server_Steps
  imports Server
begin

text \<open>
  What the calls on names leave alone: the listening sockets of other processes, and the descriptors of
  the process. Both hold for each call of server.c, and so for the functions.
\<close>

section \<open>Listening sockets of other processes\<close>

definition foreign_live :: "node \<Rightarrow> bool" where
  "foreign_live n \<longleftrightarrow> (case n of Socket_file s \<Rightarrow> bound_by s = None \<and> listening s | Plain_file \<Rightarrow> False)"

definition spares :: "host \<Rightarrow> host \<Rightarrow> bool" where
  "spares h h' \<longleftrightarrow> (\<forall>q n. names h q = Some n \<longrightarrow> foreign_live n \<longrightarrow> names h' q = Some n)"

lemma spares_refl [simp]: "spares h h"
  by (simp add: spares_def)

lemma spares_trans: "spares h h1 \<Longrightarrow> spares h1 h2 \<Longrightarrow> spares h h2"
  by (simp add: spares_def)

lemma spares_names: "names h' = names h \<Longrightarrow> spares h h'"
  by (simp add: spares_def)

lemma foreign_kept [simp]:
  "foreign_live n \<Longrightarrow> forget fd n = n" "foreign_live n \<Longrightarrow> set_listening fd b n = n"
  by (auto simp: foreign_live_def forget_def set_listening_def split: node.splits)

lemma foreign_forget: "foreign_live (forget fd n) \<longleftrightarrow> foreign_live n"
  by (auto simp: foreign_live_def forget_def split: node.splits)

section \<open>Descriptors and names, call by call\<close>

abbreviation fds_of :: "host \<Rightarrow> int list" where "fds_of h \<equiv> open_fds (proc h)"

definition same_host :: "host \<Rightarrow> host \<Rightarrow> bool" where
  "same_host h h' \<longleftrightarrow> names h' = names h \<and> fds_of h' = fds_of h"

lemma same_host_spares: "same_host h h' \<Longrightarrow> spares h h'"
  by (simp add: same_host_def spares_names)

lemma h_fail_host [simp]: "h_fail e h = (r, h') \<Longrightarrow> same_host h h'"
  by (auto simp: h_fail_def same_host_def)

lemma h_call_host: "h_call h = (a, h1) \<Longrightarrow> same_host h h1"
  by (auto simp: h_call_def kcall_def Let_def same_host_def)

lemma stat_cases:
  assumes "sys_stat p h = (r, h')"
  shows "same_host h h' \<and> (r = 0 \<longrightarrow> file_at p h \<noteq> None) \<and> (r \<noteq> 0 \<longrightarrow> r = -1 \<and> (h_errno h' = 2 \<longrightarrow> file_at p h = None))"
  using assms by (auto simp: sys_stat_def h_call_def kcall_def Let_def h_fail_def same_host_def file_at_def
      split: prod.splits if_splits)

lemma simple_host: "h_simple h = (r, h') \<Longrightarrow> same_host h h'"
  by (auto simp: h_simple_def sys_simple_def kcall_def Let_def same_host_def split: prod.splits if_splits)

lemma socket_cases:
  assumes "h_socket h = (fd, h')"
  shows "names h' = names h \<and> (if fd < 0 then fds_of h' = fds_of h else fds_of h' = fd # fds_of h \<and> fd \<notin> set (fds_of h))"
  using assms lowest_free_nonneg [of "fds_of h"]
  by (auto simp: h_socket_def sys_socket_def kcall_def Let_def split: prod.splits if_splits
      simp del: lowest_free_nonneg)

lemma close_cases:
  "fds_of (h_close fd h) = removeAll fd (fds_of h)" "h_errno (h_close fd h) = h_errno h" "spares h (h_close fd h)"
  by (auto simp: h_close_def sys_close_def spares_def)

lemma connect_cases:
  assumes "sys_connect_to p h = (r, h')"
  shows "same_host h h' \<and> (r = 0 \<longrightarrow> (\<exists>s. names h p = Some (Socket_file s) \<and> listening s \<and> seqpacket s))
    \<and> (r \<noteq> 0 \<longrightarrow> h_errno h' = 111 \<longrightarrow> (\<forall>n. names h p = Some n \<longrightarrow> \<not> foreign_live n))"
  using assms by (auto simp: sys_connect_to_def h_call_def kcall_def Let_def h_fail_def same_host_def foreign_live_def
      split: prod.splits if_splits option.splits node.splits)

lemma unlink_cases:
  assumes "sys_unlink p h = (r, h')"
  shows "fds_of h' = fds_of h \<and> (names h' = names h \<or> names h' = (names h)(p := None))"
  using assms by (auto simp: sys_unlink_def h_call_def kcall_def Let_def h_fail_def split: prod.splits if_splits)

lemma bind_cases:
  assumes "sys_bind fd p h = (r, h')"
  shows "fds_of h' = fds_of h \<and> spares h h' \<and> (r < 0 \<longrightarrow> names h' = names h)
    \<and> (r \<ge> 0 \<longrightarrow> names h p = None
        \<and> names h' = (names h)(p \<mapsto> Socket_file \<lparr>bound_by = Some fd, seqpacket = True, listening = False\<rparr>))"
  using assms by (auto simp: sys_bind_def h_call_def kcall_def Let_def h_fail_def spares_def split: prod.splits if_splits)

lemma listen_cases:
  assumes "sys_listen fd h = (r, h')"
  shows "fds_of h' = fds_of h \<and> spares h h' \<and> (r < 0 \<longrightarrow> names h' = names h)
    \<and> (r \<ge> 0 \<longrightarrow> names h' = map_option (set_listening fd True) \<circ> names h)"
  using assms by (auto simp: sys_listen_def h_call_def kcall_def Let_def h_fail_def spares_def split: prod.splits if_splits)

lemmas host_cases = stat_cases simple_host socket_cases connect_cases unlink_cases bind_cases listen_cases

lemma sun_path_short: "length p \<le> 107 \<Longrightarrow> sun_path p = p"
  by (simp add: sun_path_def)

section \<open>The functions\<close>

lemma unlink_spares:
  assumes "sys_unlink p h = (r, h')" "\<And>n. names h p = Some n \<Longrightarrow> \<not> foreign_live n"
  shows "spares h h'"
  using unlink_cases [OF assms(1)] assms(2) by (auto simp: spares_def)

lemma probe_closed:
  assumes "h_socket h = (fd, h1)" "\<not> fd < 0" "fds_of h2 = fds_of h1"
  shows "fds_of (h_close fd h2) = fds_of h"
  using socket_cases [OF assms(1)] assms(2,3) by (simp add: close_cases)

lemma check_stale_cases:
  assumes c: "server_check_stale_socket p h = (rc, h')" and p: "length p \<le> 107"
  shows "spares h h' \<and> fds_of h' = fds_of h \<and> (rc = 0 \<or> rc = -1)"
proof -
  obtain r h1 where a: "sys_stat p h = (r, h1)" by fastforce
  note A = stat_cases [OF a]
  show ?thesis
  proof (cases "r = 0 \<and> S_ISSOCK p h1")
    case False
    with c a A same_host_spares [of h h1] show ?thesis
      by (auto simp: server_check_stale_socket_def same_host_def split: if_splits)
  next
    case True
    obtain probe h2 where s: "h_socket h1 = (probe, h2)" by fastforce
    show ?thesis
    proof (cases "probe < 0")
      case True
      with c a s A socket_cases [OF s] \<open>r = 0 \<and> S_ISSOCK p h1\<close> show ?thesis
        by (auto simp: server_check_stale_socket_def same_host_def spares_def)
    next
      case False
      obtain x h3 where f: "h_simple h2 = (x, h3)" by fastforce
      obtain y h4 where g: "h_simple h3 = (y, h4)" by fastforce
      obtain r2 h5 where k: "sys_connect_to p h4 = (r2, h5)" by fastforce
      define h6 where "h6 = h_close probe h5"
      note F = simple_host [OF f] and G = simple_host [OF g] and K = connect_cases [OF k] and S = socket_cases [OF s]
      have n5: "names h5 = names h" "fds_of h5 = fds_of h2" using A S F G K by (simp_all add: same_host_def)
      have fds: "fds_of h6 = fds_of h" using probe_closed [OF s False n5(2)] A by (simp add: h6_def same_host_def)
      have sp: "spares h h6"
        unfolding h6_def by (rule spares_trans [OF spares_names [OF n5(1)] close_cases(3)])
      have e: "(rc, h') = (if r2 = 0 then (-1, h6)
          else if h_errno h6 = 111 then (0, snd (sys_unlink p h6)) else (-1, h6))"
        using c a s f g k False True
        by (auto simp: server_check_stale_socket_def sun_path_short [OF p] h6_def Let_def split: if_splits)
      show ?thesis
      proof (cases "r2 \<noteq> 0 \<and> h_errno h6 = 111")
        case True
        obtain z h7 where u: "sys_unlink p h6 = (z, h7)" by fastforce
        have "h_errno h5 = 111" using True by (simp add: h6_def close_cases)
        then have "\<forall>n. names h5 p = Some n \<longrightarrow> \<not> foreign_live n" using K True by (simp add: same_host_def)
        then have "\<not> foreign_live n" if "names h6 p = Some n" for n
          using that foreign_forget [of probe] by (auto simp: h6_def h_close_def)
        then have "spares h6 h7" by (rule unlink_spares [OF u])
        moreover have "rc = 0" "h' = h7" using e True u by simp_all
        ultimately show ?thesis using sp fds unlink_cases [OF u] spares_trans by auto
      qed (use e sp fds in \<open>auto split: if_splits\<close>)
    qed
  qed
qed

lemma create_listener_cases:
  assumes c: "server_create_listener s = (rc, s')" and p: "length (socket_path (sctx s)) \<le> 107"
  shows "spares (host s) (host s') \<and> sctx s' = sctx s
    \<and> (if rc = 0
       then fds_of (host s') = listen_fd s' # fds_of (host s) \<and> listen_fd s' \<notin> set (fds_of (host s)) \<and> 0 \<le> listen_fd s'
         \<and> names (host s') (socket_path (sctx s))
             = Some (Socket_file \<lparr>bound_by = Some (listen_fd s'), seqpacket = True, listening = True\<rparr>)
       else rc = -1 \<and> fds_of (host s') = fds_of (host s) \<and> listen_fd s' = listen_fd s)"
proof -
  let ?p = "socket_path (sctx s)"
  obtain rk h1 where a: "server_check_stale_socket ?p (host s) = (rk, h1)" by fastforce
  note A = check_stale_cases [OF a p]
  show ?thesis
  proof (cases "rk < 0")
    case True
    with c a A show ?thesis by (auto simp: server_create_listener_def)
  next
    case go: False
    obtain fd h2 where b: "h_socket h1 = (fd, h2)" by fastforce
    note B = socket_cases [OF b]
    have s2: "spares (host s) h2" using A B spares_names spares_trans by blast
    show ?thesis
    proof (cases "fd < 0")
      case True
      with c a b go A B s2 show ?thesis by (auto simp: server_create_listener_def)
    next
      case fd: False
      obtain rb h3 where d: "sys_bind fd ?p h2 = (rb, h3)" by fastforce
      note D = bind_cases [OF d]
      have s3: "spares (host s) h3" using s2 D spares_trans by blast
      have close: "fds_of (h_close fd h) = fds_of (host s)" if "fds_of h = fds_of h2" for h
        using probe_closed [OF b fd that] A by simp
      show ?thesis
      proof (cases "rb < 0")
        case True
        then have e: "rc = -1" "s' = s\<lparr>host := h_close fd h3\<rparr>"
          using c a b d go fd by (auto simp: server_create_listener_def sun_path_short [OF p])
        have "spares (host s) (h_close fd h3)" using s3 close_cases(3) spares_trans by blast
        with e close D show ?thesis by auto
      next
        case bound: False
        obtain x h4 where f: "h_simple h3 = (x, h4)" by fastforce
        obtain rl h5 where g: "sys_listen fd h4 = (rl, h5)" by fastforce
        note F = simple_host [OF f] and G = listen_cases [OF g]
        have s5: "spares (host s) h5" using s3 F G same_host_spares spares_trans by blast
        have f5: "fds_of h5 = fds_of h2" using D F G by (simp add: same_host_def)
        show ?thesis
        proof (cases "rl < 0")
          case True
          obtain z h7 where u: "sys_unlink ?p (h_close fd h5) = (z, h7)" by fastforce
          have e: "rc = -1" "s' = s\<lparr>host := h7\<rparr>"
            using c a b d f g u go fd bound True by (auto simp: server_create_listener_def sun_path_short [OF p])
          have "names h4 ?p = Some (Socket_file \<lparr>bound_by = Some fd, seqpacket = True, listening = False\<rparr>)"
            using D F bound by (simp add: same_host_def)
          then have "\<not> foreign_live n" if "names (h_close fd h5) ?p = Some n" for n
            using that G True by (auto simp: h_close_def forget_def foreign_live_def)
          then have "spares (h_close fd h5) h7" by (rule unlink_spares [OF u])
          then have "spares (host s) h7" using s5 close_cases(3) spares_trans by blast
          with e close [OF f5] unlink_cases [OF u] show ?thesis by auto
        next
          case False
          then have e: "rc = 0" "s' = s\<lparr>host := h5, listen_fd := fd\<rparr>"
            using c a b d f g go fd bound by (auto simp: server_create_listener_def sun_path_short [OF p])
          with s5 f5 A B fd D F G bound False show ?thesis
            by (auto simp: same_host_def set_listening_def)
        qed
      qed
    qed
  qed
qed

lemma close_listener_names:
  assumes "server_close_listener s = s'"
  shows "listen_fd s' = (if listen_fd s \<ge> 0 then -1 else listen_fd s)
    \<and> fds_of (host s') = (if listen_fd s \<ge> 0 then removeAll (listen_fd s) (fds_of (host s)) else fds_of (host s))"
  using assms unlink_cases
  by (auto simp: server_close_listener_def Let_def close_cases unlink_cases [OF prod.collapse [symmetric]])

end
