(* ===== verification/Metrics_Page.thy ===== *)
theory Metrics_Page
  imports Metrics Backend_Stream Daemon_Config
begin

text \<open>
  What a page of metrics.c contains: its length for every value of the counters, and the lines a reader
  of the text format finds in it.
\<close>

section \<open>Length\<close>

definition counters_in_range :: "daemon_ctx \<Rightarrow> bool" where
  \<comment> \<open>the types of the C fields: \<open>int\<close> and \<open>uint64_t\<close>\<close>
  "counters_in_range ctx \<longleftrightarrow> c_int_range (active_connections ctx) \<and> c_int_range (peak_connections ctx)
     \<and> c_int_range (max_connections ctx) \<and> total_started ctx < 2 ^ 64 \<and> total_completed ctx < 2 ^ 64
     \<and> total_failed ctx < 2 ^ 64 \<and> total_bytes ctx < 2 ^ 64"

lemma uint64_length: "n < 2 ^ 64 \<Longrightarrow> length (decimal n) \<le> 20"
  by (rule decimal_length) simp_all

lemma in_lines_length: "length (in_lines ls) = sum_list (map (\<lambda>l. length l + 1) ls)"
  by (induction ls) (simp_all add: in_lines_def)

definition page :: "daemon_ctx \<Rightarrow> string" where
  "page ctx = in_lines (metric_lines ctx)"

lemma page_length:
  assumes "counters_in_range ctx"
  shows "length (page ctx) < 1500"
proof -
  note r = assms [unfolded counters_in_range_def]
  have i: "length (dec_int (active_connections ctx)) \<le> 11" "length (dec_int (peak_connections ctx)) \<le> 11"
    "length (dec_int (max_connections ctx)) \<le> 11"
    using r by (auto intro: dec_int_length)
  have u: "length (decimal (total_started ctx)) \<le> 20" "length (decimal (total_completed ctx)) \<le> 20"
    "length (decimal (total_failed ctx)) \<le> 20" "length (decimal (total_bytes ctx)) \<le> 20"
    using r by (auto intro: uint64_length)
  have e: "length (enabled b) \<le> 8" for b by (simp add: enabled_def)
  show ?thesis
    using i u e [of "use_sqpoll ctx"] e [of "use_thread_pool ctx"]
    by (simp add: page_def in_lines_length metric_lines_def DAEMON_VERSION_def)
qed

lemma format_metrics_page:
  assumes "counters_in_range ctx"
  shows "format_metrics 4096 ctx = (length (page ctx), page ctx)"
  using page_length [OF assms] by (simp add: format_metrics_def page_def Let_def)

lemma response_length:
  assumes "counters_in_range ctx"
  shows "length (ok_response (length (page ctx)) (page ctx)) < 8192"
proof -
  have "length (decimal (length (page ctx))) \<le> 4"
    using page_length [OF assms] by (intro decimal_length) simp_all
  then show ?thesis using page_length [OF assms] by (simp add: ok_response_def crlf_def)
qed

section \<open>Reading a page\<close>

fun page_lines :: "string \<Rightarrow> string list" where
  "page_lines [] = []"
| "page_lines (c # cs) =
     (if c = LF then [] # page_lines cs
      else case page_lines cs of [] \<Rightarrow> [[c]] | l # ls \<Rightarrow> (c # l) # ls)"

definition metric :: "string \<Rightarrow> string \<Rightarrow> string option" where
  \<comment> \<open>the value of a sample: the rest of the line that starts with its name and labels\<close>
  "metric k p = map_option (drop (length k + 1)) (find (has_prefix (k @ '' '')) (page_lines p))"

lemma page_lines_line: "LF \<notin> set l \<Longrightarrow> page_lines (l @ LF # s) = l # page_lines s"
  by (induction l) auto

lemma in_lines_simps: "in_lines [] = []" "in_lines (l # ls) = l @ LF # in_lines ls"
  by (simp_all add: in_lines_def)

lemma page_lines_in_lines: "\<forall>l \<in> set ls. LF \<notin> set l \<Longrightarrow> page_lines (in_lines ls) = ls"
  by (induction ls) (simp_all add: in_lines_simps page_lines_line)

lemma decimal_no_lf: "LF \<notin> set (decimal n)"
proof
  assume "LF \<in> set (decimal n)"
  then have "\<not> c_isspace LF" using decimal_plain [of n] unfolding list_all_iff by blast
  then show False by (simp add: c_isspace_def)
qed

lemma dec_int_no_lf: "LF \<notin> set (dec_int k)"
  by (simp add: dec_int_def decimal_no_lf)

lemma metric_lines_no_lf: "\<forall>l \<in> set (metric_lines ctx). LF \<notin> set l"
  by (simp add: metric_lines_def decimal_no_lf dec_int_no_lf enabled_def DAEMON_VERSION_def)

lemma metric_page: "metric k (page ctx) = map_option (drop (length k + 1)) (find (has_prefix (k @ '' '')) (metric_lines ctx))"
  by (simp add: metric_def page_def page_lines_in_lines metric_lines_no_lf)

definition labelled :: "string \<Rightarrow> string \<Rightarrow> string \<Rightarrow> string" where
  "labelled k l v = k @ ''{'' @ l @ ''='' @ [DQ] @ v @ [DQ] @ ''}''"

definition requests_total :: "string \<Rightarrow> string" where
  "requests_total = labelled ''streaming_daemon_requests_total'' ''status''"

lemma page_values:
  "metric ''streaming_daemon_connections_active'' (page ctx) = Some (dec_int (active_connections ctx))"
  "metric ''streaming_daemon_connections_peak'' (page ctx) = Some (dec_int (peak_connections ctx))"
  "metric ''streaming_daemon_connections_max'' (page ctx) = Some (dec_int (max_connections ctx))"
  "metric (requests_total ''started'') (page ctx) = Some (decimal (total_started ctx))"
  "metric (requests_total ''completed'') (page ctx) = Some (decimal (total_completed ctx))"
  "metric (requests_total ''failed'') (page ctx) = Some (decimal (total_failed ctx))"
  "metric ''streaming_daemon_bytes_total'' (page ctx) = Some (decimal (total_bytes ctx))"
  by (simp_all add: metric_page metric_lines_def has_prefix_def requests_total_def labelled_def)

section \<open>A request\<close>

lemma handle_request_answer:
  assumes "counters_in_range ctx"
  shows "handle_request ctx r cfd m = Some (m_close cfd (case r of None \<Rightarrow> m | Some q \<Rightarrow>
    m_send cfd (if wants_metrics q then ok_response (length (page ctx)) (page ctx) else not_found) m))"
  using response_length [OF assms] format_metrics_page [OF assms]
  by (auto simp: handle_request_def Let_def split: option.split)

section \<open>The thread\<close>

definition own_step :: "daemon_ctx \<Rightarrow> endpoint \<Rightarrow> endpoint option" where
  "own_step ctx = metrics_thread ctx Tick"

text \<open>Where the thread can be when it is told to stop, and whether it then ends by itself.\<close>

lemma thread_ends:
  assumes "m_shutdown (ep E)"
  shows "thr E = Testing \<Longrightarrow> own_step ctx E = Some (E\<lparr>thr := Ended\<rparr>)"
    "thr E = Polling \<Longrightarrow> Option.bind (own_step ctx E) (own_step ctx) = Some (E\<lparr>thr := Ended\<rparr>)"
  using assms by (simp_all add: own_step_def)

end
