(* ===== verification/Startup_Steps.thy ===== *)
theory Startup_Steps
  imports Startup Server_Steps Metrics_Page
begin

text \<open>
  What \<open>daemon_cleanup\<close> leaves, and what each step of \<open>main\<close> has acquired when it fails.
\<close>

definition listener_open :: "resources \<Rightarrow> bool" where
  "listener_open R \<longleftrightarrow> listen_fd (srv R) \<ge> 0"

definition idle_endpoint :: "endpoint \<Rightarrow> bool" where
  "idle_endpoint E \<longleftrightarrow> mfd (ep E) < 0"

lemma idle_stop: "idle_endpoint E \<Longrightarrow> metrics_stop_end (metrics_stop_begin E) = Some E"
  by (simp add: idle_endpoint_def metrics_stop_begin_def metrics_stop_end_def)

definition requests_ready :: "bool \<Rightarrow> resources \<Rightarrow> bool" where
  \<comment> \<open>the manager or the backend holds libcurl once, or failed without holding it\<close>
  "requests_ready openai R \<longleftrightarrow> curl_users R \<le> 1 \<and> multi R \<noteq> Dangling
     \<and> (curl_users R = 1 \<longrightarrow> openai \<and> (use_curl_multi (pctx R) \<longrightarrow> curl_mgr R))
     \<and> (multi R = Live \<longrightarrow> openai \<and> use_curl_multi (pctx R) \<and> curl_mgr R)
     \<and> (g_pool R \<noteq> None \<longrightarrow> use_thread_pool (pctx R) \<and> pool_set R)"

definition released :: "resources \<Rightarrow> bool" where
  "released R \<longleftrightarrow> \<not> ring_initialized R \<and> multi R \<noteq> Live \<and> curl_users R = 0 \<and> g_pool R = None
     \<and> listen_fd (srv R) < 0"

lemma pool_cleanup_frame:
  "use_curl_multi (conn_pool_cleanup c) = use_curl_multi c" "socket_path (conn_pool_cleanup c) = socket_path c"
proof -
  have f: "use_curl_multi (conn_close_fds i c) = use_curl_multi c \<and> socket_path (conn_close_fds i c) = socket_path c" for i c
    by (simp add: conn_close_fds_def close_fd_def upd_conn_def Let_def)
  have "use_curl_multi (fold conn_close_fds is c) = use_curl_multi c
      \<and> socket_path (fold conn_close_fds is c) = socket_path c" for "is"
    by (induction "is" arbitrary: c) (simp_all add: f)
  then show "use_curl_multi (conn_pool_cleanup c) = use_curl_multi c" "socket_path (conn_pool_cleanup c) = socket_path c"
    by (simp_all add: conn_pool_cleanup_def)
qed

lemma close_listener_cases:
  "listen_fd (server_close_listener s) = (if listen_fd s \<ge> 0 then -1 else listen_fd s)"
  "fds_of (host (server_close_listener s))
     = (if listen_fd s \<ge> 0 then removeAll (listen_fd s) (fds_of (host s)) else fds_of (host s))"
  using unlink_cases [OF prod.collapse [symmetric]]
  by (auto simp: server_close_listener_def Let_def close_cases)

lemma cleanup_exit:
  assumes E: "idle_endpoint (endp R)" and q: "requests_ready openai R"
  shows "\<exists>R'. daemon_cleanup openai rc R = Exit rc R' \<and> released R' \<and> endp R' = endp R
    \<and> srv R' = server_close_listener ((srv R)\<lparr>sctx := conn_pool_cleanup (pctx R)\<rparr>)"
  using q close_listener_cases(1) [of "(srv R)\<lparr>sctx := conn_pool_cleanup (pctx R)\<rparr>"]
  by (auto simp: daemon_cleanup_def idle_stop [OF E] Let_def curl_manager_cleanup_def backend_cleanup_def
      ring_cleanup_def with_ctx_def requests_ready_def released_def)

section \<open>The steps of main\<close>

definition no_dangling :: "bool \<Rightarrow> init_answers \<Rightarrow> daemon_ctx \<Rightarrow> bool" where
  \<comment> \<open>not the failure that leaves a freed handle behind\<close>
  "no_dangling openai a ctx \<longleftrightarrow>
     \<not> (openai \<and> use_curl_multi ctx \<and> ia_curl_global a \<and> ia_multi a \<and> \<not> ia_sockets a)"

definition fresh_at :: "daemon_ctx \<Rightarrow> host \<Rightarrow> endpoint \<Rightarrow> resources \<Rightarrow> bool" where
  \<comment> \<open>the listener is still to be made; settings that decide the rest are those of the start\<close>
  "fresh_at ctx h E R \<longleftrightarrow> listen_fd (srv R) = -1 \<and> host (srv R) = h \<and> endp R = E
     \<and> use_curl_multi (pctx R) = use_curl_multi ctx \<and> use_thread_pool (pctx R) = use_thread_pool ctx
     \<and> socket_path (pctx R) = socket_path ctx"

lemma pool_init_settings:
  assumes "conn_pool_init ok ctx = Some c"
  shows "use_curl_multi c = use_curl_multi ctx \<and> use_thread_pool c = use_thread_pool ctx
    \<and> socket_path c = socket_path ctx \<and> metrics_port c = metrics_port ctx"
proof -
  have "use_curl_multi (init_loop n c) = use_curl_multi c \<and> use_thread_pool (init_loop n c) = use_thread_pool c
      \<and> socket_path (init_loop n c) = socket_path c \<and> metrics_port (init_loop n c) = metrics_port c" for n c
    by (induction n arbitrary: c) (simp_all add: upd_conn_def)
  then show ?thesis using assms by (auto simp: conn_pool_init_def Let_def split: if_splits)
qed

lemma ring_init_cases:
  assumes i: "ring_init a R = (rc, R')" and f: "fresh_at ctx h E R"
    and r: "requests_ready openai R" "curl_users R = 0"
  shows "fresh_at ctx h E R' \<and> requests_ready openai R' \<and> curl_users R' = 0"
proof -
  have "R' = R \<or> R' = R\<lparr>ring_initialized := True\<rparr>
      \<or> R' = (with_ctx ((pctx R)\<lparr>use_sqpoll := False\<rparr>) R)\<lparr>ring_initialized := True\<rparr>"
    using i by (auto simp: ring_init_def split: if_splits)
  then show ?thesis
  proof (elim disjE)
    assume "R' = (with_ctx ((pctx R)\<lparr>use_sqpoll := False\<rparr>) R)\<lparr>ring_initialized := True\<rparr>"
    with f r show ?thesis by (simp add: with_ctx_def fresh_at_def requests_ready_def)
  next
    assume "R' = R\<lparr>ring_initialized := True\<rparr>"
    with f r show ?thesis by (simp add: fresh_at_def requests_ready_def)
  qed (use f r in simp)
qed

lemma fresh_same:
  assumes "fresh_at ctx h E R" "srv R' = srv R" "endp R' = endp R"
  shows "fresh_at ctx h E R'"
  using assms by (simp add: fresh_at_def)

lemma init_requests_frame:
  "init_requests openai a R = (rc, R') \<Longrightarrow> srv R' = srv R \<and> endp R' = endp R \<and> g_pool R' = g_pool R \<and> pool_set R' = pool_set R"
  by (auto simp: init_requests_def manager_init_def backend_init_def Let_def split: if_splits)

lemma init_requests_cases:
  assumes i: "init_requests openai a R = (rc, R')" and f: "fresh_at ctx h E R"
    and r: "requests_ready openai R" "curl_users R = 0" and d: "no_dangling openai a ctx"
  shows "fresh_at ctx h E R' \<and> requests_ready openai R'"
proof
  note F = init_requests_frame [OF i]
  show "fresh_at ctx h E R'" using fresh_same [OF f] F by blast
  have ctx: "use_curl_multi (pctx R) = use_curl_multi ctx" using f by (simp add: fresh_at_def)
  show "requests_ready openai R'"
  proof (cases "openai \<and> use_curl_multi (pctx R)")
    case True
    then have "manager_init a (R\<lparr>curl_mgr := True\<rparr>) = (rc, R')" using i by (simp add: init_requests_def)
    moreover have "\<not> (ia_curl_global a \<and> ia_multi a \<and> \<not> ia_sockets a)" using d True ctx by (simp add: no_dangling_def)
    ultimately have "curl_mgr R' \<and> (multi R' = Null \<and> curl_users R' = 0 \<or> multi R' = Live \<and> curl_users R' = 1)"
      using r(2) by (auto simp: manager_init_def Let_def split: if_splits)
    with True r F show ?thesis by (auto simp: requests_ready_def)
  next
    case False
    then have "backend_init openai a R = (rc, R')" using i unfolding init_requests_def by (simp only: if_False)
    then have "R' = R \<or> openai \<and> R' = R\<lparr>curl_users := 1\<rparr>"
      using r(2) by (auto simp: backend_init_def split: if_splits)
    then show ?thesis
    proof
      assume "openai \<and> R' = R\<lparr>curl_users := 1\<rparr>"
      with False r show ?thesis by (simp add: requests_ready_def)
    qed (use r in simp)
  qed
qed

lemma init_workers_cases:
  assumes i: "init_workers a R = (rc, R')" and f: "fresh_at ctx h E R"
    and r: "requests_ready openai R" "g_pool R = None"
  shows "fresh_at ctx h E R' \<and> requests_ready openai R'"
proof -
  obtain x p where "R' = R \<or> use_thread_pool (pctx R) \<and> R' = R\<lparr>pool_set := x, g_pool := p\<rparr> \<and> x"
    using i by (auto simp: init_workers_def main_creates_pool_def Let_def split: if_splits prod.splits)
  with f r show ?thesis by (auto simp: requests_ready_def intro: fresh_same)
qed

lemma init_requests_pool: "init_requests openai a R = (rc, R') \<Longrightarrow> g_pool R' = g_pool R"
  by (auto simp: init_requests_def manager_init_def backend_init_def Let_def split: if_splits)

lemma ring_init_pool: "ring_init a R = (rc, R') \<Longrightarrow> g_pool R' = g_pool R"
  by (auto simp: ring_init_def with_ctx_def split: if_splits)

text \<open>
  \<open>start_up\<close> reaches the creation of the listener, or ends before it with everything released.
\<close>

definition ended_with :: "int \<Rightarrow> host \<Rightarrow> endpoint \<Rightarrow> main_result \<Rightarrow> bool" where
  "ended_with rc h E out \<longleftrightarrow> (\<exists>R. out = Exit rc R \<and> released R \<and> fds_of (host (srv R)) = fds_of h \<and> endp R = E)"

lemma fresh_ends:
  assumes "fresh_at ctx h E R" "requests_ready openai R" "idle_endpoint E"
  shows "ended_with rc h E (daemon_cleanup openai rc R)"
  using cleanup_exit [of R openai rc] assms
  by (fastforce simp: ended_with_def fresh_at_def close_listener_cases)

definition all_ready :: "init_answers \<Rightarrow> bool" where
  "all_ready a \<longleftrightarrow> ia_recv_contexts a \<and> ia_connections a \<and> ia_ring_plain a \<and> ia_curl_global a \<and> ia_multi a
     \<and> ia_sockets a \<and> ia_pool a = (True, True, True)"

lemma all_ready_steps:
  assumes "all_ready a"
  shows "conn_pool_init (ia_connections a) ctx \<noteq> None" "ring_init a R = (rc, R') \<Longrightarrow> rc = 0"
    "init_requests openai a R = (rc, R') \<Longrightarrow> rc = 0" "init_workers a R = (rc, R') \<Longrightarrow> rc = 0"
  using assms
  by (auto simp: all_ready_def conn_pool_init_def ring_init_def init_requests_def manager_init_def backend_init_def
      init_workers_def pool_init_def Let_def split: if_splits)

lemma start_up_cases:
  assumes s: "start_up openai a (main_resources ctx h E) = out" and E: "idle_endpoint E"
    and d: "no_dangling openai a ctx"
  shows "(\<not> all_ready a \<and> (\<exists>o'. out = Inl o' \<and> ended_with 1 h E o'))
    \<or> (\<exists>R rc s. fresh_at ctx h E R \<and> requests_ready openai R \<and> server_create_listener (srv R) = (rc, s)
        \<and> (rc < 0 \<longrightarrow> out = Inl (daemon_cleanup openai 1 (R\<lparr>srv := s\<rparr>)))
        \<and> (rc \<ge> 0 \<longrightarrow> (\<exists>R'. out = Inr R' \<and> srv R' = s)))"
proof -
  define R0 where "R0 = (main_resources ctx h E)\<lparr>recv_contexts := True\<rparr>"
  have none_held: "ended_with 1 h E (Exit 1 (main_resources ctx h E))" "ended_with 1 h E (Exit 1 R0)"
    by (simp_all add: ended_with_def released_def main_resources_def R0_def)
  show ?thesis
  proof (cases "ia_recv_contexts a \<and> conn_pool_init (ia_connections a) ctx \<noteq> None")
    case False
    then have "out = Inl (Exit 1 (main_resources ctx h E)) \<or> out = Inl (Exit 1 R0)"
      using s by (auto simp: start_up_def main_resources_def R0_def)
    moreover have "\<not> all_ready a" using False all_ready_steps(1) [of a ctx] by (auto simp: all_ready_def)
    ultimately show ?thesis using none_held by (intro disjI1) auto
  next
    case True
    then obtain c where c: "conn_pool_init (ia_connections a) ctx = Some c" and m: "ia_recv_contexts a" by auto
    define R1 where "R1 = with_ctx c R0"
    have f1: "fresh_at ctx h E R1" "requests_ready openai R1" "curl_users R1 = 0" "g_pool R1 = None"
      using pool_init_settings [OF c]
      by (simp_all add: R1_def R0_def with_ctx_def main_resources_def fresh_at_def requests_ready_def)
    obtain rc2 R2 where r2: "ring_init a R1 = (rc2, R2)" by fastforce
    have p: "pctx (main_resources ctx h E) = ctx" by (simp add: main_resources_def)
    note f2 = ring_init_cases [OF r2 f1(1-3)] ring_init_pool [OF r2]
    obtain rc3 R3 where r3: "init_requests openai a R2 = (rc3, R3)" by fastforce
    have g2: "fresh_at ctx h E R2" "requests_ready openai R2" "curl_users R2 = 0" using f2 by simp_all
    have f3: "fresh_at ctx h E R3" "requests_ready openai R3" "g_pool R3 = None"
      using init_requests_cases [OF r3 g2 d] init_requests_pool [OF r3] f2 f1(4) by simp_all
    obtain rc4 R4 where r4: "init_workers a R3 = (rc4, R4)" by fastforce
    note f4 = init_workers_cases [OF r4 f3]
    obtain rc5 t where r5: "server_create_listener (srv R4) = (rc5, t)" by fastforce
    define last where "last = (let R5 = R4\<lparr>srv := t\<rparr> in
        if metrics_port (pctx R5) > 0 then R5\<lparr>endp := snd (metrics_start (ia_metrics a) (endp R5))\<rparr> else R5)"
    have s2: "out = (if rc2 < 0 then Inl (daemon_cleanup openai 1 R2)
        else if rc3 < 0 then Inl (daemon_cleanup openai 1 R3)
        else if rc4 < 0 then Inl (daemon_cleanup openai 1 R4)
        else if rc5 < 0 then Inl (daemon_cleanup openai 1 (R4\<lparr>srv := t\<rparr>)) else Inr last)"
      unfolding s [symmetric] start_up_def p c option.case R0_def [symmetric] R1_def [symmetric] r2 prod.case r3 r4 r5
        last_def using m by simp
    have "srv last = t" by (simp add: last_def Let_def)
    show ?thesis
    proof (cases "rc2 < 0 \<or> rc3 < 0 \<or> rc4 < 0")
      case True
      then have "\<exists>R. out = Inl (daemon_cleanup openai 1 R) \<and> fresh_at ctx h E R \<and> requests_ready openai R"
        using s2 g2 f3 f4 by (cases "rc2 < 0"; cases "rc3 < 0") auto
      moreover have "\<not> all_ready a" using True all_ready_steps(2-4) r2 r3 r4 by fastforce
      ultimately show ?thesis using fresh_ends [OF _ _ E] by blast
    next
      case False
      note f4
      moreover have "rc5 < 0 \<Longrightarrow> out = Inl (daemon_cleanup openai 1 (R4\<lparr>srv := t\<rparr>))"
        using s2 False by auto
      moreover have "rc5 \<ge> 0 \<Longrightarrow> \<exists>R'. out = Inr R' \<and> srv R' = t" using s2 False \<open>srv last = t\<close> by auto
      ultimately show ?thesis using r5 by blast
    qed
  qed
qed

end
