(* ===== verification/Loop_Counters.thy ===== *)
theory Loop_Counters
  imports Loop_System
begin

text \<open>
  The counters of the event loop. Outside the benchmark mode no handler touches them. In the benchmark
  mode a connection is counted once when it is accepted and at most once when it ends; \<open>open_requests\<close>
  is how many were started without having ended, beyond the connections in use, and no handler makes it
  smaller.
\<close>

definition totals :: "daemon_ctx \<Rightarrow> nat list" where
  "totals ctx = [total_started ctx, total_completed ctx, total_failed ctx, total_bytes ctx]"

definition uncounted :: "daemon_ctx \<Rightarrow> int" where
  \<comment> \<open>requests started that neither ended nor are in use\<close>
  "uncounted ctx = int (total_started ctx) - int (total_completed ctx) - int (total_failed ctx) - active_connections ctx"

definition accounts :: "int \<Rightarrow> loop \<Rightarrow> loop \<Rightarrow> bool" where
  "accounts d L L' \<longleftrightarrow> benchmark_mode (dctx L') = benchmark_mode (dctx L)
     \<and> (if benchmark_mode (dctx L) then uncounted (dctx L') = uncounted (dctx L) + d
        else totals (dctx L') = totals (dctx L))"

lemma accounts_refl [simp]: "accounts 0 L L"
  by (simp add: accounts_def)

lemma accounts_trans: "accounts d L L1 \<Longrightarrow> accounts e L1 L2 \<Longrightarrow> accounts (d + e) L L2"
  by (auto simp: accounts_def)

definition counters :: "daemon_ctx \<Rightarrow> bool \<times> nat list \<times> int" where
  "counters ctx = (benchmark_mode ctx, totals ctx, active_connections ctx)"

lemma accounts_same: "counters (dctx L') = counters (dctx L) \<Longrightarrow> accounts 0 L L'"
  by (simp add: accounts_def counters_def uncounted_def totals_def)

lemma counters_frame [simp]:
  "counters (upd_conn i f ctx) = counters ctx" "counters (ctx\<lparr>d_fds := a\<rparr>) = counters ctx"
  "counters (ctx\<lparr>dirty_head := b\<rparr>) = counters ctx" "counters (ctx\<lparr>dirty_tail := b\<rparr>) = counters ctx"
  "counters (ctx\<lparr>free_list := b\<rparr>) = counters ctx" "counters (ctx\<lparr>peak_connections := p\<rparr>) = counters ctx"
  "counters (ctx\<lparr>shutdown_requested := s\<rparr>) = counters ctx"
  "counters (close_fd fd ctx) = counters ctx"
  by (simp_all add: counters_def totals_def upd_conn_def close_fd_def)

lemma accounts_with_conn [simp]: "accounts 0 L (with_conn i f L)"
  by (rule accounts_same) (simp add: with_conn_def)

lemma accounts_ctx: "counters c = counters (dctx L) \<Longrightarrow> accounts 0 L (L\<lparr>dctx := c\<rparr>)"
  by (rule accounts_same) simp

lemma accounts_frame [simp]: "accounts d L (L'\<lparr>lring := r\<rparr>) = accounts d L L'" "accounts d L (L'\<lparr>wpool := p\<rparr>) = accounts d L L'"
  "accounts d (L\<lparr>lring := r\<rparr>) L' = accounts d L L'" "accounts d (L\<lparr>wpool := p\<rparr>) L' = accounts d L L'"
  by (simp_all add: accounts_def)

lemma accounts_after [simp]: "accounts d (with_conn i f L) L' = accounts d L L'"
proof -
  have c: "counters (dctx (with_conn i f L)) = counters (dctx L)" by (simp add: with_conn_def)
  then have "benchmark_mode (dctx (with_conn i f L)) = benchmark_mode (dctx L)"
    "totals (dctx (with_conn i f L)) = totals (dctx L)"
    "uncounted (dctx (with_conn i f L)) = uncounted (dctx L)"
    by (simp_all add: counters_def totals_def uncounted_def)
  then show ?thesis by (simp add: accounts_def)
qed

section \<open>A connection ends\<close>

lemma unmark_counters: "daemon_unmark_connection_dirty i ctx = Some c \<Longrightarrow> counters c = counters ctx"
  by (auto simp: daemon_unmark_connection_dirty_def clear_dirty_def dirty_unlink_def Let_def
      split: if_splits option.splits bind_splits)

lemma conn_free_counters:
  "counters (conn_free i c) = (benchmark_mode c, totals c, active_connections c - 1)"
proof -
  have "counters (conn_close_fds i c) = counters c" by (simp add: conn_close_fds_def Let_def)
  then show ?thesis by (simp add: conn_free_def Let_def counters_def totals_def upd_conn_def)
qed

lemma cleanup_accounts: "cleanup_connection i L = Some L' \<Longrightarrow> accounts 1 L L'"
  using unmark_counters [of i "dctx L"] conn_free_counters
  by (fastforce simp: cleanup_connection_def accounts_def counters_def uncounted_def totals_def split: bind_splits)

lemma count_failed_accounts: "accounts (-1) L (count_failed L)"
  by (simp add: accounts_def count_failed_def uncounted_def)

lemma count_completed_accounts: "accounts (-1) L (count_completed i L)"
  by (simp add: accounts_def count_completed_def uncounted_def)

lemma fail_accounts: "fail_connection i L = Some L' \<Longrightarrow> accounts 0 L L'"
  using accounts_trans [OF count_failed_accounts cleanup_accounts] by (simp add: fail_connection_def)

lemma complete_accounts: "cleanup_connection i (count_completed i L) = Some L' \<Longrightarrow> accounts 0 L L'"
  using accounts_trans [OF count_completed_accounts cleanup_accounts] by simp

section \<open>The handlers\<close>

lemma submit_write_accounts:
  assumes w: "submit_write i buf refused L = Some (b, L')" and r: "\<And>L. accounts (-1) L (refused L)"
  shows "accounts 0 L L'"
proof -
  obtain rc r1 where a: "ring_submit_write (conn L i) buf (lring L) = (rc, r1)" by fastforce
  define L1 where "L1 = L\<lparr>lring := r1\<rparr>"
  show ?thesis
  proof (cases "rc < 0")
    case True
    then have "cleanup_connection i (refused L1) = Some L'"
      using w a by (auto simp: submit_write_def L1_def Let_def)
    from accounts_trans [OF r cleanup_accounts [OF this]] show ?thesis by (simp add: L1_def)
  next
    case False
    then show ?thesis
      using w a by (auto simp: submit_write_def Let_def split: prod.splits if_splits dest!: fail_accounts)
  qed
qed

lemmas counted_writes = submit_write_accounts [OF _ count_failed_accounts]
  submit_write_accounts [OF _ count_completed_accounts]

lemma start_streaming_accounts: "start_streaming i L = Some L' \<Longrightarrow> accounts 0 L L'"
  using counted_writes(1) by (fastforce simp: start_streaming_def)

lemma start_async_write_accounts: "start_async_write i L = Some L' \<Longrightarrow> accounts 0 L L'"
  using accounts_trans [of 0 L _ 0] counted_writes(1) [of i _ L]
  by (fastforce simp: start_async_write_def Let_def split: option.splits if_splits)

lemma handle_async_write_accounts: "handle_async_write i res L = Some L' \<Longrightarrow> accounts 0 L L'"
  using fail_accounts start_async_write_accounts complete_accounts
  by (fastforce simp: handle_async_write_def Let_def split: if_splits)

lemma send_next_accounts: "send_next i mem L = Some L' \<Longrightarrow> accounts 0 L L'"
  using fail_accounts counted_writes
  by (fastforce simp: send_next_def Let_def split: if_splits option.splits prod.splits)

lemma handle_write_accounts: "handle_write i res mem L = Some L' \<Longrightarrow> accounts 0 L L'"
  using fail_accounts [of i] counted_writes(1) [of i] send_next_accounts [of i mem] complete_accounts [of i]
  by (fastforce simp: handle_write_def Let_def split: if_splits option.splits)

lemma handle_recv_fd_accounts: "handle_recv_fd i res a L = Some L' \<Longrightarrow> accounts 0 L L'"
proof -
  have d: "accounts 0 L L'" if "dispatch i w L = Some L'" for w L
    using that by (auto simp: dispatch_def Let_def split: if_splits prod.splits
        dest!: fail_accounts start_streaming_accounts)
  have c: "accounts 0 (L\<lparr>dctx := close_fd fd (dctx L)\<rparr>) L' = accounts 0 L L'" for fd L
    by (simp add: accounts_def close_fd_def uncounted_def totals_def)
  show "accounts 0 L L'" if "handle_recv_fd i res a L = Some L'"
    using that by (auto simp: handle_recv_fd_def Let_def c split: if_splits dest!: fail_accounts d)
qed

lemma handle_completion_accounts: "handle_completion i L = Some L' \<Longrightarrow> accounts 0 L L'"
  by (auto simp: handle_completion_def split: if_splits
      dest!: start_streaming_accounts complete_accounts fail_accounts)

lemma drain_accounts:
  assumes "drain_completions L = Some L'"
  shows "accounts 0 L L'"
proof (rule drain_completions.raw_induct [where P = "accounts 0", OF _ assms])
  fix f L L'
  assume IH: "\<And>L L'. f L = Some L' \<Longrightarrow> accounts 0 L L'"
    and eq: "(case pool_get_completion (wpool L) of (c, p) \<Rightarrow>
        if c = None then Some (L\<lparr>wpool := p\<rparr>)
        else do { L1 \<leftarrow> handle_completion (the c) (L\<lparr>wpool := p\<rparr>); f L1 }) = Some L'"
  obtain c p where g: "pool_get_completion (wpool L) = (c, p)" by fastforce
  show "accounts 0 L L'"
  proof (cases c)
    case (Some i)
    then obtain L1 where h: "handle_completion i (L\<lparr>wpool := p\<rparr>) = Some L1" "f L1 = Some L'"
      using eq g by (auto split: bind_splits)
    from accounts_trans [OF handle_completion_accounts [OF h(1)] IH [OF h(2)]] show ?thesis by simp
  qed (use eq g in auto)
qed

lemma conn_alloc_counters:
  assumes "conn_alloc mem ctx = (r, c)"
  shows "benchmark_mode c = benchmark_mode ctx \<and> totals c = totals ctx
    \<and> active_connections c = active_connections ctx + (if r = None then 0 else 1)"
  using assms
  by (auto simp: conn_alloc_def Let_def totals_def upd_conn_def split: option.splits)

lemma handle_accept_accounts:
  assumes h: "handle_accept mem fd multi L = Some L'"
  shows "\<exists>d \<ge> 0. accounts d L L'"
proof -
  define L1 where "L1 = (if \<not> multi \<and> \<not> shutdown_requested (dctx L) then L\<lparr>lring := rearm_accept (lring L)\<rparr> else L)"
  have L1: "accounts d L1 M = accounts d L M" "dctx L1 = dctx L" for d M by (simp_all add: L1_def)
  obtain r c where al: "conn_alloc mem (dctx L) = (r, c)" by fastforce
  note A = conn_alloc_counters [OF al]
  note h' = h [unfolded handle_accept_def Let_def, folded L1_def, unfolded L1(2) al prod.case]
  show ?thesis
  proof (cases "fd < 0 \<or> r = None")
    case True
    then have "L' = L1 \<or> L' = L1\<lparr>dctx := close_fd fd c\<rparr> \<and> r = None" using h' by (auto split: if_splits)
    moreover have "accounts 0 L (L1\<lparr>dctx := close_fd fd c\<rparr>)" if "r = None"
      using A that by (simp add: accounts_def uncounted_def totals_def close_fd_def)
    moreover have "accounts 0 L L1" using L1 by (simp add: accounts_def)
    ultimately show ?thesis by blast
  next
    case False
    then obtain i where i: "r = Some i" "\<not> fd < 0" by auto
    define c1 where "c1 = upd_conn i (\<lambda>c. c\<lparr>unix_fd := fd, state := CONN_STATE_RECEIVING_FD\<rparr>) c"
    define c2 where "c2 = (if benchmark_mode c1 then c1\<lparr>total_started := total_started c1 + 1\<rparr> else c1)"
    obtain rc r1 where s: "ring_submit_recvmsg (conn_at c2 i) (lring L1) = (rc, r1)" by fastforce
    define L2 where "L2 = L1\<lparr>dctx := c2, lring := r1\<rparr>"
    have "counters c1 = counters c" by (simp add: c1_def)
    then have "accounts 0 L L2"
      using A i by (auto simp: accounts_def L2_def c2_def counters_def uncounted_def totals_def)
    moreover have "(if rc < 0 then cleanup_connection i L2 else Some L2) = Some L'"
      using h' i s unfolding c1_def c2_def L2_def by simp
    moreover have "accounts 1 L L'" if "cleanup_connection i L2 = Some L'"
      using accounts_trans [OF \<open>accounts 0 L L2\<close> cleanup_accounts [OF that]] by simp
    ultimately show ?thesis by (cases "rc < 0") (auto intro: exI [of _ 0] exI [of _ 1])
  qed
qed

lemma process_cqe_accounts:
  assumes p: "process_cqe a e L = Some L'"
  shows "\<exists>d \<ge> 0. accounts d L L'"
proof -
  obtain op cid where u: "ring_unpack_data (cqe_data e) = (op, cid)" by fastforce
  have "accounts 0 L L'" if "op \<noteq> Some OP_ACCEPT"
  proof (cases "op = Some OP_EVENTFD")
    case True
    then obtain L1 where d: "drain_completions (L\<lparr>wpool := (wpool L)\<lparr>event_count := 0\<rparr>\<rparr>) = Some L1"
      and l: "L' = L1 \<or> (\<exists>r. L' = L1\<lparr>lring := r\<rparr>)"
      using p u by (auto simp: process_cqe_def handle_eventfd_def split: bind_splits if_splits)
    from drain_accounts [OF d] l show ?thesis by auto
  next
    case False
    then show ?thesis
      using that p u
      by (auto simp: process_cqe_def Let_def split: option.splits op_type.splits if_splits
          dest!: handle_recv_fd_accounts handle_async_write_accounts handle_write_accounts)
  qed
  moreover have "\<exists>d \<ge> 0. accounts d L L'" if "op = Some OP_ACCEPT"
    using that p u handle_accept_accounts by (auto simp: process_cqe_def)
  ultimately show ?thesis by (cases "op = Some OP_ACCEPT") auto
qed

section \<open>Runs\<close>

lemma init_loop_counters [simp]: "counters (init_loop n ctx) = counters ctx"
  by (induction n arbitrary: ctx) simp_all

lemma pool_init_counters:
  "conn_pool_init True ctx = Some c \<Longrightarrow> counters c = (benchmark_mode ctx, totals ctx, 0)"
  using init_loop_counters [of "nat (max_connections ctx)"
      "ctx\<lparr>connections := replicate (nat (max_connections ctx)) zero_connection, free_list := None\<rparr>"]
  by (auto simp: conn_pool_init_def Let_def counters_def totals_def)

lemma enter_loop_ctx: "enter_loop L = Some L' \<Longrightarrow> dctx L' = dctx L"
  by (auto simp: enter_loop_def split: prod.splits if_splits)

lemma daemon_start_ctx: "daemon_start c r p = Some S \<Longrightarrow> dctx (lp S) = c"
  by (auto simp: daemon_start_def dest: enter_loop_ctx)

definition never_less :: "sys \<Rightarrow> sys \<Rightarrow> bool" where
  "never_less S S' \<longleftrightarrow> (\<exists>d \<ge> 0. accounts d (lp S) (lp S'))"

lemma never_less_trans: "never_less S S1 \<Longrightarrow> never_less S1 S2 \<Longrightarrow> never_less S S2"
  unfolding never_less_def by (meson accounts_trans add_nonneg_nonneg)

lemma completes_accounts: "completes S a e S1 \<Longrightarrow> accounts 0 (lp S) (lp S1)"
  by (erule completesE) (auto simp: retire_def opened_def Loop_System.received_def with_conn_def intro!: accounts_same)

lemma step_accounts:
  assumes "loop_step S S'"
  shows "never_less S S'"
  using assms
proof (cases rule: loop_step.cases)
  case (cqe a e S1 L)
  then obtain d where "d \<ge> 0" "accounts d (lp S1) L" using process_cqe_accounts by blast
  with accounts_trans [OF completes_accounts [OF cqe(2)], of d L] cqe show ?thesis
    by (auto simp: never_less_def)
next
  case stop
  then show ?thesis by (auto simp: never_less_def intro!: exI [of _ 0] accounts_same)
qed (auto simp: never_less_def)

lemma reachable_accounts: "reachable S0 S \<Longrightarrow> never_less S0 S"
proof (induction rule: reachable.induct)
  case here
  show ?case by (auto simp: never_less_def intro!: exI [of _ 0])
next
  case (onward S S')
  then show ?case using step_accounts never_less_trans by blast
qed

end
