(* ===== verification/Daemon_Run.thy ===== *)
theory Daemon_Run
  imports Loop_Correctness
begin

text \<open>
  \<open>daemon_run\<close> (daemon.c) in the default build: the loop that waits for completions, handles those that
  are there and submits what the handlers prepared, and the shutdown that goes on until no connection
  is active or the time is over. The phase is the place in the function; workers and signals act in
  every phase. The time is in seconds, as \<open>time(NULL)\<close> gives it.
\<close>

section \<open>The function\<close>

datatype phase =
    Waiting \<comment> \<open>at the head of the main loop\<close>
  | Handling \<comment> \<open>in \<open>io_uring_for_each_cqe\<close> of the main loop\<close>
  | Draining int \<comment> \<open>at the head of the loop of the shutdown that began then\<close>
  | Draining_handling int
  | Returned int

record run =
  phase :: phase
  now :: int
  sys_of :: sys

abbreviation rctx :: "run \<Rightarrow> daemon_ctx" where "rctx D \<equiv> dctx (lp (sys_of D))"

definition handles :: "answers \<Rightarrow> cqe \<Rightarrow> run \<Rightarrow> phase \<Rightarrow> run \<Rightarrow> bool" where
  \<comment> \<open>one completion is there and is handled\<close>
  "handles a e D ph D' \<longleftrightarrow> (\<exists>S L. completes (sys_of D) a e S \<and> process_cqe a e (lp S) = Some L
     \<and> D' = D\<lparr>phase := ph, sys_of := S\<lparr>lp := L\<rparr>\<rparr>)"

definition submitted :: "run \<Rightarrow> phase \<Rightarrow> run" where
  "submitted D ph = D\<lparr>phase := ph, sys_of := (sys_of D)\<lparr>lp := (lp (sys_of D))\<lparr>lring := ring_submit (lring (lp (sys_of D)))\<rparr>\<rparr>\<rparr>"

definition shutdown_late :: "run \<Rightarrow> int \<Rightarrow> bool" where
  "shutdown_late D t \<longleftrightarrow> now D - t > shutdown_timeout_s (rctx D)"

inductive other_thread :: "sys \<Rightarrow> sys \<Rightarrow> bool" where
  \<comment> \<open>a worker or the signal handler\<close>
  take: "take_work (wpool (lp S)) = (Some c, p)
    \<Longrightarrow> other_thread S (S\<lparr>lp := (lp S)\<lparr>wpool := p\<rparr>, processing := c # processing S\<rparr>)"
| finish: "c \<in> set (processing S)
    \<Longrightarrow> other_thread S (S\<lparr>lp := with_conn c worker_finish (lp S), processing := remove1 c (processing S),
                   adding := c # adding S\<rparr>)"
| add: "c \<in> set (adding S) \<Longrightarrow> pool_add_completion c (wpool (lp S)) = (True, p)
    \<Longrightarrow> other_thread S (S\<lparr>lp := (lp S)\<lparr>wpool := p\<rparr>, adding := remove1 c (adding S)\<rparr>)"
| stop: "other_thread S (S\<lparr>lp := (lp S)\<lparr>dctx := (dctx (lp S))\<lparr>shutdown_requested := True\<rparr>\<rparr>\<rparr>)"

inductive run_step :: "run \<Rightarrow> run \<Rightarrow> bool" where
  leave: "phase D = Waiting \<Longrightarrow> shutdown_requested (rctx D) \<Longrightarrow> run_step D (D\<lparr>phase := Draining (now D)\<rparr>)"
| broken: "phase D = Waiting \<Longrightarrow> \<not> shutdown_requested (rctx D) \<Longrightarrow> run_step D (D\<lparr>phase := Draining (now D)\<rparr>)"
  \<comment> \<open>\<open>ring_wait_cqe\<close> failed\<close>
| wake: "phase D = Waiting \<Longrightarrow> \<not> shutdown_requested (rctx D) \<Longrightarrow> handles a e D Handling D' \<Longrightarrow> run_step D D'"
| next_cqe: "phase D = Handling \<Longrightarrow> handles a e D Handling D' \<Longrightarrow> run_step D D'"
| turn: "phase D = Handling \<Longrightarrow> run_step D (submitted D Waiting)"
| empty: "phase D = Draining t \<Longrightarrow> active_connections (rctx D) \<le> 0 \<Longrightarrow> run_step D (D\<lparr>phase := Returned 0\<rparr>)"
| late: "phase D = Draining t \<Longrightarrow> active_connections (rctx D) > 0 \<Longrightarrow> shutdown_late D t
    \<Longrightarrow> run_step D (D\<lparr>phase := Returned 0\<rparr>)"
| drain: "phase D = Draining t \<Longrightarrow> active_connections (rctx D) > 0 \<Longrightarrow> \<not> shutdown_late D t
    \<Longrightarrow> handles a e D (Draining_handling t) D' \<Longrightarrow> run_step D D'"
| drain_next: "phase D = Draining_handling t \<Longrightarrow> handles a e D (Draining_handling t) D' \<Longrightarrow> run_step D D'"
| drain_turn: "phase D = Draining_handling t \<Longrightarrow> run_step D (submitted D (Draining t))"
| other_thread: "other_thread (sys_of D) S \<Longrightarrow> run_step D (D\<lparr>sys_of := S\<rparr>)"
| clock: "0 \<le> k \<Longrightarrow> run_step D (D\<lparr>now := now D + k\<rparr>)" \<comment> \<open>a wait that ends without a completion\<close>

inductive run_reaches :: "run \<Rightarrow> run \<Rightarrow> bool" for D0 where
  here: "run_reaches D0 D0"
| onward: "run_reaches D0 D \<Longrightarrow> run_step D D' \<Longrightarrow> links_refused (sys_of D') = 0 \<Longrightarrow> run_reaches D0 D'"

definition daemon_runs :: "daemon_ctx \<Rightarrow> run \<Rightarrow> bool" where
  \<comment> \<open>states of \<open>daemon_run\<close> after its first submission\<close>
  "daemon_runs ctx D \<longleftrightarrow> (\<exists>D0. started ctx (sys_of D0) \<and> phase D0 = Waiting \<and> run_reaches D0 D)"

section \<open>It is the system of the event loop\<close>

lemma other_thread_loop: "other_thread S S' \<Longrightarrow> loop_step S S'"
  by (induction rule: other_thread.induct) (auto intro: loop_step.intros)

lemma handles_loop: "handles a e D ph D' \<Longrightarrow> loop_step (sys_of D) (sys_of D')"
  by (auto simp: handles_def intro: loop_step.cqe)

lemma submitted_loop: "loop_step (sys_of D) (sys_of (submitted D ph))"
  by (simp add: submitted_def loop_step.submit)

lemma run_step_loop: "run_step D D' \<Longrightarrow> sys_of D' = sys_of D \<or> loop_step (sys_of D) (sys_of D')"
  by (induction rule: run_step.induct) (auto intro: other_thread_loop handles_loop submitted_loop)

lemma run_reaches_loop: "run_reaches D0 D \<Longrightarrow> reachable (sys_of D0) (sys_of D)"
proof (induction rule: run_reaches.induct)
  case (onward D D')
  then show ?case using run_step_loop [of D D'] by (auto intro: reachable.onward)
qed (rule reachable.here)

lemma daemon_runs_loop: "daemon_runs ctx D \<Longrightarrow> runs ctx (sys_of D)"
  unfolding daemon_runs_def runs_def using run_reaches_loop by blast

section \<open>The end\<close>

lemma close_fold:
  assumes "distinct is" "set is \<subseteq> {..<length (connections ctx)}"
  shows "set (d_fds (fold conn_close_fds is ctx)) = set (d_fds ctx) - (\<Union>i \<in> set is. conn_fds (conn_at ctx i))"
  using assms
proof (induction "is" arbitrary: ctx)
  case (Cons i "is")
  have "conn_at (conn_close_fds i ctx) j = conn_at ctx j" if "j \<in> set is" for j
    using Cons.prems that by (cases "i = j") auto
  then have "(\<Union>j \<in> set is. conn_fds (conn_at (conn_close_fds i ctx) j)) = (\<Union>j \<in> set is. conn_fds (conn_at ctx j))"
    by simp
  moreover have "set (d_fds (conn_close_fds i ctx)) = set (d_fds ctx) - conn_fds (conn_at ctx i)"
    using Cons.prems by (auto simp: conn_close_fds_fds conn_fds_def)
  moreover have "set (d_fds (fold conn_close_fds is (conn_close_fds i ctx)))
      = set (d_fds (conn_close_fds i ctx)) - (\<Union>j \<in> set is. conn_fds (conn_at (conn_close_fds i ctx) j))"
    using Cons.prems by (intro Cons.IH) auto
  ultimately show ?case by auto
qed simp

lemma pool_cleanup_fds:
  assumes "fds_ok base ctx"
  shows "set (d_fds (conn_pool_cleanup ctx)) = base"
  using assms close_fold [of "[0..<length (connections ctx)]" ctx]
  by (auto simp: conn_pool_cleanup_def fds_ok_def atLeast0LessThan)

lemma returned_zero: "run_reaches D0 D \<Longrightarrow> phase D0 = Waiting \<Longrightarrow> phase D = Returned rc \<Longrightarrow> rc = 0"
proof (induction arbitrary: rc rule: run_reaches.induct)
  case (onward D D')
  from onward.hyps(2) onward.IH [OF onward.prems(1)] onward.prems(2) show ?case
    by (cases rule: run_step.cases) (auto simp: handles_def submitted_def)
qed simp

end
