(* ===== verification/Endpoint_Correctness.thy ===== *)
theory Endpoint_Correctness
  imports Startup_Steps Loop_Counters Daemon_Run
begin

text \<open>
  The daemon around its event loop: what starting, listening, answering for metrics and stopping
  guarantee, and where they fail.
\<close>

section \<open>The listener\<close>

text \<open>
  C9. Creating the listening socket never takes a socket away on which another process listens: a stale
  one is removed, and everything that listens is still there afterwards. When it succeeds the path of the
  configuration names a socket that listens, bound by the one descriptor that was opened; when it fails
  no descriptor stays open. The path fits into an address.
\<close>

theorem listener_spares_live_sockets:
  assumes "server_create_listener s = (rc, s')" "length (socket_path (sctx s)) \<le> 107"
  shows "(\<forall>p n. names (host s) p = Some n \<longrightarrow> foreign_live n \<longrightarrow> names (host s') p = Some n)
    \<and> (if rc = 0
       then open_fds (proc (host s')) = listen_fd s' # open_fds (proc (host s))
         \<and> listen_fd s' \<notin> set (open_fds (proc (host s)))
         \<and> names (host s') (socket_path (sctx s))
             = Some (Socket_file \<lparr>bound_by = Some (listen_fd s'), seqpacket = True, listening = True\<rparr>)
       else rc = -1 \<and> open_fds (proc (host s')) = open_fds (proc (host s)) \<and> listen_fd s' = listen_fd s)"
  using create_listener_cases [OF assms] unfolding spares_def by (cases "rc = 0") simp_all

text \<open>The calls of the process succeed, whichever they are.\<close>

definition willing :: "host \<Rightarrow> bool" where
  "willing h \<longleftrightarrow> (\<forall>n. 0 \<le> ret (answers (proc h) n))"

definition live :: "node option \<Rightarrow> bool" where
  "live n \<longleftrightarrow> n = Some (Socket_file \<lparr>bound_by = None, seqpacket = True, listening = True\<rparr>)"

lemma willing_call: "willing h \<Longrightarrow> h_call h = (a, h1) \<Longrightarrow> 0 \<le> ret a \<and> willing h1 \<and> names h1 = names h"
  by (auto simp: willing_def h_call_def kcall_def Let_def)

lemma willing_calls:
  assumes "willing h"
  shows "h_simple h = (r, h1) \<Longrightarrow> willing h1 \<and> names h1 = names h"
    "h_socket h = (r, h1) \<Longrightarrow> willing h1 \<and> names h1 = names h \<and> 0 \<le> r"
    "p \<noteq> [] \<Longrightarrow> names h p \<noteq> None \<Longrightarrow> sys_stat p h = (r, h1) \<Longrightarrow> willing h1 \<and> names h1 = names h \<and> r = 0"
    "live (names h p) \<Longrightarrow> sys_connect_to p h = (r, h1) \<Longrightarrow> willing h1 \<and> names h1 = names h \<and> r = 0"
    "p \<noteq> [] \<Longrightarrow> names h p \<noteq> None \<Longrightarrow> sys_unlink p h = (r, h1) \<Longrightarrow> names h1 = (names h)(p := None)"
proof -
  have ok: "\<not> ret (answers (proc h) n) < 0" for n using assms by (simp add: willing_def not_less)
  note evals = ok h_simple_def h_socket_def sys_stat_def sys_connect_to_def sys_unlink_def sys_simple_def sys_socket_def
    h_call_def kcall_def Let_def file_at_def
  show "h_simple h = (r, h1) \<Longrightarrow> willing h1 \<and> names h1 = names h"
    "h_socket h = (r, h1) \<Longrightarrow> willing h1 \<and> names h1 = names h \<and> 0 \<le> r"
    "p \<noteq> [] \<Longrightarrow> names h p \<noteq> None \<Longrightarrow> sys_stat p h = (r, h1) \<Longrightarrow> willing h1 \<and> names h1 = names h \<and> r = 0"
    "live (names h p) \<Longrightarrow> sys_connect_to p h = (r, h1) \<Longrightarrow> willing h1 \<and> names h1 = names h \<and> r = 0"
    "p \<noteq> [] \<Longrightarrow> names h p \<noteq> None \<Longrightarrow> sys_unlink p h = (r, h1) \<Longrightarrow> names h1 = (names h)(p := None)"
    using assms by (auto simp: evals willing_def live_def)
qed

lemma live_refused:
  assumes w: "willing h" and l: "live (names h p)" and p: "p \<noteq> []" "length p \<le> 107"
    and c: "server_check_stale_socket p h = (rc, h')"
  shows "rc = -1 \<and> willing h' \<and> live (names h' p)"
proof -
  have n: "names h p \<noteq> None" using l by (simp add: live_def)
  obtain r h1 where a: "sys_stat p h = (r, h1)" by fastforce
  note A = willing_calls(3) [OF w p(1) n a]
  obtain fd h2 where b: "h_socket h1 = (fd, h2)" by fastforce
  note B = willing_calls(2) [OF _ b]
  obtain x h3 where f: "h_simple h2 = (x, h3)" by fastforce
  note F = willing_calls(1) [OF _ f]
  obtain y h4 where g: "h_simple h3 = (y, h4)" by fastforce
  note G = willing_calls(1) [OF _ g]
  obtain r2 h5 where k: "sys_connect_to p h4 = (r2, h5)" by fastforce
  note K = willing_calls(4) [OF _ _ k]
  have n5: "willing h5" "names h5 = names h" "r2 = 0" "r = 0" "0 \<le> fd" using A B F G K l by simp_all
  have "S_ISSOCK p h1" using A l p by (simp add: S_ISSOCK_def file_at_def live_def)
  then have "rc = -1" "h' = h_close fd h5"
    using c n5 a b f g k sun_path_short [OF p(2)] by (auto simp: server_check_stale_socket_def Let_def)
  with n5 l show ?thesis by (simp add: willing_def live_def h_close_def sys_close_def forget_def)
qed

text \<open>
  C36. A daemon that finds another one listening on its path refuses to start, and removes the other's
  socket on its way out: \<open>daemon_cleanup\<close> unlinks the path of the configuration whether the listener was
  created or not. The first daemon goes on, and no client can reach it any more.
\<close>

theorem second_daemon_removes_live_socket:
  assumes l: "live (names h (socket_path ctx))" and w: "willing h"
    and p: "socket_path ctx \<noteq> []" "length (socket_path ctx) \<le> 107"
    and E: "mfd (ep E) < 0" and d: "no_dangling openai a ctx"
    and r: "all_ready a"
  shows "\<exists>R. daemon_main openai a run (main_resources ctx h E) = Exit 1 R \<and> names (host (srv R)) (socket_path ctx) = None"
proof -
  let ?p = "socket_path ctx"
  obtain out where s: "start_up openai a (main_resources ctx h E) = out" by blast
  have i: "idle_endpoint E" using E by (simp add: idle_endpoint_def)
  obtain R rc s1 where R: "fresh_at ctx h E R" "requests_ready openai R" "server_create_listener (srv R) = (rc, s1)"
    "rc < 0 \<longrightarrow> out = Inl (daemon_cleanup openai 1 (R\<lparr>srv := s1\<rparr>))"
    using start_up_cases [OF s i d] r by blast
  have f: "host (srv R) = h" "socket_path (pctx R) = ?p" "listen_fd (srv R) = -1" "endp R = E"
    using R(1) by (simp_all add: fresh_at_def)
  obtain rk h1 where k: "server_check_stale_socket ?p h = (rk, h1)" by fastforce
  note K = live_refused [OF w l p k]
  have s1: "rc = -1" "s1 = (srv R)\<lparr>host := h1\<rparr>" using R(3) K by (simp_all add: server_create_listener_def f k)
  let ?t = "s1\<lparr>sctx := conn_pool_cleanup (sctx s1)\<rparr>"
  obtain R' where R': "daemon_cleanup openai 1 (R\<lparr>srv := s1\<rparr>) = Exit 1 R'" "srv R' = server_close_listener ?t"
    using cleanup_exit [of "R\<lparr>srv := s1\<rparr>" openai 1] i R(2) s1(2) f(4) by (auto simp: requests_ready_def)
  obtain z h2 where u: "sys_unlink ?p h1 = (z, h2)" by fastforce
  have "server_close_listener ?t = ?t\<lparr>host := h2\<rparr>"
    using u by (simp add: server_close_listener_def s1(2) f pool_cleanup_frame)
  moreover have "names h2 = (names h1)(?p := None)"
    using willing_calls(5) [OF _ p(1) _ u] K by (simp add: live_def)
  ultimately show ?thesis using s R(4) s1(1) R' by (simp add: daemon_main_def)
qed

section \<open>A start that fails\<close>


text \<open>The exception.\<close>

lemma manager_failure_uses_freed_handle:
  assumes "ia_recv_contexts a" "ia_connections a" "ia_ring_plain a" "\<not> no_dangling openai a ctx" "mfd (ep E) < 0"
  shows "start_up openai a (main_resources ctx h E) = Inl Freed_handle_used"
proof -
  obtain c where c: "conn_pool_init True ctx = Some c" by (simp add: conn_pool_init_def Let_def)
  have "use_curl_multi c" using pool_init_settings [OF c] assms(4) by (simp add: no_dangling_def)
  then show ?thesis
    using assms c
    by (auto simp: start_up_def main_resources_def no_dangling_def ring_init_def with_ctx_def init_requests_def
        manager_init_def Let_def daemon_cleanup_def curl_manager_cleanup_def metrics_stop_begin_def metrics_stop_end_def)
qed

section \<open>Metrics\<close>

text \<open>
  C34. Every request to the metrics endpoint is answered once and its descriptor closed: with the page for
  a request for it, with 404 otherwise. For every value of the counters the page fits into its buffer
  and the response into its own, the announced length is that of the body, and a reader of the page finds
  each counter with its value.
\<close>

theorem metrics_request_served:
  assumes "counters_in_range ctx"
  shows "\<exists>p. length p < 4096
    \<and> handle_request ctx r cfd m = Some (m_close cfd (case r of None \<Rightarrow> m
        | Some q \<Rightarrow> m_send cfd (if wants_metrics q then ok_response (length p) p else not_found) m))
    \<and> metric ''streaming_daemon_connections_active'' p = Some (dec_int (active_connections ctx))
    \<and> metric ''streaming_daemon_connections_peak'' p = Some (dec_int (peak_connections ctx))
    \<and> metric ''streaming_daemon_connections_max'' p = Some (dec_int (max_connections ctx))
    \<and> metric (requests_total ''started'') p = Some (decimal (total_started ctx))
    \<and> metric (requests_total ''completed'') p = Some (decimal (total_completed ctx))
    \<and> metric (requests_total ''failed'') p = Some (decimal (total_failed ctx))
    \<and> metric ''streaming_daemon_bytes_total'' p = Some (decimal (total_bytes ctx))"
  using page_length [OF assms] handle_request_answer [OF assms, of r cfd m] page_values [of ctx]
  by (intro exI [of _ "page ctx"] conjI) simp_all

text \<open>
  C35. The exit of the daemon waits for the client of the metrics endpoint. When the thread is between
  requests it ends by itself within two steps of the poll; but while it reads a request the exit
  waits in \<open>metrics_stop\<close>, before anything else is released, and no step of the program ends that: only the
  client can, by sending or by going away.
\<close>

theorem exit_waits_for_metrics_client:
  assumes "0 \<le> mfd (ep (endp R))" "endp R = E"
  shows "(thr E = Testing \<or> thr E = Polling \<longrightarrow> (\<exists>E1 E2. own_step ctx (metrics_stop_begin E) = Some E1
        \<and> (E2 = E1 \<or> own_step ctx E1 = Some E2) \<and> metrics_stop_end E2 \<noteq> None))
    \<and> (thr E = Reading fd \<longrightarrow> (\<exists>R'. daemon_cleanup openai rc R = Joining R' \<and> srv R' = srv R
        \<and> own_step ctx (endp R') = None \<and> metrics_stop_end (endp R') = None
        \<and> (counters_in_range ctx \<longrightarrow> (\<exists>E1 E2. metrics_thread ctx (Received r) (endp R') = Some E1
             \<and> own_step ctx E1 = Some E2 \<and> metrics_stop_end E2 \<noteq> None))))"
proof (intro conjI impI)
  let ?E = "metrics_stop_begin E"
  have E: "\<not> mfd (ep E) < 0" "m_shutdown (ep ?E)" "mfd (ep ?E) = mfd (ep E)" "thr ?E = thr E"
    using assms by (auto simp: metrics_stop_begin_def)
  assume "thr E = Testing \<or> thr E = Polling"
  then show "\<exists>E1 E2. own_step ctx ?E = Some E1 \<and> (E2 = E1 \<or> own_step ctx E1 = Some E2) \<and> metrics_stop_end E2 \<noteq> None"
  proof
    assume "thr E = Testing"
    then have "own_step ctx ?E = Some (?E\<lparr>thr := Ended\<rparr>)" using thread_ends(1) E by simp
    moreover have "metrics_stop_end (?E\<lparr>thr := Ended\<rparr>) \<noteq> None" using E by (simp add: metrics_stop_end_def)
    ultimately show ?thesis by blast
  next
    assume "thr E = Polling"
    then have "own_step ctx ?E = Some (?E\<lparr>thr := Testing\<rparr>)"
      "own_step ctx (?E\<lparr>thr := Testing\<rparr>) = Some (?E\<lparr>thr := Ended\<rparr>)"
      using E by (simp_all add: own_step_def)
    moreover have "metrics_stop_end (?E\<lparr>thr := Ended\<rparr>) \<noteq> None" using E by (simp add: metrics_stop_end_def)
    ultimately show ?thesis by blast
  qed
next
  let ?E = "metrics_stop_begin E"
  have E: "\<not> mfd (ep E) < 0" "m_shutdown (ep ?E)" "mfd (ep ?E) = mfd (ep E)" "thr ?E = thr E"
    using assms by (auto simp: metrics_stop_begin_def)
  assume t: "thr E = Reading fd"
  then have stuck: "metrics_stop_end ?E = None" "own_step ctx ?E = None"
    using E by (simp_all add: metrics_stop_end_def own_step_def)
  have answered: "\<exists>E1 E2. metrics_thread ctx (Received r) ?E = Some E1 \<and> own_step ctx E1 = Some E2 \<and> metrics_stop_end E2 \<noteq> None"
    if c: "counters_in_range ctx"
  proof -
    define m where "m = m_close fd (case r of None \<Rightarrow> ep ?E
      | Some q \<Rightarrow> m_send fd (if wants_metrics q then ok_response (length (page ctx)) (page ctx) else not_found) (ep ?E))"
    have "m_shutdown m" using E(2) by (simp add: m_def m_close_def m_send_def split: option.split)
    moreover have "metrics_thread ctx (Received r) ?E = Some \<lparr>ep = m, thr = Testing\<rparr>"
      using handle_request_answer [OF c, of r fd "ep ?E"] t E(4) by (simp add: m_def)
    ultimately show ?thesis by (simp add: own_step_def metrics_stop_end_def)
  qed
  show "\<exists>R'. daemon_cleanup openai rc R = Joining R' \<and> srv R' = srv R
        \<and> own_step ctx (endp R') = None \<and> metrics_stop_end (endp R') = None
        \<and> (counters_in_range ctx \<longrightarrow> (\<exists>E1 E2. metrics_thread ctx (Received r) (endp R') = Some E1
             \<and> own_step ctx E1 = Some E2 \<and> metrics_stop_end E2 \<noteq> None))"
  proof -
    define R' where "R' = R\<lparr>endp := ?E\<rparr>"
    have R': "endp R' = ?E" "srv R' = srv R" "daemon_cleanup openai rc R = Joining R'"
      using stuck assms(2) by (simp_all add: R'_def daemon_cleanup_def)
    show ?thesis
      using stuck answered unfolding R'(1) [symmetric] by (intro exI [of _ R'] conjI R'(2,3) impI) simp_all
  qed
qed

section \<open>Counters\<close>

lemma runs_accounts:
  assumes "runs ctx S"
  shows "\<exists>c d (S0 :: sys). d \<ge> 0 \<and> dctx (lp S0) = c \<and> counters c = (benchmark_mode ctx, totals ctx, 0) \<and> accounts d (lp S0) (lp S)"
proof -
  obtain S0 where S0: "started ctx S0" "reachable S0 S" using assms unfolding runs_def by blast
  obtain c p k ok where c: "conn_pool_init True ctx = Some c" "daemon_start c (ring_new k ok) p = Some S0"
    using S0(1) unfolding started_def by blast
  have "dctx (lp S0) = c" "counters c = (benchmark_mode ctx, totals ctx, 0)"
    using daemon_start_ctx [OF c(2)] pool_init_counters [OF c(1)] by simp_all
  moreover obtain d where "d \<ge> 0" "accounts d (lp S0) (lp S)"
    using reachable_accounts [OF S0(2)] unfolding never_less_def by blast
  ultimately show ?thesis by (intro exI [of _ c] exI [of _ d] exI [of _ S0]) simp
qed

text \<open>
  C17. The counters of requests in every state of the event loop. In the benchmark mode the connections
  that completed, those that failed and those in use are together never more than those that were
  started. In every other mode the four counters stay as they were at the start, zero, and the metrics
  page reports no requests and no bytes, however many clients are served.
\<close>

theorem requests_accounted:
  assumes "runs ctx S" "totals ctx = [0, 0, 0, 0]"
  shows "(benchmark_mode ctx \<longrightarrow> int (total_completed (dctx (lp S))) + int (total_failed (dctx (lp S)))
        + active_connections (dctx (lp S)) \<le> int (total_started (dctx (lp S))))
    \<and> (\<not> benchmark_mode ctx \<longrightarrow> metric (requests_total ''started'') (page (dctx (lp S))) = Some ''0''
        \<and> metric (requests_total ''completed'') (page (dctx (lp S))) = Some ''0''
        \<and> metric (requests_total ''failed'') (page (dctx (lp S))) = Some ''0''
        \<and> metric ''streaming_daemon_bytes_total'' (page (dctx (lp S))) = Some ''0'')"
proof -
  from runs_accounts [OF assms(1)] obtain c d and S0 :: sys where h: "d \<ge> 0" "dctx (lp S0) = c"
    "counters c = (benchmark_mode ctx, totals ctx, 0)" "accounts d (lp S0) (lp S)"
    by (elim exE conjE)
  have "char_of (48 :: nat) = CHR ''0''" by code_simp
  then have zero: "decimal 0 = ''0''" by (subst decimal.simps) simp
  have c: "benchmark_mode c = benchmark_mode ctx" "totals c = [0, 0, 0, 0]" "active_connections c = 0"
    using h(3) assms(2) by (simp_all add: counters_def)
  have "uncounted c = 0" using c by (simp add: uncounted_def totals_def)
  then have b: "0 \<le> uncounted (dctx (lp S))" if "benchmark_mode ctx"
    using h(1,4) c(1) that unfolding accounts_def h(2) by simp
  have t: "totals (dctx (lp S)) = [0, 0, 0, 0]" if "\<not> benchmark_mode ctx"
    using h(4) c(1,2) that unfolding accounts_def h(2) by simp
  show ?thesis
  proof (intro conjI impI)
    assume "benchmark_mode ctx"
    from b [OF this] show "int (total_completed (dctx (lp S))) + int (total_failed (dctx (lp S)))
        + active_connections (dctx (lp S)) \<le> int (total_started (dctx (lp S)))"
      by (simp add: uncounted_def)
  qed (use t zero in \<open>simp_all add: page_values totals_def\<close>)
qed

section \<open>Shutdown\<close>

text \<open>
  C10. When \<open>daemon_run\<close> returns, whether every connection had ended or the time for the shutdown was over,
  its result is 0, and \<open>daemon_cleanup\<close> then closes the descriptor of every client that is still
  connected, and no other; when no connection was active none is left to close.
\<close>

theorem shutdown_closes_clients:
  assumes r: "daemon_runs ctx D" and ret: "phase D = Returned rc"
  shows "rc = 0 \<and> set (d_fds (conn_pool_cleanup (rctx D))) = set (d_fds ctx)
    \<and> (active_connections (rctx D) \<le> 0 \<longrightarrow> in_use (sys_of D) = {} \<and> set (d_fds (rctx D)) = set (d_fds ctx))"
proof -
  note R = daemon_runs_loop [OF r]
  from R obtain n fs P where h: "conns_inv (set (d_fds ctx)) (taken (sys_of D)) (rctx D) fs (ring_owners (lring (lp (sys_of D))) + P) {#}"
    by (rule runs_obtain)
  have f: "fds_ok (set (d_fds ctx)) (rctx D)" using h by (simp add: conns_inv_def)
  have p: "pool_ok (rctx D) fs" using h by (simp add: conns_defs)
  have "in_use (sys_of D) = {} \<and> set (d_fds (rctx D)) = set (d_fds ctx)" if "active_connections (rctx D) \<le> 0"
  proof -
    have "set fs = {..<length (connections (rctx D))}"
      using p that distinct_card [of fs] by (intro card_seteq) (auto simp: pool_ok_def)
    moreover have "conn_fds (conn_at (rctx D) i) = {} \<and> state (conn_at (rctx D) i) = CONN_STATE_UNUSED" if "i \<in> set fs" for i
      using p that by (auto simp: pool_ok_def conn_fds_def)
    ultimately show ?thesis using f by (auto simp: in_use_def fds_ok_def)
  qed
  then show ?thesis using pool_cleanup_fds [OF f] returned_zero r ret unfolding daemon_runs_def by blast
qed

section \<open>Witnesses\<close>

definition wit_answer :: answer where
  "wit_answer = \<lparr>ret = 0, err = 0, aux = 0, short = 0, dt = 0\<rparr>"

definition wit_host :: "bool \<Rightarrow> host" where
  \<comment> \<open>a socket at the default path, of a process that listens or of one that has ended\<close>
  "wit_host b = \<lparr>proc = \<lparr>answers = \<lambda>_. wit_answer, calls = 0, clock = 0, c_errno = 0, open_fds = [2, 1, 0], sent_msgs = [], waits = []\<rparr>,
     names = [DEFAULT_SOCKET_PATH \<mapsto> Socket_file \<lparr>bound_by = None, seqpacket = True, listening = b\<rparr>]\<rparr>"

definition wit_endpoint :: "thread \<Rightarrow> endpoint" where
  "wit_endpoint t = \<lparr>ep = \<lparr>mfd = (if t = No_thread then -1 else 4), m_shutdown = False, m_fds = [4], sent = []\<rparr>, thr = t\<rparr>"

definition wit_inits :: "bool \<Rightarrow> init_answers" where
  "wit_inits workers_ok = \<lparr>ia_recv_contexts = True, ia_connections = True, ia_ring_params = False, ia_ring_plain = True,
     ia_curl_global = True, ia_multi = True, ia_sockets = True, ia_pool = (True, True, workers_ok),
     ia_metrics = \<lparr>sa_socket = None, sa_bind = True, sa_listen = True, sa_thread = True\<rparr>\<rparr>"

definition wit_ctx :: daemon_ctx where
  "wit_ctx = (daemon_init False)\<lparr>max_connections := 1, use_thread_pool := True\<rparr>"

lemma wit_path: "length DEFAULT_SOCKET_PATH \<le> 107" "DEFAULT_SOCKET_PATH \<noteq> []"
  by (simp_all add: DEFAULT_SOCKET_PATH_def)

lemma listener_spares_live_sockets_witness:
  "\<exists>rc s'. server_create_listener \<lparr>sctx = wit_ctx, listen_fd = -1, host = wit_host False\<rparr> = (rc, s') \<and> rc = 0
     \<and> names (host s') DEFAULT_SOCKET_PATH = Some (Socket_file \<lparr>bound_by = Some 3, seqpacket = True, listening = True\<rparr>)"
proof -
  let ?s = "\<lparr>sctx = wit_ctx, listen_fd = -1, host = wit_host False\<rparr>"
  obtain rc s' where c: "server_create_listener ?s = (rc, s')" by fastforce
  have l: "lowest_free [2, 1, 0] = 3" by (simp add: lowest_free_def upt_rec)
  have "rc = 0 \<and> listen_fd s' = 3"
    using c by (auto simp: server_create_listener_def server_check_stale_socket_def sys_stat_def h_call_def kcall_def
        file_at_def wit_host_def wit_answer_def S_ISSOCK_def h_socket_def sys_socket_def h_simple_def sys_simple_def
        sys_connect_to_def h_fail_def h_close_def sys_close_def sys_unlink_def sys_bind_def sys_listen_def l wit_ctx_def
        daemon_init_def wit_path sun_path_def forget_def Let_def)
  then show ?thesis
    using listener_spares_live_sockets [OF c] c wit_path by (auto simp: wit_ctx_def daemon_init_def)
qed

lemma second_daemon_removes_live_socket_witness:
  "\<exists>R. daemon_main False (wit_inits True) (\<lambda>R. (0, R)) (main_resources wit_ctx (wit_host True) (wit_endpoint No_thread)) = Exit 1 R
     \<and> names (host (srv R)) (socket_path wit_ctx) = None"
  by (rule second_daemon_removes_live_socket)
    (simp_all add: live_def willing_def wit_host_def wit_answer_def wit_ctx_def daemon_init_def wit_path wit_endpoint_def
      no_dangling_def all_ready_def wit_inits_def)


lemma demo_counters: "counters_in_range demo_ctx" "totals demo_ctx = [0, 0, 0, 0]" "\<not> benchmark_mode demo_ctx"
  by (simp_all add: demo_ctx_def daemon_init_def counters_in_range_def c_int_range_def totals_def)

lemma metrics_request_served_witness:
  "\<exists>p m'. handle_request demo_ctx (Some ''GET /metrics HTTP/1.1'') 9 (ep (wit_endpoint Polling)) = Some m'
     \<and> sent m' = [(9, ok_response (length p) p)] \<and> length p < 4096
     \<and> metric ''streaming_daemon_connections_max'' p = Some (dec_int (max_connections demo_ctx))"
  using metrics_request_served [OF demo_counters(1), of "Some ''GET /metrics HTTP/1.1''" 9 "ep (wit_endpoint Polling)"]
  by (auto simp: wants_metrics_def has_prefix_def m_close_def m_send_def wit_endpoint_def)

lemma exit_waits_for_metrics_client_witness:
  "\<exists>R'. daemon_cleanup False 0 ((main_resources wit_ctx (wit_host False) (wit_endpoint (Reading 9)))) = Joining R'
     \<and> names (host (srv R')) = names (wit_host False) \<and> own_step demo_ctx (endp R') = None"
  using exit_waits_for_metrics_client [of "main_resources wit_ctx (wit_host False) (wit_endpoint (Reading 9))" "wit_endpoint (Reading 9)"
      demo_ctx 9 False 0 None]
  by (auto simp: main_resources_def wit_endpoint_def)

lemma requests_accounted_witness:
  "\<exists>S. runs demo_ctx S \<and> client_fd (conn (lp S) 0) = 7
     \<and> metric (requests_total ''started'') (page (dctx (lp S))) = Some ''0''"
proof -
  obtain t S0 where "demo_reaches CONN_STATE_CLOSING 18 t S0" using demo_done by blast
  from demo_writing [OF this] obtain S where "runs demo_ctx S" "client_fd (conn (lp S) 0) = 7" by blast
  with requests_accounted [OF this(1) demo_counters(2)] demo_counters(3) show ?thesis by blast
qed

text \<open>A run in which a connection is accepted, and is still there when the time for the shutdown is over.\<close>

definition wit_accepted :: sys where
  "wit_accepted = demo_sys (demo_ctx\<lparr>connections := [demo_conn\<lparr>unix_fd := 5, state := CONN_STATE_RECEIVING_FD,
       handoff_buf := Some (map (\<lambda>_. CHR 0x00) [0..<HANDOFF_TIER1_SIZE]), handoff_cap := 4096\<rparr>], free_list := None, active_connections := 1,
       peak_connections := 1, d_fds := [5]\<rparr>)
     (demo_ring [demo_sqe (Prep_recvmsg 5) False OP_RECV_FD] [demo_sqe Prep_multishot_accept False OP_ACCEPT] 1)"

lemma wit_accept:
  "handles demo_answers \<lparr>cqe_res = 5, cqe_more = True, cqe_data = ring_pack_data OP_ACCEPT 0\<rparr>
     \<lparr>phase = Waiting, now = 0, sys_of = demo0\<rparr> Handling \<lparr>phase = Handling, now = 0, sys_of = wit_accepted\<rparr>"
proof -
  let ?s = "demo_sqe Prep_multishot_accept False OP_ACCEPT"
  have c: "demo_cqe demo0 ?s = Some (demo0\<lparr>lp := opened 5 (lp demo0)\<rparr>, \<lparr>cqe_res = 5, cqe_more = True, cqe_data = ring_pack_data OP_ACCEPT 0\<rparr>)"
    by (simp add: demo_cqe_def demo0_def demo_defs)
  have i: "?s \<in> set (inflight (lring (lp demo0)))" by (simp add: demo0_def demo_defs)
  have "process_cqe demo_answers \<lparr>cqe_res = 5, cqe_more = True, cqe_data = ring_pack_data OP_ACCEPT 0\<rparr> (opened 5 (lp demo0))
      = Some (lp wit_accepted)"
    by (simp add: wit_accepted_def demo0_def demo_defs demo_eval zero_connection_def) (simp add: HANDOFF_TIER1_SIZE_def)
  then show ?thesis
    using demo_cqe_completes [OF c i]
    by (fastforce simp: handles_def wit_accepted_def demo0_def demo_defs)
qed

lemma shutdown_closes_clients_witness:
  "\<exists>D. daemon_runs demo_ctx D \<and> d_fds (rctx D) = [5] \<and> set (d_fds (conn_pool_cleanup (rctx D))) = {}"
proof -
  define D0 where "D0 = \<lparr>phase = Waiting, now = 0, sys_of = demo0\<rparr>"
  define D1 where "D1 = \<lparr>phase = Handling, now = 0, sys_of = wit_accepted\<rparr>"
  define S where "S = wit_accepted\<lparr>lp := (lp wit_accepted)\<lparr>dctx := (dctx (lp wit_accepted))\<lparr>shutdown_requested := True\<rparr>\<rparr>\<rparr>"
  define D2 where "D2 = D1\<lparr>sys_of := S\<rparr>"
  define D3 where "D3 = submitted D2 Waiting"
  define D4 where "D4 = D3\<lparr>phase := Draining (now D3)\<rparr>"
  define D5 where "D5 = D4\<lparr>now := now D4 + 121\<rparr>"
  define D6 where "D6 = D5\<lparr>phase := Returned 0\<rparr>"
  note D = D6_def D5_def D4_def D3_def D2_def D1_def S_def submitted_def
  have z: "links_refused (sys_of D1) = 0" "links_refused (sys_of D2) = 0" "links_refused (sys_of D3) = 0"
    "links_refused (sys_of D4) = 0" "links_refused (sys_of D5) = 0" "links_refused (sys_of D6) = 0"
    by (simp_all add: D wit_accepted_def demo_defs links_refused_def ring_submit_def io_uring_submit_def)
  have c: "rctx D3 = dctx (lp S)" "rctx D5 = dctx (lp S)" "rctx D6 = dctx (lp S)" by (simp_all add: D)
  have v: "shutdown_requested (dctx (lp S))" "active_connections (dctx (lp S)) = 1"
    "shutdown_timeout_s (dctx (lp S)) = 120" "d_fds (dctx (lp S)) = [5]"
    by (simp_all add: S_def wit_accepted_def demo_defs)
  have "run_step D0 D1"
    using run_step.wake [OF _ _ wit_accept] by (simp add: D0_def D1_def demo0_def demo_defs)
  moreover have "run_step D1 D2" using run_step.other_thread [OF other_thread.stop, of D1] by (simp add: D2_def D1_def S_def)
  moreover have "run_step D2 D3" using run_step.turn [of D2] by (simp add: D3_def) (simp add: D2_def D1_def)
  moreover have "run_step D3 D4" using run_step.leave [of D3] c(1) v(1) by (simp add: D4_def) (simp add: D3_def submitted_def)
  moreover have "run_step D4 D5" using run_step.clock [of 121 D4] by (simp add: D5_def)
  moreover have "run_step D5 D6"
    using run_step.late [of D5 "now D3"] c(2) v(2,3) by (simp add: D6_def shutdown_late_def) (simp add: D5_def D4_def)
  ultimately have "run_reaches D0 D6"
    using z run_reaches.here run_reaches.onward by meson
  then have "daemon_runs demo_ctx D6"
    using demo_started unfolding daemon_runs_def by (intro exI [of _ D0]) (simp add: D0_def)
  moreover have "phase D6 = Returned 0" by (simp add: D6_def)
  ultimately show ?thesis
    using shutdown_closes_clients [of demo_ctx D6 0] v(4) c(3) by (intro exI [of _ D6]) (simp add: demo_ctx_def daemon_init_def)
qed

end
