(* ===== verification/Fd_Receiver.thy ===== *)
theory Fd_Receiver
  imports Prelude
begin

text \<open>
  The receiver for tests (src/examples/fdrecv.c): it accepts connections, takes a descriptor and data
  from each, and runs a handler with the descriptor as standard input and output. A table of descriptors
  maps each to the file it refers to, so that what the handler inherits can be told. What the calls
  answer is an argument: the message that \<open>recvmsg\<close> gives, and the outcome of \<open>fork\<close>.
\<close>

section \<open>Descriptors and messages\<close>

type_synonym fd_table = "int \<Rightarrow> nat option"

definition fd_close :: "int \<Rightarrow> fd_table \<Rightarrow> fd_table" where
  "fd_close fd t = t(fd := None)"

definition fd_dup2 :: "int \<Rightarrow> int \<Rightarrow> fd_table \<Rightarrow> fd_table" where
  "fd_dup2 a b t = (if t a = None then t else t(b := t a))"

text \<open>
  A control message carries level, type and the files that are passed; the kernel opens a descriptor for
  each file as it delivers the message. The control buffer has \<open>CMSG_SPACE(sizeof(int))\<close> bytes, 24 on
  a 64-bit machine, which leaves room for two descriptors.
\<close>

record control =
  level_type_ok :: bool \<comment> \<open>SOL_SOCKET and SCM_RIGHTS\<close>
  passed :: "(int \<times> nat) list" \<comment> \<open>the new descriptors and their files\<close>

record incoming =
  bytes :: string
  ctl :: "control option"

definition open_passed :: "incoming \<Rightarrow> fd_table \<Rightarrow> fd_table" where
  "open_passed m t = (case ctl m of None \<Rightarrow> t | Some c \<Rightarrow> fold (\<lambda>(fd, f) t. t(fd \<mapsto> f)) (passed c) t)"

definition delivers :: "incoming \<Rightarrow> fd_table \<Rightarrow> bool" where
  \<comment> \<open>what the kernel delivers: rights are at most two descriptors, which were not in use\<close>
  "delivers m t \<longleftrightarrow> (case ctl m of None \<Rightarrow> True | Some c \<Rightarrow>
     length (passed c) \<le> 2 \<and> distinct (map fst (passed c)) \<and> (level_type_ok c \<longleftrightarrow> passed c \<noteq> [])
     \<and> (\<forall>(fd, f) \<in> set (passed c). 0 \<le> fd \<and> t fd = None))"

section \<open>fdrecv.c\<close>

definition MAX_DATA_SIZE :: nat where "MAX_DATA_SIZE = 65536"

definition recv_fd :: "incoming option \<Rightarrow> nat \<Rightarrow> fd_table \<Rightarrow> int \<times> string \<times> fd_table" where
  \<comment> \<open>\<open>None\<close>: \<open>recvmsg\<close> failed. The bytes of a message that do not fit are dropped\<close>
  "recv_fd r data_len t =
     (case r of
        None \<Rightarrow> (-1, [], t)
      | Some m \<Rightarrow>
          let t1 = open_passed m t; data = take data_len (bytes m) in
          if data = [] then (-1, data, t1)
          else case ctl m of
            None \<Rightarrow> (-1, data, t1)
          | Some c \<Rightarrow> if \<not> level_type_ok c then (-1, data, t1) else (fst (hd (passed c)), data, t1))"

record child =
  table :: fd_table
  handoff_data_env :: string
  program :: "string list"

datatype fork = Fork_failed | Forked

definition handler_child :: "int \<Rightarrow> string \<Rightarrow> string list \<Rightarrow> fd_table \<Rightarrow> child" where
  \<comment> \<open>the child up to \<open>execvp\<close>: the variable ends at the first NUL byte of the data\<close>
  "handler_child fd data argv t =
     \<lparr>table = fd_close fd (fd_dup2 fd 1 (fd_dup2 fd 0 t)),
      handoff_data_env = takeWhile (\<lambda>c. c \<noteq> NUL) data, program = argv\<rparr>"

definition handle_connection :: "incoming option \<Rightarrow> fork \<Rightarrow> string list \<Rightarrow> fd_table \<Rightarrow> child option \<times> fd_table" where
  "handle_connection r f handler_argv t =
     (case recv_fd r (MAX_DATA_SIZE - 1) t of (client, data, t1) \<Rightarrow>
        if client < 0 then (None, t1)
        else case f of
          Fork_failed \<Rightarrow> (None, fd_close client t1)
        | Forked \<Rightarrow> (Some (handler_child client data handler_argv t1), fd_close client t1))"

section \<open>The loop\<close>

datatype select = Select_failed int | Select_timeout | Select_ready

record turn =
  sel :: select
  acc :: "(int \<times> nat) option" \<comment> \<open>what \<open>accept\<close> gives\<close>
  msg :: "incoming option"
  frk :: fork

definition fdrecv_turn :: "string list \<Rightarrow> turn \<Rightarrow> fd_table \<Rightarrow> bool \<times> child option \<times> fd_table" where
  \<comment> \<open>one turn of the loop; the first result: whether the loop goes on\<close>
  "fdrecv_turn argv a t =
     (case sel a of
        Select_failed e \<Rightarrow> (e = 4, None, t) \<comment> \<open>EINTR\<close>
      | Select_timeout \<Rightarrow> (True, None, t)
      | Select_ready \<Rightarrow>
          case acc a of
            None \<Rightarrow> (True, None, t)
          | Some (c, f) \<Rightarrow>
              case handle_connection (msg a) (frk a) argv (t(c \<mapsto> f)) of
                (ch, t1) \<Rightarrow> (True, ch, fd_close c t1))"

fun fdrecv_loop :: "string list \<Rightarrow> turn list \<Rightarrow> fd_table \<Rightarrow> child list \<times> fd_table" where
  \<comment> \<open>the turns until a signal clears \<open>running\<close>\<close>
  "fdrecv_loop argv [] t = ([], t)"
| "fdrecv_loop argv (a # as) t =
     (case fdrecv_turn argv a t of
        (go, ch, t1) \<Rightarrow>
          if go then (case fdrecv_loop argv as t1 of (chs, t2) \<Rightarrow> (case ch of None \<Rightarrow> chs | Some c \<Rightarrow> c # chs, t2))
          else (case ch of None \<Rightarrow> [] | Some c \<Rightarrow> [c], t1))"

record start =
  st_socket :: "(int \<times> nat) option"
  st_bind :: bool
  st_listen :: bool

definition fdrecv_main :: "start \<Rightarrow> string list \<Rightarrow> turn list \<Rightarrow> fd_table \<Rightarrow> int \<times> child list \<times> fd_table" where
  \<comment> \<open>\<open>argv\<close> with the program's name; the result is the exit status\<close>
  "fdrecv_main a argv turns t =
     (if length argv < 3 then (1, [], t)
      else case st_socket a of
        None \<Rightarrow> (1, [], t)
      | Some (server, f) \<Rightarrow>
          let t1 = t(server \<mapsto> f) in
          if \<not> st_bind a then (1, [], t1)
          else if \<not> st_listen a then (1, [], t1)
          else case fdrecv_loop (drop 2 argv) turns t1 of (chs, t2) \<Rightarrow> (0, chs, fd_close server t2))"

end
