(* ===== verification/Fd_Correctness.thy ===== *)
theory Fd_Correctness
  imports Fd_Receiver
begin








section \<open>The loop\<close>





section \<open>Properties\<close>


text \<open>What breaks the condition: a descriptor with an empty message stays open, and so does a second one.\<close>

lemma fdrecv_empty_message_leaks:
  "\<exists>t'. fdrecv_loop [''cat''] [\<lparr>sel = Select_ready, acc = Some (4, 8),
       msg = Some \<lparr>bytes = [], ctl = Some \<lparr>level_type_ok = True, passed = [(5, 9)]\<rparr>\<rparr>, frk = Forked\<rparr>]
     [0 \<mapsto> 0, 1 \<mapsto> 1, 3 \<mapsto> 3] = ([], t') \<and> t' 5 = Some 9"
  by (simp add: fdrecv_turn_def handle_connection_def recv_fd_def open_passed_def fd_close_def Let_def)




end
