(* ===== verification/Spec2Isabelle.thy ===== *)
theory Spec2Isabelle
  imports Module_Correctness Daemon_Correctness Pool_Correctness Config_Correctness Handoff_Correctness
    Loop_Correctness Api_Correctness Curl_Correctness Endpoint_Correctness Fd_Correctness
begin

text \<open>
  Verification of mod_socket_handoff.

  The program. An Apache module (src/mod_socket_handoff.c) looks for the response header
  \<open>X-Socket-Handoff\<close>. When an application sets it, the module connects to the Unix socket that the
  header names, sends the client's descriptor with SCM_RIGHTS and a JSON text to the daemon that
  listens there, and leaves a dummy socket in Apache. The daemon that is modelled is the one written in
  C (src/examples/streaming-daemon-uring/): an io_uring event loop that accepts these connections,
  parses the JSON, fetches or generates text, in worker threads or at once, and streams it to the client
  as server-sent events.

  The parts, their theories and the code.

  \<^item> Prelude: generic lemmas, the locales \<open>invariant_machine\<close>, \<open>fifo\<close> and \<open>queue\<close> with what follows from
    them, \<open>strtol\<close>, decimal text, paths. Linked_List: chains of links in a store and the locale
    \<open>link_field\<close>, interpreted for the free list, the dirty list and the work queue.
  \<^item> Kernel: what system calls answer (an arbitrary stream of answers), the descriptors that are open,
    the messages sent, the clock. Module_Config, Module_Path, Module_Transport, Module_Filter: the
    directives, the deadline, the check of the path, connecting and sending, the output filter.
  \<^item> Write_Buffer: write_buffer.c. Daemon_Types: the structures of daemon.h, a connection being a record
    in the array of the context and a pointer to it its index. Connection_Pool: connection.c. Dirty_List:
    the dirty list of daemon.c. Sse_Stream: streaming.c and the parser of event lines in curl_manager.c.
  \<^item> Work_Pool and Pool_Threads: pool.c, the critical sections as functions and the threads as a step
    relation. Daemon_Config: config.c and the command line. Json_Tokens: the tokenizer jsmn.h. Handoff:
    json.c and handoff.c.
  \<^item> Ring: ring.c. Event_Loop: the completion handlers of daemon.c in the default build.
  \<^item> Line_Buffer and Curl_Request: what both clients of the API share, reading lines from chunks and the
    text of a request. Backend_OpenAI: backend_openai.c. Curl_Manager: curl_manager.c, libcurl being a
    list of the callbacks it makes. Curl_Loop: the handlers of daemon.c in the OpenAI build, with the flush.
  \<^item> Server: server.c, with the names of the file system and the sockets at them. Metrics: metrics.c.
    Startup: \<open>main\<close> and \<open>daemon_cleanup\<close> of daemon.c with the initialisations they call. Daemon_Run:
    \<open>daemon_run\<close> with its shutdown.
  \<^item> Fd_Receiver: the receiver for tests, src/examples/fdrecv.c.

  How they interact. The filter calls the transport, the transport the kernel. In the daemon a
  completion of the ring calls a handler; a handler takes connections from the pool of connections or
  gives them back, submits operations to the ring, and hands connections to the thread pool, whose
  completions come back through an eventfd. \<open>process_cqe\<close> is that composition, and Loop_System closes it
  with the kernel (\<open>completes\<close>) and the workers to the transition system \<open>loop_step\<close>. In the OpenAI build
  the handlers also call the curl manager, whose callbacks fill the write buffers of connections and put
  these on the dirty list; \<open>flush_streaming_connections\<close> walks that list after every batch of completions.
  Curl_System is the transition system of this mode (\<open>curl_step\<close>). Daemon_Run puts the phases of \<open>daemon_run\<close>
  around the system of the default build, and Startup the start and the exit around that.

  What is shown. Each \<open>..._Correctness\<close> theory states the properties of its parts and a concrete run
  for each property that has a hypothesis.

  \<^item> Module_Correctness: the client is with the daemon or with Apache, never with both; a handoff goes
    only to a socket below the allowed prefix; no descriptor leaks on any path; the waits and the
    deadline are bounded as documented; which settings are in force.
  \<^item> Daemon_Correctness: the write buffer is a bounded first-in first-out buffer of bytes, the pool of
    connections a stack, the dirty list a queue without duplicates; what is formatted as an event is
    read back, and within its buffer.
  \<^item> Pool_Correctness: both queues keep the order, however threads and event loop interleave a connection
    is in one place only, and no work gets stuck.
  \<^item> Config_Correctness and Handoff_Correctness: the settings stay in their ranges; every flat object is
    read back exactly, and parsing stays inside the received bytes for every input.
  \<^item> Loop_Owners, Loop_Handlers, Loop_Returns, Loop_Steps and Loop_System prove the invariant of the event
    loop: every connection in use has one owner, which is an operation of the ring or a place of the
    thread pool, and the owner tells what is true of the connection (\<open>owner_ok\<close>). Loop_Correctness draws
    the conclusions: no connection is lost or served twice, no descriptor leaks, every client receives a
    prefix of its stream in order and at the end all of it, every completion is handled.
  \<^item> Backend_Stream and Api_Correctness: what the client of the blocking backend receives, on every
    behaviour of kernel, allocator and API, and that a prompt cannot break out of the request.
  \<^item> Curl_Inv, Curl_Steps, Curl_Handlers and Curl_System: requests and connections of the curl manager
    belong to each other one to one, and every operation of the manager, every handler and every step
    keeps that; no request refers to a freed connection. Curl_Flush: the walk of the dirty list.
    Curl_Stream: what the callbacks queue for a client, against the blocking backend. Curl_Proper and
    Curl_Sound: every connection with unsent bytes is on the dirty list, in every reachable state.
    Curl_Owners: each connection has at most one operation in the ring, a write of the first bytes of its
    buffer, which no callback disturbs. Curl_Clients, Curl_Mono and Curl_Histories: the runs with what each
    client has received and what the API has sent for it (\<open>client_runs\<close>), and that every handler keeps the
    stream of every client. Curl_Demo is a run of this mode, and Curl_Correctness draws the conclusions.
  \<^item> Server_Steps, Startup_Steps, Metrics_Page and Loop_Counters: what each call on names leaves alone, what
    each step of \<open>main\<close> holds when it fails, the length and the lines of a page, and the counters through
    every handler. Endpoint_Correctness: the listener spares live sockets, a failed start and the end of a
    run release everything, metrics are served within the buffers, requests are accounted for.
    Fd_Correctness: who holds a client's descriptor in the receiver for tests.

  Some theorems show where the code fails: an append can move memory the kernel reads, a buffer refuses
  too early, one connection never completes in the thread pool, a key after an array is missed, escapes
  are kept, the OpenAI build can start without a pool, a refused linked timeout frees a connection whose
  write is queued, the accept can be lost, a failed request keeps its connection for ever, the flush can
  read a freed write buffer, a second daemon removes the socket of the first, the exit can wait for a
  metrics client, and without the benchmark mode the metrics count nothing.

  Partiality and bounds. Loops that wait for the outside world (a poll restarted after signals) and
  searches in linked structures are partial functions whose \<open>None\<close> is not returning; that they return is
  proved under the hypothesis that signals stop or the kernel keeps moving, and from the shape of the lists. There is no fuel: every
  other loop is a terminating recursion. C integers are \<open>int\<close> where the code checks their range before
  use and the theorems show that nothing overflows; the packed user data of the ring is on machine words.

  The hypotheses. Of what is not in the sources the model uses what is documented: the answers of system
  calls are arbitrary, a descriptor that the kernel opens was not open before, \<open>malloc\<close> gives an address
  that is not in use, liburing's queue is full exactly when its entries are used. The theorems on the event
  loop and on the streams of clients are about the runs in which no linked timeout is refused; what happens
  otherwise is shown as well. A write is taken to write the bytes that the buffer has when it is submitted;
  append_moves_inflight_memory in Daemon_Correctness shows that an append can break that.

  Not modelled. Logging, time stamps, the set-up of signals, the limit of descriptors, and reading the
  environment where it only fills printed text. The inside of libcurl and liburing. The loop of
  \<open>daemon_run\<close> with the OpenAI build is the step relation \<open>curl_step\<close>; its shutdown phase is modelled for the
  default build only. The other example daemons are written in other languages. Header files declare what
  the sources above define.
\<close>

end
